(* ===== verification/Prelude.thy ===== *)
theory Prelude
  imports Main "HOL-Library.Word"
begin

text \<open>
  Shared vocabulary of the development: the byte and word types of the Rust sources, their
  \<open>Result\<close> type with the early return of the question mark operator, actions on a mutable
  receiver (\<open>&mut self\<close> methods that may fail half way), checked \<open>usize\<close> arithmetic, slice
  reads and overwrites, and the big- and little-endian codecs with their round trips.
\<close>

unbundle bit_operations_syntax

named_theorems result_simps \<open>evaluation of results and fallible actions\<close>
named_theorems codec_simps \<open>lengths and round trips of byte codecs\<close>

type_synonym byte = "8 word"
type_synonym u16 = "16 word"
type_synonym u32 = "32 word"
type_synonym bytes = "byte list"

section \<open>Results and actions\<close>

datatype ('e, 'a) result = is_Err: Err (the_Err: 'e) | is_Ok: Ok (the_Ok: 'a)

type_synonym ('s, 'e, 'a) act = "'s \<Rightarrow> ('e, 'a) result \<times> 's"

definition rbind :: "('e, 'a) result \<Rightarrow> ('a \<Rightarrow> ('e, 'b) result) \<Rightarrow> ('e, 'b) result" where
  "rbind m f = (case m of Err e \<Rightarrow> Err e | Ok x \<Rightarrow> f x)"

definition ok_or :: "'a option \<Rightarrow> 'e \<Rightarrow> ('e, 'a) result" where
  "ok_or m e = (case m of None \<Rightarrow> Err e | Some x \<Rightarrow> Ok x)"

definition guard :: "bool \<Rightarrow> 'e \<Rightarrow> ('e, unit) result" where
  "guard b e = (if b then Ok () else Err e)"

definition sret :: "'a \<Rightarrow> ('s, 'e, 'a) act" where
  "sret x = (\<lambda>s. (Ok x, s))"

definition sfail :: "'e \<Rightarrow> ('s, 'e, 'a) act" where
  "sfail e = (\<lambda>s. (Err e, s))"

definition sbind :: "('s, 'e, 'a) act \<Rightarrow> ('a \<Rightarrow> ('s, 'e, 'b) act) \<Rightarrow> ('s, 'e, 'b) act" where
  "sbind m f = (\<lambda>s. case m s of (Err e, t) \<Rightarrow> (Err e, t) | (Ok x, t) \<Rightarrow> f x t)"

definition slift :: "('e, 'a) result \<Rightarrow> ('s, 'e, 'a) act" where
  "slift r = (\<lambda>s. (r, s))"

definition sget :: "('s \<Rightarrow> ('e, 'a) result) \<Rightarrow> ('s, 'e, 'a) act" where
  "sget f = (\<lambda>s. (f s, s))"

definition smodify :: "('s \<Rightarrow> 's) \<Rightarrow> ('s, 'e, unit) act" where
  "smodify f = (\<lambda>s. (Ok (), f s))"

lemma rbind_simps [simp, result_simps]:
  "rbind (Err e) f = Err e"
  "rbind (Ok x) f = f x"
  by (simp_all add: rbind_def)

lemma rbind_eq_Ok: "rbind m f = Ok y \<longleftrightarrow> (\<exists>x. m = Ok x \<and> f x = Ok y)"
  by (cases m) simp_all

lemma rbind_eq_Err: "rbind m f = Err e \<longleftrightarrow> m = Err e \<or> (\<exists>x. m = Ok x \<and> f x = Err e)"
  by (cases m) auto

lemma rbind_cong [fundef_cong]:
  assumes "m = m'" and "\<And>x. m' = Ok x \<Longrightarrow> f x = f' x"
  shows "rbind m f = rbind m' f'"
  using assms by (cases m') simp_all

lemma ok_or_simps [simp, result_simps]:
  "ok_or None e = Err e"
  "ok_or (Some x) e = Ok x"
  by (simp_all add: ok_or_def)

lemma ok_or_eq_Ok [simp]: "ok_or m e = Ok x \<longleftrightarrow> m = Some x"
  by (cases m) simp_all

lemma guard_simps [simp, result_simps]:
  "guard True e = Ok ()"
  "guard False e = Err e"
  by (simp_all add: guard_def)

lemma guard_eq_Ok [simp]: "guard b e = Ok u \<longleftrightarrow> b"
  by (cases b) (simp_all add: guard_def)

lemma guard_eq_Err [simp]: "guard b e = Err e' \<longleftrightarrow> \<not> b \<and> e' = e"
  by (cases b) (auto simp: guard_def)

lemma act_simps [simp, result_simps]:
  "sret x s = (Ok x, s)"
  "sfail e s = (Err e, s)"
  "slift r s = (r, s)"
  "sget g s = (g s, s)"
  "smodify h s = (Ok (), h s)"
  by (simp_all add: sret_def sfail_def slift_def sget_def smodify_def)

lemma sbind_simps [simp, result_simps]:
  "m s = (Err e, t) \<Longrightarrow> sbind m f s = (Err e, t)"
  "m s = (Ok x, t) \<Longrightarrow> sbind m f s = f x t"
  by (simp_all add: sbind_def)

lemma sbind_eq_Ok: "sbind m f s = (Ok y, u) \<longleftrightarrow> (\<exists>x t. m s = (Ok x, t) \<and> f x t = (Ok y, u))"
  by (auto simp: sbind_def split: prod.splits result.splits)

lemma sbind_eq: "sbind m f s = (r, u) \<longleftrightarrow>
    (\<exists>e. m s = (Err e, u) \<and> r = Err e) \<or> (\<exists>x t. m s = (Ok x, t) \<and> f x t = (r, u))"
  by (auto simp: sbind_def split: prod.splits result.splits)

lemma sbind_cong [fundef_cong]:
  assumes "m s = m' s'" and "s = s'" and "\<And>x t. m' s' = (Ok x, t) \<Longrightarrow> f x t = f' x t"
  shows "sbind m f s = sbind m' f' s'"
  using assms by (auto simp: sbind_def split: prod.splits result.splits)

text \<open>An action keeps a state predicate when it holds after every outcome, errors included.\<close>

definition keeps :: "('s \<Rightarrow> bool) \<Rightarrow> ('s, 'e, 'a) act \<Rightarrow> bool" where
  "keeps P m \<longleftrightarrow> (\<forall>s. P s \<longrightarrow> P (snd (m s)))"

lemma keepsI: "(\<And>s. P s \<Longrightarrow> P (snd (m s))) \<Longrightarrow> keeps P m"
  by (simp add: keeps_def)

lemma keepsD: "keeps P m \<Longrightarrow> P s \<Longrightarrow> m s = (r, t) \<Longrightarrow> P t"
  by (auto simp: keeps_def dest: spec [of _ s])

lemma keeps_basic [intro, simp]:
  "keeps P (sret x)" "keeps P (sfail e)" "keeps P (slift r)" "keeps P (sget g)"
  by (simp_all add: keeps_def)

lemma keeps_sbind [intro]: "keeps P m \<Longrightarrow> (\<And>x. keeps P (f x)) \<Longrightarrow> keeps P (sbind m f)"
  by (fastforce simp: keeps_def sbind_def split: prod.splits result.splits)

section \<open>Checked machine arithmetic\<close>

text \<open>
  \<open>usize\<close> is 32 bits wide on the nRF52840. Sizes are natural numbers; \<open>checked_add\<close> and
  \<open>checked_mul\<close> fail exactly when the sum or product leaves the type.
\<close>

definition usize_max :: nat where
  "usize_max = 2 ^ 32 - 1"

definition checked_add :: "nat \<Rightarrow> nat \<Rightarrow> nat option" where
  "checked_add a b = (if a + b \<le> usize_max then Some (a + b) else None)"

definition checked_mul :: "nat \<Rightarrow> nat \<Rightarrow> nat option" where
  "checked_mul a b = (if a * b \<le> usize_max then Some (a * b) else None)"

definition checked_sub :: "nat \<Rightarrow> nat \<Rightarrow> nat option" where
  "checked_sub a b = (if b \<le> a then Some (a - b) else None)"

text \<open>An evaluation rule that never builds a limit of the machine as a number.\<close>

fun fits_bits :: "nat \<Rightarrow> nat \<Rightarrow> bool" where
  "fits_bits 0 n \<longleftrightarrow> n = 0"
| "fits_bits (Suc w) n \<longleftrightarrow> fits_bits w (n div 2)"

lemma fits_bits_iff: "fits_bits w n \<longleftrightarrow> n < 2 ^ w"
  by (induction w n rule: fits_bits.induct) (simp_all add: div_less_iff_less_mult mult.commute)

lemma checked_add_code [code]: "checked_add a b = (let c = a + b in if fits_bits 32 c then Some c else None)"
  by (auto simp: checked_add_def usize_max_def fits_bits_iff)

definition u16_max :: nat where "u16_max = 65535"

definition u64_max :: nat where "u64_max = 2 ^ 64 - 1"

definition checked_add_u64 :: "nat \<Rightarrow> nat \<Rightarrow> nat option" where
  "checked_add_u64 a b = (if a + b \<le> u64_max then Some (a + b) else None)"

lemma checked_eq_Some [simp]:
  "checked_add a b = Some c \<longleftrightarrow> a + b \<le> usize_max \<and> c = a + b"
  "checked_mul a b = Some c \<longleftrightarrow> a * b \<le> usize_max \<and> c = a * b"
  "checked_sub a b = Some c \<longleftrightarrow> b \<le> a \<and> c = a - b"
  "checked_add_u64 a b = Some c \<longleftrightarrow> a + b \<le> u64_max \<and> c = a + b"
  by (auto simp: checked_add_def checked_mul_def checked_sub_def checked_add_u64_def)

section \<open>Slices\<close>

definition slice_of :: "'a list \<Rightarrow> nat \<Rightarrow> nat \<Rightarrow> 'a list" where
  "slice_of xs a b = take (b - a) (drop a xs)"

text \<open>\<open>xs.get(a..b)\<close>: \<open>None\<close> when the range leaves the slice.\<close>

definition get_range :: "'a list \<Rightarrow> nat \<Rightarrow> nat \<Rightarrow> 'a list option" where
  "get_range xs a b = (if a \<le> b \<and> b \<le> length xs then Some (slice_of xs a b) else None)"

definition get_at :: "'a list \<Rightarrow> nat \<Rightarrow> 'a option" where
  "get_at xs i = (if i < length xs then Some (xs ! i) else None)"

text \<open>\<open>xs[at..at + ys.len()].copy_from_slice(ys)\<close>, for a range inside \<open>xs\<close>.\<close>

definition overwrite :: "'a list \<Rightarrow> nat \<Rightarrow> 'a list \<Rightarrow> 'a list" where
  "overwrite xs at ys = take at xs @ ys @ drop (at + length ys) xs"

lemma length_slice_of [simp]: "b \<le> length xs \<Longrightarrow> length (slice_of xs a b) = b - a"
  by (simp add: slice_of_def)

lemma nth_slice_of [simp]: "b \<le> length xs \<Longrightarrow> i < b - a \<Longrightarrow> slice_of xs a b ! i = xs ! (a + i)"
  by (simp add: slice_of_def)

lemma slice_of_full [simp]: "slice_of xs 0 (length xs) = xs"
  by (simp add: slice_of_def)

lemma slice_of_empty [simp]: "slice_of xs a a = []"
  by (simp add: slice_of_def)

lemma get_range_eq_Some [simp]:
  "get_range xs a b = Some ys \<longleftrightarrow> a \<le> b \<and> b \<le> length xs \<and> ys = slice_of xs a b"
  by (auto simp: get_range_def)

lemma get_at_eq_Some [simp]: "get_at xs i = Some x \<longleftrightarrow> i < length xs \<and> x = xs ! i"
  by (auto simp: get_at_def)

lemma length_overwrite [simp]: "at + length ys \<le> length xs \<Longrightarrow> length (overwrite xs at ys) = length xs"
  by (simp add: overwrite_def)

lemma nth_overwrite:
  assumes "at + length ys \<le> length xs" and "i < length xs"
  shows "overwrite xs at ys ! i = (if at \<le> i \<and> i < at + length ys then ys ! (i - at) else xs ! i)"
  using assms by (auto simp: overwrite_def nth_append min_def)

lemma overwrite_Nil [simp]: "overwrite xs at [] = xs"
  by (simp add: overwrite_def)

lemma overwrite_slice_of:
  "at + n \<le> length xs \<Longrightarrow> overwrite xs at (slice_of xs at (at + n)) = xs"
  by (rule nth_equalityI) (auto simp: nth_overwrite)

lemma slice_of_overwrite:
  assumes "at + length ys \<le> length xs"
  shows "slice_of (overwrite xs at ys) at (at + length ys) = ys"
  using assms by (intro nth_equalityI) (auto simp: nth_overwrite)

lemma slice_of_eqI:
  assumes "\<And>i. a \<le> i \<Longrightarrow> i < b \<Longrightarrow> xs ! i = ys ! i" and "b \<le> length xs" and "b \<le> length ys"
  shows "slice_of xs a b = slice_of ys a b"
  using assms by (intro nth_equalityI) simp_all

lemma slice_of_overwrite_disjoint:
  assumes "at + length ys \<le> length xs" "b \<le> length xs" "b \<le> at \<or> at + length ys \<le> a"
  shows "slice_of (overwrite xs at ys) a b = slice_of xs a b"
  using assms by (intro slice_of_eqI) (auto simp: nth_overwrite)

section \<open>Indexed cells\<close>

text \<open>
  Storage addressed by an index. Bulk moves written as loops over single updates are described
  once, for every storage that obeys the two laws.
\<close>

locale cell_array =
  fixes get :: "'s \<Rightarrow> nat \<Rightarrow> 'c" and put :: "nat \<Rightarrow> 'c \<Rightarrow> 's \<Rightarrow> 's" and size :: "'s \<Rightarrow> nat"
  assumes size_put [simp]: "size (put i c s) = size s"
    and get_put: "i < size s \<Longrightarrow> j < size s \<Longrightarrow> get (put i c s) j = (if j = i then c else get s j)"
begin

lemma size_fold [simp]: "size (fold (\<lambda>x s. put (g x s) (h x s) s) xs s) = size s"
  by (induction xs arbitrary: s) simp_all

lemma get_run:
  assumes "base + n \<le> size s" and "j < size s"
  shows "get (fold (\<lambda>k. put (base + k) (c k)) [0..<n] s) j
    = (if base \<le> j \<and> j < base + n then c (j - base) else get s j)"
  using assms by (induction n) (auto simp: get_put less_Suc_eq)

lemma get_shift_up:
  assumes "b + n \<le> size s" and "j < size s" and "0 < n"
  shows "get (fold (\<lambda>k s. put (k + n) (get s k) s) (rev [a..<b]) s) j
    = (if a + n \<le> j \<and> j < b + n then get s (j - n) else get s j)"
  using assms
proof (induction b arbitrary: s)
  case (Suc b)
  show ?case
  proof (cases "a \<le> b")
    case True
    let ?s = "put (b + n) (get s b) s"
    have "get (fold (\<lambda>k s. put (k + n) (get s k) s) (rev [a..<Suc b]) s) j
        = (if a + n \<le> j \<and> j < b + n then get ?s (j - n) else get ?s j)"
      using Suc.IH [of ?s] Suc.prems True by simp
    then show ?thesis
      using Suc.prems True by (auto simp: get_put)
  qed auto
qed auto

lemma get_shift_down:
  assumes "b < size s" and "j < size s"
  shows "get (fold (\<lambda>k s. put k (get s (k + 1)) s) [a..<b] s) j
    = (if a \<le> j \<and> j < b then get s (j + 1) else get s j)"
  using assms
proof (induction b arbitrary: j)
  case (Suc b)
  then show ?case
    by (cases "a \<le> b") (auto simp: get_put)
qed simp

end

interpretation list_cells: cell_array "(!)" "\<lambda>i c xs. xs[i := c]" length
  by unfold_locales (auto simp: nth_list_update)

lemma upt_offset: "map ((+) k) [a..<b] = [k + a..<k + b]"
  by (rule nth_equalityI) simp_all

lemma fold_cong_inv:
  assumes "P s" and "\<And>x s. x \<in> set xs \<Longrightarrow> P s \<Longrightarrow> F x s = G x s \<and> P (G x s)"
  shows "fold F xs s = fold G xs s \<and> P (fold G xs s)"
  using assms by (induction xs arbitrary: s) simp_all

section \<open>Byte codecs\<close>

text \<open>\<open>to_le_bytes\<close> and \<open>to_be_bytes\<close> of an \<open>n\<close>-byte unsigned value, and their inverses.\<close>

primrec le_bytes :: "nat \<Rightarrow> nat \<Rightarrow> bytes" where
  "le_bytes 0 v = []"
| "le_bytes (Suc n) v = word_of_nat v # le_bytes n (v div 256)"

primrec le_value :: "bytes \<Rightarrow> nat" where
  "le_value [] = 0"
| "le_value (b # bs) = unat b + 256 * le_value bs"

definition be_bytes :: "nat \<Rightarrow> nat \<Rightarrow> bytes" where
  "be_bytes n v = rev (le_bytes n v)"

definition be_value :: "bytes \<Rightarrow> nat" where
  "be_value bs = le_value (rev bs)"

lemma unat_word_of_nat_byte: "unat (word_of_nat v :: byte) = v mod 256"
  by (simp add: unat_of_nat)

lemma unat_byte_less [simp]: "unat (b :: byte) < 256"
  using unsigned_less [of b] by simp

lemma unat_byte_le [simp]: "unat (b :: byte) \<le> 255"
  using unat_byte_less [of b] by linarith

lemma word_of_nat_byte_eq: "word_of_nat (unat (b :: byte) + 256 * v) = b"
  by (simp add: word_unat_eq_iff unat_word_of_nat_byte del: of_nat_add of_nat_mult)

lemma length_le_bytes [simp, codec_simps]: "length (le_bytes n v) = n"
  by (induction n arbitrary: v) simp_all

lemma length_be_bytes [simp, codec_simps]: "length (be_bytes n v) = n"
  by (simp add: be_bytes_def)

lemma le_value_less: "le_value bs < 256 ^ length bs"
proof (induction bs)
  case (Cons b bs)
  have "unat b + 256 * le_value bs \<le> 255 + 256 * le_value bs"
    using unat_byte_less [of b] by linarith
  also have "\<dots> < 256 * 256 ^ length bs"
    using Cons.IH by linarith
  finally show ?case by simp
qed simp

lemma le_value_le_bytes: "le_value (le_bytes n v) = v mod 256 ^ n"
proof (induction n arbitrary: v)
  case (Suc n)
  have "v mod 256 ^ Suc n = v mod 256 + 256 * (v div 256 mod 256 ^ n)"
    by (simp add: mod_mult2_eq)
  with Suc show ?case by (simp add: unat_word_of_nat_byte)
qed simp

lemma le_bytes_le_value [simp, codec_simps]: "le_bytes (length bs) (le_value bs) = bs"
proof (induction bs)
  case (Cons b bs)
  have "(unat b + 256 * le_value bs) div 256 = le_value bs"
    by simp
  with Cons show ?case by (simp add: word_of_nat_byte_eq del: of_nat_add of_nat_mult)
qed simp

lemma le_value_le_bytes_id [simp, codec_simps]: "v < 256 ^ n \<Longrightarrow> le_value (le_bytes n v) = v"
  by (simp add: le_value_le_bytes)

lemma be_value_less: "be_value bs < 256 ^ length bs"
  using le_value_less [of "rev bs"] by (simp add: be_value_def)

lemma be_value_be_bytes [simp, codec_simps]: "v < 256 ^ n \<Longrightarrow> be_value (be_bytes n v) = v"
  by (simp add: be_value_def be_bytes_def)

lemma be_bytes_be_value [simp, codec_simps]: "be_bytes (length bs) (be_value bs) = bs"
  using le_bytes_le_value [of "rev bs"] by (simp add: be_value_def be_bytes_def)

lemma le_value_append: "le_value (xs @ ys) = le_value xs + 256 ^ length xs * le_value ys"
  by (induction xs) (simp_all add: algebra_simps)

lemma be_value_Cons: "be_value (b # bs) = unat b * 256 ^ length bs + be_value bs"
  by (simp add: be_value_def le_value_append algebra_simps)

lemma unat_u16_less [simp]: "unat (w :: u16) < 65536"
  using unsigned_less [of w] by simp

lemma unat_ucast_byte_u16 [simp]: "unat (ucast (b :: byte) :: u16) = unat b"
  by (simp add: unsigned_ucast_eq take_bit_eq_mod mod_less [OF less_trans [OF unat_byte_less]])

lemma unat_ucast_u16_byte [simp]: "unat (ucast (w :: u16) :: byte) = unat w mod 256"
  by (simp add: unsigned_ucast_eq take_bit_eq_mod)

lemma unat_word_of_nat_u16: "unat (word_of_nat v :: u16) = v mod 65536"
  by (simp add: unat_of_nat)

text \<open>Two's complement views of a byte and of a halfword: the \<open>as i8\<close> and \<open>as i16\<close> casts.\<close>

definition sint8 :: "byte \<Rightarrow> int" where "sint8 b = sint b"

lemma sint8_bounds: "- 128 \<le> sint8 b \<and> sint8 b < 128"
  using sint_greater_eq [of b] sint_less [of b] by (simp add: sint8_def)

lemma byte_bit_7: "bit (b :: byte) 7 \<longleftrightarrow> 128 \<le> unat b"
proof -
  have "bit b 7 \<longleftrightarrow> bit (unat b) 7"
    by (simp add: bit_unsigned_iff)
  also have "\<dots> \<longleftrightarrow> odd (unat b div 128)"
    by (simp add: bit_iff_odd)
  also have "unat b div 128 = (if 128 \<le> unat b then 1 else 0)"
    using unat_byte_less [of b] by (auto intro!: div_nat_eqI)
  finally show ?thesis by simp
qed

lemma byte_and_128: "(b :: byte) AND 128 = 0 \<longleftrightarrow> unat b < 128"
proof -
  have "(128 :: byte) = push_bit 7 1" by simp
  then show ?thesis
    using byte_bit_7 [of b] by (metis bit_iff_and_push_bit_not_eq_0 not_le)
qed

lemma sint_byte: "sint (b :: byte) = (if unat b < 128 then int (unat b) else int (unat b) - 256)"
proof -
  have "sint b = (if bit b 7 then uint b - 256 else uint b)"
    using uint_bounded [of b]
    by (auto simp: sint_uint signed_take_bit_eq_take_bit_minus bit_uint_iff take_bit_int_eq_self)
  then show ?thesis
    by (auto simp: byte_bit_7)
qed

end
