(* ===== verification/Core_Error.thy ===== *)
theory Core_Error
  imports Prelude
begin

text \<open>
  The error enumeration of \<open>microcard-core\<close> (\<open>src/crates/microcard-core/src/lib.rs\<close>) and the
  result type every fallible operation of that crate returns. Heap allocation belongs to the
  embedding firmware: an operation that reserves memory takes the allocator's answer for the
  requested number of elements as an argument of type \<open>alloc\<close>.
\<close>

datatype error =
    Format | Bounds | Unsupported | Signature | Domain | KeyMismatch | Rollback | Busy | Quota
  | Unauthorized | Missing | Budget | Stack | Arithmetic | Native | Storage | IncompatibleState
  | Authentication | Cancelled

type_synonym 'a res = "(error, 'a) result"
type_synonym alloc = "nat \<Rightarrow> bool"

text \<open>\<open>try_reserve_exact(n).map_err(|_| Error::Quota)\<close>.\<close>

definition try_reserve :: "alloc \<Rightarrow> nat \<Rightarrow> unit res" where
  "try_reserve alloc n = guard (alloc n) Quota"

lemma try_reserve_eq_Ok [simp]: "try_reserve alloc n = Ok u \<longleftrightarrow> alloc n"
  by (simp add: try_reserve_def)

lemma try_reserve_eq_Err [simp]: "try_reserve alloc n = Err e \<longleftrightarrow> \<not> alloc n \<and> e = Quota"
  by (simp add: try_reserve_def)

end
