(* ===== verification/Apdu.thy ===== *)
theory Apdu
  imports Core_Error
begin

text \<open>
  Short command APDUs (\<open>src/crates/microcard-core/src/apdu.rs\<close>): the four short cases of
  ISO/IEC 7816-4, parsed from a transport buffer and encoded into caller-owned storage.
  Byte strings that parse are exactly the encodings of well-formed commands.
\<close>

record command =
  cla :: byte
  ins :: byte
  p1 :: byte
  p2 :: byte
  data :: bytes
  le :: "u16 option"

text \<open>The closure \<open>le\<close> of \<open>Command::parse\<close>.\<close>

definition le_octet :: "byte \<Rightarrow> u16" where
  "le_octet x = (if x = 0 then 256 else ucast x)"

definition parse :: "bytes \<Rightarrow> command res" where
  "parse b =
     (if length b < 4 \<or> length b > 261 then Err Format
      else let c = \<lparr>cla = b ! 0, ins = b ! 1, p1 = b ! 2, p2 = b ! 3, data = [], le = None\<rparr> in
        if length b = 4 then Ok c
        else if length b = 5 then Ok (c\<lparr>le := Some (le_octet (b ! 4))\<rparr>)
        else let n = unat (b ! 4) in
          if n = 0 \<or> \<not> (length b = 5 + n \<or> length b = 6 + n) then Err Format
          else let c = c\<lparr>data := slice_of b 5 (5 + n)\<rparr> in
            if length b = 6 + n then Ok (c\<lparr>le := Some (le_octet (b ! (5 + n)))\<rparr>) else Ok c)"

definition encoded_len :: "command \<Rightarrow> nat res" where
  "encoded_len c =
     (if length (data c) > 255 \<or> (case le c of None \<Rightarrow> False | Some x \<Rightarrow> x = 0 \<or> x > 256) then Err Bounds
      else ok_or
        (Option.bind (checked_add 4 (if data c \<noteq> [] then 1 else 0)) (\<lambda>n.
         Option.bind (checked_add n (length (data c))) (\<lambda>n.
         checked_add n (if le c \<noteq> None then 1 else 0)))) Bounds)"

text \<open>
  \<open>encode_into\<close> returns the encoded prefix of the buffer; the second component is the whole
  buffer afterwards.
\<close>

definition encode_into :: "command \<Rightarrow> bytes \<Rightarrow> bytes res \<times> bytes" where
  "encode_into c output =
     (case encoded_len c of
        Err e \<Rightarrow> (Err e, output)
      | Ok n \<Rightarrow>
          if n > length output then (Err Bounds, output)
          else
            let out = overwrite output 0 [cla c, ins c, p1 c, p2 c];
                at = 4;
                (out, at) = (if data c \<noteq> [] then
                    (overwrite (out[at := word_of_nat (length (data c))]) (at + 1) (data c),
                     at + 1 + length (data c))
                  else (out, at));
                out = (case le c of Some x \<Rightarrow> out[at := ucast x] | None \<Rightarrow> out)
            in (Ok (take n out), out))"

definition encode :: "alloc \<Rightarrow> command \<Rightarrow> bytes res" where
  "encode alloc c =
     rbind (encoded_len c) (\<lambda>capacity.
     rbind (try_reserve alloc capacity) (\<lambda>_.
     case encode_into c (replicate capacity 0) of
       (Err e, _) \<Rightarrow> Err e
     | (Ok _, b) \<Rightarrow> Ok b))"

section \<open>Well-formed commands and their byte strings\<close>

definition wf_command :: "command \<Rightarrow> bool" where
  "wf_command c \<longleftrightarrow> length (data c) \<le> 255 \<and> (\<forall>x. le c = Some x \<longrightarrow> 0 < x \<and> x \<le> 256)"

definition wire :: "command \<Rightarrow> bytes" where
  "wire c = [cla c, ins c, p1 c, p2 c]
     @ (if data c = [] then [] else word_of_nat (length (data c)) # data c)
     @ (case le c of None \<Rightarrow> [] | Some x \<Rightarrow> [ucast x])"

lemma encoded_len_eq: "encoded_len c = (if wf_command c then Ok (length (wire c)) else Err Bounds)"
proof (cases "le c")
  case None
  then show ?thesis
    by (auto simp: encoded_len_def wf_command_def wire_def checked_add_def usize_max_def)
next
  case (Some x)
  then show ?thesis
    by (auto simp: encoded_len_def wf_command_def wire_def checked_add_def usize_max_def
        word_neq_0_conv not_le)
qed

lemma list_update_overwrite: "i < length xs \<Longrightarrow> xs[i := y] = overwrite xs i [y]"
  by (simp add: overwrite_def upd_conv_take_nth_drop)

lemma overwrite_append:
  assumes "n = length ys" and "length ys + length zs \<le> length xs"
  shows "overwrite (overwrite xs 0 ys) n zs = overwrite xs 0 (ys @ zs)"
  using assms by (intro nth_equalityI) (auto simp: nth_overwrite nth_append)

lemma take_overwrite: "length ys \<le> length xs \<Longrightarrow> take (length ys) (overwrite xs 0 ys) = ys"
  by (simp add: overwrite_def)

lemma encode_into_eq:
  assumes "wf_command c" and "length (wire c) \<le> length output"
  shows "encode_into c output = (Ok (wire c), overwrite output 0 (wire c))"
proof -
  define h where "h = [cla c, ins c, p1 c, p2 c]"
  define d where "d = (if data c = [] then [] else word_of_nat (length (data c)) # data c)"
  define l where "l = (case le c of None \<Rightarrow> [] | Some x \<Rightarrow> [ucast x :: byte])"
  have w: "wire c = h @ d @ l"
    by (simp add: wire_def h_def d_def l_def)
  have h4: "length h = 4"
    by (simp add: h_def)
  have fits: "4 + length d + length l \<le> length output"
    using assms(2) by (simp add: w h4)
  have body: "(if data c \<noteq> [] then
        (overwrite ((overwrite output 0 h)[4 := word_of_nat (length (data c))]) (4 + 1) (data c),
         4 + 1 + length (data c))
      else (overwrite output 0 h, 4)) = (overwrite output 0 (h @ d), 4 + length d)"
  proof (cases "data c = []")
    case False
    then have d: "d = word_of_nat (length (data c)) # data c"
      by (simp add: d_def)
    have "(overwrite output 0 h)[4 := word_of_nat (length (data c))]
        = overwrite output 0 (h @ [word_of_nat (length (data c))])"
      using fits by (simp add: d list_update_overwrite overwrite_append h4)
    then show ?thesis
      using fits False by (simp add: d overwrite_append h4)
  qed (simp add: d_def)
  have trail: "(case le c of Some x \<Rightarrow> (overwrite output 0 (h @ d))[4 + length d := ucast x]
      | None \<Rightarrow> overwrite output 0 (h @ d)) = overwrite output 0 (wire c)"
    using fits by (cases "le c") (simp_all add: l_def list_update_overwrite overwrite_append h4 w)
  show ?thesis
    using assms body trail
    by (simp add: encode_into_def encoded_len_eq h_def [symmetric] take_overwrite Let_def)
qed

lemma encode_eq:
  "encode alloc c =
     (if \<not> wf_command c then Err Bounds
      else if alloc (length (wire c)) then Ok (wire c) else Err Quota)"
  by (simp add: encode_def encoded_len_eq encode_into_eq try_reserve_def guard_def overwrite_def)

section \<open>Parsing inverts encoding\<close>

lemma unat_le_octet: "unat (le_octet x) = (if x = 0 then 256 else unat x)"
  by (simp add: le_octet_def)

lemma le_octet_bounds: "0 < le_octet x \<and> le_octet x \<le> 256"
  using unat_byte_less [of x]
  by (auto simp: less_imp_le word_less_nat_alt word_le_nat_alt unat_le_octet unat_gt_0)

lemma ucast_le_octet: "(ucast (le_octet x) :: byte) = x"
  by (simp add: word_unat_eq_iff unat_le_octet)

lemma le_octet_ucast:
  assumes "0 < x" and "x \<le> 256"
  shows "le_octet (ucast x) = x"
proof -
  have n: "0 < unat x" "unat x \<le> 256"
    using assms by (simp_all add: word_less_nat_alt word_le_nat_alt)
  show ?thesis
  proof (cases "unat x = 256")
    case True
    then have "x = 256"
      by (simp add: word_unat_eq_iff)
    then show ?thesis
      by (simp add: le_octet_def)
  next
    case False
    with n show ?thesis
      by (auto simp: word_unat_eq_iff unat_le_octet)
  qed
qed

lemma parse_wire:
  assumes "wf_command c"
  shows "parse (wire c) = Ok c"
proof -
  have lens: "length (data c) \<le> 255"
    using assms by (simp add: wf_command_def)
  then have u: "unat (word_of_nat (length (data c)) :: byte) = length (data c)"
    by (simp add: unat_word_of_nat_byte)
  have le: "le_octet (ucast x) = x" if "le c = Some x" for x
    using assms that by (simp add: wf_command_def le_octet_ucast)
  show ?thesis
    using lens u le
    by (cases c; cases "le c")
       (auto simp: parse_def wire_def slice_of_def nth_append Let_def)
qed

lemma list4:
  assumes "4 \<le> length b"
  obtains w x y z r where "b = w # x # y # z # r"
  using assms by (auto simp: numeral_eq_Suc Suc_le_length_iff)

lemma wire_parse:
  assumes "parse b = Ok c"
  shows "wf_command c \<and> wire c = b"
proof -
  have "4 \<le> length b" and len: "length b \<le> 261"
    using assms by (auto simp: parse_def split: if_splits)
  from \<open>4 \<le> length b\<close> obtain w x y z r where b: "b = w # x # y # z # r"
    by (rule list4)
  consider "r = []" | l where "r = [l]" | l m r' where "r = l # m # r'"
    by (metis list.exhaust)
  then show ?thesis
  proof cases
    case 3
    let ?n = "unat l"
    have n: "?n \<noteq> 0" "length (m # r') = ?n \<or> length (m # r') = Suc ?n"
      using assms unfolding b 3 by (auto simp: parse_def Let_def split: if_splits)
    have l: "word_of_nat ?n = l"
      by simp
    show ?thesis
    proof (cases "length (m # r') = ?n")
      case True
      have "c = \<lparr>cla = w, ins = x, p1 = y, p2 = z, data = m # r', le = None\<rparr>"
        using assms n True unfolding b 3 by (auto simp: parse_def Let_def slice_of_def split: if_splits)
      then show ?thesis
        using True unfolding b 3 by (auto simp: wf_command_def wire_def)
    next
      case False
      with n have len': "length (m # r') = Suc ?n" by simp
      then have last: "m # r' = take ?n (m # r') @ [(m # r') ! ?n]"
        by (metis lessI take_Suc_conv_app_nth take_all_iff order_refl)
      have "c = \<lparr>cla = w, ins = x, p1 = y, p2 = z, data = take ?n (m # r'),
          le = Some (le_octet ((m # r') ! ?n))\<rparr>"
        using assms n False unfolding b 3 by (auto simp: parse_def Let_def slice_of_def split: if_splits)
      then show ?thesis
        using len' last n(1) le_octet_bounds unfolding b 3
        by (auto simp: wf_command_def wire_def ucast_le_octet)
    qed
  qed (use assms le_octet_bounds in
      \<open>auto simp: b parse_def wf_command_def wire_def ucast_le_octet Let_def split: if_splits\<close>)
qed

section \<open>Properties\<close>

text \<open>
  C9 (parse_iff_encode). A byte string parses to a command exactly when it is that command's
  encoding: parsing and encoding are mutually inverse, every other byte string is refused, and
  a command whose fields are out of range has no encoding.
\<close>

theorem parse_iff_encode: "parse b = Ok c \<longleftrightarrow> encode (\<lambda>_. True) c = Ok b"
  using parse_wire [of c] wire_parse [of b c] by (auto simp: encode_eq)

text \<open>
  Encoding into a caller's buffer writes exactly the encoded prefix and
  nothing behind it; a command out of range or a buffer that is too short is refused with the
  buffer untouched.
\<close>

theorem encode_into_exact:
  "encode_into c out =
     (if wf_command c \<and> length (wire c) \<le> length out
      then (Ok (wire c), wire c @ drop (length (wire c)) out)
      else (Err Bounds, out))"
proof (cases "wf_command c \<and> length (wire c) \<le> length out")
  case True
  then show ?thesis
    by (simp add: encode_into_eq overwrite_def)
next
  case False
  then show ?thesis
    by (auto simp: encode_into_def encoded_len_eq)
qed

end
