(* ===== verification/Tlv.thy ===== *)
theory Tlv
  imports Core_Error
begin

text \<open>
  Definite-length TLV primitives (\<open>src/crates/microcard-core/src/tlv.rs\<close>): the minimal length
  octets, the bounded object reader with offsets relative to its input, and the DER canonical
  forms of the primitive universal types.
\<close>

text \<open>\<open>length\<close>: the decoded length and the number of length octets.\<close>

definition tlv_length :: "bytes \<Rightarrow> (nat \<times> nat) option" where
  "tlv_length input =
     Option.bind (get_at input 0) (\<lambda>first.
       if first \<le> 0x7f then Some (unat first, 1)
       else if first = 0x81 then
         Option.bind (get_at input 1) (\<lambda>b1.
           let v = unat b1 in if v \<ge> 128 then Some (v, 2) else None)
       else if first = 0x82 then
         Option.bind (get_at input 1) (\<lambda>b1.
         Option.bind (get_at input 2) (\<lambda>b2.
           let v = be_value [b1, b2] in if v \<ge> 256 then Some (v, 3) else None))
       else None)"

text \<open>The subidentifier scan of an object identifier, the loop of tag 6.\<close>

fun oid_scan :: "bool \<Rightarrow> bytes \<Rightarrow> bool" where
  "oid_scan first [] = first"
| "oid_scan first (b # bs) = (if first \<and> b = 128 then False else oid_scan (b AND 128 = 0) bs)"

definition canonical_value :: "int \<Rightarrow> bytes \<Rightarrow> bool" where
  "canonical_value tag v =
     (if tag = 1 then v = [0] \<or> v = [255]
      else if tag = 2 then
        (case v of
           [] \<Rightarrow> False
         | first # second # _ \<Rightarrow>
             \<not> (first = 0 \<and> second AND 128 = 0 \<or> first = 255 \<and> second AND 128 \<noteq> 0)
         | _ \<Rightarrow> True)
      else if tag = 3 then
        (case v of
           [] \<Rightarrow> False
         | unused # rest \<Rightarrow>
             unused \<le> 7 \<and>
             (unused = 0 \<or> rest \<noteq> [] \<and> last v AND (push_bit (unat unused) 1 - 1) = 0))
      else if tag = 5 then v = []
      else if tag = 6 then v \<noteq> [] \<and> oid_scan True v
      else True)"

text \<open>The tag of an object: its value and the number of tag octets, one to three.\<close>

definition read_tag :: "bytes \<Rightarrow> (int \<times> nat) option" where
  "read_tag input =
     Option.bind (get_at input 0) (\<lambda>first.
       if first = 0 then None
       else if first AND 31 = 31 then
         Option.bind (get_at input 1) (\<lambda>next.
           if next AND 127 = 0 then None
           else let tag = push_bit 8 (uint first) OR uint next in
             if next AND 128 \<noteq> 0 then
               Option.bind (get_at input 2) (\<lambda>last.
                 if last AND 128 \<noteq> 0 then None
                 else Some (push_bit 8 tag OR uint last, 3))
             else if next < 31 then None
             else Some (tag, 2))
       else Some (uint first, 1))"

definition der_tag_ok :: "byte \<Rightarrow> bool" where
  "der_tag_ok first =
     (let number = first AND 31 in
      \<not> (number = 0 \<or> (1 \<le> number \<and> number \<le> 6 \<and> first AND 32 \<noteq> 0)
        \<or> ((number = 16 \<or> number = 17) \<and> first AND 32 = 0)))"

text \<open>\<open>read\<close>: the tag, the value offset twice, the value size and the end of the object.\<close>

definition tlv_read :: "bytes \<Rightarrow> bool \<Rightarrow> (int \<times> nat \<times> nat \<times> nat \<times> nat) option" where
  "tlv_read input der =
     Option.bind (read_tag input) (\<lambda>(tag, cursor).
       if der \<and> cursor = 1 \<and> input ! 0 AND 0xc0 = 0 \<and> \<not> der_tag_ok (input ! 0) then None
       else Option.bind (get_range input cursor (length input)) (\<lambda>rest.
         Option.bind (tlv_length rest) (\<lambda>(size, octets).
           let cursor = cursor + octets in
           Option.bind (checked_add cursor size) (\<lambda>end.
           Option.bind (get_range input cursor end) (\<lambda>value.
             if der \<and> \<not> canonical_value tag value then None
             else Some (tag, cursor, cursor, size, end))))))"

section \<open>Length octets\<close>

text \<open>The minimal length octets of a size below 65536.\<close>

definition length_octets :: "nat \<Rightarrow> bytes" where
  "length_octets v =
     (if v < 128 then [word_of_nat v]
      else if v < 256 then [0x81, word_of_nat v]
      else 0x82 # be_bytes 2 v)"

lemma be_value_2: "be_value [a, b] = 256 * unat a + unat b"
  by (simp add: be_value_def)

lemma byte_eq_0: "unat (b :: byte) = 0 \<longleftrightarrow> b = 0"
  by (simp add: word_unat_eq_iff)

lemma byte_eq_255: "unat (b :: byte) = 255 \<longleftrightarrow> b = 255"
  by (simp add: word_unat_eq_iff)

lemma byte_le_7f: "(b :: byte) \<le> 0x7f \<longleftrightarrow> unat b < 128"
  by (simp add: word_le_nat_alt) arith

lemma tlv_length_length_octets:
  assumes "v \<le> 65535"
  shows "tlv_length (length_octets v @ r) = Some (v, length (length_octets v))"
proof -
  have "be_value (be_bytes 2 v) = v"
    using assms by simp
  moreover obtain a b where "be_bytes 2 v = [a, b]"
    by (simp add: be_bytes_def numeral_2_eq_2)
  ultimately show ?thesis
    using assms
    by (auto simp: tlv_length_def length_octets_def byte_le_7f unat_word_of_nat_byte get_at_def)
qed

lemma tlv_length_Some:
  assumes "tlv_length input = Some (v, k)"
  shows "v \<le> 65535 \<and> k = length (length_octets v) \<and> (\<exists>r. input = length_octets v @ r)"
proof -
  obtain first r where input: "input = first # r"
    using assms by (cases input) (auto simp: tlv_length_def get_at_def)
  consider (short) "unat first < 128" "v = unat first" "k = 1"
    | (one) b where "first = 0x81" "r \<noteq> []" "b = hd r" "v = unat b" "128 \<le> v" "k = 2"
    | (two) b c where "first = 0x82" "2 \<le> length r" "b = r ! 0" "c = r ! 1" "v = be_value [b, c]" "256 \<le> v" "k = 3"
    using assms unfolding input tlv_length_def
    by (cases r; cases "tl r") (auto simp: byte_le_7f get_at_def Let_def split: if_splits)
  then show ?thesis
  proof cases
    case short
    then show ?thesis by (simp add: input length_octets_def)
  next
    case one
    then show ?thesis
      using unat_byte_less [of b] by (cases r) (auto simp: input length_octets_def simp del: unat_byte_less)
  next
    case two
    then obtain r' where r: "r = b # c # r'"
      by (cases r; cases "tl r") auto
    have "be_value [b, c] < 65536"
      using be_value_less [of "[b, c]"] by simp
    moreover have "length [b, c] = 2"
      by simp
    then have "be_bytes 2 v = [b, c]"
      using be_bytes_be_value [of "[b, c]"] two(5) by metis
    moreover have "input = (0x82 # [b, c]) @ r'"
      using input two(1) by (simp add: r)
    moreover have "v = be_value [b, c]" "256 \<le> v" "k = 3"
      using two(5-7) .
    ultimately show ?thesis
      by (simp add: length_octets_def del: be_bytes_be_value)
  qed
qed

section \<open>Objects\<close>

lemma get_at_append: "get_at xs i = Some x \<Longrightarrow> get_at (xs @ ys) i = Some x"
  by (simp add: nth_append)

lemma get_at_take: "get_at xs i = Some x \<Longrightarrow> i < n \<Longrightarrow> get_at (take n xs) i = Some x"
  by simp

lemma read_tag_bounds: "read_tag xs = Some (t, c) \<Longrightarrow> 1 \<le> c \<and> c \<le> 3 \<and> c \<le> length xs"
  by (auto simp: read_tag_def Suc_le_eq Let_def bind_eq_Some_conv split: if_splits)

lemma read_tag_append: "read_tag xs = Some r \<Longrightarrow> read_tag (xs @ ys) = Some r"
  by (auto simp: read_tag_def Let_def bind_eq_Some_conv nth_append split: if_splits)

lemma read_tag_take: "read_tag xs = Some (t, c) \<Longrightarrow> c \<le> n \<Longrightarrow> read_tag (take n xs) = Some (t, c)"
  by (auto simp: read_tag_def Let_def bind_eq_Some_conv split: if_splits)

lemma tlv_length_append: "tlv_length xs = Some r \<Longrightarrow> tlv_length (xs @ ys) = Some r"
  by (auto simp: tlv_length_def Let_def bind_eq_Some_conv nth_append split: if_splits)

lemma tlv_length_take: "tlv_length xs = Some (v, k) \<Longrightarrow> k \<le> n \<Longrightarrow> tlv_length (take n xs) = Some (v, k)"
  by (auto simp: tlv_length_def Let_def bind_eq_Some_conv split: if_splits)

lemma tlv_read_iff:
  "tlv_read xs der = Some (t, p, q, n, e) \<longleftrightarrow>
     (\<exists>c k. read_tag xs = Some (t, c) \<and> tlv_length (drop c xs) = Some (n, k)
        \<and> \<not> (der \<and> c = 1 \<and> xs ! 0 AND 0xc0 = 0 \<and> \<not> der_tag_ok (xs ! 0))
        \<and> p = c + k \<and> q = p \<and> e = p + n \<and> e \<le> usize_max \<and> e \<le> length xs
        \<and> \<not> (der \<and> \<not> canonical_value t (slice_of xs p e)))"
proof -
  have "slice_of xs c (length xs) = drop c xs" for c
    by (simp add: slice_of_def)
  then show ?thesis
    by (auto simp: tlv_read_def bind_eq_Some_conv Let_def dest: read_tag_bounds split: if_splits)
qed

lemma tlv_read_append:
  assumes "tlv_read xs der = Some r"
  shows "tlv_read (xs @ ys) der = Some r"
proof (cases r)
  case (fields t p q n e)
  from assms obtain c k where *: "read_tag xs = Some (t, c)" "tlv_length (drop c xs) = Some (n, k)"
    "\<not> (der \<and> c = 1 \<and> xs ! 0 AND 0xc0 = 0 \<and> \<not> der_tag_ok (xs ! 0))"
    "p = c + k" "q = p" "e = p + n" "e \<le> usize_max" "e \<le> length xs"
    "\<not> (der \<and> \<not> canonical_value t (slice_of xs p e))"
    unfolding fields tlv_read_iff by blast
  have "c \<le> length xs" "xs \<noteq> []"
    using read_tag_bounds [OF *(1)] by auto
  moreover have "slice_of (xs @ ys) p e = slice_of xs p e"
    using *(6,8) by (intro slice_of_eqI) (auto simp: nth_append)
  ultimately show ?thesis
    using * read_tag_append [OF *(1), of ys] tlv_length_append [OF *(2), of ys]
    unfolding fields tlv_read_iff by (intro exI [of _ c] exI [of _ k]) (auto simp: nth_append)
qed

lemma tlv_read_take:
  assumes "tlv_read xs der = Some (t, p, q, n, e)"
  shows "tlv_read (take e xs) der = Some (t, p, q, n, e)"
proof -
  from assms obtain c k where *: "read_tag xs = Some (t, c)" "tlv_length (drop c xs) = Some (n, k)"
    "\<not> (der \<and> c = 1 \<and> xs ! 0 AND 0xc0 = 0 \<and> \<not> der_tag_ok (xs ! 0))"
    "p = c + k" "q = p" "e = p + n" "e \<le> usize_max" "e \<le> length xs"
    "\<not> (der \<and> \<not> canonical_value t (slice_of xs p e))"
    unfolding tlv_read_iff by blast
  have "1 \<le> c"
    using read_tag_bounds [OF *(1)] by simp
  moreover have "slice_of (take e xs) p e = slice_of xs p e"
    using *(6,8) by (intro slice_of_eqI) auto
  moreover have "tlv_length (drop c (take e xs)) = Some (n, k)"
    using tlv_length_take [OF *(2), of "e - c"] *(4,6) by (simp add: drop_take)
  ultimately show ?thesis
    using * read_tag_take [OF *(1), of e] unfolding tlv_read_iff
    by (intro exI [of _ c] exI [of _ k]) auto
qed

section \<open>Canonical integers\<close>

text \<open>The two's complement value of the content octets of an INTEGER.\<close>

definition int_value :: "bytes \<Rightarrow> int" where
  "int_value v = (if v = [] then 0 else sint (hd v) * 256 ^ length (tl v) + int (be_value (tl v)))"

lemma be_value_tl_bounds: "0 \<le> int (be_value v) \<and> int (be_value v) < 256 ^ length v"
  using be_value_less [of v] by (metis of_nat_0_le_iff of_nat_less_iff of_nat_numeral of_nat_power)

lemma int_value_range:
  assumes "v \<noteq> []"
  shows "- 128 * 256 ^ (length v - 1) \<le> int_value v \<and> int_value v < 128 * 256 ^ (length v - 1)"
proof -
  obtain f r where v: "v = f # r"
    using assms by (cases v) auto
  define P :: int where "P = 256 ^ length r"
  have P: "0 < P" by (simp add: P_def)
  have "- 128 \<le> sint f" "sint f \<le> 127"
    using sint8_bounds [of f] by (simp_all add: sint8_def)
  then have "- 128 * P \<le> sint f * P" "sint f * P \<le> 127 * P"
    using P mult_right_mono [of "- 128" "sint f" P] mult_right_mono [of "sint f" 127 P] by simp_all
  moreover have "int_value v = sint f * P + int (be_value r)" "256 ^ (length v - 1) = P"
    by (simp_all add: v int_value_def P_def)
  moreover have "0 \<le> int (be_value r)" "int (be_value r) < P"
    using be_value_tl_bounds [of r] by (simp_all add: P_def)
  ultimately show ?thesis by linarith
qed

text \<open>A canonical INTEGER of two or more octets does not fit in fewer octets.\<close>

lemma canonical_int_wide:
  assumes "canonical_value 2 v" and "2 \<le> length v"
  shows "int_value v \<ge> 128 * 256 ^ (length v - 2) \<or> int_value v < - 128 * 256 ^ (length v - 2)"
proof -
  obtain f s r where v: "v = f # s # r"
    using assms(2) by (cases v; cases "tl v") auto
  define P :: int where "P = 256 ^ length r"
  have P: "0 < P" by (simp add: P_def)
  have r: "0 \<le> int (be_value r)" "int (be_value r) < P"
    using be_value_tl_bounds [of r] by (simp_all add: P_def)
  have tail: "int (be_value (s # r)) = int (unat s) * P + int (be_value r)"
    by (simp add: be_value_Cons P_def)
  have val: "int_value v = sint f * (256 * P) + (int (unat s) * P + int (be_value r))"
    using tail by (simp add: v int_value_def P_def algebra_simps)
  have len: "256 ^ (length v - 2) = P"
    by (simp add: v P_def)
  have top: "\<not> (unat f = 0 \<and> unat s < 128)" "\<not> (unat f = 255 \<and> 128 \<le> unat s)"
    using assms(1) by (auto simp: v canonical_value_def byte_and_128 byte_eq_0 byte_eq_255)
  have mid: "unat f = 0 \<or> unat f = 255 \<or> 1 \<le> sint f \<or> sint f \<le> - 2"
    using unat_byte_less [of f] unfolding sint_byte by (cases "unat f < 128") (simp_all only: if_True if_False, linarith+)
  consider "unat f = 0" "128 \<le> unat s" | "1 \<le> sint f" | "unat f = 255" "unat s < 128" | "sint f \<le> - 2"
    using top mid by linarith
  then show ?thesis
  proof cases
    case 1
    have "128 * P \<le> int (unat s) * P"
      using 1(2) P by (intro mult_right_mono) linarith+
    moreover have f: "sint f = 0"
      using 1(1) by (simp add: sint_byte)
    ultimately show ?thesis
      using r unfolding val len f by linarith
  next
    case 2
    have "1 * (256 * P) \<le> sint f * (256 * P)"
      using 2 P by (intro mult_right_mono) auto
    moreover have "0 \<le> int (unat s) * P"
      using P by simp
    ultimately show ?thesis
      using r P unfolding val len by linarith
  next
    case 3
    have "int (unat s) * P \<le> 127 * P"
      using 3(2) P by (intro mult_right_mono) linarith+
    moreover have f: "sint f = - 1"
      using 3(1) by (simp add: byte_eq_255)
    ultimately show ?thesis
      using r unfolding val len f by linarith
  next
    case 4
    have "sint f * (256 * P) \<le> - 2 * (256 * P)"
      using 4 P by (intro mult_right_mono) auto
    moreover have "int (unat s) * P \<le> 255 * P"
      using P unat_byte_le [of s] by (intro mult_right_mono) linarith+
    ultimately show ?thesis
      using r P unfolding val len by linarith
  qed
qed

lemma canonical_int_shortest:
  assumes "canonical_value 2 v" and "w \<noteq> []" and "int_value w = int_value v"
  shows "length v \<le> length w"
proof (rule ccontr)
  assume "\<not> length v \<le> length w"
  then have len: "2 \<le> length v" "length w - 1 \<le> length v - 2"
    using assms(2) by (cases w; auto)+
  have "(256 :: int) ^ (length w - 1) \<le> 256 ^ (length v - 2)"
    using len(2) by (intro power_increasing) auto
  then show False
    using canonical_int_wide [OF assms(1) len(1)] int_value_range [OF assms(2)] assms(3) by linarith
qed

lemma int_value_inj:
  assumes "w \<noteq> []" and "length w = length v" and "int_value w = int_value v"
  shows "w = v"
proof -
  obtain f r g q where w: "w = f # r" and v: "v = g # q"
    using assms(1,2) by (cases w; cases v) auto
  have len: "length r = length q"
    using assms(2) by (simp add: w v)
  define P :: int where "P = 256 ^ length r"
  have P: "0 < P" by (simp add: P_def)
  have b: "0 \<le> int (be_value r)" "int (be_value r) < P" "0 \<le> int (be_value q)" "int (be_value q) < P"
    using be_value_tl_bounds [of r] be_value_tl_bounds [of q] len by (simp_all add: P_def)
  have eq: "sint f * P + int (be_value r) = sint g * P + int (be_value q)"
    using assms(3) by (simp add: w v int_value_def P_def len)
  have "sint f = (sint f * P + int (be_value r)) div P" "sint g = (sint g * P + int (be_value q)) div P"
    using b P by simp_all
  then have "sint f = sint g"
    unfolding eq by simp
  with eq have "be_value r = be_value q" by simp
  then have "be_bytes (length r) (be_value r) = be_bytes (length q) (be_value q)"
    by (simp add: len)
  moreover have "f = g"
    using \<open>sint f = sint g\<close> by (rule signed_word_eqI)
  ultimately show ?thesis
    by (simp add: w v)
qed

section \<open>Properties\<close>

text \<open>
  The length decoder accepts exactly the minimal length octets of sizes up
  to 65535 and consumes exactly them: every accepted size has one encoding.
\<close>

theorem tlv_length_iff:
  "tlv_length input = Some (v, k) \<longleftrightarrow>
     v \<le> 65535 \<and> k = length (length_octets v) \<and> (\<exists>r. input = length_octets v @ r)"
  using tlv_length_Some tlv_length_length_octets by blast

text \<open>
  C33 (tlv_read_self_delimiting). An object the reader accepts lies inside the input, its value
  ends where the object ends, the result depends on nothing behind that end, and every proper
  prefix of the object is refused.
\<close>

theorem tlv_read_self_delimiting:
  assumes "tlv_read input der = Some (tag, start, start', sz, fin)"
  shows "start' = start \<and> fin = start + sz \<and> 2 \<le> start \<and> fin \<le> length input
    \<and> (\<forall>r. tlv_read (take fin input @ r) der = Some (tag, start, start', sz, fin))
    \<and> (\<forall>k < fin. tlv_read (take k input) der = None)"
proof (intro conjI allI impI)
  show "start' = start" "fin = start + sz" "fin \<le> length input"
    using assms unfolding tlv_read_iff by auto
  show "2 \<le> start"
    using assms unfolding tlv_read_iff
    by (auto dest!: read_tag_bounds tlv_length_Some simp: length_octets_def split: if_splits)
  show "tlv_read (take fin input @ r) der = Some (tag, start, start', sz, fin)" for r
    by (rule tlv_read_append [OF tlv_read_take [OF assms]])
  show "tlv_read (take k input) der = None" if k: "k < fin" for k
  proof (rule ccontr)
    assume "tlv_read (take k input) der \<noteq> None"
    then obtain x where x: "tlv_read (take k input) der = Some x"
      by blast
    then have "x = (tag, start, start', sz, fin)"
      using tlv_read_append [OF x, of "drop k input"] assms by simp
    with x have "fin \<le> length (take k input)"
      by (auto simp: tlv_read_iff)
    with k show False by simp
  qed
qed

theorem tlv_read_self_delimiting_witness:
  "tlv_read [0x04, 0x01, 0xaa, 0x00] True = Some (4, 2, 2, 1, 3)
   \<and> tlv_read (take 3 [0x04, 0x01, 0xaa, 0x00] @ [0x99]) True = Some (4, 2, 2, 1, 3)
   \<and> tlv_read (take 2 [0x04, 0x01, 0xaa, 0x00]) True = None"
proof -
  have h: "tlv_read [0x04, 0x01, 0xaa, 0x00] True = Some (4, 2, 2, 1, 3)"
    by (simp add: tlv_read_def read_tag_def tlv_length_def get_at_def get_range_def slice_of_def
        checked_add_def usize_max_def canonical_value_def der_tag_ok_def)
  note w = tlv_read_self_delimiting [OF h]
  have 1: "\<forall>r. tlv_read (take 3 [0x04, 0x01, 0xaa, 0x00] @ r) True = Some (4, 2, 2, 1, 3)"
    using w by blast
  have 2: "\<forall>k < 3. tlv_read (take k [0x04, 0x01, 0xaa, 0x00]) True = None"
    using w by blast
  show ?thesis
    using h spec [OF 1, of "[0x99]"] spec [OF 2, of 2] by simp
qed

text \<open>
  The INTEGER content octets the DER check accepts are the
  shortest two's complement encoding of their value, and two accepted encodings of the same
  value are equal.
\<close>

theorem canonical_integer_unique:
  assumes "canonical_value 2 v" and "w \<noteq> []" and "int_value w = int_value v"
  shows "length v \<le> length w \<and> (canonical_value 2 w \<longrightarrow> w = v)"
proof (intro conjI impI)
  show "length v \<le> length w"
    by (rule canonical_int_shortest [OF assms])
  assume w: "canonical_value 2 w"
  have v: "v \<noteq> []"
    using assms(1) by (auto simp: canonical_value_def)
  show "w = v"
    using canonical_int_shortest [OF w v] canonical_int_shortest [OF assms] assms(2,3) v
    by (intro int_value_inj) simp_all
qed

theorem canonical_integer_unique_witness:
  "canonical_value 2 [0xff, 0x7f] \<and> int_value [0xff, 0xff, 0x7f] = int_value [0xff, 0x7f]
   \<and> length [0xff, 0x7f :: byte] \<le> length [0xff, 0xff, 0x7f :: byte]"
proof -
  have h: "canonical_value 2 [0xff, 0x7f]" "int_value [0xff, 0xff, 0x7f] = int_value [0xff, 0x7f]"
    by (simp_all add: canonical_value_def int_value_def be_value_def)
  show ?thesis
    using h canonical_integer_unique [OF h(1) _ h(2)] by simp
qed

end
