(* ===== verification/Cbor.thy ===== *)
theory Cbor
  imports Core_Error
begin

text \<open>
  Restricted deterministic CBOR (\<open>src/crates/microcard-core/src/cbor.rs\<close>): the growable bounded
  encoder, the slice encoder for nested records of known length, and the decoder, whose state is
  the input that remains. The codec locale states what the clients of this module rely on: the
  decoder accepts exactly the preferred encodings and consumes exactly them.
\<close>

section \<open>Argument heads\<close>

definition argument_size :: "nat \<Rightarrow> nat" where
  "argument_size v =
     (if v \<le> 23 then 1 else if v \<le> 255 then 2 else if v \<le> 65535 then 3
      else if v \<le> 4294967295 then 5 else 9)"

definition argument_bytes :: "byte \<Rightarrow> nat \<Rightarrow> bytes \<times> nat" where
  "argument_bytes major v =
     (let n = argument_size v - 1;
          additional = (if n = 0 then word_of_nat v else if n = 1 then 24 else if n = 2 then 25
                        else if n = 4 then 26 else 27 :: byte);
          header = (replicate 9 0)[0 := push_bit 5 major OR additional]
      in (overwrite header 1 (drop (8 - n) (be_bytes 8 v)), 1 + n))"

definition head :: "byte \<Rightarrow> nat \<Rightarrow> bytes" where
  "head major v = (case argument_bytes major v of (h, n) \<Rightarrow> take n h)"

section \<open>Encoder\<close>

record encoder =
  ebytes :: bytes
  emax :: nat
  ecap :: nat

type_synonym 'a enc = "(encoder, error, 'a) act"

definition enc_new :: "nat \<Rightarrow> encoder" where
  "enc_new maximum = \<lparr>ebytes = [], emax = maximum, ecap = 0\<rparr>"

definition enc_with_capacity :: "alloc \<Rightarrow> nat \<Rightarrow> nat \<Rightarrow> encoder res" where
  "enc_with_capacity alloc maximum capacity =
     (let n = min capacity maximum in
      rbind (try_reserve alloc n) (\<lambda>_. Ok ((enc_new maximum)\<lparr>ecap := n\<rparr>)))"

definition enc_reserve :: "alloc \<Rightarrow> nat \<Rightarrow> unit enc" where
  "enc_reserve alloc additional = (\<lambda>e.
     if additional > emax e - length (ebytes e) then (Err Quota, e)
     else let needed = length (ebytes e) + additional in
       if needed > ecap e then
         let capacity = min (max needed (min (ecap e * 2) usize_max)) (emax e) in
         if alloc capacity then (Ok (), e\<lparr>ecap := capacity\<rparr>) else (Err Quota, e)
       else (Ok (), e))"

definition enc_append :: "alloc \<Rightarrow> bytes \<Rightarrow> unit enc" where
  "enc_append alloc bs =
     sbind (enc_reserve alloc (length bs)) (\<lambda>_. smodify (\<lambda>e. e\<lparr>ebytes := ebytes e @ bs\<rparr>))"

definition enc_argument :: "alloc \<Rightarrow> byte \<Rightarrow> nat \<Rightarrow> unit enc" where
  "enc_argument alloc major v = enc_append alloc (head major v)"

definition enc_unsigned :: "alloc \<Rightarrow> nat \<Rightarrow> unit enc" where
  "enc_unsigned alloc v = enc_argument alloc 0 v"

definition enc_integer :: "alloc \<Rightarrow> int \<Rightarrow> unit enc" where
  "enc_integer alloc v =
     (if v \<ge> 0 then enc_argument alloc 0 (nat v) else enc_argument alloc 1 (nat (- 1 - v)))"

definition enc_array :: "alloc \<Rightarrow> nat \<Rightarrow> unit enc" where
  "enc_array alloc n = enc_argument alloc 4 n"

definition enc_bytes :: "alloc \<Rightarrow> bytes \<Rightarrow> unit enc" where
  "enc_bytes alloc bs = sbind (enc_argument alloc 2 (length bs)) (\<lambda>_. enc_append alloc bs)"

definition enc_bytes_header :: "alloc \<Rightarrow> nat \<Rightarrow> unit enc" where
  "enc_bytes_header alloc n = enc_argument alloc 2 n"

text \<open>
  \<open>bytes_with\<close>: the caller's closure fills the zeroed field in place; \<open>fill\<close> returns the filled
  field or an error with whatever it had written.
\<close>

definition enc_bytes_with :: "alloc \<Rightarrow> nat \<Rightarrow> (bytes \<Rightarrow> unit res \<times> bytes) \<Rightarrow> unit enc" where
  "enc_bytes_with alloc n fill = (\<lambda>e.
     let original = length (ebytes e);
         body = sbind (enc_argument alloc 2 n) (\<lambda>_.
                sbind (enc_reserve alloc n) (\<lambda>_.
                (\<lambda>e. case fill (replicate n 0) of
                   (r, field) \<Rightarrow> (r, e\<lparr>ebytes := ebytes e @ field\<rparr>))))
     in case body e of
          (Ok u, e') \<Rightarrow> (Ok u, e')
        | (Err x, e') \<Rightarrow> (Err x, e'\<lparr>ebytes := take original (ebytes e')\<rparr>))"

definition enc_text :: "alloc \<Rightarrow> bytes \<Rightarrow> unit enc" where
  "enc_text alloc t = sbind (enc_argument alloc 3 (length t)) (\<lambda>_. enc_append alloc t)"

definition enc_boolean :: "alloc \<Rightarrow> bool \<Rightarrow> unit enc" where
  "enc_boolean alloc v = enc_append alloc [if v then 0xf5 else 0xf4]"

definition enc_null :: "alloc \<Rightarrow> unit enc" where
  "enc_null alloc = enc_append alloc [0xf6]"

definition enc_finish :: "encoder \<Rightarrow> bytes" where
  "enc_finish e = ebytes e"

section \<open>Slice encoder\<close>

record slice_encoder =
  sout :: bytes
  sat :: nat

type_synonym 'a senc = "(slice_encoder, error, 'a) act"

definition senc_new :: "bytes \<Rightarrow> slice_encoder" where
  "senc_new output = \<lparr>sout = output, sat = 0\<rparr>"

definition senc_append :: "bytes \<Rightarrow> unit senc" where
  "senc_append bs = (\<lambda>e.
     case checked_add (sat e) (length bs) of
       None \<Rightarrow> (Err Quota, e)
     | Some end \<Rightarrow>
         if end \<le> length (sout e)
         then (Ok (), e\<lparr>sout := overwrite (sout e) (sat e) bs, sat := end\<rparr>)
         else (Err Quota, e))"

definition senc_argument :: "byte \<Rightarrow> nat \<Rightarrow> unit senc" where
  "senc_argument major v = senc_append (head major v)"

definition senc_array :: "nat \<Rightarrow> unit senc" where
  "senc_array n = senc_argument 4 n"

definition senc_unsigned :: "nat \<Rightarrow> unit senc" where
  "senc_unsigned v = senc_argument 0 v"

definition senc_bytes_with :: "nat \<Rightarrow> (bytes \<Rightarrow> unit res \<times> bytes) \<Rightarrow> unit senc" where
  "senc_bytes_with n fill = (\<lambda>e.
     case Option.bind (checked_add (sat e) (argument_size n)) (\<lambda>at. checked_add at n) of
       None \<Rightarrow> (Err Quota, e)
     | Some end \<Rightarrow>
         if end > length (sout e) then (Err Quota, e)
         else sbind (senc_argument 2 n) (\<lambda>_ e.
           let start = sat e in
           case fill (slice_of (sout e) start (start + n)) of
             (r, field) \<Rightarrow> (r, e\<lparr>sout := overwrite (sout e) start field, sat := start + n\<rparr>)) e)"

definition senc_finish :: "slice_encoder \<Rightarrow> unit res" where
  "senc_finish e = (if sat e = length (sout e) then Ok () else Err Format)"

section \<open>UTF-8\<close>

text \<open>\<open>core::str::from_utf8\<close>: well-formed UTF-8 by the table of the Unicode standard.\<close>

definition continuation :: "byte \<Rightarrow> bool" where
  "continuation b \<longleftrightarrow> 0x80 \<le> b \<and> b \<le> 0xbf"

fun utf8_ok :: "bytes \<Rightarrow> bool" where
  "utf8_ok [] = True"
| "utf8_ok (a # r) =
     (if a \<le> 0x7f then utf8_ok r
      else case r of
        [] \<Rightarrow> False
      | b # r' \<Rightarrow>
          if 0xc2 \<le> a \<and> a \<le> 0xdf then continuation b \<and> utf8_ok r'
          else case r' of
            [] \<Rightarrow> False
          | c # r'' \<Rightarrow>
              if 0xe0 \<le> a \<and> a \<le> 0xef then
                (if a = 0xe0 then 0xa0 \<le> b \<and> b \<le> 0xbf
                 else if a = 0xed then 0x80 \<le> b \<and> b \<le> 0x9f
                 else continuation b) \<and> continuation c \<and> utf8_ok r''
              else case r'' of
                [] \<Rightarrow> False
              | d # r''' \<Rightarrow>
                  0xf0 \<le> a \<and> a \<le> 0xf4
                  \<and> (if a = 0xf0 then 0x90 \<le> b \<and> b \<le> 0xbf
                     else if a = 0xf4 then 0x80 \<le> b \<and> b \<le> 0x8f
                     else continuation b)
                  \<and> continuation c \<and> continuation d \<and> utf8_ok r''')"

section \<open>Decoder\<close>

type_synonym 'a dec = "(bytes, error, 'a) act"

definition dec_take :: "nat \<Rightarrow> bytes dec" where
  "dec_take n = (\<lambda>remaining.
     if n \<le> length remaining then (Ok (take n remaining), drop n remaining)
     else (Err Format, remaining))"

definition dec_argument :: "byte \<Rightarrow> nat dec" where
  "dec_argument major =
     sbind (dec_take 1) (\<lambda>b.
       let initial = b ! 0 in
       if drop_bit 5 initial \<noteq> major then sfail Format
       else let extra = initial AND 31 in
         if extra \<le> 23 then sret (unat extra)
         else if extra > 27 then sfail Format
         else let (n, minimum) = (if extra = 24 then (1, 24) else if extra = 25 then (2, 256)
                                  else if extra = 26 then (4, 65536) else (8, 4294967296)) in
           sbind (dec_take n) (\<lambda>bs.
             let v = be_value bs in
             if v < minimum then sfail Format else sret v))"

definition dec_unsigned :: "nat dec" where
  "dec_unsigned = dec_argument 0"

text \<open>\<open>number::<T>\<close>: a value that fits \<open>T\<close>, whose largest value is \<open>limit\<close>.\<close>

definition dec_number :: "nat \<Rightarrow> nat dec" where
  "dec_number limit = sbind dec_unsigned (\<lambda>v. if v \<le> limit then sret v else sfail Format)"

definition i64_max :: nat where "i64_max = 2 ^ 63 - 1"

definition dec_integer :: "int dec" where
  "dec_integer = (\<lambda>remaining.
     case remaining of
       [] \<Rightarrow> (Err Format, remaining)
     | b # _ \<Rightarrow>
         let major = drop_bit 5 b in
         if major > 1 then (Err Format, remaining)
         else sbind (dec_argument major) (\<lambda>v.
           if v \<le> i64_max then sret (if major = 0 then int v else - 1 - int v)
           else sfail Format) remaining)"

definition dec_length :: "byte \<Rightarrow> nat \<Rightarrow> nat dec" where
  "dec_length major maximum =
     sbind (dec_argument major) (\<lambda>n.
       if n > usize_max then sfail Format else if n > maximum then sfail Format else sret n)"

definition dec_array :: "nat \<Rightarrow> nat dec" where
  "dec_array maximum = dec_length 4 maximum"

definition dec_record :: "nat \<Rightarrow> unit dec" where
  "dec_record count = sbind (dec_array count) (\<lambda>n. if n \<noteq> count then sfail Format else sret ())"

definition dec_bytes :: "nat \<Rightarrow> bytes dec" where
  "dec_bytes maximum = sbind (dec_length 2 maximum) dec_take"

definition dec_fixed :: "nat \<Rightarrow> bytes dec" where
  "dec_fixed n = sbind (dec_bytes n) (\<lambda>b. if length b = n then sret b else sfail Format)"

definition dec_text :: "nat \<Rightarrow> bytes dec" where
  "dec_text maximum =
     sbind (dec_length 3 maximum) (\<lambda>n.
     sbind (dec_take n) (\<lambda>t. if utf8_ok t then sret t else sfail Format))"

definition dec_owned_text :: "alloc \<Rightarrow> nat \<Rightarrow> bytes dec" where
  "dec_owned_text alloc maximum =
     sbind (dec_text maximum) (\<lambda>t. sbind (slift (try_reserve alloc (length t))) (\<lambda>_. sret t))"

definition dec_boolean :: "bool dec" where
  "dec_boolean =
     sbind (dec_take 1) (\<lambda>b.
       if b ! 0 = 0xf4 then sret False else if b ! 0 = 0xf5 then sret True else sfail Format)"

definition dec_null :: "bytes \<Rightarrow> bool \<times> bytes" where
  "dec_null remaining = (case remaining of b # r \<Rightarrow> if b = 0xf6 then (True, r) else (False, remaining)
     | [] \<Rightarrow> (False, remaining))"

definition dec_finish :: "bytes \<Rightarrow> unit res" where
  "dec_finish remaining = (if remaining = [] then Ok () else Err Format)"

section \<open>Heads and their bytes\<close>

lemma push_or_nat: "y < 32 \<Longrightarrow> push_bit 5 x OR y = 32 * x + (y :: nat)"
proof -
  assume "y < 32"
  then have y: "y = take_bit 5 y"
    by (simp add: take_bit_nat_eq_self)
  have "push_bit 5 x + take_bit 5 y = push_bit 5 x OR take_bit 5 y"
    by (rule disjunctive_add) (auto simp: bit_simps)
  then show ?thesis
    using y by (simp add: push_bit_eq_mult)
qed

lemma unat_head_byte:
  assumes "unat (m :: byte) < 8" and "unat (a :: byte) < 32"
  shows "unat (push_bit 5 m OR a) = 32 * unat m + unat a"
proof -
  have "unat (push_bit 5 m) = 32 * unat m"
    using assms(1) by (simp add: push_bit_eq_mult unat_word_ariths)
  then have "unat (push_bit 5 m OR a) = push_bit 5 (unat m) OR unat a"
    by (simp add: unsigned_or_eq push_bit_eq_mult mult.commute)
  then show ?thesis
    using push_or_nat [OF assms(2)] by simp
qed

lemma unat_byte_drop_5: "unat (drop_bit 5 (b :: byte)) = unat b div 32"
  by (simp add: drop_bit_eq_div unat_div)

lemma unat_byte_and_31: "unat ((b :: byte) AND 31) = unat b mod 32"
proof -
  have "(31 :: byte) = mask 5" by (simp add: mask_eq_exp_minus_1)
  then have "b AND 31 = take_bit 5 b" by (simp only: take_bit_eq_mask)
  then show ?thesis by (simp add: take_bit_eq_mod unat_mod)
qed

text \<open>The head of a value, as the specification writes it.\<close>

definition additional :: "nat \<Rightarrow> nat" where
  "additional v = (if v \<le> 23 then v else if v \<le> 255 then 24 else if v \<le> 65535 then 25
     else if v \<le> 4294967295 then 26 else 27)"

definition argument_octets :: "nat \<Rightarrow> nat" where
  "argument_octets v = argument_size v - 1"

lemma argument_octets_cases:
  "argument_octets v = 0 \<and> v \<le> 23 \<or> argument_octets v = 1 \<and> 24 \<le> v \<and> v \<le> 255
   \<or> argument_octets v = 2 \<and> 256 \<le> v \<and> v \<le> 65535 \<or> argument_octets v = 4 \<and> 65536 \<le> v \<and> v \<le> 4294967295
   \<or> argument_octets v = 8 \<and> 4294967296 \<le> v"
  by (simp add: argument_octets_def argument_size_def)

lemma take_le_bytes: "n \<le> m \<Longrightarrow> take n (le_bytes m v) = le_bytes n v"
proof (induction n arbitrary: m v)
  case (Suc n)
  then show ?case by (cases m) simp_all
qed simp

lemma drop_be_bytes: "n \<le> m \<Longrightarrow> drop (m - n) (be_bytes m v) = be_bytes n v"
  using rev_take [of n "le_bytes m v"] by (simp add: be_bytes_def take_le_bytes)

lemma take_overwrite_head:
  "length ys = n \<Longrightarrow> take (1 + n) (overwrite ((replicate 9 0)[0 := x]) 1 ys) = x # ys"
  by (simp add: overwrite_def eval_nat_numeral)

lemma head_eq:
  "head m v = (push_bit 5 m OR word_of_nat (additional v)) # be_bytes (argument_octets v) v"
proof -
  have n: "argument_octets v \<le> 8"
    using argument_octets_cases [of v] by auto
  have add: "(if argument_octets v = 0 then word_of_nat v else if argument_octets v = 1 then 24
      else if argument_octets v = 2 then 25 else if argument_octets v = 4 then 26 else 27)
      = (word_of_nat (additional v) :: byte)"
    using argument_octets_cases [of v] by (auto simp: additional_def)
  show ?thesis
    using take_overwrite_head [of "be_bytes (argument_octets v) v" "argument_octets v"] n
    unfolding head_def argument_bytes_def argument_octets_def [symmetric] Let_def prod.case add
    by (simp only: drop_be_bytes length_be_bytes)
qed

lemma length_head: "length (head m v) = argument_size v"
  by (auto simp: head_eq argument_octets_def argument_size_def)

lemma additional_less: "additional v < 28"
  by (simp add: additional_def)

lemma head_byte:
  assumes "unat m < 8"
  shows "drop_bit 5 (head m v ! 0) = m" and "unat (head m v ! 0 AND 31) = additional v"
proof -
  have u: "unat (word_of_nat (additional v) :: byte) = additional v"
    using additional_less [of v] by (simp add: unat_word_of_nat_byte)
  have h: "unat (head m v ! 0) = 32 * unat m + additional v"
    using unat_head_byte [OF assms, of "word_of_nat (additional v)"] u additional_less [of v]
    by (simp add: head_eq)
  show "drop_bit 5 (head m v ! 0) = m"
    using additional_less [of v] by (simp add: word_unat_eq_iff unat_byte_drop_5 h)
  show "unat (head m v ! 0 AND 31) = additional v"
    using additional_less [of v] by (simp add: unat_byte_and_31 h)
qed

section \<open>The decoder accepts exactly the preferred heads\<close>

lemma dec_take_append [simp]: "length xs = n \<Longrightarrow> dec_take n (xs @ r) = (Ok xs, r)"
  by (simp add: dec_take_def)

lemma dec_take_eq_Ok: "dec_take n bs = (Ok xs, r) \<longleftrightarrow> length xs = n \<and> bs = xs @ r"
  by (auto simp: dec_take_def split: if_splits)

lemma dec_take_1: "dec_take (Suc 0) (b # bs) = (Ok [b], bs)"
  by (simp add: dec_take_def)

text \<open>The decoder on a head byte, with its additional information as a number.\<close>

lemma dec_argument_Cons:
  "dec_argument m (b # bs) =
     (if drop_bit 5 b \<noteq> m then (Err Format, bs)
      else let x = unat (b AND 31) in
        if x \<le> 23 then (Ok x, bs)
        else if x > 27 then (Err Format, bs)
        else let n = (if x = 24 then 1 else if x = 25 then 2 else if x = 26 then 4 else 8) in
          if n \<le> length bs then
            if be_value (take n bs) < (if x = 24 then 24 else if x = 25 then 256 else if x = 26 then 65536 else 4294967296)
            then (Err Format, drop n bs) else (Ok (be_value (take n bs)), drop n bs)
          else (Err Format, bs))"
proof -
  have eqs: "b AND 31 \<le> 23 \<longleftrightarrow> unat (b AND 31) \<le> 23" "b AND 31 > 27 \<longleftrightarrow> unat (b AND 31) > 27"
    "b AND 31 = 24 \<longleftrightarrow> unat (b AND 31) = 24" "b AND 31 = 25 \<longleftrightarrow> unat (b AND 31) = 25"
    "b AND 31 = 26 \<longleftrightarrow> unat (b AND 31) = 26"
    by (simp_all add: word_le_nat_alt word_less_nat_alt word_unat_eq_iff)
  show ?thesis
    by (simp add: dec_argument_def dec_take_1 eqs Let_def dec_take_def sbind_def)
qed

lemma be_bytes_0 [simp]: "be_bytes 0 v = []"
  by (simp add: be_bytes_def)

lemma dec_argument_head:
  assumes "unat m < 8" and "v \<le> u64_max"
  shows "dec_argument m (head m v @ r) = (Ok v, r)"
proof -
  obtain b bs where h: "head m v = b # bs" "b = head m v ! 0" and bs: "bs = be_bytes (argument_octets v) v"
    by (simp add: head_eq)
  have x: "unat (b AND 31) = additional v" "drop_bit 5 b = m"
    using head_byte [OF assms(1), of v] h(2) by simp_all
  have bv: "be_value bs = v" if "v < 256 ^ argument_octets v"
    using that by (simp add: bs)
  show ?thesis
    using argument_octets_cases [of v] assms(2) bv
    by (elim disjE; elim conjE)
      (auto simp: h(1) dec_argument_Cons x additional_def bs Let_def u64_max_def)
qed

lemma head_byte_split:
  "b = push_bit 5 (drop_bit 5 b) OR (word_of_nat (unat (b AND 31)) :: byte)"
proof -
  have m: "unat (drop_bit 5 b) < 8"
    using unat_byte_less [of b] by (simp add: unat_byte_drop_5 div_less_iff_less_mult del: unat_byte_less)
  have "word_of_nat (unat (b AND 31)) = b AND 31"
    by simp
  then have a: "unat (word_of_nat (unat (b AND 31)) :: byte) = unat b mod 32"
    by (simp only: unat_byte_and_31)
  show ?thesis
    unfolding word_unat_eq_iff
    using unat_head_byte [OF m, of "word_of_nat (unat (b AND 31))"]
    by (simp only: a unat_byte_drop_5) simp
qed

lemma dec_argument_Ok:
  assumes "dec_argument m bs = (Ok v, r)"
  shows "v \<le> u64_max \<and> bs = head m v @ r"
proof (cases bs)
  case Nil
  with assms show ?thesis
    by (simp add: dec_argument_def dec_take_def)
next
  case (Cons b t)
  define x where "x = unat (b AND 31)"
  have m: "drop_bit 5 b = m"
    using assms by (auto simp: Cons dec_argument_Cons split: if_splits)
  have b: "b = push_bit 5 m OR word_of_nat x"
    using head_byte_split [of b] by (simp only: m x_def)
  have less: "be_value (take n t) < 256 ^ n" if "n \<le> length t" for n
    using be_value_less [of "take n t"] that by simp
  have inv: "t = be_bytes n (be_value (take n t)) @ drop n t" if "n \<le> length t" for n
    using be_bytes_be_value [of "take n t"] that by simp
  consider "x \<le> 23" "v = x" "r = t"
    | n where "n = 1 \<and> x = 24 \<and> 24 \<le> v \<or> n = 2 \<and> x = 25 \<and> 256 \<le> v \<or> n = 4 \<and> x = 26 \<and> 65536 \<le> v
        \<or> n = 8 \<and> x = 27 \<and> 4294967296 \<le> v" "n \<le> length t" "v = be_value (take n t)" "r = drop n t"
    using assms by (auto simp: Cons dec_argument_Cons m x_def [symmetric] Let_def split: if_splits)
  then show ?thesis
  proof cases
    case 1
    then show ?thesis
      by (simp add: Cons head_eq additional_def argument_octets_def argument_size_def b u64_max_def)
  next
    case 2
    have "v < 256 ^ n" "t = be_bytes n v @ r"
      using less [OF 2(2)] inv [OF 2(2)] 2(3,4) by simp_all
    then show ?thesis
      using 2(1) by (auto simp: Cons head_eq additional_def argument_octets_def argument_size_def b u64_max_def)
  qed
qed

lemma dec_argument_iff:
  "unat m < 8 \<Longrightarrow> dec_argument m bs = (Ok v, r) \<longleftrightarrow> v \<le> u64_max \<and> bs = head m v @ r"
  using dec_argument_Ok dec_argument_head by auto

section \<open>Codecs\<close>

text \<open>
  The contract of a decoder operation: on a domain of values it accepts exactly one byte string
  per value, the one \<open>wire\<close> gives, and leaves the rest of the input.
\<close>

locale codec =
  fixes wire :: "'a \<Rightarrow> bytes"
    and dom :: "'a \<Rightarrow> bool"
    and dec :: "'a dec"
  assumes dec_wire: "dom x \<Longrightarrow> dec (wire x @ r) = (Ok x, r)"
    and dec_sound: "dec bs = (Ok x, r) \<Longrightarrow> dom x \<and> bs = wire x @ r"
begin

lemma dec_iff: "dec bs = (Ok x, r) \<longleftrightarrow> dom x \<and> bs = wire x @ r"
  using dec_wire dec_sound by blast

lemma wire_prefix_free:
  assumes "dom x" and "dom y" and "wire x @ r = wire y @ s"
  shows "x = y \<and> r = s"
  using dec_wire [OF assms(1), of r] dec_wire [OF assms(2), of s] unfolding assms(3) by simp

lemma dec_sbind_wire:
  "dom x \<Longrightarrow> sbind dec f (wire x @ r) = f x r"
  by (simp add: dec_wire)

lemma dec_sbind_iff:
  "sbind dec f bs = (Ok y, t) \<longleftrightarrow> (\<exists>x r. dom x \<and> bs = wire x @ r \<and> f x r = (Ok y, t))"
  unfolding sbind_eq_Ok dec_iff by blast

lemma dec_suffix: "dec bs = (Ok x, r) \<Longrightarrow> \<exists>p. bs = p @ r"
  using dec_sound by blast

end

definition argument_dom :: "nat \<Rightarrow> bool" where
  "argument_dom v \<longleftrightarrow> v \<le> u64_max"

interpretation c_unsigned: codec "head 0" argument_dom dec_unsigned
  by unfold_locales (simp_all add: dec_unsigned_def dec_argument_iff argument_dom_def)

definition length_dom :: "nat \<Rightarrow> nat \<Rightarrow> bool" where
  "length_dom maximum n \<longleftrightarrow> n \<le> usize_max \<and> n \<le> maximum"

lemma usize_max_u64: "n \<le> usize_max \<Longrightarrow> n \<le> u64_max"
  by (simp add: usize_max_def u64_max_def)

lemma dec_length_iff:
  "unat m < 8 \<Longrightarrow> dec_length m maximum bs = (Ok n, r) \<longleftrightarrow> length_dom maximum n \<and> bs = head m n @ r"
  unfolding dec_length_def sbind_eq_Ok dec_argument_iff length_dom_def
  by (rule iffI) (clarsimp split: if_splits, rule exI [of _ n], rule exI [of _ r], simp add: usize_max_u64)

definition string_dom :: "nat \<Rightarrow> bytes \<Rightarrow> bool" where
  "string_dom maximum b \<longleftrightarrow> length_dom maximum (length b)"

definition text_dom :: "nat \<Rightarrow> bytes \<Rightarrow> bool" where
  "text_dom maximum t \<longleftrightarrow> length_dom maximum (length t) \<and> utf8_ok t"

definition string_wire :: "byte \<Rightarrow> bytes \<Rightarrow> bytes" where
  "string_wire m b = head m (length b) @ b"

definition integer_wire :: "int \<Rightarrow> bytes" where
  "integer_wire v = (if v \<ge> 0 then head 0 (nat v) else head 1 (nat (- 1 - v)))"

definition integer_dom :: "int \<Rightarrow> bool" where
  "integer_dom v \<longleftrightarrow> - (2 ^ 63) \<le> v \<and> v < 2 ^ 63"

interpretation c_array: codec "head 4" "length_dom maximum" "dec_array maximum"
  by unfold_locales (simp_all add: dec_array_def dec_length_iff)

interpretation c_number: codec "head 0" "\<lambda>v. v \<le> min limit u64_max" "dec_number limit"
  by unfold_locales
    (auto simp: dec_number_def c_unsigned.dec_sbind_iff c_unsigned.dec_sbind_wire argument_dom_def split: if_splits)

interpretation c_bytes: codec "string_wire 2" "string_dom maximum" "dec_bytes maximum"
  by unfold_locales
    (auto simp: dec_bytes_def sbind_eq_Ok dec_length_iff string_dom_def string_wire_def dec_take_eq_Ok)

interpretation c_text: codec "string_wire 3" "text_dom maximum" "dec_text maximum"
  by unfold_locales
    (auto simp: dec_text_def sbind_eq_Ok dec_length_iff text_dom_def string_wire_def dec_take_eq_Ok split: if_splits)

lemma dec_boolean_Cons:
  "dec_boolean (b # r) = (if b = 0xf4 then Ok False else if b = 0xf5 then Ok True else Err Format, r)"
  by (simp add: dec_boolean_def dec_take_1)

interpretation c_boolean: codec "\<lambda>v. [if v then 0xf5 else 0xf4]" "\<lambda>_. True" dec_boolean
proof unfold_locales
  show "dec_boolean ([if x then 0xf5 else 0xf4] @ r) = (Ok x, r)" for x r
    by (simp add: dec_boolean_Cons)
  show "True \<and> bs = [if x then 0xf5 else 0xf4] @ r" if "dec_boolean bs = (Ok x, r)" for bs x r
    using that by (cases bs) (auto simp: dec_boolean_Cons dec_boolean_def dec_take_def split: if_splits)
qed

lemma head_Cons: "\<exists>b t. head m v = b # t \<and> b = head m v ! 0"
  by (simp add: head_eq)

lemma dec_integer_wire:
  assumes "integer_dom v"
  shows "dec_integer (integer_wire v @ r) = (Ok v, r)"
proof -
  define m :: byte where "m = (if v \<ge> 0 then 0 else 1)"
  define n where "n = (if v \<ge> 0 then nat v else nat (- 1 - v))"
  have w: "integer_wire v = head m n"
    by (simp add: integer_wire_def m_def n_def)
  have m: "unat m < 8" "m \<le> 1" "n \<le> i64_max" "n \<le> u64_max"
    using assms by (auto simp: m_def n_def integer_dom_def i64_max_def u64_max_def nat_le_iff)
  obtain b t where h: "head m n = b # t" "b = head m n ! 0"
    using head_Cons by blast
  have "drop_bit 5 b = m"
    using head_byte(1) [OF m(1)] h(2) by simp
  then have "dec_integer (head m n @ r) = (Ok (if m = 0 then int n else - 1 - int n), r)"
    using dec_argument_head [OF m(1,4), of r] m(2,3)
    by (simp add: h(1) dec_integer_def not_less)
  then show ?thesis
    by (simp add: w m_def n_def split: if_splits)
qed

lemma dec_integer_sound:
  assumes "dec_integer bs = (Ok v, r)"
  shows "integer_dom v \<and> bs = integer_wire v @ r"
proof (cases bs)
  case Nil
  with assms show ?thesis by (simp add: dec_integer_def)
next
  case (Cons b t)
  define m where "m = drop_bit 5 b"
  have "m = 0 \<or> m = 1" "unat m < 8"
    using assms by (auto simp: Cons dec_integer_def Let_def m_def split: if_splits) (unat_arith+)
  then show ?thesis
    using assms
    by (auto simp: Cons dec_integer_def Let_def m_def [symmetric] sbind_eq_Ok dec_argument_iff
        integer_dom_def integer_wire_def i64_max_def split: if_splits)
qed

interpretation c_integer: codec integer_wire integer_dom dec_integer
  by unfold_locales (fact dec_integer_wire, fact dec_integer_sound)

section \<open>Writing\<close>

text \<open>
  The contract of an encoder operation. Success appends the wire form and nothing else; failure
  is always \<open>Quota\<close>, keeps what was written before and never passes the encoding limit; with
  memory available it fails only when the wire form does not fit.
\<close>

definition enc_inv :: "encoder \<Rightarrow> bool" where
  "enc_inv e \<longleftrightarrow> length (ebytes e) \<le> emax e"

locale writer =
  fixes wire :: "'a \<Rightarrow> bytes"
    and put :: "alloc \<Rightarrow> 'a \<Rightarrow> unit enc"
  assumes put_ok: "put alloc x e = (Ok u, e') \<Longrightarrow> ebytes e' = ebytes e @ wire x \<and> emax e' = emax e"
    and put_err: "put alloc x e = (Err c, e') \<Longrightarrow>
        c = Quota \<and> emax e' = emax e \<and> (\<exists>p. ebytes e' = ebytes e @ p)"
    and put_inv: "enc_inv e \<Longrightarrow> enc_inv (snd (put alloc x e))"
    and put_fits: "length (ebytes e) + length (wire x) \<le> emax e \<Longrightarrow> fst (put (\<lambda>_. True) x e) = Ok ()"
begin

lemma put_emax: "put alloc x e = (r, e') \<Longrightarrow> emax e' = emax e"
  using put_ok put_err by (cases r) blast+

lemma put_total:
  assumes "length (ebytes e) + length (wire x) \<le> emax e"
  shows "\<exists>e'. put (\<lambda>_. True) x e = (Ok (), e') \<and> ebytes e' = ebytes e @ wire x \<and> emax e' = emax e"
  using put_fits [OF assms] put_ok [of "\<lambda>_. True" x e "()"] by (cases "put (\<lambda>_. True) x e") simp

end

lemma enc_reserve_result:
  assumes "enc_reserve alloc n e = (r, e')"
  shows "ebytes e' = ebytes e \<and> emax e' = emax e \<and> (r = Ok () \<or> r = Err Quota)
    \<and> (r = Ok () \<longrightarrow> n \<le> emax e - length (ebytes e))"
  using assms by (auto simp: enc_reserve_def Let_def split: if_splits)

lemma enc_reserve_total:
  "n \<le> emax e - length (ebytes e) \<Longrightarrow> fst (enc_reserve (\<lambda>_. True) n e) = Ok ()"
  by (simp add: enc_reserve_def Let_def)

lemma enc_append_result:
  assumes "enc_append alloc bs e = (r, e')"
  shows "emax e' = emax e \<and>
    (r = Ok () \<and> ebytes e' = ebytes e @ bs \<and> length bs \<le> emax e - length (ebytes e)
     \<or> r = Err Quota \<and> ebytes e' = ebytes e)"
  using assms enc_reserve_result [of alloc "length bs" e]
  by (auto simp: enc_append_def sbind_eq)

interpretation w_raw: writer "\<lambda>bs. bs" enc_append
proof unfold_locales
  fix alloc :: alloc and x :: bytes and e e' :: encoder and u c
  show "enc_append alloc x e = (Ok u, e') \<Longrightarrow> ebytes e' = ebytes e @ x \<and> emax e' = emax e"
    by (auto dest: enc_append_result)
  show "enc_append alloc x e = (Err c, e') \<Longrightarrow> c = Quota \<and> emax e' = emax e \<and> (\<exists>p. ebytes e' = ebytes e @ p)"
    by (auto dest: enc_append_result)
  show "enc_inv e \<Longrightarrow> enc_inv (snd (enc_append alloc x e))"
    using enc_append_result [of alloc x e] by (cases "enc_append alloc x e") (auto simp: enc_inv_def)
  show "length (ebytes e) + length x \<le> emax e \<Longrightarrow> fst (enc_append (\<lambda>_. True) x e) = Ok ()"
    using enc_reserve_total [of "length x" e]
    by (cases "enc_reserve (\<lambda>_. True) (length x) e") (auto simp: enc_append_def sbind_def)
qed

text \<open>Writers compose: on a function of the value, and one after the other.\<close>

lemma writer_comp:
  assumes "writer wire put"
  shows "writer (\<lambda>x. wire (f x)) (\<lambda>alloc x. put alloc (f x))"
  using assms unfolding writer_def by blast

lemma writer_seq:
  assumes "writer w1 p1" and "writer w2 p2"
  shows "writer (\<lambda>x. w1 (f x) @ w2 (g x)) (\<lambda>alloc x. sbind (p1 alloc (f x)) (\<lambda>_. p2 alloc (g x)))"
proof
  fix alloc :: alloc and x and e e' :: encoder and u c
  note first = writer.put_ok [OF assms(1)] writer.put_err [OF assms(1)]
  note second = writer.put_ok [OF assms(2)] writer.put_err [OF assms(2)]
  show "ebytes e' = ebytes e @ w1 (f x) @ w2 (g x) \<and> emax e' = emax e"
    if "sbind (p1 alloc (f x)) (\<lambda>_. p2 alloc (g x)) e = (Ok u, e')"
    using that first(1) second(1) unfolding sbind_eq_Ok by fastforce
  show "c = Quota \<and> emax e' = emax e \<and> (\<exists>p. ebytes e' = ebytes e @ p)"
    if "sbind (p1 alloc (f x)) (\<lambda>_. p2 alloc (g x)) e = (Err c, e')"
    using that unfolding sbind_eq
  proof (elim disjE exE conjE)
    fix y t assume 1: "p1 alloc (f x) e = (Ok y, t)" and 2: "p2 alloc (g x) t = (Err c, e')"
    show ?thesis
      using first(1) [OF 1] second(2) [OF 2] by auto
  qed (use first(2) in auto)
  show "enc_inv (snd (sbind (p1 alloc (f x)) (\<lambda>_. p2 alloc (g x)) e))" if "enc_inv e"
    using writer.put_inv [OF assms(1) that, of alloc "f x"] writer.put_inv [OF assms(2), of _ alloc "g x"]
    by (auto simp: sbind_def split: prod.splits result.splits)
  show "fst (sbind (p1 (\<lambda>_. True) (f x)) (\<lambda>_. p2 (\<lambda>_. True) (g x)) e) = Ok ()"
    if len: "length (ebytes e) + length (w1 (f x) @ w2 (g x)) \<le> emax e"
  proof -
    obtain t where t: "p1 (\<lambda>_. True) (f x) e = (Ok (), t)" "ebytes t = ebytes e @ w1 (f x)" "emax t = emax e"
      using writer.put_total [OF assms(1), of e "f x"] len by auto
    then show ?thesis
      using writer.put_fits [OF assms(2), of t "g x"] len by simp
  qed
qed

lemma writer_argument: "writer (head m) (\<lambda>alloc. enc_argument alloc m)"
  unfolding enc_argument_def using writer_comp [OF w_raw.writer_axioms, of "head m"] .

lemma writer_string: "writer (string_wire m) (\<lambda>alloc b. sbind (enc_argument alloc m (length b)) (\<lambda>_. enc_append alloc b))"
  unfolding string_wire_def
  using writer_seq [OF writer_argument [of m] w_raw.writer_axioms, of length "\<lambda>b. b"] .

interpretation w_unsigned: writer "head 0" enc_unsigned
  unfolding enc_unsigned_def by (rule writer_argument)

interpretation w_array: writer "head 4" enc_array
  unfolding enc_array_def by (rule writer_argument)

interpretation w_bytes: writer "string_wire 2" enc_bytes
  unfolding enc_bytes_def by (rule writer_string)

interpretation w_text: writer "string_wire 3" enc_text
  unfolding enc_text_def by (rule writer_string)

interpretation w_boolean: writer "\<lambda>v. [if v then 0xf5 else 0xf4]" enc_boolean
  unfolding enc_boolean_def using writer_comp [OF w_raw.writer_axioms, of "\<lambda>v. [if v then 0xf5 else 0xf4]"] .

interpretation w_null: writer "\<lambda>_ :: unit. [0xf6]" "\<lambda>alloc _. enc_null alloc"
  unfolding enc_null_def using writer_comp [OF w_raw.writer_axioms, of "\<lambda>_ :: unit. [0xf6]"] .

interpretation w_integer: writer integer_wire enc_integer
proof -
  have "(\<lambda>alloc v. enc_integer alloc v) =
      (\<lambda>alloc v. enc_append alloc (integer_wire v))"
    by (auto simp: fun_eq_iff enc_integer_def enc_argument_def integer_wire_def)
  then show "writer integer_wire enc_integer"
    using writer_comp [OF w_raw.writer_axioms, of integer_wire] by simp
qed

section \<open>Records of items\<close>

text \<open>
  A record is written and read field by field. An item names the operation a contract uses for
  the field; the reader of a shape is the decoder call with the field's limit.
\<close>

datatype item = Unsigned nat | Integer int | Array nat | Bytes bytes | Text bytes | Boolean bool

fun put_item :: "alloc \<Rightarrow> item \<Rightarrow> unit enc" where
  "put_item alloc (Unsigned v) = enc_unsigned alloc v"
| "put_item alloc (Integer v) = enc_integer alloc v"
| "put_item alloc (Array n) = enc_array alloc n"
| "put_item alloc (Bytes b) = enc_bytes alloc b"
| "put_item alloc (Text t) = enc_text alloc t"
| "put_item alloc (Boolean v) = enc_boolean alloc v"

fun put_items :: "alloc \<Rightarrow> item list \<Rightarrow> unit enc" where
  "put_items alloc [] = sret ()"
| "put_items alloc (x # xs) = sbind (put_item alloc x) (\<lambda>_. put_items alloc xs)"

definition dmap :: "('a \<Rightarrow> 'b) \<Rightarrow> 'a dec \<Rightarrow> 'b dec" where
  "dmap f d = sbind d (\<lambda>x. sret (f x))"

fun get_item :: "nat \<Rightarrow> item \<Rightarrow> item dec" where
  "get_item limit (Unsigned _) = dmap Unsigned dec_unsigned"
| "get_item limit (Integer _) = dmap Integer dec_integer"
| "get_item limit (Array _) = dmap Array (dec_array limit)"
| "get_item limit (Bytes _) = dmap Bytes (dec_bytes limit)"
| "get_item limit (Text _) = dmap Text (dec_text limit)"
| "get_item limit (Boolean _) = dmap Boolean dec_boolean"

fun get_items :: "nat \<Rightarrow> item list \<Rightarrow> item list dec" where
  "get_items limit [] = sret []"
| "get_items limit (x # xs) = sbind (get_item limit x) (\<lambda>y. sbind (get_items limit xs) (\<lambda>ys. sret (y # ys)))"

fun item_dom :: "nat \<Rightarrow> item \<Rightarrow> bool" where
  "item_dom limit (Unsigned v) = argument_dom v"
| "item_dom limit (Integer v) = integer_dom v"
| "item_dom limit (Array n) = length_dom limit n"
| "item_dom limit (Bytes b) = string_dom limit b"
| "item_dom limit (Text t) = text_dom limit t"
| "item_dom limit (Boolean v) = True"

fun item_wire :: "item \<Rightarrow> bytes" where
  "item_wire (Unsigned v) = head 0 v"
| "item_wire (Integer v) = integer_wire v"
| "item_wire (Array n) = head 4 n"
| "item_wire (Bytes b) = string_wire 2 b"
| "item_wire (Text t) = string_wire 3 t"
| "item_wire (Boolean v) = [if v then 0xf5 else 0xf4]"

lemmas writer_facts =
  w_unsigned.put_ok w_integer.put_ok w_array.put_ok w_bytes.put_ok w_text.put_ok w_boolean.put_ok

lemma put_item_ok: "put_item alloc x e = (Ok u, e') \<Longrightarrow> ebytes e' = ebytes e @ item_wire x \<and> emax e' = emax e"
  by (cases x) (simp_all add: writer_facts)

lemma put_item_inv: "enc_inv e \<Longrightarrow> enc_inv (snd (put_item alloc x e))"
  by (cases x) (simp_all add: w_unsigned.put_inv w_integer.put_inv w_array.put_inv w_bytes.put_inv
      w_text.put_inv w_boolean.put_inv)

lemma get_item_wire: "item_dom limit x \<Longrightarrow> get_item limit x (item_wire x @ r) = (Ok x, r)"
  by (cases x) (simp_all add: dmap_def c_unsigned.dec_sbind_wire c_integer.dec_sbind_wire
      c_array.dec_sbind_wire c_bytes.dec_sbind_wire c_text.dec_sbind_wire dec_boolean_Cons)

lemma put_items_ok:
  "put_items alloc xs e = (Ok u, e') \<Longrightarrow> ebytes e' = ebytes e @ concat (map item_wire xs) \<and> emax e' = emax e"
proof (induction xs arbitrary: e)
  case (Cons x xs)
  then obtain v t where t: "put_item alloc x e = (Ok v, t)" "put_items alloc xs t = (Ok u, e')"
    by (auto simp: sbind_eq_Ok)
  show ?case
    using put_item_ok [OF t(1)] Cons.IH [OF t(2)] by simp
qed simp

lemma get_items_wire:
  "list_all (item_dom limit) xs \<Longrightarrow> get_items limit xs (concat (map item_wire xs) @ r) = (Ok xs, r)"
  by (induction xs) (simp_all add: get_item_wire)

section \<open>Properties\<close>

text \<open>
  A head of major type below eight is accepted exactly when it
  is the preferred, shortest encoding of a 64-bit value; the decoder consumes it and nothing else.
\<close>

theorem dec_argument_deterministic:
  "dec_argument (word_of_nat (m mod 8)) bs = (Ok v, r) \<longleftrightarrow>
     v \<le> u64_max \<and> bs = head (word_of_nat (m mod 8)) v @ r"
  by (rule dec_argument_iff) (simp add: unat_word_of_nat_byte)

text \<open>
  C29 (cbor_roundtrip). A record of fields within their limits that the encoder accepted reads
  back field by field, leaving exactly what followed it.
\<close>

theorem cbor_roundtrip:
  assumes "put_items alloc xs (enc_new maximum) = (Ok (), e)" and "list_all (item_dom limit) xs"
  shows "get_items limit xs (enc_finish e @ r) = (Ok xs, r) \<and> length (enc_finish e) \<le> maximum"
proof -
  have "ebytes e = concat (map item_wire xs)" "emax e = maximum"
    using put_items_ok [OF assms(1)] by (simp_all add: enc_new_def)
  moreover have "enc_inv (snd (put_items alloc xs e0))" if "enc_inv e0" for e0
    using that
  proof (induction xs arbitrary: e0)
    case (Cons x xs)
    then show ?case
      using put_item_inv [of e0 alloc x] by (auto simp: sbind_def split: prod.splits result.splits)
  qed simp
  then have "enc_inv e"
    using assms(1) by (metis snd_conv enc_inv_def enc_new_def encoder.select_convs(1,2) list.size(3) zero_le)
  ultimately show ?thesis
    using get_items_wire [OF assms(2), of r] by (simp add: enc_finish_def enc_inv_def)
qed

theorem cbor_roundtrip_witness:
  "\<exists>e. put_items (\<lambda>_. True) [Array 2, Unsigned 500, Bytes [1, 2, 3]] (enc_new 16) = (Ok (), e)
     \<and> get_items 8 [Array 2, Unsigned 500, Bytes [1, 2, 3]] (enc_finish e @ [0x55])
        = (Ok [Array 2, Unsigned 500, Bytes [1, 2, 3]], [0x55])"
proof -
  obtain e where e: "put_items (\<lambda>_. True) [Array 2, Unsigned 500, Bytes [1, 2, 3]] (enc_new 16) = (Ok (), e)"
    by (simp add: enc_new_def enc_array_def enc_unsigned_def enc_bytes_def enc_argument_def enc_append_def
        enc_reserve_def head_eq additional_def argument_octets_def argument_size_def be_bytes_def
        usize_max_def sbind_def numeral_2_eq_2)
  have "list_all (item_dom 8) [Array 2, Unsigned 500, Bytes [1, 2, 3]]"
    by (simp add: length_dom_def argument_dom_def string_dom_def usize_max_def u64_max_def)
  from e cbor_roundtrip [OF e this, of "[0x55]"] show ?thesis by blast
qed

text \<open>
  A filled byte string whose closure fails, or that does not fit, leaves
  no trace in the encoding: the bytes written so far are exactly what they were.
\<close>

theorem bytes_with_atomic:
  assumes "enc_bytes_with alloc n fill e = (Err c, e')"
  shows "ebytes e' = ebytes e \<and> emax e' = emax e"
proof -
  have app: "\<exists>p. ebytes t = ebytes e @ p \<and> emax t = emax e" if "enc_argument alloc 2 n e = (q, t)" for q t
    using that enc_append_result [of alloc "head 2 n" e q t] by (auto simp: enc_argument_def)
  have res: "ebytes t' = ebytes t \<and> emax t' = emax t" if "enc_reserve alloc n t = (q, t')" for q t t'
    using enc_reserve_result [OF that] by simp
  show ?thesis
    using assms app res
    by (auto simp: enc_bytes_with_def Let_def sbind_def split: prod.splits result.splits)
qed

theorem bytes_with_atomic_witness:
  "enc_bytes_with (\<lambda>_. True) 2 (\<lambda>b. (Err Native, [0xa5, 0xa5])) (enc_new 8) = (Err Native, (enc_new 8)\<lparr>ecap := 3\<rparr>)
   \<and> ebytes ((enc_new 8)\<lparr>ecap := 3\<rparr>) = ebytes (enc_new 8)"
proof -
  have h: "enc_bytes_with (\<lambda>_. True) 2 (\<lambda>b. (Err Native, [0xa5, 0xa5])) (enc_new 8)
      = (Err Native, (enc_new 8)\<lparr>ecap := 3\<rparr>)"
    by (simp add: enc_bytes_with_def enc_new_def enc_argument_def enc_append_def enc_reserve_def
        head_eq additional_def argument_octets_def argument_size_def usize_max_def sbind_def)
  show ?thesis
    using h bytes_with_atomic [OF h] by simp
qed

end
