(* ===== verification/Framing.thy ===== *)
theory Framing
  imports Core_Error
begin

text \<open>
  UART short-APDU framing (\<open>src/crates/microcard-core/src/framing.rs\<close>): a byte-at-a-time decoder
  for frames of a little-endian length and that many bytes, with a one second reassembly window
  on a wrapping microsecond clock.
\<close>

record decoder =
  header :: bytes
  buffer :: bytes
  position :: nat
  frame_length :: nat
  started :: u32

definition default_decoder :: decoder where
  "default_decoder = \<lparr>header = replicate 2 0, buffer = replicate 261 0, position = 0,
     frame_length = 0, started = 0\<rparr>"

definition expire :: "u32 \<Rightarrow> decoder \<Rightarrow> decoder" where
  "expire now d =
     (if position d \<noteq> 0 \<and> now - started d > 1000000
      then d\<lparr>position := 0, frame_length := 0\<rparr> else d)"

definition push :: "byte \<Rightarrow> u32 \<Rightarrow> decoder \<Rightarrow> bytes option \<times> decoder" where
  "push b now d =
     (let d = expire now d;
          d = (if position d = 0 then d\<lparr>started := now\<rparr> else d) in
      if position d < 2 then
        let d = d\<lparr>header := (header d)[position d := b], position := position d + 1\<rparr> in
        if position d = 2 then
          let n = le_value (header d) in
          if 4 \<le> n \<and> n \<le> 261 then (None, d\<lparr>frame_length := n\<rparr>)
          else (None, d\<lparr>frame_length := n, position := 0\<rparr>)
        else (None, d)
      else
        let d = d\<lparr>buffer := (buffer d)[position d - 2 := b], position := position d + 1\<rparr> in
        if position d = frame_length d + 2
        then (Some (take (frame_length d) (buffer d)), d\<lparr>position := 0\<rparr>)
        else (None, d))"

text \<open>A run of the decoder over bytes with their arrival times.\<close>

fun feed :: "(byte \<times> u32) list \<Rightarrow> decoder \<Rightarrow> bytes list \<times> decoder" where
  "feed [] d = ([], d)"
| "feed ((b, now) # xs) d =
     (case push b now d of (out, d1) \<Rightarrow>
        case feed xs d1 of (outs, d2) \<Rightarrow> (case out of None \<Rightarrow> outs | Some f \<Rightarrow> f # outs, d2))"

section \<open>Invariant\<close>

text \<open>
  The array sizes, and that a frame being collected has a legal length with its next byte inside
  the buffer; the buffer write of \<open>push\<close> is therefore in range.
\<close>

definition decoder_inv :: "decoder \<Rightarrow> bool" where
  "decoder_inv d \<longleftrightarrow> length (header d) = 2 \<and> length (buffer d) = 261
     \<and> (2 \<le> position d \<longrightarrow> 4 \<le> frame_length d \<and> frame_length d \<le> 261 \<and> position d < frame_length d + 2)"

lemma default_inv: "decoder_inv default_decoder"
  by (simp add: decoder_inv_def default_decoder_def)

lemma expire_inv: "decoder_inv d \<Longrightarrow> decoder_inv (expire now d)"
  by (simp add: decoder_inv_def expire_def)

lemma push_inv: "decoder_inv d \<Longrightarrow> decoder_inv (snd (push b now d))"
  using expire_inv [of d now]
  by (auto simp: push_def Let_def decoder_inv_def split: if_splits)

lemma push_out:
  assumes "decoder_inv d" and "push b now d = (Some f, d')"
  shows "4 \<le> length f \<and> length f \<le> 261 \<and> position d' = 0"
  using assms expire_inv [OF assms(1), of now]
  by (auto simp: push_def Let_def decoder_inv_def split: if_splits)

lemma feed_inv:
  assumes "decoder_inv d" and "feed xs d = (outs, d')"
  shows "decoder_inv d' \<and> list_all (\<lambda>f. 4 \<le> length f \<and> length f \<le> 261) outs"
  using assms
proof (induction xs arbitrary: d outs d')
  case (Cons x xs)
  obtain b now where x: "x = (b, now)" by (cases x)
  obtain out d1 where p: "push b now d = (out, d1)" by (cases "push b now d")
  obtain os d2 where f: "feed xs d1 = (os, d2)" by (cases "feed xs d1")
  have "decoder_inv d1"
    using push_inv [OF Cons.prems(1), of b now] p by simp
  then have "decoder_inv d2 \<and> list_all (\<lambda>f. 4 \<le> length f \<and> length f \<le> 261) os"
    using Cons.IH f by blast
  moreover have "d' = d2" "outs = (case out of None \<Rightarrow> os | Some g \<Rightarrow> g # os)"
    using Cons.prems(2) by (simp_all add: x p f)
  ultimately show ?case
    using push_out [OF Cons.prems(1)] p by (cases out) auto
qed simp

section \<open>Frames on the line\<close>

text \<open>All bytes of a frame arrive inside the window opened by its first byte.\<close>

definition in_window :: "u32 \<Rightarrow> (byte \<times> u32) list \<Rightarrow> bool" where
  "in_window t0 xs \<longleftrightarrow> list_all (\<lambda>(_, t). t - t0 \<le> 1000000) xs"

text \<open>The state while the payload of a frame is collected.\<close>

definition collecting :: "u32 \<Rightarrow> nat \<Rightarrow> bytes \<Rightarrow> decoder \<Rightarrow> bool" where
  "collecting t0 n got d \<longleftrightarrow> decoder_inv d \<and> started d = t0 \<and> frame_length d = n
     \<and> position d = length got + 2 \<and> take (length got) (buffer d) = got"

lemma push_collecting:
  assumes "collecting t0 n got d" and "t - t0 \<le> 1000000"
  shows "push b t d = (if length got + 1 = n then (Some (got @ [b]), snd (push b t d)) else (None, snd (push b t d)))"
    and "length got + 1 < n \<Longrightarrow> collecting t0 n (got @ [b]) (snd (push b t d))"
    and "length got + 1 = n \<Longrightarrow> decoder_inv (snd (push b t d)) \<and> position (snd (push b t d)) = 0"
proof -
  have d: "decoder_inv d" "started d = t0" "frame_length d = n" "position d = length got + 2"
    "take (length got) (buffer d) = got"
    using assms(1) by (simp_all add: collecting_def)
  have len: "length got + 2 < n + 2" "n \<le> 261" "length (buffer d) = 261"
    using d(1,3,4) by (auto simp: decoder_inv_def)
  have e: "expire t d = d"
    using assms(2) d(2) by (auto simp: expire_def)
  have buf: "take (Suc (length got)) ((buffer d)[length got := b]) = got @ [b]"
    using d(5) len by (simp add: take_Suc_conv_app_nth)
  let ?d1 = "d\<lparr>buffer := (buffer d)[length got := b], position := length got + 3\<rparr>"
  have p: "push b t d = (if length got + 1 = n then (Some (got @ [b]), ?d1\<lparr>position := 0\<rparr>) else (None, ?d1))"
    using d(3,4) buf by (auto simp: push_def e Let_def)
  show "push b t d = (if length got + 1 = n then (Some (got @ [b]), snd (push b t d)) else (None, snd (push b t d)))"
    by (simp add: p)
  show "collecting t0 n (got @ [b]) (snd (push b t d))" if "length got + 1 < n"
    using that p push_inv [OF d(1), of b t] d buf by (simp add: collecting_def)
  show "decoder_inv (snd (push b t d)) \<and> position (snd (push b t d)) = 0" if "length got + 1 = n"
    using that p push_inv [OF d(1), of b t] by simp
qed

lemma feed_collecting:
  assumes "collecting t0 n got d" and "in_window t0 xs" and "length got + length xs = n" and "xs \<noteq> []"
  shows "\<exists>d'. feed xs d = ([got @ map fst xs], d') \<and> decoder_inv d' \<and> position d' = 0"
  using assms
proof (induction xs arbitrary: got d)
  case (Cons x xs)
  obtain b t where x: "x = (b, t)" by (cases x)
  have w: "t - t0 \<le> 1000000" "in_window t0 xs"
    using Cons.prems(2) by (simp_all add: in_window_def x)
  note p = push_collecting [OF Cons.prems(1) w(1), of b]
  show ?case
  proof (cases "xs = []")
    case True
    then have n: "length got + 1 = n"
      using Cons.prems(3) by simp
    obtain d' where "push b t d = (Some (got @ [b]), d')"
      using p(1) n by (metis (full_types))
    then show ?thesis
      using p(3) n by (simp add: x True)
  next
    case False
    then have n: "length got + 1 < n"
      using Cons.prems(3) by (cases xs) simp_all
    obtain d' where "feed xs (snd (push b t d)) = ([(got @ [b]) @ map fst xs], d')" "decoder_inv d'" "position d' = 0"
      using Cons.IH [OF p(2) [OF n] w(2) _ False] Cons.prems(3) by auto
    moreover obtain d1 where "push b t d = (None, d1)"
      using p(1) n by (metis less_irrefl_nat)
    ultimately show ?thesis
      by (simp add: x)
  qed
qed simp

section \<open>Properties\<close>

text \<open>
  C32 (frame_delivered). From any idle state, a frame of 4 to 261 bytes whose bytes arrive within
  one second of its first byte is delivered exactly once, with its exact payload, and the decoder
  is idle again: frames may follow back to back and the clock may wrap.
\<close>

theorem frame_delivered:
  assumes "decoder_inv d" and "position d = 0"
    and "4 \<le> length payload" and "length payload \<le> 261"
    and "map fst xs = le_bytes 2 (length payload) @ payload"
    and "in_window (snd (hd xs)) xs"
  shows "\<exists>d'. feed xs d = ([payload], d') \<and> decoder_inv d' \<and> position d' = 0"
proof -
  obtain l h where lb: "le_bytes 2 (length payload) = [l, h]"
    by (simp add: numeral_2_eq_2)
  obtain t0 t1 ys where xs: "xs = (l, t0) # (h, t1) # ys" "map fst ys = payload"
    using assms(5) by (auto simp: lb map_eq_Cons_conv)
  have lv: "le_value [l, h] = length payload"
    using assms(4) lb le_value_le_bytes_id [of "length payload" 2] by simp
  have w: "t1 - t0 \<le> 1000000" "in_window t0 ys"
    using assms(6) by (simp_all add: in_window_def xs)
  have e: "expire t d = d" for t
    using assms(2) by (simp add: expire_def)
  let ?d1 = "d\<lparr>started := t0, header := (header d)[0 := l], position := 1\<rparr>"
  let ?d2 = "?d1\<lparr>header := [l, h], position := 2, frame_length := length payload\<rparr>"
  have hd2: "length (header d) = 2"
    using assms(1) by (simp add: decoder_inv_def)
  have p1: "push l t0 d = (None, ?d1)"
    using assms(2) by (simp add: push_def e)
  have "expire t1 ?d1 = ?d1"
    using w(1) by (auto simp: expire_def)
  moreover have "(header d)[0 := l, Suc 0 := h] = [l, h]"
    using hd2 by (auto simp: numeral_2_eq_2 length_Suc_conv)
  ultimately have p2: "push h t1 ?d1 = (None, ?d2)"
    using lv assms(3,4) by (simp add: push_def Let_def)
  have "collecting t0 (length payload) [] ?d2"
    using assms(1,3,4) by (auto simp: collecting_def decoder_inv_def)
  moreover have "ys \<noteq> []" "length ys = length payload"
    using assms(3) xs(2) by auto
  ultimately obtain d' where "feed ys ?d2 = ([map fst ys], d')" "decoder_inv d'" "position d' = 0"
    using feed_collecting [of t0 "length payload" "[]" ?d2 ys] w(2) by auto
  then show ?thesis
    using p1 p2 xs by simp
qed

theorem frame_delivered_witness:
  "\<exists>d'. feed [(4, 5), (0, 6), (0, 7), (0xa4, 8), (4, 9), (0, 10)] default_decoder
      = ([[0, 0xa4, 4, 0]], d') \<and> decoder_inv d' \<and> position d' = 0"
proof (rule frame_delivered [OF default_inv])
  show "map fst [(4, 5), (0, 6), (0, 7), (0xa4, 8), (4, 9), (0, 10 :: u32)]
      = le_bytes 2 (length [0, 0xa4, 4, 0 :: byte]) @ [0, 0xa4, 4, 0]"
    by (simp add: numeral_2_eq_2)
qed (simp_all add: in_window_def default_decoder_def)

text \<open>
  Whatever bytes arrive at whatever times, the decoder keeps its invariant, so
  every array write is in range, and delivers only frames of 4 to 261 bytes.
\<close>

theorem framing_safe:
  "decoder_inv (snd (feed xs default_decoder))
   \<and> list_all (\<lambda>f. 4 \<le> length f \<and> length f \<le> 261) (fst (feed xs default_decoder))"
  using feed_inv [OF default_inv, of xs] by (cases "feed xs default_decoder") auto

end
