(* ===== verification/Staging.thy ===== *)
theory Staging
  imports Core_Error
begin

text \<open>
  Upload staging (\<open>src/crates/microcard-core/src/staging.rs\<close>): the RAM and the flash backed
  implementations of the \<open>PackageStaging\<close> trait, over the \<open>StagingFlash\<close> trait of
  \<open>hal.rs\<close> and its fault-injecting implementation in \<open>microcard-sim/src/sim_hal.rs\<close>.
  A trait is a record of its methods; its contract is a locale. Both implementations are shown to
  be a bounded append-only byte log.
\<close>

section \<open>The flash trait\<close>

record 'f flash_ops =
  fl_capacity :: "'f \<Rightarrow> nat"
  fl_mapped :: "'f \<Rightarrow> nat \<Rightarrow> nat \<Rightarrow> bytes option res"
  fl_read :: "'f \<Rightarrow> nat \<Rightarrow> nat \<Rightarrow> bytes res"
  fl_erase :: "('f, error, unit) act"
  fl_program :: "nat \<Rightarrow> bytes \<Rightarrow> ('f, error, unit) act"

section \<open>The simulated flash\<close>

record sim_flash =
  cells :: bytes
  fail_after :: "nat option"

definition sim_capacity :: "sim_flash \<Rightarrow> nat" where
  "sim_capacity f = length (cells f)"

definition sim_read :: "sim_flash \<Rightarrow> nat \<Rightarrow> nat \<Rightarrow> bytes res" where
  "sim_read f offset n =
     rbind (ok_or (checked_add offset n) Bounds) (\<lambda>end.
     ok_or (get_range (cells f) offset end) Bounds)"

definition sim_erase :: "(sim_flash, error, unit) act" where
  "sim_erase f = (Ok (), f\<lparr>cells := replicate (length (cells f)) 0xff\<rparr>)"

definition sim_program :: "nat \<Rightarrow> bytes \<Rightarrow> (sim_flash, error, unit) act" where
  "sim_program offset input f =
     (case checked_add offset (length input) of None \<Rightarrow> (Err Bounds, f) | Some end \<Rightarrow>
      case get_range (cells f) offset end of None \<Rightarrow> (Err Bounds, f) | Some target \<Rightarrow>
      if list_ex (\<lambda>(current, next). current AND next \<noteq> next) (zip target input) then (Err Storage, f)
      else
        let written = min (case fail_after f of None \<Rightarrow> length input | Some n \<Rightarrow> n) (length input);
            f1 = f\<lparr>fail_after := None,
                   cells := overwrite (cells f) offset
                     (take written (map2 (AND) target input))\<rparr> in
        if written \<noteq> length input then (Err Native, f1) else (Ok (), f1))"

definition sim_ops :: "sim_flash flash_ops" where
  "sim_ops = \<lparr>fl_capacity = sim_capacity, fl_mapped = (\<lambda>_ _ _. Ok None), fl_read = sim_read,
     fl_erase = sim_erase, fl_program = sim_program\<rparr>"

section \<open>RAM staging\<close>

record ram_staging =
  ram_bytes :: bytes

definition ram_len :: "ram_staging \<Rightarrow> nat" where
  "ram_len s = length (ram_bytes s)"

definition ram_as_slice :: "ram_staging \<Rightarrow> bytes option" where
  "ram_as_slice s = Some (ram_bytes s)"

definition ram_read_all :: "alloc \<Rightarrow> ram_staging \<Rightarrow> bytes res" where
  "ram_read_all alloc s =
     rbind (try_reserve alloc (length (ram_bytes s))) (\<lambda>_. Ok (ram_bytes s))"

definition ram_append :: "alloc \<Rightarrow> nat \<Rightarrow> bytes \<Rightarrow> (ram_staging, error, unit) act" where
  "ram_append alloc limit bs s =
     (case checked_add (length (ram_bytes s)) (length bs) of None \<Rightarrow> (Err Quota, s) | Some end \<Rightarrow>
      if limit < end then (Err Quota, s)
      else if \<not> alloc (length bs) then (Err Quota, s)
      else (Ok (), s\<lparr>ram_bytes := ram_bytes s @ bs\<rparr>))"

definition ram_matches :: "nat \<Rightarrow> bytes \<Rightarrow> ram_staging \<Rightarrow> bool res" where
  "ram_matches offset bs s =
     rbind (ok_or (checked_add offset (length bs)) Bounds) (\<lambda>end.
     Ok (end \<le> length (ram_bytes s) \<and> slice_of (ram_bytes s) offset end = bs))"

definition ram_take :: "(ram_staging, error, bytes) act" where
  "ram_take s = (Ok (ram_bytes s), s\<lparr>ram_bytes := []\<rparr>)"

definition ram_restore :: "nat \<Rightarrow> bytes \<Rightarrow> (ram_staging, error, unit) act" where
  "ram_restore limit bs s =
     (if ram_bytes s \<noteq> [] \<or> limit < length bs then (Err Storage, s)
      else (Ok (), s\<lparr>ram_bytes := bs\<rparr>))"

definition ram_reset :: "ram_staging \<Rightarrow> ram_staging" where
  "ram_reset s = s\<lparr>ram_bytes := []\<rparr>"

section \<open>Flash staging\<close>

record 'f flash_staging =
  fs_flash :: 'f
  fs_len :: nat
  fs_prepared :: bool

definition fs_new :: "'f \<Rightarrow> 'f flash_staging" where
  "fs_new flash = \<lparr>fs_flash = flash, fs_len = 0, fs_prepared = False\<rparr>"

definition fs_persistent_capacity :: "'f flash_ops \<Rightarrow> 'f flash_staging \<Rightarrow> nat" where
  "fs_persistent_capacity ops s = fl_capacity ops (fs_flash s)"

definition fs_mapped_persistent :: "'f flash_ops \<Rightarrow> nat \<Rightarrow> nat \<Rightarrow> 'f flash_staging \<Rightarrow> bytes option res" where
  "fs_mapped_persistent ops offset n s =
     (case checked_add offset n of
        None \<Rightarrow> Err Bounds
      | Some end \<Rightarrow> if fl_capacity ops (fs_flash s) < end then Err Bounds
                     else fl_mapped ops (fs_flash s) offset n)"

definition fs_read_persistent :: "'f flash_ops \<Rightarrow> nat \<Rightarrow> nat \<Rightarrow> 'f flash_staging \<Rightarrow> bytes res" where
  "fs_read_persistent ops offset n s = fl_read ops (fs_flash s) offset n"

definition fs_read_all :: "'f flash_ops \<Rightarrow> alloc \<Rightarrow> 'f flash_staging \<Rightarrow> bytes res" where
  "fs_read_all ops alloc s =
     rbind (try_reserve alloc (fs_len s)) (\<lambda>_. fl_read ops (fs_flash s) 0 (fs_len s))"

definition fs_append :: "'f flash_ops \<Rightarrow> nat \<Rightarrow> bytes \<Rightarrow> ('f flash_staging, error, unit) act" where
  "fs_append ops limit bs s =
     (case checked_add (fs_len s) (length bs) of None \<Rightarrow> (Err Quota, s) | Some end \<Rightarrow>
      if limit < end \<or> fl_capacity ops (fs_flash s) < end then (Err Quota, s)
      else
        case (if fs_prepared s then (Ok (), s)
              else case fl_erase ops (fs_flash s) of
                     (Err e, f) \<Rightarrow> (Err e, s\<lparr>fs_flash := f\<rparr>)
                   | (Ok _, f) \<Rightarrow> (Ok (), s\<lparr>fs_flash := f, fs_prepared := True\<rparr>)) of
          (Err e, s1) \<Rightarrow> (Err e, s1)
        | (Ok _, s1) \<Rightarrow>
            case fl_program ops (fs_len s1) bs (fs_flash s1) of
              (Err e, f) \<Rightarrow> (Err e, s1\<lparr>fs_flash := f\<rparr>)
            | (Ok _, f) \<Rightarrow> (Ok (), s1\<lparr>fs_flash := f, fs_len := end\<rparr>))"

function fs_matches_from :: "'f flash_ops \<Rightarrow> 'f \<Rightarrow> nat \<Rightarrow> bytes \<Rightarrow> nat \<Rightarrow> bool res" where
  "fs_matches_from ops f offset bs cursor =
     (if cursor < length bs then
        let count = min (length bs - cursor) 64 in
        rbind (fl_read ops f (offset + cursor) count) (\<lambda>scratch.
          if scratch \<noteq> slice_of bs cursor (cursor + count) then Ok False
          else fs_matches_from ops f offset bs (cursor + count))
      else Ok True)"
  by pat_completeness auto
termination
  by (relation "measure (\<lambda>(_, _, _, bs, cursor). length bs - cursor)") auto

declare fs_matches_from.simps [simp del]

definition fs_matches :: "'f flash_ops \<Rightarrow> nat \<Rightarrow> bytes \<Rightarrow> 'f flash_staging \<Rightarrow> bool res" where
  "fs_matches ops offset bs s =
     rbind (ok_or (checked_add offset (length bs)) Bounds) (\<lambda>end.
     if fs_len s < end then Ok False else fs_matches_from ops (fs_flash s) offset bs 0)"

definition fs_take :: "'f flash_ops \<Rightarrow> alloc \<Rightarrow> ('f flash_staging, error, bytes) act" where
  "fs_take ops alloc s = (fs_read_all ops alloc s, s)"

definition fs_restore :: "'f flash_ops \<Rightarrow> bytes \<Rightarrow> ('f flash_staging, error, unit) act" where
  "fs_restore ops bs s =
     (if length bs \<noteq> fs_len s then (Err Storage, s)
      else case fs_matches ops 0 bs s of
        Err e \<Rightarrow> (Err e, s)
      | Ok same \<Rightarrow> if same then (Ok (), s) else (Err Storage, s))"

definition fs_reset :: "'f flash_staging \<Rightarrow> 'f flash_staging" where
  "fs_reset s = s\<lparr>fs_len := 0, fs_prepared := False\<rparr>"

section \<open>The contract of a staging flash\<close>

text \<open>
  What the flash driver promises of its cells: reads in range return them, an accepted program
  operation leaves exactly its input in its range and a refused one touches no cell outside it.
\<close>

locale staging_flash =
  fixes ops :: "'f flash_ops" and contents :: "'f \<Rightarrow> bytes"
  assumes capacity: "fl_capacity ops f = length (contents f)"
    and read_in: "offset + n \<le> length (contents f) \<Longrightarrow> offset + n \<le> usize_max
          \<Longrightarrow> fl_read ops f offset n = Ok (slice_of (contents f) offset (offset + n))"
    and erase_len: "fl_erase ops f = (r, f') \<Longrightarrow> length (contents f') = length (contents f)"
    and program_len: "fl_program ops offset bs f = (r, f') \<Longrightarrow> length (contents f') = length (contents f)"
    and program_Ok: "fl_program ops offset bs f = (Ok u, f')
          \<Longrightarrow> offset + length bs \<le> length (contents f)
            \<and> slice_of (contents f') offset (offset + length bs) = bs"
    and program_frame: "fl_program ops offset bs f = (r, f') \<Longrightarrow> b \<le> offset \<Longrightarrow> b \<le> length (contents f)
          \<Longrightarrow> slice_of (contents f') 0 b = slice_of (contents f) 0 b"
begin

text \<open>The staged log is the prefix of the cells below the staging length.\<close>

definition log :: "'f flash_staging \<Rightarrow> bytes" where
  "log s = take (fs_len s) (contents (fs_flash s))"

definition inv :: "nat \<Rightarrow> 'f flash_staging \<Rightarrow> bool" where
  "inv limit s \<longleftrightarrow> fs_len s \<le> length (contents (fs_flash s)) \<and> fs_len s \<le> usize_max \<and> fs_len s \<le> limit
     \<and> (\<not> fs_prepared s \<longrightarrow> fs_len s = 0)"

lemma length_log: "inv limit s \<Longrightarrow> length (log s) = fs_len s"
  by (simp add: log_def inv_def)

lemma take_slice: "take n xs = slice_of xs 0 n"
  by (simp add: slice_of_def)

lemma read_all_log: "inv limit s \<Longrightarrow> alloc (fs_len s) \<Longrightarrow> fs_read_all ops alloc s = Ok (log s)"
  by (simp add: fs_read_all_def inv_def read_in log_def take_slice try_reserve_def)

lemma program_append:
  assumes "fl_program ops n bs f = (Ok u, f')"
  shows "take (n + length bs) (contents f') = take n (contents f) @ bs"
proof -
  have p: "n + length bs \<le> length (contents f)" "slice_of (contents f') n (n + length bs) = bs"
    "slice_of (contents f') 0 n = slice_of (contents f) 0 n"
    using program_Ok [OF assms] program_frame [OF assms, of n] by simp_all
  have "take (n + length bs) (contents f') = take n (contents f') @ take (length bs) (drop n (contents f'))"
    by (simp add: take_add)
  with p show ?thesis
    by (simp add: slice_of_def)
qed

lemma append_Ok:
  assumes "inv limit s" and "fs_append ops limit bs s = (Ok u, s')"
  shows "inv limit s' \<and> log s' = log s @ bs"
proof -
  have room: "fs_len s + length bs \<le> usize_max" "fs_len s + length bs \<le> limit"
    "fs_len s + length bs \<le> length (contents (fs_flash s))"
    using assms(2) by (auto simp: fs_append_def checked_add_def capacity split: if_splits)
  define s1 where "s1 = (if fs_prepared s then s else s\<lparr>fs_flash := snd (fl_erase ops (fs_flash s)), fs_prepared := True\<rparr>)"
  have "fs_append ops limit bs s
      = (case fl_program ops (fs_len s) bs (fs_flash s1) of (Err e, f) \<Rightarrow> (Err e, s1\<lparr>fs_flash := f\<rparr>)
         | (Ok _, f) \<Rightarrow> (Ok (), s1\<lparr>fs_flash := f, fs_len := fs_len s + length bs\<rparr>))"
  proof (cases "fs_prepared s")
    case False
    obtain r f where e: "fl_erase ops (fs_flash s) = (r, f)" by fastforce
    then have s1: "s1 = s\<lparr>fs_flash := f, fs_prepared := True\<rparr>"
      using False by (simp add: s1_def)
    from e assms(2) room False show ?thesis
      unfolding s1 by (cases r) (simp_all add: fs_append_def checked_add_def capacity)
  next
    case True
    then have s1: "s1 = s" by (simp add: s1_def)
    from True room show ?thesis
      unfolding s1 by (simp add: fs_append_def checked_add_def capacity)
  qed
  then obtain f where f: "fl_program ops (fs_len s) bs (fs_flash s1) = (Ok u, f)"
    "s' = s1\<lparr>fs_flash := f, fs_len := fs_len s + length bs\<rparr>"
    using assms(2) by (auto split: prod.splits result.splits)
  have len: "length (contents (fs_flash s1)) = length (contents (fs_flash s))" and p: "fs_prepared s1"
    using erase_len [of "fs_flash s"] by (auto simp: s1_def prod_eq_iff)
  have "log s1 = log s"
    using assms(1) by (auto simp: s1_def log_def inv_def)
  moreover have "length (contents f) = length (contents (fs_flash s))"
    using program_len [OF f(1)] len by simp
  ultimately show ?thesis
    using program_append [OF f(1)] f(2) room p assms(1)
    by (auto simp: log_def inv_def s1_def split: if_splits)
qed

lemma append_Err:
  assumes "inv limit s" and "fs_append ops limit bs s = (Err e, s')"
  shows "inv limit s' \<and> log s' = log s"
proof -
  have frame: "inv limit (t\<lparr>fs_flash := f\<rparr>) \<and> log (t\<lparr>fs_flash := f\<rparr>) = log t"
    if "inv limit t" "fl_program ops (fs_len t) bs (fs_flash t) = (r, f)" for t r f
    using that program_len [OF that(2)] program_frame [OF that(2), of "fs_len t"]
    by (simp add: inv_def log_def take_slice)
  have erased: "inv limit (s\<lparr>fs_flash := f, fs_prepared := b\<rparr>) \<and> log (s\<lparr>fs_flash := f, fs_prepared := b\<rparr>) = log s"
    if "\<not> fs_prepared s" "fl_erase ops (fs_flash s) = (r, f)" for r f b
    using that assms(1) erase_len [OF that(2)] by (simp add: inv_def log_def)
  have unprep: "s\<lparr>fs_flash := f\<rparr> = s\<lparr>fs_flash := f, fs_prepared := False\<rparr>" if "\<not> fs_prepared s" for f
    using that by (cases s) simp
  show ?thesis
  proof (cases "fs_prepared s")
    case True
    then show ?thesis
      using assms frame [OF assms(1)]
      by (auto simp: fs_append_def split: if_splits prod.splits result.splits option.splits)
  next
    case False
    obtain r f where e: "fl_erase ops (fs_flash s) = (r, f)" by fastforce
    let ?t = "s\<lparr>fs_flash := f, fs_prepared := True\<rparr>"
    show ?thesis
      using assms False e erased [OF False e, of True] erased [OF False e, of False] unprep [OF False, of f]
        frame [of ?t]
      by (auto simp: fs_append_def split: if_splits prod.splits result.splits option.splits)
  qed
qed

lemma matches_from:
  assumes "offset + length bs \<le> length (contents f)" and "offset + length bs \<le> usize_max"
    and "cursor \<le> length bs"
  shows "fs_matches_from ops f offset bs cursor
    = Ok (slice_of (contents f) (offset + cursor) (offset + length bs) = drop cursor bs)"
  using assms(3)
proof (induction "length bs - cursor" arbitrary: cursor rule: less_induct)
  case less
  show ?case
  proof (cases "cursor < length bs")
    case True
    define k where "k = min (length bs - cursor) 64"
    have k: "0 < k" "cursor + k \<le> length bs"
      using True by (auto simp: k_def)
    have IH: "fs_matches_from ops f offset bs (cursor + k)
      = Ok (slice_of (contents f) (offset + (cursor + k)) (offset + length bs) = drop (cursor + k) bs)"
      using less(1) [of "cursor + k"] k True by linarith
    let ?xs = "drop (offset + cursor) (contents f)" and ?ys = "drop cursor bs" and ?n = "length bs - cursor"
    have rd: "fl_read ops f (offset + cursor) k = Ok (take k ?xs)"
      using read_in [of "offset + cursor" k f] assms k by (simp add: slice_of_def)
    have "take k (take ?n ?xs) = take k ?xs"
      using k by (simp add: min_def)
    then have "take ?n ?xs = ?ys \<longleftrightarrow> take k ?xs = take k ?ys \<and> drop k (take ?n ?xs) = drop k ?ys"
      by (metis append_take_drop_id)
    then have "slice_of (contents f) (offset + cursor) (offset + length bs) = ?ys
      \<longleftrightarrow> take k ?xs = take k ?ys \<and> slice_of (contents f) (offset + (cursor + k)) (offset + length bs) = drop k ?ys"
      by (simp add: slice_of_def drop_take add_ac)
    moreover have "slice_of bs cursor (cursor + k) = take k ?ys"
      by (simp add: slice_of_def)
    moreover have "fs_matches_from ops f offset bs cursor
      = (if take k ?xs \<noteq> slice_of bs cursor (cursor + k) then Ok False
         else fs_matches_from ops f offset bs (cursor + k))"
      using True rd by (subst fs_matches_from.simps) (simp add: Let_def k_def)
    ultimately show ?thesis
      using IH by (simp add: add.commute)
  qed (use less.prems in \<open>simp add: fs_matches_from.simps slice_of_def\<close>)
qed

lemma matches_log:
  assumes "inv limit s" and "offset + length bs \<le> usize_max"
  shows "fs_matches ops offset bs s
    = Ok (offset + length bs \<le> length (log s) \<and> slice_of (log s) offset (offset + length bs) = bs)"
proof (cases "offset + length bs \<le> fs_len s")
  case True
  have "slice_of (log s) offset (offset + length bs)
      = slice_of (contents (fs_flash s)) offset (offset + length bs)"
    using True assms(1) by (intro slice_of_eqI) (auto simp: log_def inv_def)
  then show ?thesis
    using True assms matches_from [of offset bs "fs_flash s" 0] length_log [OF assms(1)]
    by (simp add: fs_matches_def checked_add_def inv_def)
next
  case False
  then show ?thesis
    using assms length_log [OF assms(1)] by (simp add: fs_matches_def checked_add_def)
qed

end

text \<open>A sequence of appends, each accepted or refused, and the chunks that were accepted.\<close>

fun upload :: "(bytes \<Rightarrow> ('s, error, unit) act) \<Rightarrow> bytes list \<Rightarrow> 's \<Rightarrow> bytes list \<times> 's" where
  "upload app [] s = ([], s)"
| "upload app (c # cs) s =
     (case app c s of
        (Ok _, s1) \<Rightarrow> (case upload app cs s1 of (taken, s2) \<Rightarrow> (c # taken, s2))
      | (Err _, s1) \<Rightarrow> upload app cs s1)"

section \<open>The contract of package staging\<close>

text \<open>
  \<open>staged s\<close> is the log a client sees: a successful append extends it, a failed one leaves it
  alone, \<open>take\<close> returns it, and handing the taken bytes back restores it.
\<close>

locale package_staging =
  fixes wf :: "'s \<Rightarrow> bool" and staged :: "'s \<Rightarrow> bytes" and limit :: nat
    and stg_append :: "bytes \<Rightarrow> ('s, error, unit) act"
    and stg_matches :: "nat \<Rightarrow> bytes \<Rightarrow> 's \<Rightarrow> bool res"
    and stg_take :: "('s, error, bytes) act"
    and stg_restore :: "bytes \<Rightarrow> ('s, error, unit) act"
    and stg_reset :: "'s \<Rightarrow> 's"
  assumes bounded: "wf s \<Longrightarrow> length (staged s) \<le> limit"
    and append_Ok: "wf s \<Longrightarrow> stg_append bs s = (Ok u, s') \<Longrightarrow> wf s' \<and> staged s' = staged s @ bs"
    and append_Err: "wf s \<Longrightarrow> stg_append bs s = (Err e, s') \<Longrightarrow> wf s' \<and> staged s' = staged s"
    and matches: "wf s \<Longrightarrow> offset + length bs \<le> usize_max \<Longrightarrow> stg_matches offset bs s
        = Ok (offset + length bs \<le> length (staged s) \<and> slice_of (staged s) offset (offset + length bs) = bs)"
    and take_Ok: "wf s \<Longrightarrow> stg_take s = (Ok bs, s') \<Longrightarrow> bs = staged s \<and> wf s'
        \<and> (\<exists>s''. stg_restore bs s' = (Ok (), s'') \<and> wf s'' \<and> staged s'' = staged s)"
    and reset: "wf s \<Longrightarrow> wf (stg_reset s) \<and> staged (stg_reset s) = []"
begin

lemma upload_staged:
  "wf s \<Longrightarrow> wf (snd (upload stg_append cs s)) \<and> staged (snd (upload stg_append cs s)) = staged s @ concat (fst (upload stg_append cs s))"
proof (induction cs arbitrary: s)
  case (Cons c cs)
  obtain r s1 where a: "stg_append c s = (r, s1)" by fastforce
  show ?case
  proof (cases r)
    case (Err e)
    then show ?thesis
      using Cons.IH append_Err [OF Cons.prems] a by simp
  next
    case (Ok u)
    have "wf s1" "staged s1 = staged s @ c"
      using append_Ok [OF Cons.prems] a Ok by simp_all
    then show ?thesis
      using Cons.IH [of s1] a Ok by (cases "upload stg_append cs s1") simp
  qed
qed simp

lemma upload_bounded: "wf s \<Longrightarrow> length (staged s) + length (concat (fst (upload stg_append cs s))) \<le> limit"
  using upload_staged [of s cs] bounded [of "snd (upload stg_append cs s)"] by simp

lemma upload_take:
  assumes "wf s" and "stg_take (snd (upload stg_append cs (stg_reset s))) = (Ok bs, s')"
  shows "bs = concat (fst (upload stg_append cs (stg_reset s)))
    \<and> (\<exists>s''. stg_restore bs s' = (Ok (), s'') \<and> staged s'' = bs)"
  using take_Ok [OF _ assms(2)] upload_staged [of "stg_reset s" cs] reset [OF assms(1)] by auto

end

section \<open>Both implementations meet the contract\<close>

text \<open>Flash staging over any driver that keeps the promises of a staging flash.\<close>

sublocale staging_flash \<subseteq> staged: package_staging "inv limit" log limit "fs_append ops limit"
  "fs_matches ops" "fs_take ops alloc" "fs_restore ops" fs_reset for alloc limit
proof unfold_locales
  fix s bs s'
  assume wf: "inv limit s" and t: "fs_take ops alloc s = (Ok bs, s')"
  have "alloc (fs_len s)" and s': "s' = s"
    using t by (auto simp: fs_take_def fs_read_all_def rbind_eq_Ok)
  then have bs: "bs = log s"
    using t read_all_log [OF wf, of alloc] by (simp add: fs_take_def)
  have len: "length (log s) = fs_len s" "fs_len s \<le> usize_max"
    using length_log [OF wf] wf by (simp_all add: inv_def)
  then have "fs_matches ops 0 bs s = Ok True"
    using matches_log [OF wf, of 0 bs] bs slice_of_full [of "log s"] by simp
  then have "fs_restore ops bs s = (Ok (), s)"
    using len by (simp add: fs_restore_def bs)
  then show "bs = log s \<and> inv limit s' \<and> (\<exists>s''. fs_restore ops bs s' = (Ok (), s'') \<and> inv limit s'' \<and> log s'' = log s)"
    using bs s' wf by auto
next
  fix s
  assume "inv limit s"
  then show "length (log s) \<le> limit" and "inv limit (fs_reset s) \<and> log (fs_reset s) = []"
    using length_log by (auto simp: inv_def fs_reset_def log_def)
qed (use append_Ok append_Err matches_log in \<open>blast+\<close>)

definition ram_wf :: "nat \<Rightarrow> ram_staging \<Rightarrow> bool" where
  "ram_wf limit s \<longleftrightarrow> length (ram_bytes s) \<le> limit"

interpretation ram: package_staging "ram_wf limit" ram_bytes limit "ram_append alloc limit"
  ram_matches ram_take "ram_restore limit" ram_reset for alloc limit
  by unfold_locales
    (auto simp: ram_wf_def ram_append_def ram_matches_def ram_take_def ram_restore_def ram_reset_def
      checked_add_def split: if_splits option.splits)

text \<open>The simulated flash keeps the driver's promises, whatever fault is armed.\<close>

lemma map2_and_id:
  assumes "\<not> list_ex (\<lambda>(current, next). current AND next \<noteq> (next :: byte)) (zip target input)"
    and "length target = length input"
  shows "map2 (AND) target input = input"
  using assms(2,1) by (induction target input rule: list_induct2) auto

lemma sim_program_cells:
  fixes f f' :: sim_flash
  assumes "sim_program offset bs f = (r, f')"
  shows "r = Err Bounds \<and> f' = f \<or> r = Err Storage \<and> f' = f
    \<or> (\<exists>n \<le> length bs. offset + length bs \<le> length (cells f)
        \<and> cells f' = overwrite (cells f) offset (take n bs)
        \<and> (case r of Err _ \<Rightarrow> True | Ok _ \<Rightarrow> n = length bs))"
proof -
  define n where "n = min (case fail_after f of None \<Rightarrow> length bs | Some n \<Rightarrow> n) (length bs)"
  have "n \<le> length bs" by (simp add: n_def)
  then show ?thesis
    using assms unfolding sim_program_def Let_def n_def [symmetric]
    by (auto simp: map2_and_id checked_add_def split: option.splits if_splits)
qed

interpretation sim: staging_flash sim_ops cells
proof unfold_locales
  fix offset n and f :: sim_flash
  assume "offset + n \<le> length (cells f)" "offset + n \<le> usize_max"
  then show "fl_read sim_ops f offset n = Ok (slice_of (cells f) offset (offset + n))"
    by (simp add: sim_ops_def sim_read_def checked_add_def get_range_def)
next
  fix f f' :: sim_flash and r
  assume "fl_erase sim_ops f = (r, f')"
  then show "length (cells f') = length (cells f)"
    by (auto simp: sim_ops_def sim_erase_def)
next
  fix offset bs r and f f' :: sim_flash
  assume "fl_program sim_ops offset bs f = (r, f')"
  then show "length (cells f') = length (cells f)"
    using sim_program_cells [of offset bs f r f'] by (auto simp: sim_ops_def)
next
  fix offset bs u and f f' :: sim_flash
  assume "fl_program sim_ops offset bs f = (Ok u, f')"
  then show "offset + length bs \<le> length (cells f) \<and> slice_of (cells f') offset (offset + length bs) = bs"
    using sim_program_cells [of offset bs f "Ok u" f'] by (auto simp: sim_ops_def slice_of_overwrite)
next
  fix offset bs r b and f f' :: sim_flash
  assume "fl_program sim_ops offset bs f = (r, f')" "b \<le> offset" "b \<le> length (cells f)"
  then show "slice_of (cells f') 0 b = slice_of (cells f) 0 b"
    using sim_program_cells [of offset bs f r f'] slice_of_overwrite_disjoint [of offset _ "cells f" b 0]
    by (auto simp: sim_ops_def)
qed (simp add: sim_ops_def sim_capacity_def)



section \<open>Properties\<close>

text \<open>
  C31 (flash_upload_exact). Flash staging after a reset: whatever chunks are appended, with a fault
  possibly armed in the flash so that an append writes part of its bytes and fails, taking the
  staged package returns exactly the concatenation of the accepted chunks, at most the configured
  limit long, and handing these bytes back is accepted.
\<close>

theorem flash_upload_exact:
  assumes "sim.inv limit s"
    and "fs_take sim_ops alloc (snd (upload (fs_append sim_ops limit) cs (fs_reset s))) = (Ok bs, s')"
  shows "bs = concat (fst (upload (fs_append sim_ops limit) cs (fs_reset s))) \<and> length bs \<le> limit
    \<and> (\<exists>s''. fs_restore sim_ops bs s' = (Ok (), s'') \<and> sim.log s'' = bs)"
  using sim.staged.upload_take [OF assms] sim.staged.upload_bounded [of limit "fs_reset s" cs]
    sim.staged.reset [OF assms(1)] by auto

text \<open>A torn append followed by its retry and one more chunk.\<close>

theorem flash_upload_exact_witness:
  "[1, 2, 3] = concat (fst (upload (fs_append sim_ops 6) [[1, 2], [1, 2], [3]]
      (fs_reset (fs_new \<lparr>cells = [0, 0, 0, 0, 0, 0, 0, 0], fail_after = Some 1\<rparr>)))) \<and> length [1, 2, 3 :: byte] \<le> 6
    \<and> (\<exists>s''. fs_restore sim_ops [1, 2, 3] (fs_new \<lparr>cells = [1, 2, 3, 0xff, 0xff, 0xff, 0xff, 0xff], fail_after = None\<rparr>
        \<lparr>fs_len := 3, fs_prepared := True\<rparr>) = (Ok (), s'') \<and> sim.log s'' = [1, 2, 3])"
proof (rule flash_upload_exact [where alloc = "\<lambda>_. True"])
  show "sim.inv 6 (fs_new \<lparr>cells = [0, 0, 0, 0, 0, 0, 0, 0], fail_after = Some 1\<rparr>)"
    by (simp add: sim.inv_def fs_new_def)
  show "fs_take sim_ops (\<lambda>_. True) (snd (upload (fs_append sim_ops 6) [[1, 2], [1, 2], [3]]
      (fs_reset (fs_new \<lparr>cells = [0, 0, 0, 0, 0, 0, 0, 0], fail_after = Some 1\<rparr>))))
    = (Ok [1, 2, 3], fs_new \<lparr>cells = [1, 2, 3, 0xff, 0xff, 0xff, 0xff, 0xff], fail_after = None\<rparr>
        \<lparr>fs_len := 3, fs_prepared := True\<rparr>)"
    by (simp add: fs_append_def fs_reset_def fs_new_def fs_take_def fs_read_all_def sim_ops_def
        sim_capacity_def sim_program_def sim_erase_def sim_read_def try_reserve_def checked_add_def
        usize_max_def get_range_def slice_of_def overwrite_def)
qed

end
