(* ===== verification/Engine_Error.thy ===== *)
theory Engine_Error
  imports Prelude
begin

text \<open>
  The error enumeration of the Java Card engine
  (\<open>src/crates/microcard-engine-jcvm/src/lib.rs\<close>). The constructors carry the prefix \<open>J\<close>
  because the platform crate has an enumeration of its own with many of the same names.
\<close>

datatype jerror =
    JBounds | JArrayBounds | JFormat | JInconsistent | JUnsupported | JQuota | JTransactionFull
  | JTransactionAborted | JStorage | JIncompatibleState | JCancelled | JType | JArithmetic | JNull
  | JFirewall | JMissing | JUnauthorized

type_synonym 'a jres = "(jerror, 'a) result"
type_synonym ('s, 'a) jact = "('s, jerror, 'a) act"

text \<open>\<open>i16\<close> and \<open>i32\<close> values are kept as words; their sign is read with \<open>sint\<close>.\<close>

type_synonym i16 = "16 word"
type_synonym i32 = "32 word"
type_synonym reference = u16

text \<open>\<open>from_be_bytes\<close> and \<open>to_be_bytes\<close> of the two word sizes.\<close>

definition be16 :: "byte \<Rightarrow> byte \<Rightarrow> u16" where
  "be16 high low = word_of_nat (be_value [high, low])"

text \<open>The same value without a detour through natural numbers, for evaluation.\<close>

lemma be16_code [code]: "be16 high low = 256 * ucast high + ucast low"
  by (simp add: be16_def be_value_def)

definition be16_bytes :: "u16 \<Rightarrow> bytes" where
  "be16_bytes w = be_bytes 2 (unat w)"

definition be32 :: "bytes \<Rightarrow> i32" where
  "be32 bs = word_of_nat (be_value bs)"

definition be32_bytes :: "i32 \<Rightarrow> bytes" where
  "be32_bytes w = be_bytes 4 (unat w)"

end
