(* ===== verification/Frame.thy ===== *)
theory Frame
  imports Engine_Error
begin

text \<open>
  Locals and operand stack of one invocation
  (\<open>src/crates/microcard-engine-jcvm/src/vm/frame.rs\<close>): an arena of 16-bit words with one
  reference tag bit per word packed eight to a byte. The frame is shown to be a bounded stack and
  a local array of tagged words, and never to touch the arena outside its own words and tag bits.
\<close>

section \<open>The frame\<close>

record frame =
  words :: "u16 list"
  tags :: "byte list"
  locals :: nat
  depth :: nat
  max_stack :: nat

type_synonym cell = "u16 \<times> bool"
type_synonym 'a fact = "(frame, 'a) jact"

definition words_for :: "nat \<Rightarrow> nat \<Rightarrow> nat" where
  "words_for locs stack = locs + stack"

definition tag_bytes_for :: "nat \<Rightarrow> nat \<Rightarrow> nat" where
  "tag_bytes_for locs stack = (words_for locs stack + 7) div 8"

definition new_frame :: "u16 list \<Rightarrow> bytes \<Rightarrow> nat \<Rightarrow> nat \<Rightarrow> frame jres" where
  "new_frame ws ts locs stack =
     (if length ws < words_for locs stack \<or> length ts < tag_bytes_for locs stack then Err JQuota
      else Ok \<lparr>words = overwrite ws 0 (replicate (words_for locs stack) 0),
               tags = overwrite ts 0 (replicate (tag_bytes_for locs stack) 0),
               locals = locs, depth = 0, max_stack = stack\<rparr>)"

definition set_tag :: "nat \<Rightarrow> bool \<Rightarrow> frame \<Rightarrow> frame" where
  "set_tag index is_reference f =
     (let mask = push_bit (index mod 8) 1; old = tags f ! (index div 8) in
      f\<lparr>tags := (tags f)[index div 8 := if is_reference then old OR mask else old AND NOT mask]\<rparr>)"

definition tag :: "frame \<Rightarrow> nat \<Rightarrow> bool" where
  "tag f index \<longleftrightarrow> tags f ! (index div 8) AND push_bit (index mod 8) 1 \<noteq> 0"

definition set_word :: "nat \<Rightarrow> u16 \<Rightarrow> frame \<Rightarrow> frame" where
  "set_word index v f = f\<lparr>words := (words f)[index := v]\<rparr>"

definition push_word :: "u16 \<Rightarrow> bool \<Rightarrow> unit fact" where
  "push_word v is_reference f =
     (if depth f \<ge> max_stack f then (Err JQuota, f)
      else let index = locals f + depth f;
               f = set_tag index is_reference (set_word index v f) in
           (Ok (), f\<lparr>depth := depth f + 1\<rparr>))"

definition pop_word :: "bool \<Rightarrow> u16 fact" where
  "pop_word is_reference f =
     (if depth f = 0 then (Err JBounds, f)
      else let index = locals f + depth f - 1 in
           if tag f index \<noteq> is_reference then (Err JType, f)
           else (Ok (words f ! index), f\<lparr>depth := depth f - 1\<rparr>))"

definition pop_raw :: "cell fact" where
  "pop_raw f =
     (if depth f = 0 then (Err JBounds, f)
      else let index = locals f + depth f - 1 in
           (Ok (words f ! index, tag f index), f\<lparr>depth := depth f - 1\<rparr>))"

definition peek_reference :: "nat \<Rightarrow> frame \<Rightarrow> reference jres" where
  "peek_reference below f =
     (if below \<ge> depth f then Err JBounds
      else let index = locals f + depth f - 1 - below in
           if \<not> tag f index then Err JType else Ok (words f ! index))"

definition push_raw :: "cell \<Rightarrow> unit fact" where
  "push_raw c = push_word (fst c) (snd c)"

definition frame_local :: "frame \<Rightarrow> nat \<Rightarrow> u16 jres" where
  "frame_local f index = (if index \<ge> locals f then Err JBounds else Ok (words f ! index))"

definition store_raw :: "nat \<Rightarrow> cell \<Rightarrow> unit fact" where
  "store_raw index c f =
     (case frame_local f index of Err e \<Rightarrow> (Err e, f)
      | Ok _ \<Rightarrow> (Ok (), set_tag index (snd c) (set_word index (fst c) f)))"

definition push_short :: "i16 \<Rightarrow> unit fact" where
  "push_short v = push_word v False"

definition pop_short :: "i16 fact" where
  "pop_short = pop_word False"

definition push_reference :: "reference \<Rightarrow> unit fact" where
  "push_reference v = push_word v True"

definition pop_reference :: "reference fact" where
  "pop_reference = pop_word True"

definition high_word :: "i32 \<Rightarrow> u16" where
  "high_word v = ucast (signed_drop_bit 16 v)"

definition low_word :: "i32 \<Rightarrow> u16" where
  "low_word v = ucast v"

definition join_words :: "u16 \<Rightarrow> u16 \<Rightarrow> i32" where
  "join_words high low = push_bit 16 (ucast high) OR ucast low"

definition push_int :: "i32 \<Rightarrow> unit fact" where
  "push_int v = sbind (push_word (high_word v) False) (\<lambda>_ f.
     case push_word (low_word v) False f of
       (Err _, f) \<Rightarrow> (Err JQuota, f\<lparr>depth := depth f - 1\<rparr>)
     | (Ok _, f) \<Rightarrow> (Ok (), f))"

definition pop_int :: "i32 fact" where
  "pop_int = sbind (pop_word False) (\<lambda>low. sbind (pop_word False) (\<lambda>high. sret (join_words high low)))"

definition duplicate :: "nat \<Rightarrow> nat \<Rightarrow> unit fact" where
  "duplicate count below f =
     (if count = 0 \<or> count > 4 \<or> below > depth f \<or> count > depth f then (Err JBounds, f)
      else if depth f + count > max_stack f then (Err JQuota, f)
      else
        let copied = map (\<lambda>slot. let index = locals f + depth f - count + slot in
                                   (words f ! index, tag f index)) [0..<count];
            insert_at = (if below = 0 then depth f else depth f - below);
            f1 = fold (\<lambda>slot f. let from = locals f + slot; to = from + count in
                         set_tag to (tag (set_word to (words f ! from) f) from)
                           (set_word to (words f ! from) f)) (rev [insert_at..<depth f]) f;
            f2 = fold (\<lambda>(slot, v, r) f. let index = locals f + insert_at + slot in
                         set_tag index r (set_word index v f)) (zip [0..<count] copied) f1 in
        (Ok (), f2\<lparr>depth := depth f2 + count\<rparr>))"

definition clear_stack :: "frame \<Rightarrow> frame" where
  "clear_stack f = f\<lparr>depth := 0\<rparr>"

definition pop_words :: "nat \<Rightarrow> unit fact" where
  "pop_words count f =
     (if count > depth f then (Err JBounds, f) else (Ok (), f\<lparr>depth := depth f - count\<rparr>))"

definition swap :: "nat \<Rightarrow> nat \<Rightarrow> unit fact" where
  "swap count below f =
     (let total = count + below in
      if count = 0 \<or> below = 0 \<or> count > 2 \<or> below > 2 \<or> total > depth f then (Err JBounds, f)
      else
        let copied = map (\<lambda>slot. let index = locals f + depth f - total + slot in
                                   (words f ! index, tag f index)) [0..<total] in
        (Ok (), fold (\<lambda>slot f. let from = (if slot < count then below + slot else slot - count);
                                    index = locals f + depth f - total + slot in
                                set_tag index (snd (copied ! from)) (set_word index (fst (copied ! from)) f))
                  [0..<total] f))"

definition load_short :: "nat \<Rightarrow> frame \<Rightarrow> i16 jres" where
  "load_short index f = rbind (frame_local f index) (\<lambda>w. if tag f index then Err JType else Ok w)"

definition load_reference :: "nat \<Rightarrow> frame \<Rightarrow> reference jres" where
  "load_reference index f = rbind (frame_local f index) (\<lambda>w. if \<not> tag f index then Err JType else Ok w)"

definition load_int :: "nat \<Rightarrow> frame \<Rightarrow> i32 jres" where
  "load_int index f =
     rbind (load_short index f) (\<lambda>high. rbind (load_short (index + 1) f) (\<lambda>low. Ok (join_words high low)))"

definition store_short :: "nat \<Rightarrow> i16 \<Rightarrow> unit fact" where
  "store_short index v f =
     (case frame_local f index of Err e \<Rightarrow> (Err e, f)
      | Ok _ \<Rightarrow> (Ok (), set_tag index False (set_word index v f)))"

definition store_reference :: "nat \<Rightarrow> reference \<Rightarrow> unit fact" where
  "store_reference index v f =
     (case frame_local f index of Err e \<Rightarrow> (Err e, f)
      | Ok _ \<Rightarrow> (Ok (), set_tag index True (set_word index v f)))"

definition store_int :: "nat \<Rightarrow> i32 \<Rightarrow> unit fact" where
  "store_int index v =
     sbind (sget (\<lambda>f. frame_local f (index + 1))) (\<lambda>_.
     sbind (store_short index (high_word v)) (\<lambda>_.
     store_short (index + 1) (low_word v)))"

section \<open>Cells\<close>

definition cell :: "frame \<Rightarrow> nat \<Rightarrow> cell" where
  "cell f i = (words f ! i, tag f i)"

definition put_cell :: "nat \<Rightarrow> cell \<Rightarrow> frame \<Rightarrow> frame" where
  "put_cell i c f = set_tag i (snd c) (set_word i (fst c) f)"

definition arena :: "frame \<Rightarrow> nat" where
  "arena f = min (length (words f)) (8 * length (tags f))"

lemma put_cell_fields [simp]:
  "locals (put_cell i c f) = locals f" "depth (put_cell i c f) = depth f"
  "max_stack (put_cell i c f) = max_stack f"
  "length (words (put_cell i c f)) = length (words f)"
  "length (tags (put_cell i c f)) = length (tags f)"
  by (simp_all add: put_cell_def set_tag_def set_word_def Let_def)

lemma tag_bit: "tag f i \<longleftrightarrow> bit (tags f ! (i div 8)) (i mod 8)"
  unfolding tag_def by (subst bit_iff_and_push_bit_not_eq_0) simp

lemma bit_masked:
  fixes b :: byte
  assumes "m < 8" and "n < 8"
  shows "bit (b OR 2 ^ n) m \<longleftrightarrow> m = n \<or> bit b m"
    and "bit (b AND NOT (2 ^ n)) m \<longleftrightarrow> m \<noteq> n \<and> bit b m"
  using assms by (auto simp: bit_simps)

lemma tag_put_cell:
  assumes "i < arena f" and "j < arena f"
  shows "tag (put_cell i c f) j \<longleftrightarrow> (if j = i then snd c else tag f j)"
proof (cases "j div 8 = i div 8")
  case True
  then have eq: "j mod 8 = i mod 8 \<longleftrightarrow> j = i"
    by (metis mult_div_mod_eq)
  have "i div 8 < length (tags f)"
    using assms(1) by (auto simp: arena_def)
  then show ?thesis
    using eq by (auto simp: tag_bit put_cell_def set_tag_def set_word_def Let_def True bit_masked)
next
  case False
  then have "j \<noteq> i" by auto
  with False show ?thesis
    by (simp add: tag_bit put_cell_def set_tag_def set_word_def Let_def)
qed

interpretation cells: cell_array cell put_cell arena
proof unfold_locales
  fix i j c and f :: frame
  assume ij: "i < arena f" "j < arena f"
  then have "words (put_cell i c f) ! j = (if j = i then fst c else words f ! j)"
    by (simp add: put_cell_def set_tag_def set_word_def Let_def arena_def)
  with tag_put_cell [OF ij] show "cell (put_cell i c f) j = (if j = i then c else cell f j)"
    by (simp add: cell_def)
qed (simp add: arena_def)

lemma depth_update [simp]:
  "cell (f\<lparr>depth := d\<rparr>) i = cell f i" "arena (f\<lparr>depth := d\<rparr>) = arena f"
  by (simp_all add: cell_def tag_def arena_def)

section \<open>The abstract frame\<close>

record aframe =
  alocals :: "cell list"
  astack :: "cell list"
  alimit :: nat

definition abs_frame :: "frame \<Rightarrow> aframe" where
  "abs_frame f = \<lparr>alocals = map (cell f) [0..<locals f],
     astack = map (cell f) [locals f..<locals f + depth f], alimit = max_stack f\<rparr>"

definition frame_inv :: "frame \<Rightarrow> bool" where
  "frame_inv f \<longleftrightarrow> locals f + max_stack f \<le> arena f \<and> depth f \<le> max_stack f"

text \<open>What a frame operation leaves alone: the shape, and every cell of the arena past the frame.\<close>

definition same_outside :: "frame \<Rightarrow> frame \<Rightarrow> bool" where
  "same_outside f f' \<longleftrightarrow> locals f' = locals f \<and> max_stack f' = max_stack f \<and> arena f' = arena f
     \<and> (\<forall>i. locals f + max_stack f \<le> i \<and> i < arena f \<longrightarrow> cell f' i = cell f i)"

definition a_push :: "cell \<Rightarrow> (aframe, unit) jact" where
  "a_push c s = (if length (astack s) \<ge> alimit s then (Err JQuota, s)
     else (Ok (), s\<lparr>astack := astack s @ [c]\<rparr>))"

definition a_pop :: "bool \<Rightarrow> (aframe, u16) jact" where
  "a_pop r s = (if astack s = [] then (Err JBounds, s)
     else if snd (last (astack s)) \<noteq> r then (Err JType, s)
     else (Ok (fst (last (astack s))), s\<lparr>astack := butlast (astack s)\<rparr>))"

definition a_pop_raw :: "(aframe, cell) jact" where
  "a_pop_raw s = (if astack s = [] then (Err JBounds, s)
     else (Ok (last (astack s)), s\<lparr>astack := butlast (astack s)\<rparr>))"

definition a_peek :: "nat \<Rightarrow> aframe \<Rightarrow> reference jres" where
  "a_peek below s = (if below \<ge> length (astack s) then Err JBounds
     else let c = rev (astack s) ! below in if snd c then Ok (fst c) else Err JType)"

definition a_load :: "bool \<Rightarrow> nat \<Rightarrow> aframe \<Rightarrow> u16 jres" where
  "a_load r i s = (if i \<ge> length (alocals s) then Err JBounds
     else if snd (alocals s ! i) \<noteq> r then Err JType else Ok (fst (alocals s ! i)))"

definition a_store :: "nat \<Rightarrow> cell \<Rightarrow> (aframe, unit) jact" where
  "a_store i c s = (if i \<ge> length (alocals s) then (Err JBounds, s)
     else (Ok (), s\<lparr>alocals := (alocals s)[i := c]\<rparr>))"

definition a_push_int :: "i32 \<Rightarrow> (aframe, unit) jact" where
  "a_push_int v s = (if length (astack s) + 2 > alimit s then (Err JQuota, s)
     else (Ok (), s\<lparr>astack := astack s @ [(high_word v, False), (low_word v, False)]\<rparr>))"

definition a_duplicate :: "nat \<Rightarrow> nat \<Rightarrow> (aframe, unit) jact" where
  "a_duplicate count below s =
     (let st = astack s; d = length st in
      if count = 0 \<or> count > 4 \<or> below > d \<or> count > d then (Err JBounds, s)
      else if d + count > alimit s then (Err JQuota, s)
      else (Ok (), s\<lparr>astack := take (d - below) st @ drop (d - count) st @ drop (d - below) st\<rparr>))"

definition a_swap :: "nat \<Rightarrow> nat \<Rightarrow> (aframe, unit) jact" where
  "a_swap count below s =
     (let st = astack s; d = length st; total = count + below in
      if count = 0 \<or> below = 0 \<or> count > 2 \<or> below > 2 \<or> total > d then (Err JBounds, s)
      else (Ok (), s\<lparr>astack := take (d - total) st @ drop (d - count) st
              @ take below (drop (d - total) st)\<rparr>))"

definition a_pop_words :: "nat \<Rightarrow> (aframe, unit) jact" where
  "a_pop_words count s = (if count > length (astack s) then (Err JBounds, s)
     else (Ok (), s\<lparr>astack := take (length (astack s) - count) (astack s)\<rparr>))"

section \<open>Refinement\<close>

definition refines :: "'a fact \<Rightarrow> (aframe, 'a) jact \<Rightarrow> bool" where
  "refines m a \<longleftrightarrow> (\<forall>f r f'. frame_inv f \<longrightarrow> m f = (r, f')
     \<longrightarrow> a (abs_frame f) = (r, abs_frame f') \<and> frame_inv f' \<and> same_outside f f')"

lemma refinesI:
  assumes "\<And>f. frame_inv f \<Longrightarrow> \<exists>r f'. m f = (r, f') \<and> a (abs_frame f) = (r, abs_frame f')
    \<and> frame_inv f' \<and> same_outside f f'"
  shows "refines m a"
  using assms unfolding refines_def by fastforce

lemma same_outside_refl [simp]: "same_outside f f"
  by (simp add: same_outside_def)

lemma same_outside_trans: "same_outside f g \<Longrightarrow> same_outside g h \<Longrightarrow> same_outside f h"
  by (auto simp: same_outside_def)

lemma refines_sret [intro]: "refines (sret x) (sret x)"
  by (simp add: refines_def)

lemma refines_sbind [intro]:
  assumes "refines m a" and "\<And>x. refines (k x) (b x)"
  shows "refines (sbind m k) (sbind a b)"
  unfolding refines_def
proof (intro allI impI)
  fix f r f'
  assume inv: "frame_inv f" and run: "sbind m k f = (r, f')"
  obtain r1 g where m: "m f = (r1, g)" by fastforce
  then have g: "a (abs_frame f) = (r1, abs_frame g)" "frame_inv g" "same_outside f g"
    using assms(1) inv by (auto simp: refines_def)
  show "sbind a b (abs_frame f) = (r, abs_frame f') \<and> frame_inv f' \<and> same_outside f f'"
  proof (cases r1)
    case (Err e)
    then show ?thesis using m g run by simp
  next
    case (Ok x)
    then have "k x g = (r, f')" using m run by simp
    then have "b x (abs_frame g) = (r, abs_frame f')" "frame_inv f'" "same_outside g f'"
      using assms(2) [of x] g(2) by (auto simp: refines_def)
    then show ?thesis
      using Ok g same_outside_trans by (auto intro: same_outside_trans)
  qed
qed

lemma refines_sget:
  assumes "\<And>f. frame_inv f \<Longrightarrow> g f = h (abs_frame f)"
  shows "refines (sget g) (sget h)"
  using assms by (auto simp: refines_def)

lemma abs_frame_simps [simp]:
  "length (alocals (abs_frame f)) = locals f" "length (astack (abs_frame f)) = depth f"
  "alimit (abs_frame f) = max_stack f" "astack (abs_frame f) = [] \<longleftrightarrow> depth f = 0"
  by (auto simp: abs_frame_def)

lemma nth_alocals [simp]: "i < locals f \<Longrightarrow> alocals (abs_frame f) ! i = cell f i"
  by (simp add: abs_frame_def)

lemma nth_astack [simp]: "i < depth f \<Longrightarrow> astack (abs_frame f) ! i = cell f (locals f + i)"
  by (simp add: abs_frame_def)

lemma last_astack: "depth f \<noteq> 0 \<Longrightarrow> last (astack (abs_frame f)) = cell f (locals f + depth f - 1)"
  by (simp add: last_conv_nth)

text \<open>Two abstract frames agree when their cells do.\<close>

lemma aframe_eqI:
  assumes "alocals s = alocals t" and "length (astack s) = length (astack t)"
    and "\<And>i. i < length (astack s) \<Longrightarrow> astack s ! i = astack t ! i" and "alimit s = alimit t"
  shows "(s :: aframe) = t"
proof -
  have "astack s = astack t"
    using assms(2,3) by (rule nth_equalityI)
  with assms(1,4) show ?thesis
    by (cases s; cases t) simp
qed

lemma abs_update_locals:
  assumes "frame_inv f" and "i < locals f"
  shows "abs_frame (put_cell i c f) = abs_frame f\<lparr>alocals := (alocals (abs_frame f))[i := c]\<rparr>"
proof (rule aframe_eqI)
  show "alocals (abs_frame (put_cell i c f))
      = alocals (abs_frame f\<lparr>alocals := (alocals (abs_frame f))[i := c]\<rparr>)"
    using assms by (intro nth_equalityI) (auto simp: cells.get_put frame_inv_def nth_list_update)
qed (use assms in \<open>auto simp: cells.get_put frame_inv_def\<close>)

text \<open>A new operand stack, given by its depth and its cells.\<close>

lemma abs_new_stack:
  assumes "frame_inv f" and "same_outside f g" and "\<And>i. i < locals f \<Longrightarrow> cell g i = cell f i"
    and "depth g = length st" and "\<And>i. i < length st \<Longrightarrow> cell g (locals f + i) = st ! i"
  shows "abs_frame g = abs_frame f\<lparr>astack := st\<rparr>"
proof (rule aframe_eqI)
  have eq: "locals g = locals f" "max_stack g = max_stack f"
    using assms(2) by (simp_all add: same_outside_def)
  show "alocals (abs_frame g) = alocals (abs_frame f\<lparr>astack := st\<rparr>)"
    using assms(3) eq by (intro nth_equalityI) simp_all
  show "alimit (abs_frame g) = alimit (abs_frame f\<lparr>astack := st\<rparr>)"
    by (simp add: eq)
  fix i
  assume "i < length (astack (abs_frame g))"
  then show "astack (abs_frame g) ! i = astack (abs_frame f\<lparr>astack := st\<rparr>) ! i"
    using assms(4,5) eq by simp
qed (use assms(4) in simp)

lemma same_outside_put:
  "frame_inv f \<Longrightarrow> i < locals f + max_stack f \<Longrightarrow> same_outside f (put_cell i c f)"
  by (auto simp: same_outside_def cells.get_put frame_inv_def)

lemma same_outside_depth [simp]: "same_outside f (g\<lparr>depth := d\<rparr>) = same_outside f g"
  by (simp add: same_outside_def)

lemma frame_inv_outside: "frame_inv f \<Longrightarrow> same_outside f g \<Longrightarrow> depth g \<le> max_stack f \<Longrightarrow> frame_inv g"
  by (simp add: frame_inv_def same_outside_def)

subsection \<open>The operations\<close>

lemma push_word_alt:
  "push_word v r f = (if depth f \<ge> max_stack f then (Err JQuota, f)
     else (Ok (), (put_cell (locals f + depth f) (v, r) f)\<lparr>depth := depth f + 1\<rparr>))"
  by (simp add: push_word_def put_cell_def Let_def set_tag_def set_word_def)

lemma refines_push: "refines (push_word v r) (a_push (v, r))"
proof (rule refinesI)
  fix f
  assume inv: "frame_inv f"
  let ?g = "(put_cell (locals f + depth f) (v, r) f)\<lparr>depth := depth f + 1\<rparr>"
  show "\<exists>res f'. push_word v r f = (res, f') \<and> a_push (v, r) (abs_frame f) = (res, abs_frame f')
    \<and> frame_inv f' \<and> same_outside f f'"
  proof (cases "depth f \<ge> max_stack f")
    case False
    then have out: "same_outside f ?g"
      using same_outside_put [OF inv] by simp
    have "abs_frame ?g = abs_frame f\<lparr>astack := astack (abs_frame f) @ [(v, r)]\<rparr>"
      using inv out False
      by (intro abs_new_stack) (auto simp: cells.get_put frame_inv_def nth_append less_Suc_eq)
    then show ?thesis
      using False out frame_inv_outside [OF inv out] by (auto simp: push_word_alt a_push_def)
  qed (use inv in \<open>simp add: push_word_alt a_push_def\<close>)
qed

lemma abs_shrink:
  assumes "frame_inv f" and "d \<le> depth f"
  shows "abs_frame (f\<lparr>depth := d\<rparr>) = abs_frame f\<lparr>astack := take d (astack (abs_frame f))\<rparr>"
  using assms by (intro abs_new_stack) auto

lemma shrink_ok: "frame_inv f \<Longrightarrow> d \<le> depth f \<Longrightarrow> frame_inv (f\<lparr>depth := d\<rparr>)"
  by (simp add: frame_inv_def)

lemma refines_pop: "refines (pop_word r) (a_pop r)"
  by (rule refinesI)
    (auto simp: pop_word_def a_pop_def Let_def last_astack abs_shrink shrink_ok cell_def butlast_conv_take)

lemma refines_pop_raw: "refines pop_raw a_pop_raw"
  by (rule refinesI)
    (auto simp: pop_raw_def a_pop_raw_def Let_def last_astack abs_shrink shrink_ok cell_def butlast_conv_take)

lemma refines_pop_words: "refines (pop_words n) (a_pop_words n)"
  by (rule refinesI) (auto simp: pop_words_def a_pop_words_def abs_shrink shrink_ok)

lemma refines_peek: "refines (sget (peek_reference n)) (sget (a_peek n))"
  by (rule refines_sget) (auto simp: peek_reference_def a_peek_def Let_def rev_nth cell_def)

lemma refines_load: 
  "refines (sget (load_short i)) (sget (a_load False i))"
  "refines (sget (load_reference i)) (sget (a_load True i))"
  by (rule refines_sget, simp add: load_short_def load_reference_def frame_local_def a_load_def cell_def)+

lemma refines_store: "refines (store_raw i c) (a_store i c)"
proof (rule refinesI)
  fix f
  assume inv: "frame_inv f"
  then show "\<exists>r f'. store_raw i c f = (r, f') \<and> a_store i c (abs_frame f) = (r, abs_frame f')
    \<and> frame_inv f' \<and> same_outside f f'"
    using abs_update_locals [OF inv, of i c] same_outside_put [OF inv, of i c]
      frame_inv_outside [OF inv, of "put_cell i c f"]
    by (auto simp: store_raw_def a_store_def frame_local_def put_cell_def [symmetric] frame_inv_def)
qed

lemma store_raw_eqs:
  "store_short i v = store_raw i (v, False)" "store_reference i v = store_raw i (v, True)"
  by (auto simp: store_short_def store_reference_def store_raw_def fun_eq_iff split: result.splits)

lemma refines_push_int: "refines (push_int v) (a_push_int v)"
proof (rule refinesI)
  fix f
  assume inv: "frame_inv f"
  let ?h = "(high_word v, False)" and ?l = "(low_word v, False)"
  let ?g = "(put_cell (locals f + depth f) ?h f)\<lparr>depth := depth f + 1\<rparr>"
  have push: "push_word (high_word v) False f = (Ok (), ?g)" if "depth f < max_stack f"
    using that by (simp add: push_word_alt)
  consider "depth f \<ge> max_stack f" | "depth f + 1 = max_stack f" | "depth f + 2 \<le> max_stack f"
    by linarith
  then show "\<exists>r f'. push_int v f = (r, f') \<and> a_push_int v (abs_frame f) = (r, abs_frame f')
    \<and> frame_inv f' \<and> same_outside f f'"
  proof cases
    case 1
    then show ?thesis
      using inv by (simp add: push_int_def a_push_int_def sbind_def push_word_alt)
  next
    case 2
    let ?u = "(put_cell (locals f + depth f) ?h f)\<lparr>depth := depth f\<rparr>"
    have out: "same_outside f ?u"
      using 2 same_outside_put [OF inv] by simp
    have "abs_frame ?u = abs_frame f\<lparr>astack := astack (abs_frame f)\<rparr>"
      using inv out 2 by (intro abs_new_stack) (auto simp: cells.get_put frame_inv_def)
    moreover have "push_int v f = (Err JQuota, ?u)"
      using push 2 by (simp add: push_int_def push_word_alt [of "low_word v"])
    ultimately show ?thesis
      using 2 out frame_inv_outside [OF inv out] by (simp add: a_push_int_def)
  next
    case 3
    have "refines (sbind (push_word (high_word v) False) (\<lambda>_. push_word (low_word v) False))
        (sbind (a_push ?h) (\<lambda>_. a_push ?l))"
      by (intro refines_sbind refines_push)
    moreover obtain r g where run: "sbind (push_word (high_word v) False) (\<lambda>_. push_word (low_word v) False) f = (r, g)"
      by fastforce
    ultimately have ref: "sbind (a_push ?h) (\<lambda>_. a_push ?l) (abs_frame f) = (r, abs_frame g)"
      "frame_inv g" "same_outside f g"
      using inv by (auto simp: refines_def)
    have "push_int v f = (r, g)"
      using run push 3 by (auto simp: push_int_def push_word_alt [of "low_word v"])
    moreover have "a_push_int v (abs_frame f) = (r, abs_frame g)"
      using ref(1) 3 by (auto simp: a_push_int_def a_push_def sbind_def)
    ultimately show ?thesis
      using ref by blast
  qed
qed

lemma refines_store_int: "refines (store_int i v)
    (sbind (sget (\<lambda>s. if i + 1 \<ge> length (alocals s) then Err JBounds else Ok ()))
       (\<lambda>_. sbind (a_store i (high_word v, False)) (\<lambda>_. a_store (i + 1) (low_word v, False))))"
proof -
  have "store_int i v = sbind (sget (\<lambda>f. if i + 1 \<ge> locals f then Err JBounds else Ok ()))
     (\<lambda>_. sbind (store_raw i (high_word v, False)) (\<lambda>_. store_raw (i + 1) (low_word v, False)))"
    by (auto simp: store_int_def store_raw_eqs frame_local_def sbind_def fun_eq_iff)
  then show ?thesis
    by (auto intro!: refines_sget refines_store)
qed

subsection \<open>Bulk stack operations\<close>

lemma duplicate_alt:
  assumes "0 < count" "count \<le> 4" "below \<le> depth f" "count \<le> depth f" "depth f + count \<le> max_stack f"
  defines "at \<equiv> locals f + (depth f - below)"
  defines "g \<equiv> fold (\<lambda>k s. put_cell (k + count) (cell s k) s) (rev [at..<locals f + depth f]) f"
  defines "h \<equiv> fold (\<lambda>k. put_cell (at + k) (cell f (locals f + depth f - count + k))) [0..<count] g"
  shows "duplicate count below f = (Ok (), h\<lparr>depth := depth f + count\<rparr>)"
proof -
  let ?ins = "if below = 0 then depth f else depth f - below"
  define F where "F = (\<lambda>slot f. let from = locals f + slot; to = from + count in
      set_tag to (tag (set_word to (words f ! from) f) from) (set_word to (words f ! from) f))"
  define G where "G = (\<lambda>slot s. put_cell (locals f + slot + count) (cell s (locals f + slot)) s)"
  let ?P = "\<lambda>s. locals s = locals f \<and> depth s = depth f"
  have "fold F xs f = fold G xs f \<and> ?P (fold G xs f)" for xs
    by (rule fold_cong_inv) (auto simp: F_def G_def Let_def put_cell_def cell_def tag_def set_word_def set_tag_def)
  moreover have "fold G (rev [?ins..<depth f]) f = g"
  proof -
    have "rev [at..<locals f + depth f] = map ((+) (locals f)) (rev [?ins..<depth f])"
      using upt_offset [of "locals f"] by (simp add: at_def rev_map [symmetric])
    then show ?thesis
      by (simp add: g_def fold_map G_def comp_def add_ac)
  qed
  ultimately have f1: "fold F (rev [?ins..<depth f]) f = g" "?P g"
    by metis+
  define C where "C = (\<lambda>k. cell f (locals f + depth f - count + k))"
  define H where "H = (\<lambda>(slot, v, r) s. let index = locals s + ?ins + slot in set_tag index r (set_word index v s))"
  define K where "K = (\<lambda>(slot, c) s. put_cell (at + slot) c s)"
  have "fold H xs g = fold K xs g \<and> ?P (fold K xs g)" for xs
    using f1(2) by (intro fold_cong_inv) (auto simp: H_def K_def Let_def put_cell_def at_def set_tag_def set_word_def)
  moreover have "zip [0..<count] (map C [0..<count]) = map (\<lambda>k. (k, C k)) [0..<count]"
    by (simp add: zip_map2 zip_same_conv_map)
  moreover have "fold K (map (\<lambda>k. (k, C k)) [0..<count]) g = h"
    by (simp add: h_def fold_map K_def C_def comp_def)
  ultimately have f2: "fold H (zip [0..<count] (map C [0..<count])) g = h" "?P h"
    by metis+
  show ?thesis
    using assms(1-5) f1(1) f2
    by (simp add: duplicate_def Let_def F_def [unfolded Let_def] H_def [unfolded Let_def] C_def cell_def)
qed

lemma fold_put_fields:
  "locals (fold (\<lambda>x s. put_cell (a x s) (b x s) s) xs f) = locals f"
  "max_stack (fold (\<lambda>x s. put_cell (a x s) (b x s) s) xs f) = max_stack f"
  by (induction xs arbitrary: f) simp_all

lemma refines_duplicate: "refines (duplicate count below) (a_duplicate count below)"
proof (rule refinesI)
  fix f
  assume inv: "frame_inv f"
  let ?l = "locals f" and ?d = "depth f" and ?st = "astack (abs_frame f)"
  show "\<exists>r f'. duplicate count below f = (r, f') \<and> a_duplicate count below (abs_frame f) = (r, abs_frame f')
    \<and> frame_inv f' \<and> same_outside f f'"
  proof (cases "0 < count \<and> count \<le> 4 \<and> below \<le> ?d \<and> count \<le> ?d \<and> ?d + count \<le> max_stack f")
    case True
    define at where "at = ?l + (?d - below)"
    define g where "g = fold (\<lambda>k s. put_cell (k + count) (cell s k) s) (rev [at..<?l + ?d]) f"
    define h where "h = fold (\<lambda>k. put_cell (at + k) (cell f (?l + ?d - count + k))) [0..<count] g"
    have arena: "?l + max_stack f \<le> arena f" "arena g = arena f" "arena h = arena f"
      using inv by (simp_all add: frame_inv_def g_def h_def)
    have cell_g: "cell g j = (if at + count \<le> j \<and> j < ?l + ?d + count then cell f (j - count) else cell f j)"
      if "j < arena f" for j
      using that True arena unfolding g_def by (intro cells.get_shift_up) auto
    have cell_h: "cell h j = (if at \<le> j \<and> j < at + count then cell f (?l + ?d - count + (j - at))
        else if at + count \<le> j \<and> j < ?l + ?d + count then cell f (j - count) else cell f j)"
      if "j < arena f" for j
      using that True arena cells.get_run [of at count g j] cell_g [OF that] unfolding h_def
      by (auto simp: at_def)
    have out: "same_outside f (h\<lparr>depth := ?d + count\<rparr>)"
      using True arena by (auto simp: same_outside_def cell_h at_def) (simp_all add: h_def g_def fold_put_fields)
    have "abs_frame (h\<lparr>depth := ?d + count\<rparr>)
        = abs_frame f\<lparr>astack := take (?d - below) ?st @ drop (?d - count) ?st @ drop (?d - below) ?st\<rparr>"
      using inv out True arena by (intro abs_new_stack) (auto simp: cell_h at_def nth_append intro!: arg_cong [of _ _ "cell f"])
    moreover have "duplicate count below f = (Ok (), h\<lparr>depth := ?d + count\<rparr>)"
      using duplicate_alt [of count below f] True by (simp add: h_def g_def at_def)
    ultimately show ?thesis
      using True out frame_inv_outside [OF inv out] by (simp add: a_duplicate_def Let_def)
  qed (use inv in \<open>auto simp: duplicate_def a_duplicate_def Let_def\<close>)
qed

lemma swap_alt:
  assumes "0 < count" "0 < below" "count \<le> 2" "below \<le> 2" "count + below \<le> depth f"
  defines "at \<equiv> locals f + depth f - (count + below)"
  shows "swap count below f
    = (Ok (), fold (\<lambda>k. put_cell (at + k) (cell f (at + (if k < count then below + k else k - count))))
        [0..<count + below] f)"
proof -
  let ?from = "\<lambda>k. if k < count then below + k else k - count"
  define C where "C = map (\<lambda>slot. let index = locals f + depth f - (count + below) + slot in
      (words f ! index, tag f index)) [0..<count + below]"
  have C: "C ! ?from k = cell f (at + ?from k)" if "k < count + below" for k
    using that by (auto simp: C_def cell_def at_def Let_def)
  let ?P = "\<lambda>s. locals s = locals f \<and> depth s = depth f"
  have "fold (\<lambda>slot s. let from = ?from slot; index = locals s + depth s - (count + below) + slot in
         set_tag index (snd (C ! from)) (set_word index (fst (C ! from)) s)) [0..<count + below] f
     = fold (\<lambda>k. put_cell (at + k) (cell f (at + ?from k))) [0..<count + below] f
     \<and> ?P (fold (\<lambda>k. put_cell (at + k) (cell f (at + ?from k))) [0..<count + below] f)"
    by (rule fold_cong_inv) (auto simp: C Let_def put_cell_def [symmetric] at_def)
  then show ?thesis
    using assms(1-5) by (simp add: swap_def C_def Let_def)
qed

lemma refines_swap: "refines (swap count below) (a_swap count below)"
proof (rule refinesI)
  fix f
  assume inv: "frame_inv f"
  let ?l = "locals f" and ?d = "depth f" and ?st = "astack (abs_frame f)" and ?n = "count + below"
  show "\<exists>r f'. swap count below f = (r, f') \<and> a_swap count below (abs_frame f) = (r, abs_frame f')
    \<and> frame_inv f' \<and> same_outside f f'"
  proof (cases "0 < count \<and> 0 < below \<and> count \<le> 2 \<and> below \<le> 2 \<and> ?n \<le> ?d")
    case True
    define at where "at = ?l + ?d - ?n"
    define h where "h = fold (\<lambda>k. put_cell (at + k) (cell f (at + (if k < count then below + k else k - count)))) [0..<?n] f"
    have arena: "?l + ?d \<le> ?l + max_stack f" "?l + max_stack f \<le> arena f" "arena h = arena f"
      using inv by (simp_all add: frame_inv_def h_def)
    have cell_h: "cell h j = (if at \<le> j \<and> j < at + ?n
        then cell f (at + (if j - at < count then below + (j - at) else j - at - count)) else cell f j)"
      if "j < arena f" for j
      using that True arena unfolding h_def by (subst cells.get_run) (auto simp: at_def)
    have depth_h: "depth h = ?d"
      unfolding h_def by (rule fold_invariant [where P = "\<lambda>s. depth s = ?d" and Q = "\<lambda>_. True"]) simp_all
    have out: "same_outside f h"
      using True arena by (auto simp: same_outside_def cell_h at_def) (simp_all add: h_def fold_put_fields)
    have "abs_frame h = abs_frame f\<lparr>astack := take (?d - ?n) ?st @ drop (?d - count) ?st
        @ take below (drop (?d - ?n) ?st)\<rparr>"
      using inv out True arena depth_h
      by (intro abs_new_stack) (auto simp: cell_h at_def nth_append intro!: arg_cong [of _ _ "cell f"])
    moreover have "swap count below f = (Ok (), h)"
      using swap_alt [of count below f] True by (simp add: h_def at_def)
    ultimately show ?thesis
      using True out frame_inv_outside [OF inv out] depth_h inv by (simp add: a_swap_def Let_def frame_inv_def)
  qed (use inv in \<open>auto simp: swap_def a_swap_def Let_def\<close>)
qed

section \<open>Runs of frame operations\<close>

datatype fop =
    Push_short i16 | Pop_short | Push_reference reference | Pop_reference | Push_int i32 | Pop_int
  | Push_raw cell | Pop_raw | Peek_reference nat | Duplicate nat nat | Swap nat nat | Pop_words nat
  | Clear_stack | Load_short nat | Load_reference nat | Load_int nat
  | Store_short nat i16 | Store_reference nat reference | Store_int nat i32 | Store_raw nat cell

datatype fval = FUnit | FShort i16 | FRef reference | FInt i32 | FCell cell

definition smap :: "('a \<Rightarrow> 'b) \<Rightarrow> ('s, 'e, 'a) act \<Rightarrow> ('s, 'e, 'b) act" where
  "smap g m = sbind m (\<lambda>x. sret (g x))"

fun frame_step :: "fop \<Rightarrow> fval fact" where
  "frame_step (Push_short v) = smap (\<lambda>_. FUnit) (push_short v)"
| "frame_step Pop_short = smap FShort pop_short"
| "frame_step (Push_reference v) = smap (\<lambda>_. FUnit) (push_reference v)"
| "frame_step Pop_reference = smap FRef pop_reference"
| "frame_step (Push_int v) = smap (\<lambda>_. FUnit) (push_int v)"
| "frame_step Pop_int = smap FInt pop_int"
| "frame_step (Push_raw c) = smap (\<lambda>_. FUnit) (push_raw c)"
| "frame_step Pop_raw = smap FCell pop_raw"
| "frame_step (Peek_reference n) = smap FRef (sget (peek_reference n))"
| "frame_step (Duplicate m n) = smap (\<lambda>_. FUnit) (duplicate m n)"
| "frame_step (Swap m n) = smap (\<lambda>_. FUnit) (swap m n)"
| "frame_step (Pop_words n) = smap (\<lambda>_. FUnit) (pop_words n)"
| "frame_step Clear_stack = smap (\<lambda>_. FUnit) (smodify clear_stack)"
| "frame_step (Load_short i) = smap FShort (sget (load_short i))"
| "frame_step (Load_reference i) = smap FRef (sget (load_reference i))"
| "frame_step (Load_int i) = smap FInt (sget (load_int i))"
| "frame_step (Store_short i v) = smap (\<lambda>_. FUnit) (store_short i v)"
| "frame_step (Store_reference i v) = smap (\<lambda>_. FUnit) (store_reference i v)"
| "frame_step (Store_int i v) = smap (\<lambda>_. FUnit) (store_int i v)"
| "frame_step (Store_raw i c) = smap (\<lambda>_. FUnit) (store_raw i c)"

text \<open>The same operations on tagged words: a stack, a list of locals and a stack limit.\<close>

fun spec_step :: "fop \<Rightarrow> (aframe, fval) jact" where
  "spec_step (Push_short v) = smap (\<lambda>_. FUnit) (a_push (v, False))"
| "spec_step Pop_short = smap FShort (a_pop False)"
| "spec_step (Push_reference v) = smap (\<lambda>_. FUnit) (a_push (v, True))"
| "spec_step Pop_reference = smap FRef (a_pop True)"
| "spec_step (Push_int v) = smap (\<lambda>_. FUnit) (a_push_int v)"
| "spec_step Pop_int = smap FInt
     (sbind (a_pop False) (\<lambda>low. sbind (a_pop False) (\<lambda>high. sret (join_words high low))))"
| "spec_step (Push_raw c) = smap (\<lambda>_. FUnit) (a_push c)"
| "spec_step Pop_raw = smap FCell a_pop_raw"
| "spec_step (Peek_reference n) = smap FRef (sget (a_peek n))"
| "spec_step (Duplicate m n) = smap (\<lambda>_. FUnit) (a_duplicate m n)"
| "spec_step (Swap m n) = smap (\<lambda>_. FUnit) (a_swap m n)"
| "spec_step (Pop_words n) = smap (\<lambda>_. FUnit) (a_pop_words n)"
| "spec_step Clear_stack = smap (\<lambda>_. FUnit) (smodify (\<lambda>s. s\<lparr>astack := []\<rparr>))"
| "spec_step (Load_short i) = smap FShort (sget (a_load False i))"
| "spec_step (Load_reference i) = smap FRef (sget (a_load True i))"
| "spec_step (Load_int i) = smap FInt
     (sbind (sget (a_load False i)) (\<lambda>high. sbind (sget (a_load False (i + 1))) (\<lambda>low. sret (join_words high low))))"
| "spec_step (Store_short i v) = smap (\<lambda>_. FUnit) (a_store i (v, False))"
| "spec_step (Store_reference i v) = smap (\<lambda>_. FUnit) (a_store i (v, True))"
| "spec_step (Store_int i v) = smap (\<lambda>_. FUnit)
     (sbind (sget (\<lambda>s. if i + 1 \<ge> length (alocals s) then Err JBounds else Ok ()))
        (\<lambda>_. sbind (a_store i (high_word v, False)) (\<lambda>_. a_store (i + 1) (low_word v, False))))"
| "spec_step (Store_raw i c) = smap (\<lambda>_. FUnit) (a_store i c)"

fun run_ops :: "('op \<Rightarrow> ('s, 'v) jact) \<Rightarrow> 'op list \<Rightarrow> 's \<Rightarrow> 'v jres list \<times> 's" where
  "run_ops step [] s = ([], s)"
| "run_ops step (x # xs) s =
     (case step x s of (r, s1) \<Rightarrow> (case run_ops step xs s1 of (rs, s2) \<Rightarrow> (r # rs, s2)))"

lemma refines_smap: "refines m a \<Longrightarrow> refines (smap g m) (smap g a)"
  by (auto simp: smap_def)

lemma refines_clear: "refines (smodify clear_stack) (smodify (\<lambda>s. s\<lparr>astack := []\<rparr>))"
  by (rule refinesI) (auto simp: clear_stack_def abs_shrink frame_inv_def)

lemma refines_load_int: "refines (sget (load_int i))
  (sbind (sget (a_load False i)) (\<lambda>high. sbind (sget (a_load False (i + 1))) (\<lambda>low. sret (join_words high low))))"
proof -
  have "sget (load_int i) = sbind (sget (load_short i)) (\<lambda>high.
      sbind (sget (load_short (i + 1))) (\<lambda>low. sret (join_words high low)))"
    by (auto simp: load_int_def sbind_def rbind_def fun_eq_iff split: result.splits)
  then show ?thesis
    by (auto intro: refines_load)
qed

lemma step_refines: "refines (frame_step x) (spec_step x)"
proof (cases x)
  case Pop_int
  show ?thesis
    by (auto simp: Pop_int pop_int_def intro!: refines_smap refines_pop)
qed (simp_all add: push_short_def push_reference_def pop_short_def pop_reference_def push_raw_def
    store_raw_eqs refines_smap refines_push refines_pop refines_push_int
    refines_push [of "fst c" "snd c" for c :: cell, simplified] refines_pop_raw refines_peek
    refines_duplicate refines_swap refines_pop_words refines_clear refines_load refines_load_int [simplified]
    refines_store refines_store_int [simplified])

lemma run_refines:
  assumes "frame_inv f"
  shows "run_ops spec_step xs (abs_frame f) = (fst (run_ops frame_step xs f), abs_frame (snd (run_ops frame_step xs f)))
    \<and> frame_inv (snd (run_ops frame_step xs f)) \<and> same_outside f (snd (run_ops frame_step xs f))"
  using assms
proof (induction xs arbitrary: f)
  case (Cons x xs)
  obtain r g where x: "frame_step x f = (r, g)" by fastforce
  then have "spec_step x (abs_frame f) = (r, abs_frame g)" "frame_inv g" "same_outside f g"
    using step_refines [of x] Cons.prems by (auto simp: refines_def)
  with Cons.IH [of g] x show ?case
    by (auto split: prod.splits intro: same_outside_trans)
qed simp

lemma new_frame_inv:
  assumes "new_frame ws ts locs stack = Ok f"
  shows "frame_inv f \<and> abs_frame f = \<lparr>alocals = replicate locs (0, False), astack = [], alimit = stack\<rparr>"
proof -
  have len: "locs + stack \<le> length ws" "(locs + stack + 7) div 8 \<le> length ts"
    and f: "f = \<lparr>words = replicate (locs + stack) 0 @ drop (locs + stack) ws,
      tags = replicate ((locs + stack + 7) div 8) 0 @ drop ((locs + stack + 7) div 8) ts,
      locals = locs, depth = 0, max_stack = stack\<rparr>"
    using assms by (auto simp: new_frame_def words_for_def tag_bytes_for_def overwrite_def split: if_splits)
  have "cell f i = (0, False)" if "i < locs" for i
    using that len by (auto simp: cell_def tag_bit f nth_append)
  then have "map (cell f) [0..<locs] = replicate locs (0, False)"
    by (intro nth_equalityI) simp_all
  moreover have "locs + stack \<le> 8 * length ts"
    using len(2) by linarith
  ultimately show ?thesis
    using len by (auto simp: abs_frame_def frame_inv_def arena_def f)
qed

section \<open>Properties\<close>

text \<open>
  C8 (frame_simulation). Any sequence of frame operations on a new frame returns exactly the
  results, errors included, and reaches exactly the contents of the tagged stack and locals
  specification started with null locals and an empty stack, and no word or tag bit of the arena
  outside the frame changes. In particular a word pushed or stored as a number is never returned
  as a reference nor the other way round, whatever the sequence.
\<close>

theorem frame_simulation:
  assumes "new_frame ws ts locs stack = Ok f" and "run_ops frame_step xs f = (rs, f')"
  shows "run_ops spec_step xs \<lparr>alocals = replicate locs (0, False), astack = [], alimit = stack\<rparr> = (rs, abs_frame f')
    \<and> same_outside f f'"
  using run_refines [of f xs] new_frame_inv [OF assms(1)] assms(2) by simp

lemma replicate_5: "replicate 5 x = [x, x, x, x, x]"
  by (simp add: numeral_eq_Suc)

theorem frame_simulation_witness:
  "run_ops spec_step [Push_reference 7, Push_int 0x10002, Pop_reference, Duplicate 1 3, Store_reference 0 7, Pop_short]
     \<lparr>alocals = replicate 1 (0, False), astack = [], alimit = 4\<rparr>
     = ([Ok FUnit, Ok FUnit, Err JType, Ok FUnit, Ok FUnit, Ok (FShort 2)],
        abs_frame \<lparr>words = [7, 2, 7, 1, 2, 9], tags = [5], locals = 1, depth = 3, max_stack = 4\<rparr>)
   \<and> same_outside \<lparr>words = [0, 0, 0, 0, 0, 9], tags = [0], locals = 1, depth = 0, max_stack = 4\<rparr>
       \<lparr>words = [7, 2, 7, 1, 2, 9], tags = [5], locals = 1, depth = 3, max_stack = 4\<rparr>"
proof (rule frame_simulation)
  show "new_frame [1, 2, 3, 4, 5, 9] [0xff] 1 4
      = Ok \<lparr>words = [0, 0, 0, 0, 0, 9], tags = [0], locals = 1, depth = 0, max_stack = 4\<rparr>"
    using replicate_5 by (simp add: new_frame_def words_for_def tag_bytes_for_def overwrite_def)
qed (simp add: smap_def sbind_def push_reference_def push_int_def push_word_def set_word_def set_tag_def
    high_word_def low_word_def pop_reference_def pop_short_def pop_word_def tag_def duplicate_def
    store_reference_def frame_local_def Let_def)

text \<open>
  The two words of an int determine it: what \<open>push_int\<close> and
  \<open>store_int\<close> split, \<open>pop_int\<close> and \<open>load_int\<close> join again, for every 32-bit value.
\<close>

theorem int_words_roundtrip:
  "join_words (high_word v) (low_word v) = v \<and> high_word (join_words h l) = h \<and> low_word (join_words h l) = l"
proof -
  have "join_words (high_word v) (low_word v) = v"
    by (rule bit_word_eqI) (auto simp: join_words_def high_word_def low_word_def bit_simps)
  moreover have "high_word (join_words h l) = h"
    by (rule bit_word_eqI) (auto simp: join_words_def high_word_def bit_simps dest: bit_imp_le_length)
  moreover have "low_word (join_words h l) = l"
    by (rule bit_word_eqI) (auto simp: join_words_def low_word_def bit_simps)
  ultimately show ?thesis by simp
qed

end
