(* ===== verification/Undo.thy ===== *)
theory Undo
  imports Engine_Error
begin

text \<open>
  The bounded undo log of a Java Card transaction
  (\<open>src/crates/microcard-engine-jcvm/src/vm/heap/undo.rs\<close>). Records are before-images followed
  by a four byte address and a two byte length, so that the log is walked from its end without an
  index; addresses of static fields carry bit 16. The raw bytes are related to a list of
  before-images, newest first, and the log to the view of memory it restores.
\<close>

section \<open>The log\<close>

record undo =
  records :: bytes
  limit :: nat

definition undo_new :: "(nat \<Rightarrow> bool) \<Rightarrow> nat \<Rightarrow> undo jres" where
  "undo_new alloc n = (if alloc n then Ok \<lparr>records = [], limit = n\<rparr> else Err JTransactionFull)"

definition remaining :: "undo \<Rightarrow> nat" where
  "remaining u = limit u - length (records u)"

definition rewind :: "nat \<Rightarrow> undo \<Rightarrow> undo" where
  "rewind n u = u\<lparr>records := take (limit u - n) (records u)\<rparr>"

text \<open>Start, address and length of the record that ends at \<open>end\<close>.\<close>

definition entry :: "bytes \<Rightarrow> nat \<Rightarrow> nat \<times> nat \<times> nat" where
  "entry rs end =
     (let offset = be_value (slice_of rs (end - 6) (end - 2));
          n = be_value (slice_of rs (end - 2) end) in
      (end - 6 - n, offset, n))"

function saved :: "bytes \<Rightarrow> nat \<Rightarrow> nat \<Rightarrow> nat \<Rightarrow> bool" where
  "saved rs at end cursor =
     (if cursor = 0 then False
      else case entry rs cursor of (start, offset, n) \<Rightarrow>
        (offset \<le> at \<and> end \<le> offset + n) \<or> saved rs at end start)"
  by pat_completeness auto
termination
  by (relation "measure (\<lambda>(_, _, _, cursor). cursor)") (auto simp: entry_def Let_def)

definition record_before :: "nat \<Rightarrow> bytes \<Rightarrow> bool \<Rightarrow> (undo, unit) jact" where
  "record_before at before statics u =
     (if before = [] then (Ok (), u)
      else case checked_add at (length before) of None \<Rightarrow> (Err JBounds, u) | Some end \<Rightarrow>
      if end > u16_max then (Err JBounds, u)
      else
        let flag = push_bit 16 (of_bool statics); at = at OR flag; end = end OR flag in
        if saved (records u) at end (length (records u)) then (Ok (), u)
        else case checked_add (length before) 6 of None \<Rightarrow> (Err JTransactionFull, u) | Some cost \<Rightarrow>
        if cost > remaining u then (Err JTransactionFull, u)
        else (Ok (), u\<lparr>records := records u @ before @ be_bytes 4 at @ be_bytes 2 (length before)\<rparr>))"

function preserve_from :: "nat \<Rightarrow> bytes \<Rightarrow> bytes \<Rightarrow> nat \<Rightarrow> bytes" where
  "preserve_from at v rs cursor =
     (if cursor = 0 then rs
      else case entry rs cursor of (start, offset, n) \<Rightarrow>
        let lo = max at offset; hi = min (at + length v) (offset + n) in
        preserve_from at v
          (if lo < hi then overwrite rs (start + lo - offset) (slice_of v (lo - at) (hi - at)) else rs) start)"
  by pat_completeness auto
termination
  by (relation "measure (\<lambda>(_, _, _, cursor). cursor)") (auto simp: entry_def Let_def)

definition preserve :: "nat \<Rightarrow> bytes \<Rightarrow> undo \<Rightarrow> undo" where
  "preserve at v u = u\<lparr>records := preserve_from at v (records u) (length (records u))\<rparr>"

function restore_from :: "bytes \<Rightarrow> nat \<Rightarrow> bytes \<Rightarrow> bytes \<Rightarrow> bytes \<times> bytes" where
  "restore_from rs cursor heap statics =
     (if cursor = 0 then (heap, statics)
      else case entry rs cursor of (start, offset, n) \<Rightarrow>
        let image = slice_of rs start (start + n); at = offset AND 0xffff in
        if drop_bit 16 offset = 0 then restore_from rs start (overwrite heap at image) statics
        else restore_from rs start heap (overwrite statics at image))"
  by pat_completeness auto
termination
  by (relation "measure (\<lambda>(_, cursor, _, _). cursor)") (auto simp: entry_def Let_def)

definition restore :: "undo \<Rightarrow> bytes \<Rightarrow> bytes \<Rightarrow> bytes \<times> bytes" where
  "restore u = restore_from (records u) (length (records u))"

function project_from :: "bytes \<Rightarrow> nat \<Rightarrow> nat \<Rightarrow> nat \<Rightarrow> bool \<Rightarrow> nat \<Rightarrow> bytes \<Rightarrow> unit jres \<times> bytes" where
  "project_from rs at end whole statics cursor out =
     (if cursor = 0 then (Ok (), out)
      else case entry rs cursor of (start, offset, n) \<Rightarrow>
        if (drop_bit 16 offset \<noteq> 0) = statics then
          let offset = offset AND 0xffff in
          if statics \<or> offset < whole then
            (case checked_add offset n of None \<Rightarrow> (Err JBounds, out) | Some record_end \<Rightarrow>
             if record_end > whole then (Err JBounds, out)
             else
               let lo = max at offset; hi = min end record_end in
               project_from rs at end whole statics start
                 (if lo < hi then overwrite out (lo - at) (slice_of rs (start + lo - offset) (start + hi - offset))
                  else out))
          else project_from rs at end whole statics start out
        else project_from rs at end whole statics start out)"
  by pat_completeness auto
termination
  by (relation "measure (\<lambda>(_, _, _, _, _, cursor, _). cursor)") (auto simp: entry_def Let_def)

declare saved.simps [simp del] preserve_from.simps [simp del] restore_from.simps [simp del]
  project_from.simps [simp del]

text \<open>The output buffer is returned as well: a failing projection has written part of it.\<close>

definition project_range :: "bytes \<Rightarrow> nat \<Rightarrow> nat \<Rightarrow> bool \<Rightarrow> undo \<Rightarrow> unit jres \<times> bytes" where
  "project_range out at whole statics u =
     (case checked_add at (length out) of None \<Rightarrow> (Err JBounds, out) | Some end \<Rightarrow>
      if end > whole then (Err JBounds, out)
      else project_from (records u) at end whole statics (length (records u)) out)"

definition project :: "bytes \<Rightarrow> bool \<Rightarrow> undo \<Rightarrow> unit jres \<times> bytes" where
  "project out statics u = project_range out 0 (length out) statics u"

section \<open>Before-images\<close>

text \<open>A before-image is an address, with bit 16 for statics, and the bytes that were there.\<close>

type_synonym image = "nat \<times> bytes"

definition image_bytes :: "image \<Rightarrow> bytes" where
  "image_bytes e = snd e @ be_bytes 4 (fst e) @ be_bytes 2 (length (snd e))"

fun log_bytes :: "image list \<Rightarrow> bytes" where
  "log_bytes [] = []"
| "log_bytes (e # es) = log_bytes es @ image_bytes e"

definition image_ok :: "image \<Rightarrow> bool" where
  "image_ok e \<longleftrightarrow> snd e \<noteq> [] \<and> fst e < 2 ^ 17 \<and> fst e mod 2 ^ 16 + length (snd e) \<le> u16_max"

definition undo_rel :: "undo \<Rightarrow> image list \<Rightarrow> bool" where
  "undo_rel u es \<longleftrightarrow> records u = log_bytes es \<and> list_all image_ok es \<and> length (records u) \<le> limit u"

text \<open>What address \<open>k\<close> held before the images were taken, when it holds \<open>b\<close> now.\<close>

fun undone :: "image list \<Rightarrow> nat \<Rightarrow> byte \<Rightarrow> byte" where
  "undone [] k b = b"
| "undone ((a, bs) # es) k b = undone es k (if a \<le> k \<and> k < a + length bs then bs ! (k - a) else b)"

definition covered :: "image list \<Rightarrow> nat \<Rightarrow> bool" where
  "covered es k \<longleftrightarrow> list_ex (\<lambda>(a, bs). a \<le> k \<and> k < a + length bs) es"

definition patch :: "nat \<Rightarrow> bytes \<Rightarrow> image \<Rightarrow> image" where
  "patch at v e = (fst e, map (\<lambda>i. if at \<le> fst e + i \<and> fst e + i < at + length v then v ! (fst e + i - at) else snd e ! i)
     [0..<length (snd e)])"

lemma length_image [simp]: "length (image_bytes e) = length (snd e) + 6"
  by (simp add: image_bytes_def)

lemma undone_covered: "covered es k \<Longrightarrow> undone es k b = undone es k c"
  by (induction es k b arbitrary: c rule: undone.induct) (auto simp: covered_def)

lemma undone_uncovered: "\<not> covered es k \<Longrightarrow> undone es k b = b"
  by (induction es k b rule: undone.induct) (auto simp: covered_def)

lemma undone_patch:
  "undone (map (patch at v) es) k b =
     (if at \<le> k \<and> k < at + length v \<and> covered es k then v ! (k - at) else undone es k b)"
proof (induction es arbitrary: b)
  case (Cons e es)
  obtain a bs where e: "e = (a, bs)" by (cases e)
  show ?case
    using Cons.IH undone_uncovered [of es k] by (auto simp: e patch_def covered_def)
qed (simp add: covered_def)

text \<open>The end of a log is its newest image, whatever follows it in the buffer.\<close>

lemma entry_log:
  assumes "take end rs = log_bytes (e # es)" and "end \<le> length rs" and "image_ok e"
  shows "entry rs end = (length (log_bytes es), fst e, length (snd e))"
    and "slice_of rs (length (log_bytes es)) (length (log_bytes es) + length (snd e)) = snd e"
proof -
  let ?m = "length (log_bytes es)" and ?n = "length (snd e)"
  have n: "end = ?m + ?n + 6"
    using arg_cong [OF assms(1), of length] assms(2) by simp
  have sl: "slice_of rs i j = take (j - i) (drop i (log_bytes (e # es)))" if "j \<le> end" for i j
    using that unfolding assms(1) [symmetric] by (simp add: slice_of_def drop_take min_def)
  have lt: "fst e < 256 ^ 4" "?n < 256 ^ 2"
    using assms(3) by (auto simp: image_ok_def u16_max_def)
  show "slice_of rs ?m (?m + ?n) = snd e"
    using n by (subst sl) (simp_all add: image_bytes_def)
  have "slice_of rs (end - 6) (end - 2) = be_bytes 4 (fst e)"
    using n by (subst sl) (simp_all add: image_bytes_def)
  moreover have "slice_of rs (end - 2) end = be_bytes 2 ?n"
    using n by (subst sl) (simp_all add: image_bytes_def)
  ultimately show "entry rs end = (?m, fst e, ?n)"
    using lt n by (simp add: entry_def)
qed

lemma take_log_prefix:
  assumes "take end rs = log_bytes (e # es)" and "end \<le> length rs"
  shows "take (length (log_bytes es)) rs = log_bytes es" and "length (log_bytes es) \<le> length rs"
    and "end \<noteq> 0" and "end = length (log_bytes es) + length (snd e) + 6"
proof -
  show n: "end = length (log_bytes es) + length (snd e) + 6"
    using arg_cong [OF assms(1), of length] assms(2) by simp
  then show "length (log_bytes es) \<le> length rs" "end \<noteq> 0"
    using assms(2) by simp_all
  have "take (length (log_bytes es)) (take end rs) = log_bytes es"
    unfolding assms(1) by simp
  then show "take (length (log_bytes es)) rs = log_bytes es"
    using n by (simp add: min_def)
qed

lemma log_empty:
  assumes "take end rs = log_bytes []" and "end \<le> length rs"
  shows "end = 0"
  using arg_cong [OF assms(1), of length] assms(2) by simp

section \<open>The loops over the log\<close>

lemma saved_log:
  assumes "take cursor rs = log_bytes es" and "cursor \<le> length rs" and "list_all image_ok es"
  shows "saved rs at end cursor \<longleftrightarrow> list_ex (\<lambda>(a, bs). a \<le> at \<and> end \<le> a + length bs) es"
  using assms
proof (induction es arbitrary: cursor)
  case Nil
  then show ?case
    using log_empty by (auto simp: saved.simps)
next
  case (Cons e es)
  note pre = take_log_prefix [OF Cons.prems(1,2)]
  have "saved rs at end (length (log_bytes es)) \<longleftrightarrow> list_ex (\<lambda>(a, bs). a \<le> at \<and> end \<le> a + length bs) es"
    using Cons.IH [OF pre(1,2)] Cons.prems(3) by simp
  moreover have "entry rs cursor = (length (log_bytes es), fst e, length (snd e))"
    using entry_log(1) Cons.prems by simp
  ultimately show ?case
    using pre(3) by (subst saved.simps) (auto split: prod.splits)
qed

lemma entry_append:
  assumes "image_ok e"
  shows "entry (log_bytes (e # es) @ rest) (length (log_bytes (e # es))) = (length (log_bytes es), fst e, length (snd e))"
    and "slice_of (log_bytes (e # es) @ rest) (length (log_bytes es)) (length (log_bytes es) + length (snd e)) = snd e"
  using entry_log [of "length (log_bytes (e # es))" "log_bytes (e # es) @ rest" e es] assms
  by (simp_all add: image_bytes_def)

lemma overwrite_middle:
  "i + length xs \<le> length bs \<Longrightarrow> overwrite (l @ bs @ t) (length l + i) xs = l @ overwrite bs i xs @ t"
  by (simp add: overwrite_def)

lemma patch_overwrite:
  assumes "lo = max at a" and "hi = min (at + length v) (a + length bs)" and "lo < hi"
  shows "overwrite bs (lo - a) (slice_of v (lo - at) (hi - at)) = snd (patch at v (a, bs))"
proof (rule nth_equalityI)
  have len: "lo - a + length (slice_of v (lo - at) (hi - at)) = hi - a"
    "length (slice_of v (lo - at) (hi - at)) = hi - lo"
    using assms by auto
  then show l: "length (overwrite bs (lo - a) (slice_of v (lo - at) (hi - at))) = length (snd (patch at v (a, bs)))"
    using assms by (simp add: patch_def)
  fix i
  assume "i < length (overwrite bs (lo - a) (slice_of v (lo - at) (hi - at)))"
  then have i: "i < length bs"
    using l by (simp add: patch_def)
  have "overwrite bs (lo - a) (slice_of v (lo - at) (hi - at)) ! i
      = (if lo - a \<le> i \<and> i < hi - a then slice_of v (lo - at) (hi - at) ! (i - (lo - a)) else bs ! i)"
    using len assms i by (subst nth_overwrite) auto
  also have "\<dots> = (if lo - a \<le> i \<and> i < hi - a then v ! (a + i - at) else bs ! i)"
    using assms i nth_slice_of [of "hi - at" v "i - (lo - a)" "lo - at"] by (auto simp: max_def add.commute)
  also have "\<dots> = snd (patch at v (a, bs)) ! i"
    using assms i by (auto simp: patch_def)
  finally show "overwrite bs (lo - a) (slice_of v (lo - at) (hi - at)) ! i = snd (patch at v (a, bs)) ! i" .
qed

lemma patch_disjoint: "\<not> max at a < min (at + length v) (a + length bs) \<Longrightarrow> patch at v (a, bs) = (a, bs)"
  by (auto simp: patch_def intro!: nth_equalityI)

lemma patch_simps [simp]: "fst (patch at v e) = fst e" "length (snd (patch at v e)) = length (snd e)"
  by (simp_all add: patch_def)

lemma image_ok_patch [simp]: "image_ok (patch at v e) = image_ok e"
  by (simp add: image_ok_def flip: length_greater_0_conv)

lemma preserve_log:
  assumes "list_all image_ok es"
  shows "preserve_from at v (log_bytes es @ rest) (length (log_bytes es)) = log_bytes (map (patch at v) es) @ rest"
  using assms
proof (induction es arbitrary: rest)
  case (Cons e es)
  obtain a bs where e: "e = (a, bs)" by (cases e)
  define lo where "lo = max at a"
  define hi where "hi = min (at + length v) (a + length bs)"
  let ?t = "be_bytes 4 a @ be_bytes 2 (length bs) @ rest"
  let ?rs = "log_bytes (e # es) @ rest"
  have rs: "?rs = log_bytes es @ bs @ ?t"
    by (simp add: e image_bytes_def)
  have step: "(if lo < hi then overwrite ?rs (length (log_bytes es) + lo - a) (slice_of v (lo - at) (hi - at)) else ?rs)
      = log_bytes es @ snd (patch at v e) @ ?t"
  proof (cases "lo < hi")
    case True
    have "lo - a + length (slice_of v (lo - at) (hi - at)) \<le> length bs"
      using True by (auto simp: lo_def hi_def)
    then have "overwrite ?rs (length (log_bytes es) + (lo - a)) (slice_of v (lo - at) (hi - at))
        = log_bytes es @ overwrite bs (lo - a) (slice_of v (lo - at) (hi - at)) @ ?t"
      unfolding rs by (rule overwrite_middle)
    moreover have "length (log_bytes es) + lo - a = length (log_bytes es) + (lo - a)"
      by (simp add: lo_def)
    ultimately show ?thesis
      using patch_overwrite [OF lo_def hi_def True] True by (simp add: e)
  next
    case False
    then have "patch at v e = e"
      using patch_disjoint [of at a v bs] by (simp only: e lo_def hi_def not_False_eq_True)
    with False show ?thesis
      by (simp add: e image_bytes_def)
  qed
  have en: "entry ?rs (length (log_bytes (e # es))) = (length (log_bytes es), a, length bs)"
    and nz: "length (log_bytes (e # es)) \<noteq> 0"
    using entry_append(1) [of e] Cons.prems by (simp_all add: e)
  have "preserve_from at v ?rs (length (log_bytes (e # es)))
      = preserve_from at v (log_bytes es @ snd (patch at v e) @ ?t) (length (log_bytes es))"
    by (subst preserve_from.simps)
      (simp only: nz en prod.case if_False Let_def lo_def [symmetric] hi_def [symmetric] step)
  also have "\<dots> = log_bytes (map (patch at v) es) @ snd (patch at v e) @ ?t"
    using Cons by simp
  finally show ?case
    by (simp add: image_bytes_def e)
qed (simp add: preserve_from.simps)

section \<open>Addresses\<close>

lemma address_split: "a AND 0xffff = a mod 65536" "drop_bit 16 a = a div 65536" for a :: nat
  using take_bit_eq_mask [of 16 a] by (simp_all add: take_bit_eq_mod drop_bit_eq_div mask_eq_exp_minus_1)

lemma flag_address:
  assumes "a \<le> u16_max"
  shows "a OR push_bit 16 (of_bool statics) = a + 65536 * of_bool statics"
proof (cases statics)
  case True
  have "take_bit 16 a = a"
    using assms by (simp add: take_bit_nat_eq_self u16_max_def)
  then have "bit a n \<Longrightarrow> n < 16" for n
    by (metis bit_take_bit_iff)
  moreover have "(\<And>n. bit a n \<Longrightarrow> n < k) \<Longrightarrow> a AND push_bit k 1 = 0" for k
    by (rule bit_eqI) (auto simp: bit_simps)
  ultimately have "a AND push_bit 16 1 = 0"
    by blast
  then show ?thesis
    using disjunctive_add_eq_or [of a "push_bit 16 1"] True by simp
qed simp

text \<open>The images fit the memory they were taken from.\<close>

definition fits :: "nat \<Rightarrow> nat \<Rightarrow> image \<Rightarrow> bool" where
  "fits heap_len static_len e \<longleftrightarrow>
     (if fst e < 65536 then fst e + length (snd e) \<le> heap_len
      else fst e - 65536 + length (snd e) \<le> static_len)"

lemma image_address:
  assumes "image_ok (a, bs)"
  shows "a div 65536 = 0 \<longleftrightarrow> a < 65536" and "a < 65536 \<Longrightarrow> a mod 65536 = a"
    and "\<not> a < 65536 \<Longrightarrow> a mod 65536 = a - 65536"
proof -
  have a: "a < 131072"
    using assms by (simp add: image_ok_def)
  then show "a div 65536 = 0 \<longleftrightarrow> a < 65536" by auto
  show "a < 65536 \<Longrightarrow> a mod 65536 = a" by simp
  show "\<not> a < 65536 \<Longrightarrow> a mod 65536 = a - 65536"
    using a by (simp add: le_mod_geq)
qed

lemma restore_log:
  assumes "list_all image_ok es" and "list_all (fits (length heap) (length statics)) es"
  shows "\<exists>heap' statics'. restore_from (log_bytes es @ rest) (length (log_bytes es)) heap statics = (heap', statics')
    \<and> length heap' = length heap \<and> length statics' = length statics
    \<and> (\<forall>i < length heap. i < 65536 \<longrightarrow> heap' ! i = undone es i (heap ! i))
    \<and> (\<forall>i < length statics. statics' ! i = undone es (65536 + i) (statics ! i))"
  using assms
proof (induction es arbitrary: heap statics rest)
  case (Cons e es)
  obtain a bs where e: "e = (a, bs)" by (cases e)
  let ?m = "length (log_bytes es)" and ?rs = "log_bytes (e # es) @ rest"
  have ok: "image_ok (a, bs)" "fits (length heap) (length statics) (a, bs)"
    using Cons.prems by (simp_all add: e)
  note addr = image_address [OF ok(1)]
  have en: "entry ?rs (length (log_bytes (e # es))) = (?m, a, length bs)" "slice_of ?rs ?m (?m + length bs) = bs"
    and nz: "length (log_bytes (e # es)) \<noteq> 0"
    using entry_append [of e es rest] ok(1) by (simp_all add: e)
  define heap1 where "heap1 = (if a < 65536 then overwrite heap a bs else heap)"
  define statics1 where "statics1 = (if a < 65536 then statics else overwrite statics (a - 65536) bs)"
  have step: "restore_from ?rs (length (log_bytes (e # es))) heap statics = restore_from ?rs ?m heap1 statics1"
    by (subst restore_from.simps)
      (simp only: nz en prod.case if_False Let_def address_split, auto simp: addr heap1_def statics1_def)
  have len: "length heap1 = length heap" "length statics1 = length statics"
    using ok(2) by (auto simp: heap1_def statics1_def fits_def)
  have "list_all (fits (length heap1) (length statics1)) es" "list_all image_ok es"
    using Cons.prems len by simp_all
  then obtain heap' statics' where r: "restore_from ?rs ?m heap1 statics1 = (heap', statics')"
    "length heap' = length heap1" "length statics' = length statics1"
    "\<forall>i < length heap1. i < 65536 \<longrightarrow> heap' ! i = undone es i (heap1 ! i)"
    "\<forall>i < length statics1. statics' ! i = undone es (65536 + i) (statics1 ! i)"
    using Cons.IH [of heap1 statics1 "image_bytes e @ rest"] by auto
  have h: "heap1 ! i = (if a \<le> i \<and> i < a + length bs then bs ! (i - a) else heap ! i)"
    if "i < length heap" "i < 65536" for i
    using that ok(2) by (auto simp: heap1_def fits_def nth_overwrite)
  have s: "statics1 ! i = (if a \<le> 65536 + i \<and> 65536 + i < a + length bs then bs ! (65536 + i - a) else statics ! i)"
    if "i < length statics" for i
  proof (cases "a < 65536")
    case True
    then show ?thesis
      using ok(1) by (auto simp: statics1_def image_ok_def u16_max_def)
  next
    case False
    then show ?thesis
      using that ok(2) by (auto simp: statics1_def fits_def nth_overwrite intro!: arg_cong [of _ _ "(!) bs"])
  qed
  have hs: "\<forall>i < length heap. i < 65536 \<longrightarrow> heap' ! i = undone (e # es) i (heap ! i)"
    "\<forall>i < length statics. statics' ! i = undone (e # es) (65536 + i) (statics ! i)"
    using r(4,5) len h s by (simp_all add: e)
  show ?case
    by (rule exI [of _ heap'], rule exI [of _ statics'])
      (intro conjI hs trans [OF step r(1)], simp_all only: r(2,3) len)
qed (simp add: restore_from.simps)

definition side :: "bool \<Rightarrow> nat" where
  "side statics = (if statics then 65536 else 0)"

text \<open>The images a projection accepts: those of the other side, past its end, or within it.\<close>

definition projects :: "bool \<Rightarrow> nat \<Rightarrow> image \<Rightarrow> bool" where
  "projects statics whole e \<longleftrightarrow> (fst e < 65536) = statics \<or> \<not> statics \<and> whole \<le> fst e
     \<or> fst e - side statics + length (snd e) \<le> whole"

lemma project_log:
  assumes "list_all image_ok es" and "whole \<le> 65536" and "list_all (projects statics whole) es"
    and "at + length out \<le> whole"
  shows "\<exists>out'. project_from (log_bytes es @ rest) at (at + length out) whole statics (length (log_bytes es)) out = (Ok (), out')
    \<and> length out' = length out
    \<and> (\<forall>i < length out. out' ! i = undone es (side statics + (at + i)) (out ! i))"
  using assms
proof (induction es arbitrary: out rest)
  case (Cons e es)
  obtain a bs where e: "e = (a, bs)" by (cases e)
  let ?m = "length (log_bytes es)" and ?rs = "log_bytes (e # es) @ rest" and ?stop = "at + length out"
  have ok: "image_ok (a, bs)"
    and fit: "(a < 65536) = statics \<or> \<not> statics \<and> whole \<le> a \<or> a - side statics + length bs \<le> whole"
    using Cons.prems by (simp_all add: e projects_def)
  note addr = image_address [OF ok]
  have en: "entry ?rs (length (log_bytes (e # es))) = (?m, a, length bs)"
    and nz: "length (log_bytes (e # es)) \<noteq> 0"
    using entry_append [of e es rest] ok by (simp_all add: e)
  define b where "b = a - side statics"
  define lo where "lo = max at b"
  define hi where "hi = min ?stop (b + length bs)"
  define out1 where "out1 = (if (a < 65536) \<noteq> statics \<and> lo < hi
      then overwrite out (lo - at) (slice_of ?rs (?m + lo - b) (?m + hi - b)) else out)"
  have bs: "bs \<noteq> []" "b + length bs \<le> usize_max" if "(a < 65536) \<noteq> statics"
    using ok that addr by (auto simp: image_ok_def b_def side_def usize_max_def u16_max_def)
  have step: "project_from ?rs at ?stop whole statics (length (log_bytes (e # es))) out
      = project_from ?rs at ?stop whole statics ?m out1"
  proof (cases "(a < 65536) = statics \<or> \<not> statics \<and> whole \<le> a")
    case True
    show ?thesis
    proof (cases "(a < 65536) = statics")
      case True
      then have "((a div 65536 \<noteq> 0) = statics) = False" "out1 = out"
        using addr(1) by (auto simp: out1_def)
      then show ?thesis
        by (subst project_from.simps) (simp only: nz en prod.case if_False Let_def address_split)
    next
      case False
      with True have past: "a mod 65536 = a" "((a div 65536 \<noteq> 0) = statics) = True" "(statics \<or> a < whole) = False" "out1 = out"
        using addr Cons.prems(4) by (auto simp: out1_def lo_def hi_def b_def side_def)
      then show ?thesis
        by (subst project_from.simps) (simp only: nz en prod.case if_False if_True Let_def address_split past)
    qed
  next
    case False
    then have differ: "(a < 65536) \<noteq> statics" by blast
    with False have b: "a mod 65536 = b" "checked_add b (length bs) = Some (b + length bs)"
      "((a div 65536 \<noteq> 0) = statics) = True" "(statics \<or> b < whole) = True" "(whole < b + length bs) = False"
      "out1 = (if lo < hi then overwrite out (lo - at) (slice_of ?rs (?m + lo - b) (?m + hi - b)) else out)"
      using addr bs [OF differ] fit
      by (auto simp: b_def side_def checked_add_def out1_def simp flip: length_greater_0_conv)
    show ?thesis
      by (subst project_from.simps)
        (simp only: nz en prod.case if_False if_True Let_def address_split b option.case
          lo_def [symmetric] hi_def [symmetric])
  qed
  have img: "slice_of ?rs (?m + lo - b) (?m + hi - b) = slice_of bs (lo - b) (hi - b)" if "lo < hi"
  proof -
    have "?rs = log_bytes es @ bs @ be_bytes 4 a @ be_bytes 2 (length bs) @ rest"
      by (simp add: e image_bytes_def)
    moreover have "?m + lo - b = ?m + (lo - b)" "?m + hi - b = ?m + (hi - b)" "hi - b \<le> length bs"
      using that by (auto simp: lo_def hi_def)
    ultimately show ?thesis
      by (simp add: slice_of_def)
  qed
  have len: "length out1 = length out"
    using img by (auto simp: out1_def lo_def hi_def)
  have o: "out1 ! i = (if a \<le> side statics + (at + i) \<and> side statics + (at + i) < a + length bs
      then bs ! (side statics + (at + i) - a) else out ! i)" if i: "i < length out" for i
  proof (cases "(a < 65536) = statics")
    case True
    have "at + i < 65536"
      using i Cons.prems(2,4) by linarith
    then show ?thesis
      using True ok by (auto simp: out1_def side_def image_ok_def u16_max_def)
  next
    case False
    then have ab: "a = side statics + b"
      by (auto simp: b_def side_def)
    show ?thesis
    proof (cases "lo < hi")
      case True
      have "lo - at + length (slice_of bs (lo - b) (hi - b)) \<le> length out" "hi - b \<le> length bs"
        "length (slice_of bs (lo - b) (hi - b)) = hi - lo"
        using True by (auto simp: lo_def hi_def)
      then have "out1 ! i = (if lo - at \<le> i \<and> i < lo - at + (hi - lo)
          then slice_of bs (lo - b) (hi - b) ! (i - (lo - at)) else out ! i)"
        using img True False i by (simp add: out1_def nth_overwrite)
      also have "\<dots> = (if lo \<le> at + i \<and> at + i < hi then bs ! (at + i - b) else out ! i)"
        using True nth_slice_of [of "hi - b" bs "i - (lo - at)" "lo - b"] by (auto simp: lo_def hi_def max_def add.commute)
      finally show ?thesis
        using i by (auto simp: ab lo_def hi_def)
    next
      case False
      then show ?thesis
        using i by (auto simp: out1_def ab lo_def hi_def)
    qed
  qed
  obtain out' where r: "project_from ?rs at ?stop whole statics ?m out1 = (Ok (), out')" "length out' = length out1"
    "\<forall>i < length out1. out' ! i = undone es (side statics + (at + i)) (out1 ! i)"
    using Cons.IH [of out1 "image_bytes e @ rest"] Cons.prems len by auto
  have "\<forall>i < length out. out' ! i = undone (e # es) (side statics + (at + i)) (out ! i)"
    using r(3) o len by (simp add: e)
  then show ?case
    by (intro exI [of _ out'] conjI trans [OF step r(1)]) (simp_all only: r(2) len)
qed (simp add: project_from.simps)

lemma project_Ok_accepts:
  assumes "project_from (log_bytes es @ rest) at fin whole statics (length (log_bytes es)) out = (Ok (), out')"
    and "list_all image_ok es"
  shows "list_all (projects statics whole) es"
  using assms
proof (induction es arbitrary: out rest)
  case (Cons e es)
  obtain a bs where e: "e = (a, bs)" by (cases e)
  let ?m = "length (log_bytes es)" and ?rs = "log_bytes (e # es) @ rest"
  have ok: "image_ok (a, bs)"
    using Cons.prems(2) by (simp add: e)
  note addr = image_address [OF ok]
  have en: "entry ?rs (length (log_bytes (e # es))) = (?m, a, length bs)"
    and nz: "length (log_bytes (e # es)) \<noteq> 0"
    using entry_append [of e es rest] ok by (simp_all add: e)
  have run: "project_from ?rs at fin whole statics (length (log_bytes (e # es))) out = (Ok (), out')"
    by (rule Cons.prems(1))
  have "projects statics whole e \<and> (\<exists>out1. project_from ?rs at fin whole statics ?m out1 = (Ok (), out'))"
    using run addr
    by (subst (asm) project_from.simps, simp only: nz en prod.case if_False Let_def address_split)
      (auto simp: projects_def e side_def split: if_splits option.splits)
  then show ?case
    using Cons.IH [of "image_bytes e @ rest"] Cons.prems(2) by auto
qed simp

section \<open>The contract of a transaction log\<close>

text \<open>The before-images of a log, read back from its bytes.\<close>

function images_from :: "bytes \<Rightarrow> nat \<Rightarrow> image list" where
  "images_from rs cursor =
     (if cursor = 0 then []
      else case entry rs cursor of (start, offset, n) \<Rightarrow>
        (offset, slice_of rs start (start + n)) # images_from rs start)"
  by pat_completeness auto
termination
  by (relation "measure (\<lambda>(_, cursor). cursor)") (auto simp: entry_def Let_def)

declare images_from.simps [simp del]

definition images :: "undo \<Rightarrow> image list" where
  "images u = images_from (records u) (length (records u))"

definition undo_wf :: "undo \<Rightarrow> bool" where
  "undo_wf u \<longleftrightarrow> undo_rel u (images u)"

lemma images_log: "list_all image_ok es \<Longrightarrow> images_from (log_bytes es @ rest) (length (log_bytes es)) = es"
proof (induction es arbitrary: rest)
  case (Cons e es)
  have nz: "length (log_bytes (e # es)) \<noteq> 0" by simp
  have "images_from (log_bytes es @ image_bytes e @ rest) (length (log_bytes es)) = es"
    using Cons by simp
  then have "images_from (log_bytes (e # es) @ rest) (length (log_bytes es)) = es"
    by simp
  then show ?case
    using entry_append [of e es rest] Cons.prems
    by (subst images_from.simps) (simp only: nz if_False prod.case list.pred_inject prod.collapse)
qed (simp add: images_from.simps)

lemma undo_rel_images: "undo_rel u es \<Longrightarrow> images u = es \<and> undo_wf u"
  using images_log [of es "[]"] by (auto simp: undo_rel_def images_def undo_wf_def)

lemma undo_new_wf: "undo_new alloc n = Ok u \<Longrightarrow> undo_wf u \<and> images u = []"
  using undo_rel_images [of u "[]"] by (auto simp: undo_new_def undo_rel_def split: if_splits)

lemma undo_preserve_wf:
  assumes "undo_wf u"
  shows "undo_wf (preserve at v u) \<and> images (preserve at v u) = map (patch at v) (images u)"
proof -
  have len: "length (log_bytes (map (patch at v) es)) = length (log_bytes es)" for es
    by (induction es) simp_all
  have "undo_rel (preserve at v u) (map (patch at v) (images u))"
    using assms preserve_log [of "images u" at v "[]"]
    by (auto simp: undo_wf_def undo_rel_def preserve_def len list.pred_map comp_def)
  then show ?thesis
    using undo_rel_images by blast
qed

lemma record_before_eq:
  assumes "undo_wf u" and "before \<noteq> []" and "at + length before \<le> u16_max"
  shows "record_before at before statics u =
    (if list_ex (\<lambda>(a, bs). a \<le> side statics + at \<and> side statics + at + length before \<le> a + length bs) (images u)
     then (Ok (), u)
     else if length before + 6 > remaining u then (Err JTransactionFull, u)
     else (Ok (), u\<lparr>records := records u @ image_bytes (side statics + at, before)\<rparr>))"
proof -
  have flag: "at OR push_bit 16 (of_bool statics) = side statics + at"
    "(at + length before) OR push_bit 16 (of_bool statics) = side statics + at + length before"
    using assms(3) flag_address [of at statics] flag_address [of "at + length before" statics]
    by (simp_all add: side_def)
  have "saved (records u) x y (length (records u))
      = list_ex (\<lambda>(a, bs). a \<le> x \<and> y \<le> a + length bs) (images u)" for x y
    using saved_log [of "length (records u)" "records u" "images u"] assms(1)
    by (simp add: undo_wf_def undo_rel_def)
  moreover have ca: "checked_add at (length before) = Some (at + length before)"
    "checked_add (length before) 6 = Some (length before + 6)"
    using assms(3) by (simp_all add: checked_add_def usize_max_def u16_max_def)
  ultimately show ?thesis
    using assms(2,3) unfolding record_before_def Let_def ca option.case flag by (simp add: image_bytes_def)
qed

lemma record_before_cases:
  assumes "undo_wf u" and "record_before at before statics u = (r, u')"
  shows "(r \<noteq> Ok () \<longrightarrow> u' = u) \<and> undo_wf u'
    \<and> (r = Ok () \<longrightarrow> images u' = images u \<and> (\<forall>i < length before. covered (images u) (side statics + at + i))
        \<or> images u' = (side statics + at, before) # images u \<and> at + length before \<le> u16_max)"
proof (cases "before \<noteq> [] \<and> at + length before \<le> u16_max")
  case False
  then show ?thesis
    using assms by (auto simp: record_before_def checked_add_def Let_def split: if_splits)
next
  case True
  note eq = record_before_eq [OF assms(1), of before at statics]
  let ?e = "(side statics + at, before)"
  have "undo_rel (u\<lparr>records := records u @ image_bytes ?e\<rparr>) (?e # images u)"
    if "length before + 6 \<le> remaining u"
    using that assms(1) True
    by (auto simp: undo_wf_def undo_rel_def image_ok_def side_def u16_max_def remaining_def)
  then have new: "length before + 6 \<le> remaining u \<Longrightarrow>
      images (u\<lparr>records := records u @ image_bytes ?e\<rparr>) = ?e # images u
      \<and> undo_wf (u\<lparr>records := records u @ image_bytes ?e\<rparr>)"
    using undo_rel_images by blast
  have "covered (images u) (side statics + at + i)"
    if ex: "list_ex (\<lambda>(a, bs). a \<le> side statics + at \<and> side statics + at + length before \<le> a + length bs) (images u)"
      and i: "i < length before" for i
  proof -
    obtain a bs where "(a, bs) \<in> set (images u)" "a \<le> side statics + at"
      "side statics + at + length before \<le> a + length bs"
      using ex unfolding list_ex_iff by blast
    then show ?thesis
      unfolding covered_def list_ex_iff using i by (intro bexI [of _ "(a, bs)"]) simp_all
  qed
  note cov = this
  show ?thesis
  proof (cases "list_ex (\<lambda>(a, bs). a \<le> side statics + at \<and> side statics + at + length before \<le> a + length bs) (images u)")
    case saved: True
    then have "r = Ok ()" "u' = u"
      using eq True assms(2) by simp_all
    then show ?thesis
      using assms(1) cov [OF saved] by blast
  next
    case fresh: False
    show ?thesis
    proof (cases "length before + 6 \<le> remaining u")
      case fit: True
      then have "r = Ok ()" "u' = u\<lparr>records := records u @ image_bytes ?e\<rparr>"
        using eq True fresh assms(2) by simp_all
      then show ?thesis
        using new [OF fit] True by blast
    next
      case False
      then show ?thesis
        using eq True fresh assms by auto
    qed
  qed
qed

text \<open>
  Memory is one byte per address. \<open>holding u m k\<close> is what address \<open>k\<close> goes back to when the
  transaction of log \<open>u\<close> is undone from memory \<open>m\<close>: the committed view.
\<close>

definition poke :: "nat \<Rightarrow> bytes \<Rightarrow> (nat \<Rightarrow> byte) \<Rightarrow> nat \<Rightarrow> byte" where
  "poke at v m k = (if at \<le> k \<and> k < at + length v then v ! (k - at) else m k)"

definition holding :: "undo \<Rightarrow> (nat \<Rightarrow> byte) \<Rightarrow> nat \<Rightarrow> byte" where
  "holding u m k = undone (images u) k (m k)"

locale transaction_log =
  fixes wf :: "'u \<Rightarrow> bool" and committed :: "'u \<Rightarrow> (nat \<Rightarrow> byte) \<Rightarrow> nat \<Rightarrow> byte"
    and log_record :: "nat \<Rightarrow> bytes \<Rightarrow> bool \<Rightarrow> ('u, unit) jact"
    and log_preserve :: "nat \<Rightarrow> bytes \<Rightarrow> 'u \<Rightarrow> 'u"
  assumes record_wf: "wf u \<Longrightarrow> log_record at before statics u = (r, u') \<Longrightarrow> wf u'"
    and record_refused: "wf u \<Longrightarrow> log_record at before statics u = (Err e, u') \<Longrightarrow> u' = u"
    and record_view: "wf u \<Longrightarrow> log_record at before statics u = (Ok (), u')
        \<Longrightarrow> (\<And>i. i < length before \<Longrightarrow> m (side statics + at + i) = before ! i)
        \<Longrightarrow> committed u' m = committed u m"
    and record_shields: "wf u \<Longrightarrow> log_record at before statics u = (Ok (), u')
        \<Longrightarrow> length v = length before \<Longrightarrow> committed u' (poke (side statics + at) v m) = committed u' m"
    and preserve_wf: "wf u \<Longrightarrow> wf (log_preserve at v u)"
    and preserve_view: "wf u \<Longrightarrow> committed (log_preserve at v u) (poke at v m) = poke at v (committed u m)"
begin

text \<open>Recording the old contents and then writing leaves the committed view alone.\<close>

lemma conditional_write:
  assumes "wf u" and "log_record at (map (\<lambda>i. m (side statics + at + i)) [0..<length v]) statics u = (Ok (), u')"
  shows "committed u' (poke (side statics + at) v m) = committed u m"
  using record_view [OF assms, of m] record_shields [OF assms, of v m] by simp

end

lemma undone_cong:
  assumes "covered es k \<or> b = c"
  shows "undone es k b = undone es k c"
  using assms undone_covered by blast

interpretation undo_log: transaction_log undo_wf holding record_before preserve
proof unfold_locales
  fix u u' at before statics r
  assume "undo_wf u" "record_before at before statics u = (r, u')"
  then show "undo_wf u'"
    using record_before_cases by blast
next
  fix u u' at before statics e
  assume "undo_wf u" "record_before at before statics u = (Err e, u')"
  then show "u' = u"
    using record_before_cases [of u at before statics "Err e" u'] by simp
next
  fix u u' :: undo and at before statics and m :: "nat \<Rightarrow> byte"
  assume a: "undo_wf u" "record_before at before statics u = (Ok (), u')"
    and m: "\<And>i. i < length before \<Longrightarrow> m (side statics + at + i) = before ! i"
  show "holding u' m = holding u m"
  proof
    fix k
    have "before ! (k - (side statics + at)) = m k"
      if "side statics + at \<le> k" "k < side statics + at + length before"
      using m [of "k - (side statics + at)"] that by simp
    then show "holding u' m k = holding u m k"
      using record_before_cases [OF a] by (auto simp: holding_def)
  qed
next
  fix u u' :: undo and at before statics and v :: bytes and m :: "nat \<Rightarrow> byte"
  assume a: "undo_wf u" "record_before at before statics u = (Ok (), u')" and v: "length v = length before"
  show "holding u' (poke (side statics + at) v m) = holding u' m"
  proof
    fix k
    have "covered (images u') k" if "side statics + at \<le> k" "k < side statics + at + length before"
    proof (cases "images u' = (side statics + at, before) # images u")
      case True
      then show ?thesis
        using that by (simp add: covered_def)
    next
      case False
      then have "\<forall>i < length before. covered (images u') (side statics + at + i)"
        using record_before_cases [OF a] by auto
      then show ?thesis
        using that by (metis add_diff_inverse_nat nat_add_left_cancel_less not_le)
    qed
    then show "holding u' (poke (side statics + at) v m) k = holding u' m k"
      unfolding holding_def by (intro undone_cong) (auto simp: poke_def v)
  qed
next
  fix u at v
  assume "undo_wf u"
  then show "undo_wf (preserve at v u)"
    using undo_preserve_wf by blast
next
  fix u :: undo and at and v :: bytes and m :: "nat \<Rightarrow> byte"
  assume "undo_wf u"
  then show "holding (preserve at v u) (poke at v m) = poke at v (holding u m)"
    using undo_preserve_wf [of u at v] undone_uncovered
    by (auto simp: fun_eq_iff holding_def undone_patch poke_def)
qed

lemma record_grows:
  assumes "record_before at before statics u = (r, u')"
  shows "limit u' = limit u \<and> (\<exists>added. records u' = records u @ added)"
  using assms by (auto simp: record_before_def Let_def split: if_splits option.splits)

lemma rewind_grown:
  assumes "length (records u) \<le> limit u" and "limit u' = limit u" and "records u' = records u @ added"
  shows "rewind (remaining u) u' = u"
  using assms by (cases u; cases u') (simp add: rewind_def remaining_def)

lemma project_range_view:
  assumes "undo_wf u" and "whole \<le> 65536" and "at + length out \<le> whole"
    and "list_all (projects statics whole) (images u)"
  shows "\<exists>out'. project_range out at whole statics u = (Ok (), out') \<and> length out' = length out
    \<and> (\<forall>i < length out. out' ! i = undone (images u) (side statics + (at + i)) (out ! i))"
proof -
  have u: "records u = log_bytes (images u)" "list_all image_ok (images u)"
    using assms(1) by (simp_all add: undo_wf_def undo_rel_def)
  have "at + length out \<le> usize_max"
    using assms(2,3) by (simp add: usize_max_def)
  then show ?thesis
    using project_log [OF u(2) assms(2,4,3), of "[]"] u(1) assms(3)
    by (simp add: project_range_def checked_add_def)
qed

lemma project_range_Ok:
  assumes "undo_wf u" and "project_range out at whole statics u = (Ok (), out')"
  shows "list_all (projects statics whole) (images u) \<and> at + length out \<le> whole"
proof -
  have u: "records u = log_bytes (images u)" "list_all image_ok (images u)"
    using assms(1) by (simp_all add: undo_wf_def undo_rel_def)
  have "at + length out \<le> whole"
    "project_from (log_bytes (images u) @ []) at (at + length out) whole statics (length (log_bytes (images u))) out = (Ok (), out')"
    using assms(2) u(1) by (auto simp: project_range_def checked_add_def split: if_splits)
  then show ?thesis
    using project_Ok_accepts u(2) by blast
qed

text \<open>Undoing writes back exactly the committed view, of the heap and of the statics.\<close>

lemma restore_view:
  assumes "undo_wf u" and "list_all (fits (length heap) (length statics)) (images u)"
    and "restore u heap statics = (heap', statics')"
  shows "length heap' = length heap" and "length statics' = length statics"
    and "k < length heap \<Longrightarrow> k < 65536 \<Longrightarrow> heap' ! k = holding u (\<lambda>i. heap ! i) k"
    and "k < length statics \<Longrightarrow> statics' ! k = holding u (\<lambda>i. statics ! (i - 65536)) (65536 + k)"
proof -
  have u: "records u = log_bytes (images u)" "list_all image_ok (images u)"
    using assms(1) by (simp_all add: undo_wf_def undo_rel_def)
  have "length heap' = length heap \<and> length statics' = length statics
    \<and> (\<forall>i < length heap. i < 65536 \<longrightarrow> heap' ! i = undone (images u) i (heap ! i))
    \<and> (\<forall>i < length statics. statics' ! i = undone (images u) (65536 + i) (statics ! i))"
    using restore_log [OF u(2) assms(2), of "[]"] assms(3) unfolding restore_def u(1) by auto
  then show "length heap' = length heap" "length statics' = length statics"
    "k < length heap \<Longrightarrow> k < 65536 \<Longrightarrow> heap' ! k = holding u (\<lambda>i. heap ! i) k"
    "k < length statics \<Longrightarrow> statics' ! k = holding u (\<lambda>i. statics ! (i - 65536)) (65536 + k)"
    by (simp_all add: holding_def)
qed

end
