(* ===== verification/Pending_Writes.thy ===== *)
theory Pending_Writes
  imports Engine_Error
begin

text \<open>
  Changed intervals since the last checkpoint
  (\<open>src/crates/microcard-engine-jcvm/src/vm/heap/writes.rs\<close>): up to eight sorted heap spans in
  a fixed array, one span of statics, and a flag that asks for a full snapshot instead.
\<close>

section \<open>Spans\<close>

text \<open>\<open>start\<close> and \<open>end\<close> are \<open>u16\<close> fields; a value that does not fit is refused on entry.\<close>

record span =
  sp_start :: nat
  sp_end :: nat

definition HEAP_SPANS :: nat where "HEAP_SPANS = 8"

definition empty_span :: span where
  "empty_span = \<lparr>sp_start = 0, sp_end = 0\<rparr>"

definition try_u16 :: "nat \<Rightarrow> nat option" where
  "try_u16 n = (if n \<le> u16_max then Some n else None)"

lemma try_u16_code [code]: "try_u16 n = (if fits_bits 16 n then Some n else None)"
  by (auto simp: try_u16_def u16_max_def fits_bits_iff)

text \<open>\<open>include\<close> returns the widened span, or \<open>None\<close> when the write leaves the 16-bit range.\<close>

definition include_span :: "nat \<Rightarrow> nat \<Rightarrow> span \<Rightarrow> span option" where
  "include_span at n s =
     (if n = 0 then Some s
      else case checked_add at n of None \<Rightarrow> None | Some e \<Rightarrow>
           case try_u16 e of None \<Rightarrow> None | Some e \<Rightarrow>
           case try_u16 at of None \<Rightarrow> None | Some b \<Rightarrow>
           Some (if sp_end s = 0 then \<lparr>sp_start = b, sp_end = e\<rparr>
                 else \<lparr>sp_start = min (sp_start s) b, sp_end = max (sp_end s) e\<rparr>))"

definition span_range :: "span \<Rightarrow> (nat \<times> nat) option" where
  "span_range s = (if sp_end s \<noteq> 0 then Some (sp_start s, sp_end s) else None)"

section \<open>Pending writes\<close>

record pending =
  pw_heap :: "span list"
  pw_count :: nat
  pw_statics :: span
  pw_snapshot :: bool

definition default_pending :: pending where
  "default_pending = \<lparr>pw_heap = replicate HEAP_SPANS empty_span, pw_count = 0,
     pw_statics = empty_span, pw_snapshot = False\<rparr>"

definition heap_ranges :: "pending \<Rightarrow> (nat \<times> nat) list" where
  "heap_ranges p = List.map_filter span_range (take (pw_count p) (pw_heap p))"

definition heap_range :: "pending \<Rightarrow> (nat \<times> nat) option" where
  "heap_range p =
     (case heap_ranges p of [] \<Rightarrow> None
      | first # rest \<Rightarrow> Some (fst first, if rest = [] then snd first else snd (last rest)))"

definition static_range :: "pending \<Rightarrow> (nat \<times> nat) option" where
  "static_range p = span_range (pw_statics p)"

definition pending_any :: "pending \<Rightarrow> bool" where
  "pending_any p \<longleftrightarrow> pw_snapshot p \<or> pw_count p \<noteq> 0 \<or> sp_end (pw_statics p) \<noteq> 0"

definition require_snapshot :: "pending \<Rightarrow> pending" where
  "require_snapshot p = p\<lparr>pw_snapshot := True\<rparr>"

function seek :: "span list \<Rightarrow> nat \<Rightarrow> nat \<Rightarrow> nat \<Rightarrow> nat" where
  "seek spans count start position =
     (if position < count \<and> sp_end (spans ! position) < start then seek spans count start (position + 1)
      else position)"
  by pat_completeness auto
termination
  by (relation "measure (\<lambda>(_, count, _, position). count - position)") auto

definition shift_left :: "nat \<Rightarrow> nat \<Rightarrow> span list \<Rightarrow> span list" where
  "shift_left position count spans = fold (\<lambda>index s. s[index := s ! (index + 1)]) [position..<count - 1] spans"

definition shift_right :: "nat \<Rightarrow> nat \<Rightarrow> span list \<Rightarrow> span list" where
  "shift_right position count spans = fold (\<lambda>index s. s[index + 1 := s ! index]) (rev [position..<count]) spans"

function absorb :: "span list \<Rightarrow> nat \<Rightarrow> nat \<Rightarrow> span \<Rightarrow> span list \<times> nat \<times> span" where
  "absorb spans count position s =
     (if position < count \<and> sp_start (spans ! position) \<le> sp_end s then
        absorb (shift_left position count spans) (count - 1) position
          \<lparr>sp_start = min (sp_start s) (sp_start (spans ! position)),
           sp_end = max (sp_end s) (sp_end (spans ! position))\<rparr>
      else (spans, count, s))"
  by pat_completeness auto
termination
  by (relation "measure (\<lambda>(_, count, _, _). count)") auto

declare seek.simps [simp del] absorb.simps [simp del]

definition pending_heap :: "nat \<Rightarrow> nat \<Rightarrow> pending \<Rightarrow> pending" where
  "pending_heap at n p =
     (if n = 0 then p
      else case include_span at n empty_span of None \<Rightarrow> p\<lparr>pw_snapshot := True\<rparr> | Some s \<Rightarrow>
        let position = seek (pw_heap p) (pw_count p) (sp_start s) 0 in
        case absorb (pw_heap p) (pw_count p) position s of (spans, count, s) \<Rightarrow>
        if count = HEAP_SPANS then p\<lparr>pw_heap := spans, pw_count := count, pw_snapshot := True\<rparr>
        else p\<lparr>pw_heap := (shift_right position count spans)[position := s], pw_count := count + 1\<rparr>)"

definition pending_statics :: "nat \<Rightarrow> nat \<Rightarrow> pending \<Rightarrow> pending" where
  "pending_statics at n p =
     (case include_span at n (pw_statics p) of None \<Rightarrow> p\<lparr>pw_snapshot := True\<rparr>
      | Some s \<Rightarrow> p\<lparr>pw_statics := s\<rparr>)"

definition pending_merge :: "pending \<Rightarrow> pending \<Rightarrow> pending" where
  "pending_merge other p =
     (let p = fold (\<lambda>(a, b). pending_heap a (b - a)) (heap_ranges other) p;
          p = (case span_range (pw_statics other) of None \<Rightarrow> p | Some (a, b) \<Rightarrow> pending_statics a (b - a) p) in
      p\<lparr>pw_snapshot := pw_snapshot p \<or> pw_snapshot other\<rparr>)"

definition for_committed_heap :: "nat \<Rightarrow> pending \<Rightarrow> pending" where
  "for_committed_heap n p =
     (case try_u16 n of
        None \<Rightarrow> p\<lparr>pw_snapshot := True\<rparr>
      | Some e \<Rightarrow>
          (case fold (\<lambda>index (spans, kept).
                  let s = (spans ! index)\<lparr>sp_end := min (sp_end (spans ! index)) e\<rparr> in
                  if sp_start s < sp_end s then (spans[kept := s], kept + 1) else (spans, kept))
                [0..<pw_count p] (pw_heap p, 0) of
             (spans, kept) \<Rightarrow> p\<lparr>pw_heap := spans, pw_count := kept\<rparr>))"

section \<open>The interval set\<close>

definition active :: "pending \<Rightarrow> span list" where
  "active p = take (pw_count p) (pw_heap p)"

definition span_set :: "span \<Rightarrow> nat set" where
  "span_set s = {sp_start s..<sp_end s}"

definition spans_set :: "span list \<Rightarrow> nat set" where
  "spans_set ss = (\<Union>s \<in> set ss. span_set s)"

text \<open>Non-empty, in order, and with a gap between neighbours.\<close>

definition separated :: "span list \<Rightarrow> bool" where
  "separated ss \<longleftrightarrow> list_all (\<lambda>s. sp_start s < sp_end s \<and> sp_end s \<le> u16_max) ss
     \<and> sorted_wrt (\<lambda>s t. sp_end s < sp_start t) ss"

definition pending_inv :: "pending \<Rightarrow> bool" where
  "pending_inv p \<longleftrightarrow> length (pw_heap p) = HEAP_SPANS \<and> pw_count p \<le> HEAP_SPANS \<and> separated (active p)"

lemma default_pending_inv: "pending_inv default_pending" "active default_pending = []"
  by (simp_all add: pending_inv_def default_pending_def active_def separated_def)

lemma take_shift_left:
  assumes "position < count" and "count \<le> length spans"
  shows "take (count - 1) (shift_left position count spans)
      = take position spans @ drop (position + 1) (take count spans)"
    and "length (shift_left position count spans) = length spans"
proof -
  show len: "length (shift_left position count spans) = length spans"
    unfolding shift_left_def by (rule list_cells.size_fold)
  show "take (count - 1) (shift_left position count spans)
      = take position spans @ drop (position + 1) (take count spans)"
    using assms len list_cells.get_shift_down [of "count - 1" spans _ position]
    by (intro nth_equalityI) (auto simp: shift_left_def nth_append)
qed

lemma take_shift_right:
  assumes "position \<le> count" and "count < length spans"
  shows "take (count + 1) ((shift_right position count spans)[position := s])
      = take position spans @ s # drop position (take count spans)"
    and "length ((shift_right position count spans)[position := s]) = length spans"
proof -
  show len: "length ((shift_right position count spans)[position := s]) = length spans"
    unfolding shift_right_def by (simp add: list_cells.size_fold)
  have nth: "shift_right position count spans ! j
      = (if position + 1 \<le> j \<and> j < count + 1 then spans ! (j - 1) else spans ! j)" if "j < length spans" for j
    using list_cells.get_shift_up [of count 1 spans j position] assms that by (simp add: shift_right_def)
  show "take (count + 1) ((shift_right position count spans)[position := s])
      = take position spans @ s # drop position (take count spans)"
    using assms len nth
    by (intro nth_equalityI) (auto simp: nth_append nth_list_update nth_Cons split: nat.splits
        intro!: arg_cong [of _ _ "(!) spans"])
qed

lemma seek_spec:
  assumes "position \<le> count"
  shows "position \<le> seek spans count start position \<and> seek spans count start position \<le> count
    \<and> (\<forall>i. position \<le> i \<and> i < seek spans count start position \<longrightarrow> sp_end (spans ! i) < start)
    \<and> (seek spans count start position < count \<longrightarrow> start \<le> sp_end (spans ! seek spans count start position))"
  using assms
proof (induction spans count start position rule: seek.induct)
  case (1 spans count start position)
  show ?case
  proof (cases "position < count \<and> sp_end (spans ! position) < start")
    case True
    then have eq: "seek spans count start position = seek spans count start (position + 1)"
      by (subst seek.simps) simp
    have IH: "position + 1 \<le> seek spans count start (position + 1)"
      "seek spans count start (position + 1) \<le> count"
      "\<forall>i. position + 1 \<le> i \<and> i < seek spans count start (position + 1) \<longrightarrow> sp_end (spans ! i) < start"
      "seek spans count start (position + 1) < count \<longrightarrow> start \<le> sp_end (spans ! seek spans count start (position + 1))"
      using 1 True by auto
    have "sp_end (spans ! i) < start" if "position \<le> i" "i < seek spans count start (position + 1)" for i
      using IH(3) True that by (cases "i = position") auto
    then show ?thesis
      unfolding eq using IH by auto
  next
    case False
    have "seek spans count start position = position"
      by (subst seek.simps, subst if_not_P) (rule False, rule refl)
    then show ?thesis
      using False 1(2) by auto
  qed
qed

text \<open>
  Absorbing: the spans before the position stay, those touching the new span are merged into it,
  and the rest lie strictly behind it.
\<close>

lemma separated_remove: "separated (xs @ m # ys) \<Longrightarrow> separated (xs @ ys)"
  by (auto simp: separated_def sorted_wrt_append)

lemma absorb_spec:
  assumes "position \<le> count" and "count \<le> length spans" and "separated (take count spans)"
    and "sp_start s < sp_end s" and "sp_end s \<le> u16_max"
    and "\<forall>i < position. sp_end (spans ! i) < sp_start s"
    and "position < count \<longrightarrow> sp_start s \<le> sp_end (spans ! position)"
    and "absorb spans count position s = (spans', count', s')"
  shows "position \<le> count' \<and> count' \<le> count \<and> length spans' = length spans
    \<and> separated (take count' spans') \<and> sp_start s' < sp_end s' \<and> sp_end s' \<le> u16_max
    \<and> (\<forall>i < position. sp_end (spans' ! i) < sp_start s')
    \<and> (\<forall>i. position \<le> i \<and> i < count' \<longrightarrow> sp_end s' < sp_start (spans' ! i))
    \<and> spans_set (take count' spans') \<union> span_set s' = spans_set (take count spans) \<union> span_set s"
  using assms
proof (induction spans count position s rule: absorb.induct)
  case (1 spans count position s)
  show ?case
  proof (cases "position < count \<and> sp_start (spans ! position) \<le> sp_end s")
    case True
    let ?m = "spans ! position" and ?spans = "shift_left position count spans"
    let ?s = "\<lparr>sp_start = min (sp_start s) (sp_start ?m), sp_end = max (sp_end s) (sp_end ?m)\<rparr>"
    note sl = take_shift_left [OF conjunct1 [OF True] "1.prems"(2)]
    have run: "absorb ?spans (count - 1) position ?s = (spans', count', s')"
      using "1.prems"(8) True by (subst (asm) absorb.simps) simp
    have split: "take count spans = take position spans @ ?m # drop (position + 1) (take count spans)"
      using True "1.prems"(2) id_take_nth_drop [of position "take count spans"] by (simp add: min_def)
    have sep: "separated (take (count - 1) ?spans)"
      using "1.prems"(3) separated_remove split unfolding sl(1) by metis
    have wide: "\<And>i. i < count \<Longrightarrow> sp_start (spans ! i) < sp_end (spans ! i)"
      and m: "sp_start ?m < sp_end ?m" "sp_end ?m \<le> u16_max"
      and before: "\<And>i. i < position \<Longrightarrow> sp_end (spans ! i) < sp_start ?m"
      and behind: "\<And>i. position < i \<Longrightarrow> i < count \<Longrightarrow> sp_end ?m < sp_start (spans ! i)"
      using "1.prems"(2,3) True by (auto simp: separated_def sorted_wrt_iff_nth_less list_all_length)
    have nth: "?spans ! i = (if position \<le> i \<and> i < count - 1 then spans ! (i + 1) else spans ! i)" if "i < length spans" for i
      using list_cells.get_shift_down [of "count - 1" spans i position] True "1.prems"(2) that by (simp add: shift_left_def)
    have next_end: "sp_start ?s \<le> sp_end (?spans ! position)" if "position < count - 1"
    proof -
      have "sp_end ?m < sp_start (spans ! (position + 1))" "sp_start (spans ! (position + 1)) < sp_end (spans ! (position + 1))"
        using behind [of "position + 1"] wide [of "position + 1"] that by simp_all
      moreover have "?spans ! position = spans ! (position + 1)"
        using nth [of position] that True "1.prems"(2) by simp
      ultimately show ?thesis
        using m(1) by simp
    qed
    have "spans_set (take (count - 1) ?spans) \<union> span_set ?s = spans_set (take count spans) \<union> span_set s"
    proof -
      have "span_set ?s = span_set ?m \<union> span_set s"
        using True "1.prems"(7) m(1) "1.prems"(4) by (auto simp: span_set_def)
      moreover have "spans_set (take count spans) = spans_set (take (count - 1) ?spans) \<union> span_set ?m"
        unfolding sl(1) by (subst split) (auto simp: spans_set_def)
      ultimately show ?thesis by auto
    qed
    moreover have "\<forall>i < position. sp_end (?spans ! i) < sp_start ?s"
      using before "1.prems"(1,2,6) nth by auto
    moreover have "position \<le> count - 1" "count - 1 \<le> length ?spans" "sp_start ?s < sp_end ?s" "sp_end ?s \<le> u16_max"
      using True sl(2) m "1.prems"(2,4,5) by auto
    moreover have "count' \<le> count - 1 \<Longrightarrow> count' \<le> count"
      by simp
    ultimately show ?thesis
      using "1.IH" [OF True _ _ sep _ _ _ _ run] sl(2) next_end by metis
  next
    case False
    then have eq: "spans' = spans" "count' = count" "s' = s"
      using "1.prems"(8) by (subst (asm) absorb.simps, simp)+
    have "sp_end s < sp_start (spans ! i)" if "position \<le> i" "i < count" for i
    proof -
      have p: "sp_end s < sp_start (spans ! position)"
        using False that by auto
      show ?thesis
      proof (cases "i = position")
        case False
        then have "sp_end (spans ! position) < sp_start (spans ! i)" "sp_start (spans ! position) < sp_end (spans ! position)"
          using "1.prems"(1-3) that by (auto simp: separated_def sorted_wrt_iff_nth_less list_all_length)
        with p show ?thesis by linarith
      qed (use p in simp)
    qed
    then show ?thesis
      using "1.prems" by (simp add: eq)
  qed
qed

lemma include_empty:
  "n \<noteq> 0 \<Longrightarrow> include_span at n empty_span =
     (if at + n \<le> u16_max then Some \<lparr>sp_start = at, sp_end = at + n\<rparr> else None)"
  by (auto simp: include_span_def empty_span_def checked_add_def try_u16_def usize_max_def u16_max_def)

lemma separated_insert:
  assumes "separated (take count spans)" and "position \<le> count" and "count \<le> length spans"
    and "sp_start s < sp_end s" and "sp_end s \<le> u16_max"
    and "\<forall>i < position. sp_end (spans ! i) < sp_start s"
    and "\<forall>i. position \<le> i \<and> i < count \<longrightarrow> sp_end s < sp_start (spans ! i)"
  shows "separated (take position spans @ s # drop position (take count spans))"
proof -
  have "take count spans = take position spans @ drop position (take count spans)"
    using assms(2) append_take_drop_id [of position "take count spans"] by (simp add: min_def)
  then have "separated (take position spans @ drop position (take count spans))"
    using assms(1) by simp
  moreover have "\<forall>t \<in> set (take position spans). sp_end t < sp_start s"
    using assms(2,3,6) by (auto simp: in_set_conv_nth)
  moreover have "\<forall>t \<in> set (drop position (take count spans)). sp_end s < sp_start t"
    using assms(3,7) by (auto simp: in_set_conv_nth)
  ultimately show ?thesis
    using assms(4,5) by (auto simp: separated_def sorted_wrt_append)
qed

lemma spans_set_Un: "spans_set (xs @ ys) = spans_set xs \<union> spans_set ys" "spans_set (x # ys) = span_set x \<union> spans_set ys"
  by (auto simp: spans_set_def)

lemma pending_heap_spec:
  assumes "pending_inv p"
  shows "pending_inv (pending_heap at n p)
    \<and> (pw_snapshot (pending_heap at n p)
       \<or> \<not> pw_snapshot p \<and> spans_set (active (pending_heap at n p)) = spans_set (active p) \<union> {at..<at + n})
    \<and> (pw_snapshot p \<longrightarrow> pw_snapshot (pending_heap at n p)) \<and> pw_statics (pending_heap at n p) = pw_statics p"
proof (cases "n = 0 \<or> at + n > u16_max")
  case True
  then show ?thesis
    using assms include_empty [of n at] by (auto simp: pending_heap_def pending_inv_def active_def)
next
  case False
  let ?s = "\<lparr>sp_start = at, sp_end = at + n\<rparr>"
  let ?h = "pw_heap p" and ?c = "pw_count p"
  define k where "k = seek ?h ?c at 0"
  obtain spans count s where ab: "absorb ?h ?c k ?s = (spans, count, s)"
    by (metis prod_cases3)
  have inv: "length ?h = HEAP_SPANS" "?c \<le> HEAP_SPANS" "separated (take ?c ?h)"
    using assms by (simp_all add: pending_inv_def active_def)
  have sk: "k \<le> ?c" "\<forall>i < k. sp_end (?h ! i) < at" "k < ?c \<longrightarrow> at \<le> sp_end (?h ! k)"
    using seek_spec [of 0 ?c ?h at] by (auto simp: k_def)
  have "position \<le> count' \<and> count' \<le> count \<Longrightarrow> position \<le> count" for position count count' :: nat
    by simp
  note spec = absorb_spec [OF sk(1) _ inv(3) _ _ _ _ ab]
  have a: "k \<le> count" "count \<le> ?c" "length spans = HEAP_SPANS" "separated (take count spans)"
    "sp_start s < sp_end s" "sp_end s \<le> u16_max" "\<forall>i < k. sp_end (spans ! i) < sp_start s"
    "\<forall>i. k \<le> i \<and> i < count \<longrightarrow> sp_end s < sp_start (spans ! i)"
    "spans_set (take count spans) \<union> span_set s = spans_set (take ?c ?h) \<union> span_set ?s"
    using spec False inv sk by auto
  show ?thesis
  proof (cases "count = HEAP_SPANS")
    case True
    then have "pending_heap at n p = p\<lparr>pw_heap := spans, pw_count := count, pw_snapshot := True\<rparr>"
      using False ab include_empty [of n at] by (simp add: pending_heap_def k_def Let_def)
    then show ?thesis
      using a True by (simp add: pending_inv_def active_def)
  next
    case open_slot: False
    then have lt: "count < length spans"
      using a(2,3) inv(2) by linarith
    let ?p = "p\<lparr>pw_heap := (shift_right k count spans)[k := s], pw_count := count + 1\<rparr>"
    have eq: "pending_heap at n p = ?p"
      using False open_slot ab include_empty [of n at] by (simp add: pending_heap_def k_def Let_def)
    note sr = take_shift_right [OF a(1) lt, of s]
    have act: "active ?p = take k spans @ s # drop k (take count spans)"
      using sr(1) by (simp add: active_def)
    have "separated (active ?p)"
      unfolding act using separated_insert [OF a(4,1) _ a(5-8)] lt by simp
    moreover have "spans_set (active ?p) = spans_set (take count spans) \<union> span_set s"
    proof -
      have "take k spans @ drop k (take count spans) = take count spans"
        using a(1) append_take_drop_id [of k "take count spans"] by (simp add: min_def)
      then have "spans_set (take k spans) \<union> spans_set (drop k (take count spans)) = spans_set (take count spans)"
        by (metis spans_set_Un(1))
      then show ?thesis
        unfolding act spans_set_Un by auto
    qed
    moreover have "span_set ?s = {at..<at + n}"
      by (simp add: span_set_def)
    ultimately show ?thesis
      using a(3,9) sr(2) lt unfolding eq by (auto simp: pending_inv_def active_def)
  qed
qed

text \<open>What is pending: everything once a snapshot is required, the listed spans otherwise.\<close>

definition pending_set :: "pending \<Rightarrow> nat set" where
  "pending_set p = (if pw_snapshot p then UNIV else spans_set (active p))"

lemma pending_heap_covers:
  assumes "pending_inv p"
  shows "pending_inv (pending_heap at n p)"
    and "pending_set p \<union> {at..<at + n} \<subseteq> pending_set (pending_heap at n p)"
  using pending_heap_spec [OF assms, of at n] by (auto simp: pending_set_def)

lemma map_filter_ranges:
  "list_all (\<lambda>s. sp_end s \<noteq> 0) ss \<Longrightarrow> List.map_filter span_range ss = map (\<lambda>s. (sp_start s, sp_end s)) ss"
  by (induction ss) (simp_all add: map_filter_simps span_range_def)

lemma heap_ranges_active: "pending_inv p \<Longrightarrow> heap_ranges p = map (\<lambda>s. (sp_start s, sp_end s)) (active p)"
  unfolding heap_ranges_def active_def [symmetric]
  by (rule map_filter_ranges) (auto simp: pending_inv_def separated_def list_all_iff)

text \<open>Clipping to the committed heap keeps the spans below its end.\<close>

definition clip :: "nat \<Rightarrow> span \<Rightarrow> span" where
  "clip e s = s\<lparr>sp_end := min (sp_end s) e\<rparr>"

definition clipped :: "nat \<Rightarrow> span list \<Rightarrow> span list" where
  "clipped e ss = filter (\<lambda>s. sp_start s < sp_end s) (map (clip e) ss)"

lemma clip_loop:
  fixes e :: nat
  assumes "n \<le> length spans"
  defines "step \<equiv> \<lambda>index (spans, kept).
      let s = (spans ! index)\<lparr>sp_end := min (sp_end (spans ! index)) e\<rparr> in
      if sp_start s < sp_end s then (spans[kept := s], kept + 1) else (spans, kept)"
  shows "\<exists>spans' kept. fold step [0..<n] (spans, 0) = (spans', kept) \<and> kept \<le> n \<and> length spans' = length spans
    \<and> take kept spans' = clipped e (take n spans) \<and> (\<forall>j. n \<le> j \<longrightarrow> spans' ! j = spans ! j)"
  using assms(1)
proof (induction n)
  case (Suc n)
  then obtain spans1 kept where IH: "fold step [0..<n] (spans, 0) = (spans1, kept)" "kept \<le> n"
    "length spans1 = length spans" "take kept spans1 = clipped e (take n spans)"
    "\<forall>j. n \<le> j \<longrightarrow> spans1 ! j = spans ! j"
    by auto
  let ?s = "clip e (spans ! n)"
  have n: "n < length spans" "spans1 ! n = spans ! n"
    using Suc.prems IH(5) by auto
  then have cl: "clipped e (take (Suc n) spans) = clipped e (take n spans) @ (if sp_start ?s < sp_end ?s then [?s] else [])"
    by (simp add: clipped_def take_Suc_conv_app_nth)
  have st: "fold step [0..<Suc n] (spans, 0) = (if sp_start ?s < sp_end ?s then (spans1[kept := ?s], kept + 1) else (spans1, kept))"
    using IH(1) n by (simp add: step_def clip_def Let_def)
  show ?case
  proof (cases "sp_start ?s < sp_end ?s")
    case True
    have "take (kept + 1) (spans1[kept := ?s]) = take kept spans1 @ [?s]"
      using IH(2,3) n by (simp add: take_Suc_conv_app_nth)
    then show ?thesis
      using True st cl IH n by auto
  next
    case False
    then show ?thesis
      using st cl IH n by auto
  qed
qed (simp add: clipped_def)

lemma separated_clipped: "separated ss \<Longrightarrow> separated (clipped e ss)"
  by (induction ss)
    (auto simp: separated_def clipped_def clip_def list_all_iff intro: order.strict_trans1 [OF min.cobounded1])

lemma spans_set_clipped: "spans_set (clipped e ss) = spans_set ss \<inter> {..<e}"
  by (auto simp: spans_set_def clipped_def clip_def span_set_def)

section \<open>Properties\<close>

text \<open>
  C30 (pending_writes_exact). After any sequence of heap writes, either a full snapshot is required,
  or the recorded ranges are at most eight, non-empty, ascending with a gap between neighbours,
  and their union is exactly the set of bytes written: no changed byte is ever dropped from a
  checkpoint, and no array access of the insertion leaves the eight slots.
\<close>

theorem pending_writes_exact:
  "let p = fold (\<lambda>(at, n). pending_heap at n) ws default_pending in
   pending_inv p \<and> heap_ranges p = map (\<lambda>s. (sp_start s, sp_end s)) (active p)
   \<and> (pw_snapshot p \<or> spans_set (active p) = (\<Union>(at, n) \<in> set ws. {at..<at + n}))"
proof -
  have "pending_inv p \<Longrightarrow>
    pending_inv (fold (\<lambda>(at, n). pending_heap at n) ws p)
    \<and> (pw_snapshot p \<longrightarrow> pw_snapshot (fold (\<lambda>(at, n). pending_heap at n) ws p))
    \<and> (pw_snapshot (fold (\<lambda>(at, n). pending_heap at n) ws p)
      \<or> spans_set (active (fold (\<lambda>(at, n). pending_heap at n) ws p))
         = spans_set (active p) \<union> (\<Union>(at, n) \<in> set ws. {at..<at + n}))" for p
  proof (induction ws arbitrary: p)
    case (Cons w ws)
    obtain at n where w: "w = (at, n)" by (cases w)
    show ?case
      using Cons.IH [of "pending_heap at n p"] pending_heap_spec [OF Cons.prems, of at n] by (auto simp: w)
  qed simp
  from this [OF default_pending_inv(1)] show ?thesis
    using heap_ranges_active by (auto simp: Let_def default_pending_inv(2) spans_set_def)
qed

text \<open>
  Restricting the pending writes to a committed heap of at most
  65535 bytes keeps exactly the pending bytes below its end, with the span array still well
  formed; a longer heap asks for a snapshot.
\<close>

theorem committed_writes_clipped:
  assumes "pending_inv p"
  shows "pending_inv (for_committed_heap n p)
    \<and> (n \<le> u16_max \<longrightarrow> spans_set (active (for_committed_heap n p)) = spans_set (active p) \<inter> {..<n}
        \<and> pw_snapshot (for_committed_heap n p) = pw_snapshot p)
    \<and> (n > u16_max \<longrightarrow> pw_snapshot (for_committed_heap n p))"
proof (cases "n \<le> u16_max")
  case True
  obtain spans kept where c: "for_committed_heap n p = p\<lparr>pw_heap := spans, pw_count := kept\<rparr>"
    "kept \<le> pw_count p" "length spans = length (pw_heap p)" "take kept spans = clipped n (active p)"
    using clip_loop [of "pw_count p" "pw_heap p" n] True assms
    by (auto simp: for_committed_heap_def try_u16_def active_def pending_inv_def)
  then show ?thesis
    using assms True separated_clipped [of "active p" n] spans_set_clipped [of n "active p"]
    by (auto simp: pending_inv_def active_def)
next
  case False
  then show ?thesis
    using assms by (auto simp: for_committed_heap_def try_u16_def pending_inv_def active_def)
qed

theorem committed_writes_clipped_witness:
  "pending_inv (for_committed_heap 9 (pending_heap 4 7 default_pending))
    \<and> spans_set (active (for_committed_heap 9 (pending_heap 4 7 default_pending)))
          = spans_set (active (pending_heap 4 7 default_pending)) \<inter> {..<9}
    \<and> pw_snapshot (for_committed_heap 9 (pending_heap 4 7 default_pending)) = pw_snapshot (pending_heap 4 7 default_pending)"
  using committed_writes_clipped [OF pending_heap_covers(1) [OF default_pending_inv(1)], of 9 4 7]
  by (simp add: u16_max_def)

end
