(* ===== verification/Memory.thy ===== *)
theory Memory
  imports Prelude
begin

text \<open>
  Checked storage arithmetic shared by the engines (\<open>src/crates/microcard-memory/src/lib.rs\<close>):
  bump allocation with alignment, range validation and the overlap-safe copy.
\<close>

definition is_power_of_two :: "nat \<Rightarrow> bool" where
  "is_power_of_two n \<longleftrightarrow> n \<noteq> 0 \<and> n AND (n - 1) = 0"

text \<open>\<open>sz & !(alignment - 1)\<close> at the 32 bits of \<open>usize\<close>.\<close>

definition mask_down :: "nat \<Rightarrow> nat \<Rightarrow> nat" where
  "mask_down sz alignment = unat ((word_of_nat sz :: u32) AND NOT (word_of_nat (alignment - 1)))"

definition allocation_range :: "nat \<Rightarrow> nat \<Rightarrow> nat \<Rightarrow> nat \<Rightarrow> nat \<Rightarrow> nat \<Rightarrow> (nat \<times> nat) option" where
  "allocation_range used header count element_bytes alignment limit =
     (if \<not> is_power_of_two alignment \<or> \<not> alignment dvd used \<or> element_bytes = 0 then None
      else case checked_mul count element_bytes of None \<Rightarrow> None | Some product \<Rightarrow>
           case checked_add product header of None \<Rightarrow> None | Some sz \<Rightarrow>
           case checked_add sz (alignment - 1) of None \<Rightarrow> None | Some padded \<Rightarrow>
           case checked_add used (mask_down padded alignment) of None \<Rightarrow> None | Some end \<Rightarrow>
           if end \<le> limit then Some (used, end) else None)"

definition byte_range :: "nat \<Rightarrow> nat \<Rightarrow> nat \<Rightarrow> (nat \<times> nat) option" where
  "byte_range sz offset n =
     (case checked_add offset n of None \<Rightarrow> None | Some end \<Rightarrow>
      if end \<le> sz then Some (offset, end) else None)"

definition copy_within :: "bytes \<Rightarrow> nat \<Rightarrow> nat \<Rightarrow> nat \<Rightarrow> bytes option" where
  "copy_within bs source destination n =
     (case byte_range (length bs) source n of None \<Rightarrow> None | Some (a, b) \<Rightarrow>
      case byte_range (length bs) destination n of None \<Rightarrow> None | Some _ \<Rightarrow>
      Some (overwrite bs destination (slice_of bs a b)))"

lemma mask_down_pow2:
  assumes "sz < 2 ^ 32" and "k < 32"
  shows "mask_down sz (2 ^ k) = sz div 2 ^ k * 2 ^ k"
proof -
  have m: "(word_of_nat (2 ^ k - 1) :: u32) = mask k"
    by (simp add: mask_eq_exp_minus_1 of_nat_diff)
  have "(word_of_nat sz :: u32) AND NOT (mask k) = push_bit k (drop_bit k (word_of_nat sz))"
    using assms(2) by (intro bit_word_eqI) (auto simp: bit_simps)
  moreover have "unat (word_of_nat sz :: u32) = sz"
    using assms(1) by (simp add: unat_of_nat)
  moreover have "sz div 2 ^ k * 2 ^ k < 2 ^ 32"
    using assms(1) by (metis div_times_less_eq_dividend le_less_trans)
  moreover have "unat (push_bit k (drop_bit k (word_of_nat sz :: u32)))
      = take_bit 32 (unat (word_of_nat sz :: u32) div 2 ^ k * 2 ^ k)"
    by (subst unsigned_push_bit_eq, subst unsigned_drop_bit_eq)
      (use assms(1) in \<open>simp add: push_bit_eq_mult drop_bit_eq_div unat_of_nat take_bit_nat_eq_self\<close>)
  ultimately show ?thesis
    unfolding mask_down_def m by (metis take_bit_nat_eq_self)
qed

lemma allocation_range_2:
  assumes "allocation_range used header count element_bytes 2 limit = Some (a, b)"
  shows "a = used \<and> even used \<and> b \<le> limit \<and> b \<le> usize_max
    \<and> b = used + (count * element_bytes + header + 1) div 2 * 2"
proof -
  have "count * element_bytes + header + 1 \<le> usize_max"
    using assms by (auto simp: allocation_range_def split: if_splits option.splits)
  then have "mask_down (count * element_bytes + header + 1) (2 ^ 1) = (count * element_bytes + header + 1) div 2 * 2"
    by (subst mask_down_pow2) (auto simp: usize_max_def)
  then show ?thesis
    using assms by (auto simp: allocation_range_def split: if_splits option.splits)
qed

lemma allocation_range_2_eq:
  "allocation_range used header count element_bytes 2 limit =
     (if even used \<and> element_bytes \<noteq> 0 \<and> count * element_bytes + header + 1 \<le> usize_max
         \<and> used + (count * element_bytes + header + 1) div 2 * 2 \<le> min limit usize_max
      then Some (used, used + (count * element_bytes + header + 1) div 2 * 2) else None)"
proof -
  have pow: "is_power_of_two 2"
    by (simp add: is_power_of_two_def)
  have md: "mask_down (count * element_bytes + header + 1) 2 = (count * element_bytes + header + 1) div 2 * 2"
    if "count * element_bytes + header + 1 \<le> usize_max"
    using that mask_down_pow2 [of "count * element_bytes + header + 1" 1] by (auto simp: usize_max_def)
  show ?thesis
    using pow md by (auto simp: allocation_range_def checked_mul_def checked_add_def Let_def)
qed

lemma copy_within_eq_Some:
  "copy_within bs source destination n = Some bs' \<longleftrightarrow>
     source + n \<le> length bs \<and> destination + n \<le> length bs \<and> source + n \<le> usize_max
     \<and> destination + n \<le> usize_max \<and> bs' = overwrite bs destination (slice_of bs source (source + n))"
  by (auto simp: copy_within_def byte_range_def checked_add_def split: if_splits)

section \<open>Properties\<close>

text \<open>
  A planned allocation starts exactly at the cursor, is large
  enough for the header and the elements, leaves the cursor aligned, wastes less than one
  alignment unit and ends within the limit, for every power-of-two alignment, and all of this is
  free of 32-bit wrap-around.
\<close>

theorem allocation_range_correct:
  assumes "allocation_range used header count element_bytes (2 ^ k) limit = Some (a, b)" and "k < 32"
  shows "a = used \<and> used + header + count * element_bytes \<le> b
    \<and> b < used + header + count * element_bytes + 2 ^ k \<and> 2 ^ k dvd b \<and> b \<le> limit \<and> b \<le> usize_max"
proof -
  let ?s = "count * element_bytes + header" and ?m = "2 ^ k :: nat"
  have le: "?s + (?m - 1) \<le> usize_max" and dvd: "?m dvd used"
    using assms by (auto simp: allocation_range_def split: if_splits option.splits)
  then have "mask_down (?s + (?m - 1)) ?m = (?s + (?m - 1)) div ?m * ?m"
    using assms(2) by (intro mask_down_pow2) (auto simp: usize_max_def)
  then have b: "a = used" "b = used + (?s + (?m - 1)) div ?m * ?m" "b \<le> limit" "b \<le> usize_max"
    using assms by (auto simp: allocation_range_def split: if_splits option.splits)
  have m: "0 < ?m" by simp
  let ?q = "(?s + (?m - 1)) div ?m"
  have "?q * ?m + (?s + (?m - 1)) mod ?m = ?s + (?m - 1)"
    by (rule div_mult_mod_eq)
  moreover have "(?s + (?m - 1)) mod ?m < ?m"
    using m by (rule mod_less_divisor)
  ultimately have "?s \<le> ?q * ?m" "?q * ?m < ?s + ?m"
    using m by linarith+
  then show ?thesis
    using b dvd by auto
qed

theorem allocation_range_correct_witness:
  "allocation_range 12 6 3 1 (2 ^ 1) 64 = Some (12, 22) \<and> 12 + 6 + 3 * 1 \<le> (22 :: nat) \<and> 22 < 12 + 6 + 3 * 1 + (2 :: nat) ^ 1
    \<and> (2 :: nat) ^ 1 dvd 22 \<and> 22 \<le> (64 :: nat) \<and> 22 \<le> usize_max"
  using allocation_range_correct [of 12 6 3 1 1 64 12 22] allocation_range_2_eq [of 12 6 3 1 64]
  by (simp add: usize_max_def)

end
