(* ===== verification/Object_Heap.thy ===== *)
theory Object_Heap
  imports Undo Pending_Writes Memory
begin

text \<open>
  The object heap of the Java Card engine (\<open>src/crates/microcard-engine-jcvm/src/vm/heap.rs\<close>):
  one slab of bytes holding objects with a six byte header, allocated from the front, with an
  undo log while a transaction is open and the set of writes since the last checkpoint. A
  reference is the byte offset of an object's header. The operations keep the order of checks and
  effects of the source, so that a failing operation shows what it had already changed.
\<close>

section \<open>Objects\<close>

type_synonym jcontext = byte

abbreviation (input) KIND_OBJECT :: byte where "KIND_OBJECT \<equiv> 0"
abbreviation (input) KIND_BOOLEAN :: byte where "KIND_BOOLEAN \<equiv> 2"
abbreviation (input) KIND_BYTE :: byte where "KIND_BYTE \<equiv> 3"
abbreviation (input) KIND_SHORT :: byte where "KIND_SHORT \<equiv> 4"
abbreviation (input) KIND_INT :: byte where "KIND_INT \<equiv> 5"
abbreviation (input) KIND_REFERENCE :: byte where "KIND_REFERENCE \<equiv> 6"
abbreviation (input) CLEAR_ON_RESET :: byte where "CLEAR_ON_RESET \<equiv> 1"
abbreviation (input) CLEAR_ON_DESELECT :: byte where "CLEAR_ON_DESELECT \<equiv> 2"
abbreviation (input) ANY_REFERENCE_CLASS :: u16 where "ANY_REFERENCE_CLASS \<equiv> 0xffff"
abbreviation (input) HEAP_VERSION :: byte where "HEAP_VERSION \<equiv> 3"
abbreviation (input) DELETION_REQUESTED :: byte where "DELETION_REQUESTED \<equiv> 0x80"
abbreviation (input) HEADER :: nat where "HEADER \<equiv> 6"

record info =
  inf_class :: u16
  inf_length :: u16
  inf_kind :: byte
  inf_owner :: jcontext
  inf_clear :: byte

record heap =
  hp_bytes :: bytes
  hp_next :: nat
  hp_tx :: "(nat \<times> undo) option"
  hp_aborted :: bool
  hp_pending :: pending

type_synonym 'a hact = "(heap, 'a) jact"

definition is_array :: "info \<Rightarrow> bool" where
  "is_array i \<longleftrightarrow> inf_kind i \<noteq> KIND_OBJECT"

definition element_size :: "info \<Rightarrow> nat" where
  "element_size i = (if inf_kind i = KIND_BOOLEAN \<or> inf_kind i = KIND_BYTE then 1
     else if inf_kind i = KIND_INT then 4 else 2)"

definition payload_size :: "info \<Rightarrow> nat" where
  "payload_size i = unat (inf_length i) * element_size i"

text \<open>The six header bytes at an offset, and the consistency conditions on them.\<close>

definition info_header :: "bytes \<Rightarrow> nat \<Rightarrow> info" where
  "info_header bs at =
     \<lparr>inf_class = be16 (bs ! at) (bs ! (at + 1)), inf_length = be16 (bs ! (at + 2)) (bs ! (at + 3)),
      inf_kind = bs ! (at + 4) AND 0x0f, inf_owner = bs ! (at + 5), inf_clear = drop_bit 4 (bs ! (at + 4))\<rparr>"

definition info_valid :: "info \<Rightarrow> bool" where
  "info_valid i \<longleftrightarrow> \<not> (\<not> (inf_kind i = KIND_OBJECT \<or> KIND_BOOLEAN \<le> inf_kind i \<and> inf_kind i \<le> KIND_REFERENCE)
     \<or> inf_clear i > CLEAR_ON_DESELECT
     \<or> (inf_kind i = KIND_OBJECT \<and> inf_clear i \<noteq> 0)
     \<or> (is_array i \<and> inf_kind i \<noteq> KIND_REFERENCE \<and> inf_class i \<noteq> 0))"

definition info_read :: "bytes \<Rightarrow> nat \<Rightarrow> reference \<Rightarrow> info jres" where
  "info_read bs used ref =
     (if used > length bs then Err JBounds
      else let at = unat ref in
      if ref = 0 then Err JNull
      else if odd at \<or> at + HEADER > used then Err JBounds
      else
        let i = info_header bs at in
        if \<not> info_valid i then Err JFormat
        else if at + HEADER + unat (inf_length i) * element_size i > used then Err JBounds
        else Ok i)"

section \<open>Construction and lifecycle\<close>

definition heap_new :: "bytes \<Rightarrow> heap jres" where
  "heap_new bs = (if length bs < HEADER + 2 then Err JQuota
     else Ok \<lparr>hp_bytes = bs, hp_next = 2, hp_tx = None, hp_aborted = False, hp_pending = default_pending\<rparr>)"

definition heap_resume :: "bytes \<Rightarrow> nat \<Rightarrow> heap jres" where
  "heap_resume bs used =
     (if used < 2 \<or> used > length bs \<or> used > u16_max \<or> odd used then Err JBounds
      else Ok \<lparr>hp_bytes = bs, hp_next = used, hp_tx = None, hp_aborted = False, hp_pending = default_pending\<rparr>)"

definition initialize_lifecycle :: "heap \<Rightarrow> heap" where
  "initialize_lifecycle h = h\<lparr>hp_bytes := overwrite (hp_bytes h) 0 [HEAP_VERSION, 0x07]\<rparr>"

definition valid_version :: "byte \<Rightarrow> bool" where
  "valid_version v \<longleftrightarrow> v AND NOT DELETION_REQUESTED = HEAP_VERSION"

definition valid_lifecycle :: "byte \<Rightarrow> bool" where
  "valid_lifecycle state \<longleftrightarrow> state < 0x80 \<and> state AND 7 = 7"

definition lifecycle :: "heap \<Rightarrow> byte jres" where
  "lifecycle h =
     (if \<not> valid_version (hp_bytes h ! 0) then Err JIncompatibleState
      else if \<not> valid_lifecycle (hp_bytes h ! 1) then Err JFormat
      else Ok (hp_bytes h ! 1))"

definition object_deletion_requested :: "heap \<Rightarrow> bool jres" where
  "object_deletion_requested h = rbind (lifecycle h) (\<lambda>_. Ok (hp_bytes h ! 0 AND DELETION_REQUESTED \<noteq> 0))"

definition note_pending :: "nat \<Rightarrow> nat \<Rightarrow> heap \<Rightarrow> heap" where
  "note_pending at n h = h\<lparr>hp_pending := pending_heap at n (hp_pending h)\<rparr>"

definition request_object_deletion :: "unit hact" where
  "request_object_deletion = sbind (sget lifecycle) (\<lambda>_ h.
     if hp_bytes h ! 0 AND DELETION_REQUESTED = 0
     then (Ok (), note_pending 0 1 (h\<lparr>hp_bytes := (hp_bytes h)[0 := hp_bytes h ! 0 OR DELETION_REQUESTED]\<rparr>))
     else (Ok (), h))"

definition clear_object_deletion_request :: "unit hact" where
  "clear_object_deletion_request = sbind (sget lifecycle) (\<lambda>_ h.
     if hp_bytes h ! 0 AND DELETION_REQUESTED \<noteq> 0
     then (Ok (), note_pending 0 1 (h\<lparr>hp_bytes := (hp_bytes h)[0 := HEAP_VERSION]\<rparr>))
     else (Ok (), h))"

definition set_lifecycle :: "byte \<Rightarrow> bool hact" where
  "set_lifecycle state = sbind (sget lifecycle) (\<lambda>_ h.
     if \<not> valid_lifecycle state then (Ok False, h)
     else if hp_bytes h ! 1 \<noteq> state
     then (Ok True, note_pending 1 1 (h\<lparr>hp_bytes := (hp_bytes h)[1 := state]\<rparr>))
     else (Ok True, h))"

section \<open>Transactions\<close>

definition begin_transaction :: "(nat \<Rightarrow> bool) \<Rightarrow> nat \<Rightarrow> unit hact" where
  "begin_transaction alloc capacity h =
     (if hp_aborted h then (Err JTransactionAborted, h)
      else if hp_tx h \<noteq> None then (Err JInconsistent, h)
      else case undo_new alloc capacity of Err e \<Rightarrow> (Err e, h)
           | Ok u \<Rightarrow> (Ok (), h\<lparr>hp_tx := Some (hp_next h, u)\<rparr>))"

definition transaction_remaining :: "heap \<Rightarrow> nat option" where
  "transaction_remaining h = map_option (\<lambda>(_, u). remaining u) (hp_tx h)"

definition has_uncheckpointed_writes :: "heap \<Rightarrow> bool" where
  "has_uncheckpointed_writes h = pending_any (hp_pending h)"

definition merge_pending_writes :: "pending \<Rightarrow> heap \<Rightarrow> heap" where
  "merge_pending_writes w h = h\<lparr>hp_pending := pending_merge w (hp_pending h)\<rparr>"

definition mark_checkpointed :: "heap \<Rightarrow> heap" where
  "mark_checkpointed h = h\<lparr>hp_pending := default_pending\<rparr>"

definition committed_bytes :: "heap \<Rightarrow> nat" where
  "committed_bytes h = (case hp_tx h of None \<Rightarrow> hp_next h | Some (start, _) \<Rightarrow> start)"

text \<open>The projections fill a buffer of the given length; a failed heap projection leaves zeros in it.\<close>

definition project_heap_range :: "nat \<Rightarrow> nat \<Rightarrow> heap \<Rightarrow> unit jres \<times> bytes" where
  "project_heap_range at n h =
     (let whole = committed_bytes h;
          result =
            (case checked_add at n of
               None \<Rightarrow> (Err JBounds, replicate n 0)
             | Some end \<Rightarrow>
                 if end > whole then (Err JBounds, replicate n 0)
                 else case hp_tx h of
                   None \<Rightarrow> (Ok (), slice_of (hp_bytes h) at end)
                 | Some (_, u) \<Rightarrow> project_range (slice_of (hp_bytes h) at end) at whole False u) in
      case result of (Err e, _) \<Rightarrow> (Err e, replicate n 0) | (Ok _, out) \<Rightarrow> (Ok (), out))"

definition project_heap :: "nat \<Rightarrow> heap \<Rightarrow> unit jres \<times> bytes" where
  "project_heap n h =
     (if n \<noteq> committed_bytes h then (Err JBounds, replicate n 0) else project_heap_range 0 n h)"

definition project_statics :: "bytes \<Rightarrow> heap \<Rightarrow> unit jres \<times> bytes" where
  "project_statics out h = (case hp_tx h of None \<Rightarrow> (Ok (), out) | Some (_, u) \<Rightarrow> project out True u)"

definition copy_committed_state :: "bytes \<Rightarrow> bytes \<Rightarrow> bytes \<Rightarrow> heap \<Rightarrow> nat jres \<times> bytes \<times> bytes" where
  "copy_committed_state statics heap_out static_out h =
     (if length heap_out \<noteq> hp_next h \<or> length static_out \<noteq> length statics
      then (Err JBounds, replicate (length heap_out) 0, replicate (length static_out) 0)
      else
        let used = committed_bytes h in
        case project_heap used h of
          (Err e, out) \<Rightarrow> (Err e, out @ drop used heap_out, static_out)
        | (Ok _, out) \<Rightarrow>
            let cleared = out @ replicate (length heap_out - used) 0 in
            case project_statics statics h of
              (Err e, sout) \<Rightarrow> (Err e, cleared, sout)
            | (Ok _, sout) \<Rightarrow> (Ok used, cleared, sout))"

definition commit_transaction :: "unit hact" where
  "commit_transaction h =
     (case hp_tx h of None \<Rightarrow> (Err JInconsistent, h)
      | Some _ \<Rightarrow> (Ok (), h\<lparr>hp_tx := None, hp_pending := require_snapshot (hp_pending h)\<rparr>))"

definition remember_static :: "nat \<Rightarrow> bytes \<Rightarrow> unit hact" where
  "remember_static at before h =
     (case hp_tx h of
        None \<Rightarrow> (Ok (), h\<lparr>hp_pending := pending_statics at (length before) (hp_pending h)\<rparr>)
      | Some (start, u) \<Rightarrow>
          case record_before at before True u of (r, u1) \<Rightarrow> (r, h\<lparr>hp_tx := Some (start, u1)\<rparr>))"

definition remember :: "nat \<Rightarrow> nat \<Rightarrow> info \<Rightarrow> unit hact" where
  "remember at n i h =
     (if inf_clear i = 0 then
        case hp_tx h of
          None \<Rightarrow> (Ok (), note_pending at n h)
        | Some (start, u) \<Rightarrow>
            if at < start then
              case record_before at (slice_of (hp_bytes h) at (at + n)) False u of
                (r, u1) \<Rightarrow> (r, h\<lparr>hp_tx := Some (start, u1)\<rparr>)
            else (Ok (), h)
      else (Ok (), h))"

definition preserve_tx :: "nat \<Rightarrow> bytes \<Rightarrow> heap \<Rightarrow> heap" where
  "preserve_tx at v h = h\<lparr>hp_tx := map_option (\<lambda>(start, u). (start, preserve at v u)) (hp_tx h)\<rparr>"

definition heap_poke :: "nat \<Rightarrow> bytes \<Rightarrow> heap \<Rightarrow> heap" where
  "heap_poke at v h = h\<lparr>hp_bytes := overwrite (hp_bytes h) at v\<rparr>"

section \<open>Allocation and lookup\<close>

definition heap_info :: "heap \<Rightarrow> reference \<Rightarrow> info jres" where
  "heap_info h ref = info_read (hp_bytes h) (hp_next h) ref"

definition heap_allocation_range :: "nat \<Rightarrow> byte \<Rightarrow> u16 \<Rightarrow> heap \<Rightarrow> (nat \<times> nat) jres" where
  "heap_allocation_range from kind n h =
     (let i = \<lparr>inf_class = 0, inf_length = n, inf_kind = kind, inf_owner = 0, inf_clear = 0\<rparr> in
      ok_or (allocation_range from HEADER (unat n) (element_size i) 2 (min (length (hp_bytes h)) u16_max)) JQuota)"

fun check_allocations_from :: "nat \<Rightarrow> (byte \<times> u16) list \<Rightarrow> heap \<Rightarrow> unit jres" where
  "check_allocations_from from [] h = Ok ()"
| "check_allocations_from from ((kind, n) # objects) h =
     rbind (heap_allocation_range from kind n h) (\<lambda>(_, end). check_allocations_from end objects h)"

definition check_allocations :: "(byte \<times> u16) list \<Rightarrow> heap \<Rightarrow> unit jres" where
  "check_allocations objects h = check_allocations_from (hp_next h) objects h"

definition allocate :: "u16 \<Rightarrow> u16 \<Rightarrow> byte \<Rightarrow> jcontext \<Rightarrow> byte \<Rightarrow> reference hact" where
  "allocate class n kind owner clear_event h =
     (if hp_aborted h then (Err JTransactionAborted, h)
      else case heap_allocation_range (hp_next h) kind n h of Err e \<Rightarrow> (Err e, h)
      | Ok (at, end) \<Rightarrow>
          let header = be16_bytes class @ be16_bytes n @ [kind OR push_bit 4 clear_event, owner];
              h1 = heap_poke at (replicate (end - at) 0) h;
              h2 = (heap_poke at header h1)\<lparr>hp_next := end\<rparr> in
          (Ok (word_of_nat at),
           if hp_tx h2 = None then note_pending at (if clear_event = 0 then end - at else HEADER) h2 else h2))"

definition new_object :: "u16 \<Rightarrow> u16 \<Rightarrow> jcontext \<Rightarrow> reference hact" where
  "new_object class n owner = allocate class n KIND_OBJECT owner 0"

definition new_array :: "byte \<Rightarrow> u16 \<Rightarrow> jcontext \<Rightarrow> reference hact" where
  "new_array kind n owner =
     (if \<not> (KIND_BOOLEAN \<le> kind \<and> kind \<le> KIND_REFERENCE) then sfail JFormat
      else allocate (if kind = KIND_REFERENCE then ANY_REFERENCE_CLASS else 0) n kind owner 0)"

definition new_reference_array :: "u16 \<Rightarrow> u16 \<Rightarrow> jcontext \<Rightarrow> reference hact" where
  "new_reference_array component_class n owner =
     (if component_class = ANY_REFERENCE_CLASS then sfail JFormat
      else allocate component_class n KIND_REFERENCE owner 0)"

definition new_transient_array :: "byte \<Rightarrow> u16 \<Rightarrow> jcontext \<Rightarrow> byte \<Rightarrow> reference hact" where
  "new_transient_array kind n owner event =
     (if \<not> (event = CLEAR_ON_RESET \<or> event = CLEAR_ON_DESELECT) then sfail JFormat
      else if \<not> (KIND_BOOLEAN \<le> kind \<and> kind \<le> KIND_REFERENCE) then sfail JFormat
      else allocate (if kind = KIND_REFERENCE then ANY_REFERENCE_CLASS else 0) n kind owner event)"

definition transient_event :: "reference \<Rightarrow> heap \<Rightarrow> byte jres" where
  "transient_event ref h = (if ref = 0 then Ok 0 else rbind (heap_info h ref) (\<lambda>i. Ok (inf_clear i)))"

text \<open>
  A visitor gets a reference, its header and its payload and returns the payload it leaves behind,
  which has the same length, and whether it failed.
\<close>

type_synonym visitor = "reference \<Rightarrow> info \<Rightarrow> bytes \<Rightarrow> unit jres \<times> bytes"

definition next_even :: "nat \<Rightarrow> nat" where
  "next_even n = n + n mod 2"

function visit_from :: "visitor \<Rightarrow> nat \<Rightarrow> unit hact" where
  "visit_from visit at h =
     (if at < hp_next h then
        case heap_info h (word_of_nat at) of Err e \<Rightarrow> (Err e, h)
        | Ok i \<Rightarrow>
            let end = at + HEADER + unat (inf_length i) * element_size i in
            case visit (word_of_nat at) i (slice_of (hp_bytes h) (at + HEADER) end) of
              (Err e, payload) \<Rightarrow> (Err e, heap_poke (at + HEADER) payload h)
            | (Ok _, payload) \<Rightarrow> visit_from visit (next_even end) (heap_poke (at + HEADER) payload h)
      else if at \<noteq> hp_next h then (Err JFormat, h) else (Ok (), h))"
  by pat_completeness auto
termination
  by (relation "measure (\<lambda>(_, at, h). hp_next h - at)") (auto simp: heap_poke_def next_even_def)

declare visit_from.simps [simp del]

definition visit_objects :: "visitor \<Rightarrow> unit hact" where
  "visit_objects visit h = (if hp_tx h \<noteq> None then (Err JInconsistent, h) else visit_from visit 2 h)"

definition clear_transient :: "byte \<Rightarrow> jcontext \<Rightarrow> unit hact" where
  "clear_transient event ctx =
     (if \<not> (event = CLEAR_ON_RESET \<or> event = CLEAR_ON_DESELECT) then sfail JFormat
      else visit_objects (\<lambda>_ i payload. (Ok (),
        if inf_clear i \<noteq> 0 \<and> (event = CLEAR_ON_RESET \<or> inf_clear i = event \<and> inf_owner i = ctx)
        then replicate (length payload) 0 else payload)))"

text \<open>\<open>payload.chunks_exact_mut(2)\<close>, clearing every reference at or past \<open>start\<close>.\<close>

fun drop_new_references :: "nat \<Rightarrow> bytes \<Rightarrow> bytes" where
  "drop_new_references start (a # b # bs) =
     (if unat (be16 a b) \<ge> start then [0, 0] else [a, b]) @ drop_new_references start bs"
| "drop_new_references start bs = bs"

definition abort_transaction :: "bytes \<Rightarrow> heap \<Rightarrow> bool jres \<times> heap \<times> bytes" where
  "abort_transaction statics h =
     (case hp_tx h of None \<Rightarrow> (Err JInconsistent, h, statics)
      | Some (start, u) \<Rightarrow>
          case restore u (hp_bytes h) statics of (bs, statics) \<Rightarrow>
          let h = h\<lparr>hp_tx := None, hp_bytes := bs\<rparr> in
          if hp_next h \<noteq> start then
            case visit_objects (\<lambda>_ i payload. (Ok (),
                   if inf_kind i = KIND_REFERENCE \<and> inf_clear i \<noteq> 0 then drop_new_references start payload
                   else payload)) h of
              (Err e, h) \<Rightarrow> (Err e, h, statics)
            | (Ok _, h) \<Rightarrow>
                (Ok True, (heap_poke start (replicate (hp_next h - start) 0) h)\<lparr>hp_next := start, hp_aborted := True\<rparr>, statics)
          else (Ok False, h, statics))"

definition check_access :: "reference \<Rightarrow> jcontext \<Rightarrow> heap \<Rightarrow> info jres" where
  "check_access ref ctx h = rbind (heap_info h ref) (\<lambda>i.
     if ctx \<noteq> 0 \<and> inf_owner i \<noteq> ctx then Err JFirewall else Ok i)"

definition heap_slot :: "reference \<Rightarrow> nat \<Rightarrow> bool \<Rightarrow> heap \<Rightarrow> (nat \<times> info) jres" where
  "heap_slot ref index want_array h = rbind (heap_info h ref) (\<lambda>i.
     if is_array i \<noteq> want_array then Err JType
     else if index \<ge> unat (inf_length i) then Err JBounds
     else Ok (unat ref + HEADER + index * element_size i, i))"

section \<open>Fields and elements\<close>

definition bytes_at :: "heap \<Rightarrow> nat \<Rightarrow> nat \<Rightarrow> bytes" where
  "bytes_at h at n = slice_of (hp_bytes h) at (at + n)"

text \<open>
  \<open>self.remember(at, v.len(), info)?; self.bytes[at..].copy_from_slice(v)\<close>, after the check that
  the bytes change: the tail shared by the conditional writes.
\<close>

definition write_conditional :: "nat \<Rightarrow> bytes \<Rightarrow> info \<Rightarrow> unit hact" where
  "write_conditional at v i h =
     (if bytes_at h at (length v) = v then (Ok (), h)
      else sbind (remember at (length v) i) (\<lambda>_. smodify (heap_poke at v)) h)"

definition get_word :: "reference \<Rightarrow> nat \<Rightarrow> heap \<Rightarrow> u16 jres" where
  "get_word ref index h = rbind (heap_slot ref index False h) (\<lambda>(at, _).
     Ok (be16 (hp_bytes h ! at) (hp_bytes h ! (at + 1))))"

definition put_word :: "reference \<Rightarrow> nat \<Rightarrow> u16 \<Rightarrow> unit hact" where
  "put_word ref index v = sbind (sget (heap_slot ref index False)) (\<lambda>(at, i).
     write_conditional at (be16_bytes v) i)"

definition put_word_unconditional :: "reference \<Rightarrow> nat \<Rightarrow> u16 \<Rightarrow> unit hact" where
  "put_word_unconditional ref index v = sbind (sget (heap_slot ref index False)) (\<lambda>(at, i) h.
     let v = be16_bytes v in
     if bytes_at h at 2 = v then (Ok (), h)
     else
       let h = (if inf_clear i = 0 then note_pending at 2 h else h);
           h = preserve_tx at v h in
       (Ok (), heap_poke at v h))"

definition put_int :: "reference \<Rightarrow> nat \<Rightarrow> i32 \<Rightarrow> unit hact" where
  "put_int ref index v = sbind (sget (heap_slot ref index False)) (\<lambda>(at, i).
     sbind (sget (heap_slot ref (index + 1) False)) (\<lambda>_.
     write_conditional at (be32_bytes v) i))"

definition remember_object :: "reference \<Rightarrow> unit hact" where
  "remember_object ref = sbind (sget (\<lambda>h. heap_info h ref)) (\<lambda>i.
     remember (unat ref + HEADER) (unat (inf_length i) * element_size i) i)"

definition array_get :: "reference \<Rightarrow> nat \<Rightarrow> heap \<Rightarrow> i16 jres" where
  "array_get ref index h = rbind (heap_slot ref index True h) (\<lambda>(at, i).
     if inf_kind i = KIND_BOOLEAN then Ok (of_bool (hp_bytes h ! at \<noteq> 0))
     else if inf_kind i = KIND_BYTE then Ok (scast (hp_bytes h ! at))
     else if inf_kind i = KIND_INT then Err JType
     else Ok (be16 (hp_bytes h ! at) (hp_bytes h ! (at + 1))))"

definition element_bytes :: "info \<Rightarrow> i16 \<Rightarrow> bytes" where
  "element_bytes i v =
     (if inf_kind i = KIND_BOOLEAN then [of_bool (v \<noteq> 0)]
      else if inf_kind i = KIND_BYTE then [ucast v] else be16_bytes v)"

definition array_put :: "reference \<Rightarrow> nat \<Rightarrow> i16 \<Rightarrow> unit hact" where
  "array_put ref index v = sbind (sget (heap_slot ref index True)) (\<lambda>(at, i).
     if inf_kind i = KIND_INT \<or> inf_kind i = KIND_REFERENCE then sfail JType
     else write_conditional at (element_bytes i v) i)"

definition array_put_reference :: "reference \<Rightarrow> nat \<Rightarrow> reference \<Rightarrow> unit hact" where
  "array_put_reference ref index v = sbind (sget (heap_slot ref index True)) (\<lambda>(at, i).
     if inf_kind i \<noteq> KIND_REFERENCE then sfail JType
     else write_conditional at (be16_bytes v) i)"

definition array_get_int :: "reference \<Rightarrow> nat \<Rightarrow> heap \<Rightarrow> i32 jres" where
  "array_get_int ref index h = rbind (heap_slot ref index True h) (\<lambda>(at, i).
     if inf_kind i \<noteq> KIND_INT then Err JType else Ok (be32 (bytes_at h at 4)))"

definition array_put_int :: "reference \<Rightarrow> nat \<Rightarrow> i32 \<Rightarrow> unit hact" where
  "array_put_int ref index v = sbind (sget (heap_slot ref index True)) (\<lambda>(at, i).
     if inf_kind i \<noteq> KIND_INT then sfail JType
     else write_conditional at (be32_bytes v) i)"

text \<open>The checked range of a byte array: where its bytes are in the slab, with the header.\<close>

definition byte_array_range :: "reference \<Rightarrow> nat \<Rightarrow> nat \<Rightarrow> heap \<Rightarrow> (nat \<times> info) jres" where
  "byte_array_range ref offset n h = rbind (heap_info h ref) (\<lambda>i.
     if element_size i \<noteq> 1 \<or> \<not> is_array i then Err JType
     else rbind (ok_or (checked_add offset n) JBounds) (\<lambda>end.
     if end > unat (inf_length i) then Err JBounds
     else Ok (unat ref + HEADER + offset, i)))"

definition byte_slice :: "reference \<Rightarrow> nat \<Rightarrow> nat \<Rightarrow> heap \<Rightarrow> bytes jres" where
  "byte_slice ref offset n h = rbind (byte_array_range ref offset n h) (\<lambda>(at, _). Ok (bytes_at h at n))"

definition copy_bytes_inner :: "reference \<Rightarrow> nat \<Rightarrow> reference \<Rightarrow> nat \<Rightarrow> nat \<Rightarrow> bool \<Rightarrow> unit hact" where
  "copy_bytes_inner source source_offset destination destination_offset n conditional =
     sbind (sget (byte_slice source source_offset n)) (\<lambda>_.
     sbind (sget (byte_slice destination destination_offset n)) (\<lambda>_.
     sbind (sget (\<lambda>h. heap_info h destination)) (\<lambda>i h.
       let src = unat source + HEADER + source_offset;
           dst = unat destination + HEADER + destination_offset in
       if \<not> conditional \<and> bytes_at h src n = bytes_at h dst n then (Ok (), h)
       else sbind (if conditional then remember dst n i else sret ()) (\<lambda>_ h.
         case copy_within (hp_bytes h) src dst n of None \<Rightarrow> (Err JBounds, h)
         | Some bs \<Rightarrow>
             let h = h\<lparr>hp_bytes := bs\<rparr> in
             if conditional then (Ok (), h)
             else
               let h = (if inf_clear i = 0 then note_pending dst n h else h) in
               (Ok (), preserve_tx dst (bytes_at h dst n) h)) h)))"

definition copy_bytes :: "reference \<Rightarrow> nat \<Rightarrow> reference \<Rightarrow> nat \<Rightarrow> nat \<Rightarrow> unit hact" where
  "copy_bytes source source_offset destination destination_offset n =
     copy_bytes_inner source source_offset destination destination_offset n True"

definition copy_bytes_unconditional :: "reference \<Rightarrow> nat \<Rightarrow> reference \<Rightarrow> nat \<Rightarrow> nat \<Rightarrow> unit hact" where
  "copy_bytes_unconditional source source_offset destination destination_offset n =
     copy_bytes_inner source source_offset destination destination_offset n False"

definition write_bytes_unconditional :: "reference \<Rightarrow> nat \<Rightarrow> bytes \<Rightarrow> unit hact" where
  "write_bytes_unconditional ref offset v =
     sbind (sget (byte_slice ref offset (length v))) (\<lambda>_ h.
       let at = unat ref + HEADER + offset in
       if bytes_at h at (length v) = v then (Ok (), h)
       else sbind (sget (\<lambda>h. heap_info h ref)) (\<lambda>i h.
         let h = (if inf_clear i = 0 then note_pending at (length v) h else h);
             h = heap_poke at v h in
         (Ok (), preserve_tx at (bytes_at h at (length v)) h)) h)"

definition fill_bytes_unconditional :: "reference \<Rightarrow> nat \<Rightarrow> nat \<Rightarrow> byte \<Rightarrow> unit hact" where
  "fill_bytes_unconditional ref offset n v =
     sbind (sget (byte_slice ref offset n)) (\<lambda>_ h.
       let at = unat ref + HEADER + offset in
       if list_all (\<lambda>b. b = v) (bytes_at h at n) then (Ok (), h)
       else sbind (sget (\<lambda>h. heap_info h ref)) (\<lambda>i h.
         let h = (if inf_clear i = 0 then note_pending at n h else h);
             h = heap_poke at (replicate n v) h in
         (Ok (), preserve_tx at (bytes_at h at n) h)) h)"

fun check_spans :: "(reference \<times> nat \<times> nat) list \<Rightarrow> heap \<Rightarrow> unit jres" where
  "check_spans [] h = Ok ()"
| "check_spans ((ref, offset, n) # spans) h =
     rbind (heap_info h ref) (\<lambda>i.
     rbind (ok_or (checked_add offset n) JBounds) (\<lambda>end.
     if end > unat (inf_length i) * element_size i then Err JBounds else check_spans spans h))"

fun remember_spans :: "nat \<Rightarrow> (reference \<times> nat \<times> nat) list \<Rightarrow> unit hact" where
  "remember_spans room [] h = (Ok (), h)"
| "remember_spans room ((ref, offset, n) # spans) h =
     (case heap_info h ref of Err e \<Rightarrow> (Err e, h)
      | Ok i \<Rightarrow>
          case remember (unat ref + HEADER + offset) n i h of
            (Err e, h) \<Rightarrow> (Err e, h\<lparr>hp_tx := map_option (\<lambda>(start, u). (start, rewind room u)) (hp_tx h)\<rparr>)
          | (Ok _, h) \<Rightarrow> remember_spans room spans h)"

definition prepare_payload_writes :: "(reference \<times> nat \<times> nat) list \<Rightarrow> unit hact" where
  "prepare_payload_writes spans = sbind (sget (check_spans spans)) (\<lambda>_ h.
     case transaction_remaining h of None \<Rightarrow> (Ok (), h) | Some room \<Rightarrow> remember_spans room spans h)"

text \<open>\<open>byte_slice_mut\<close> lends the range to its caller, who overwrites it with \<open>v\<close>.\<close>

definition byte_slice_mut :: "reference \<Rightarrow> nat \<Rightarrow> nat \<Rightarrow> nat hact" where
  "byte_slice_mut ref offset n = sbind (sget (byte_array_range ref offset n)) (\<lambda>(at, i).
     sbind (remember at n i) (\<lambda>_. sret at))"

definition write_slice :: "reference \<Rightarrow> nat \<Rightarrow> bytes \<Rightarrow> unit hact" where
  "write_slice ref offset v = sbind (byte_slice_mut ref offset (length v)) (\<lambda>at. smodify (heap_poke at v))"

end
