(* ===== verification/Heap_Transactions.thy ===== *)
theory Heap_Transactions
  imports Object_Heap
begin

text \<open>
  Transactions on the object heap. The committed view of a heap is what every byte goes back to
  when the open transaction is undone; each write either leaves that view alone (conditional
  writes to persistent objects) or updates it (unconditional writes, and writes to transient
  arrays, which the engine does not log). Aborting and projecting are shown to produce exactly
  this view, whatever references the applet passes.
\<close>

section \<open>Invariant and view\<close>

definition heap_fit :: "nat \<Rightarrow> image \<Rightarrow> bool" where
  "heap_fit n e \<longleftrightarrow> fst e \<ge> 65536 \<or> fst e + length (snd e) \<le> n"

definition heap_inv :: "heap \<Rightarrow> bool" where
  "heap_inv h \<longleftrightarrow> 2 \<le> hp_next h \<and> hp_next h \<le> length (hp_bytes h) \<and> hp_next h \<le> u16_max
     \<and> even (hp_next h) \<and> pending_inv (hp_pending h)
     \<and> (case hp_tx h of None \<Rightarrow> True
        | Some (start, u) \<Rightarrow> start \<le> hp_next h \<and> 2 \<le> start \<and> even start \<and> undo_wf u
            \<and> list_all (heap_fit (hp_next h)) (images u))"

definition hmem :: "heap \<Rightarrow> nat \<Rightarrow> byte" where
  "hmem h k = hp_bytes h ! k"

definition hview :: "heap \<Rightarrow> nat \<Rightarrow> byte" where
  "hview h = (case hp_tx h of None \<Rightarrow> hmem h | Some (_, u) \<Rightarrow> holding u (hmem h))"

definition in_tx :: "heap \<Rightarrow> bool" where
  "in_tx h \<longleftrightarrow> hp_tx h \<noteq> None"

text \<open>
  What a heap write keeps: the sizes, the allocation cursor, where the transaction began and the
  before-images of static fields.
\<close>

definition static_images :: "undo \<Rightarrow> image list" where
  "static_images u = filter (\<lambda>e. 65536 \<le> fst e) (images u)"

fun tx_frame :: "nat \<times> undo \<Rightarrow> nat \<times> image list" where
  "tx_frame (start, u) = (start, static_images u)"

definition same_shape :: "heap \<Rightarrow> heap \<Rightarrow> bool" where
  "same_shape h h' \<longleftrightarrow> hp_next h' = hp_next h \<and> length (hp_bytes h') = length (hp_bytes h)
     \<and> hp_aborted h' = hp_aborted h \<and> map_option tx_frame (hp_tx h') = map_option tx_frame (hp_tx h)"

lemma same_shape_refl [simp]: "same_shape h h"
  by (simp add: same_shape_def)

lemma same_shape_trans: "same_shape h g \<Longrightarrow> same_shape g f \<Longrightarrow> same_shape h f"
  by (simp add: same_shape_def)

lemma same_shape_committed: "same_shape h h' \<Longrightarrow> committed_bytes h' = committed_bytes h \<and> in_tx h' = in_tx h"
  by (cases "hp_tx h"; cases "hp_tx h'") (auto simp: same_shape_def committed_bytes_def in_tx_def)

lemma holding_local: "m k = m' k \<Longrightarrow> holding u m k = holding u m' k"
  by (simp add: holding_def)

lemma hmem_poke: "at + length v \<le> length (hp_bytes h) \<Longrightarrow> k < length (hp_bytes h)
    \<Longrightarrow> hmem (heap_poke at v h) k = poke at v (hmem h) k"
  by (auto simp: hmem_def heap_poke_def poke_def nth_overwrite)

lemma poke_local: "m k = m' k \<Longrightarrow> poke at v m k = poke at v m' k"
  by (simp add: poke_def)

lemma heap_poke_simps [simp]:
  "hp_next (heap_poke at v h) = hp_next h" "hp_tx (heap_poke at v h) = hp_tx h"
  "hp_aborted (heap_poke at v h) = hp_aborted h" "hp_pending (heap_poke at v h) = hp_pending h"
  "hp_bytes (heap_poke at v h) = overwrite (hp_bytes h) at v"
  by (simp_all add: heap_poke_def)

lemma note_pending_simps [simp]:
  "hp_next (note_pending at n h) = hp_next h" "hp_tx (note_pending at n h) = hp_tx h"
  "hp_aborted (note_pending at n h) = hp_aborted h" "hp_bytes (note_pending at n h) = hp_bytes h"
  "hp_pending (note_pending at n h) = pending_heap at n (hp_pending h)"
  by (simp_all add: note_pending_def)

lemma preserve_tx_simps [simp]:
  "hp_next (preserve_tx at v h) = hp_next h" "hp_aborted (preserve_tx at v h) = hp_aborted h"
  "hp_bytes (preserve_tx at v h) = hp_bytes h" "hp_pending (preserve_tx at v h) = hp_pending h"
  "hp_tx (preserve_tx at v h) = map_option (\<lambda>(start, u). (start, preserve at v u)) (hp_tx h)"
  by (simp_all add: preserve_tx_def)

lemma heap_invD:
  assumes "heap_inv h"
  shows "2 \<le> hp_next h" "hp_next h \<le> length (hp_bytes h)" "hp_next h \<le> u16_max" "even (hp_next h)"
    "pending_inv (hp_pending h)" "committed_bytes h \<le> hp_next h"
  using assms by (auto simp: heap_inv_def committed_bytes_def split: option.splits)

lemma heap_inv_tx:
  assumes "heap_inv h" and "hp_tx h = Some (start, u)"
  shows "start \<le> hp_next h" "2 \<le> start" "even start" "undo_wf u" "list_all (heap_fit (hp_next h)) (images u)"
  using assms by (auto simp: heap_inv_def)

section \<open>Logging a write\<close>

lemma remember_err: "heap_inv h \<Longrightarrow> remember at n i h = (Err e, h') \<Longrightarrow> h' = h"
  using undo_log.record_refused
  by (auto simp: remember_def heap_inv_def split: if_splits option.splits prod.splits)

text \<open>
  What \<open>remember\<close> establishes: a later write of the range leaves the view alone, or is outside any
  transaction. A transient array is not logged: inside a transaction its bytes are left out.
\<close>

lemma remember_ok:
  assumes inv: "heap_inv h" and fit: "at + n \<le> hp_next h" and run: "remember at n i h = (Ok (), h')"
  shows "heap_inv h' \<and> same_shape h h' \<and> hp_bytes h' = hp_bytes h"
    and "length v = n \<Longrightarrow> k < committed_bytes h \<Longrightarrow> (in_tx h \<Longrightarrow> inf_clear i \<noteq> 0 \<Longrightarrow> k \<notin> {at..<at + n})
      \<Longrightarrow> hview (heap_poke at v h') k = (if in_tx h then hview h k else poke at v (hview h) k)"
proof -
  have len: "hp_next h \<le> length (hp_bytes h)"
    using heap_invD [OF inv] by simp
  have "(heap_inv h' \<and> same_shape h h' \<and> hp_bytes h' = hp_bytes h) \<and>
    (length v = n \<longrightarrow> k < committed_bytes h \<longrightarrow> (in_tx h \<and> inf_clear i \<noteq> 0 \<longrightarrow> k \<notin> {at..<at + n})
      \<longrightarrow> hview (heap_poke at v h') k = (if in_tx h then hview h k else poke at v (hview h) k))"
  proof (cases "hp_tx h")
    case None
    then have h': "h' = (if inf_clear i = 0 then note_pending at n h else h)"
      using run by (auto simp: remember_def split: if_splits)
    then show ?thesis
      using inv None fit len heap_invD [OF inv] pending_heap_covers(1)
      by (auto simp: heap_inv_def same_shape_def hview_def in_tx_def committed_bytes_def hmem_poke
          simp del: heap_poke_simps(5)) (auto simp: hmem_def poke_def nth_overwrite)
  next
    case (Some tx)
    obtain start u where tx: "tx = (start, u)" by (cases tx)
    note t = heap_inv_tx [OF inv Some [unfolded tx]]
    have c: "committed_bytes h = start" "in_tx h" "hview h = holding u (hmem h)"
      using Some tx by (simp_all add: committed_bytes_def in_tx_def hview_def)
    have poked: "hmem (heap_poke at v g) k = poke at v (hmem h) k"
      if "hp_bytes g = hp_bytes h" "length v = n" "k < start" for g
      using that fit len t(1) hmem_poke [of at v g k] by (simp add: hmem_def poke_def)
    show ?thesis
    proof (cases "inf_clear i = 0 \<and> at < start")
      case True
      obtain r u1 where rec: "record_before at (slice_of (hp_bytes h) at (at + n)) False u = (r, u1)"
        by fastforce
      then have r: "r = Ok ()" "h' = h\<lparr>hp_tx := Some (start, u1)\<rparr>"
        using run True Some tx by (simp_all add: remember_def)
      note rec = rec [unfolded r(1)]
      have im: "list_all (heap_fit (hp_next h)) (images u1)" "undo_wf u1" "static_images u1 = static_images u"
        using record_before_cases [OF t(4) rec] t(5) fit len
        by (auto simp: heap_fit_def side_def static_images_def u16_max_def)
      have "map (\<lambda>i. hmem h (side False + at + i)) [0..<length v] = slice_of (hp_bytes h) at (at + n)"
        if "length v = n"
        using that fit len by (intro nth_equalityI) (auto simp: hmem_def side_def)
      then have "holding u1 (poke at v (hmem h)) = holding u (hmem h)" if "length v = n"
        using undo_log.conditional_write [OF t(4), of at "hmem h" False v u1] rec that by (simp add: side_def)
      then have "hview (heap_poke at v h') k = hview h k" if "length v = n" "k < start"
        using holding_local [of "hmem (heap_poke at v h')" k "poke at v (hmem h)" u1] poked [of h'] that c(3) r(2)
        by (simp add: hview_def)
      then show ?thesis
        using inv im t r(2) Some tx c True by (auto simp: heap_inv_def same_shape_def)
    next
      case False
      then have "h' = h"
        using run Some tx by (auto simp: remember_def split: if_splits)
      moreover have "hview (heap_poke at v h) k = hview h k"
        if "length v = n" "k < start" "inf_clear i \<noteq> 0 \<longrightarrow> k \<notin> {at..<at + n}"
      proof -
        have "poke at v (hmem h) k = hmem h k"
          using False that by (auto simp: poke_def)
        then have "hmem (heap_poke at v h) k = hmem h k"
          using poked [of h] that by simp
        then show ?thesis
          using holding_local [of "hmem (heap_poke at v h)" k "hmem h" u] c(3) Some tx by (simp add: hview_def)
      qed
      ultimately show ?thesis
        using inv c by auto
    qed
  qed
  then show "heap_inv h' \<and> same_shape h h' \<and> hp_bytes h' = hp_bytes h"
    and "length v = n \<Longrightarrow> k < committed_bytes h \<Longrightarrow> (in_tx h \<Longrightarrow> inf_clear i \<noteq> 0 \<Longrightarrow> k \<notin> {at..<at + n})
      \<Longrightarrow> hview (heap_poke at v h') k = (if in_tx h then hview h k else poke at v (hview h) k)"
    by auto
qed

lemma heap_inv_pending: "heap_inv h \<Longrightarrow> heap_inv (note_pending at n h)"
  using pending_heap_covers(1) by (auto simp: heap_inv_def split: option.splits)

lemma heap_inv_poke: "heap_inv h \<Longrightarrow> at + length v \<le> hp_next h \<Longrightarrow> heap_inv (heap_poke at v h)"
  by (auto simp: heap_inv_def split: option.splits)

lemma same_shape_note [simp]: "same_shape h (note_pending at n g) = same_shape h g"
  by (simp add: same_shape_def)

lemma same_shape_poke: "heap_inv g \<Longrightarrow> at + length v \<le> hp_next g \<Longrightarrow> same_shape h (heap_poke at v g) = same_shape h g"
  using heap_invD(2) [of g] by (simp add: same_shape_def)

lemma hview_note [simp]: "hmem (note_pending at n h) = hmem h" "hview (note_pending at n h) = hview h"
proof -
  show "hmem (note_pending at n h) = hmem h"
    by (simp add: hmem_def fun_eq_iff)
  then show "hview (note_pending at n h) = hview h"
    by (cases "hp_tx h") (auto simp: hview_def)
qed

lemma patch_low: "at + length v \<le> 65536 \<Longrightarrow> 65536 \<le> fst e \<Longrightarrow> patch at v e = e"
  using patch_disjoint [of at "fst e" v "snd e"] by simp

lemma filter_patch_low:
  "at + length v \<le> 65536 \<Longrightarrow> filter (\<lambda>e. 65536 \<le> fst e) (map (patch at v) es) = filter (\<lambda>e. 65536 \<le> fst e) es"
  by (induction es) (simp_all add: patch_low)

lemma unconditional_view:
  assumes inv: "heap_inv h" and fit: "at + length v \<le> hp_next h"
  defines "g \<equiv> heap_poke at v (preserve_tx at v h)"
  shows "heap_inv g \<and> same_shape h g \<and> (k < committed_bytes h \<longrightarrow> hview g k = poke at v (hview h) k)"
proof (cases "hp_tx h")
  case None
  then have g: "g = heap_poke at v h"
    by (cases h) (simp add: g_def preserve_tx_def)
  have "k < committed_bytes h \<Longrightarrow> k < length (hp_bytes h)"
    using heap_invD [OF inv] by linarith
  then show ?thesis
    using None inv fit heap_invD(2) [OF inv] heap_inv_poke [OF inv fit] same_shape_poke [OF inv fit, of h]
      hmem_poke [of at v h k]
    by (auto simp: g hview_def)
next
  case (Some tx)
  obtain start u where tx: "tx = (start, u)" by (cases tx)
  note t = heap_inv_tx [OF inv Some [unfolded tx]]
  have len: "hp_next h \<le> length (hp_bytes h)"
    using heap_invD [OF inv] by simp
  have pw: "undo_wf (preserve at v u)" "images (preserve at v u) = map (patch at v) (images u)"
    using undo_preserve_wf [OF t(4)] by auto
  have "list_all (heap_fit (hp_next h)) (images (preserve at v u))"
    using t(5) unfolding pw(2) by (auto simp: list_all_iff heap_fit_def)
  moreover have "static_images (preserve at v u) = static_images u"
    unfolding static_images_def pw(2) using fit heap_invD(3) [OF inv]
    by (intro filter_patch_low) (simp add: u16_max_def)
  ultimately have "heap_inv g" "same_shape h g"
    using inv t pw(1) fit len Some tx
    by (auto simp: g_def heap_inv_def same_shape_def)
  moreover have "hview g k = poke at v (hview h) k" if "k < committed_bytes h"
  proof -
    have "hmem g k = poke at v (hmem h) k"
      using that Some tx t(1) fit len hmem_poke [of at v "preserve_tx at v h" k]
      by (simp add: g_def committed_bytes_def hmem_def poke_def)
    then have "holding (preserve at v u) (hmem g) k = poke at v (holding u (hmem h)) k"
      using holding_local [of "hmem g" k "poke at v (hmem h)" "preserve at v u"]
        undo_log.preserve_view [OF t(4), of at v "hmem h"] by simp
    then show ?thesis
      using Some tx by (simp add: hview_def g_def)
  qed
  ultimately show ?thesis by blast
qed

section \<open>Heap operations\<close>

lemma heap_info_bounds:
  assumes "heap_info h ref = Ok i"
  shows "unat ref + HEADER + unat (inf_length i) * element_size i \<le> hp_next h"
    and "hp_next h \<le> length (hp_bytes h)" and "even (unat ref)" and "2 \<le> unat ref"
proof -
  have r: "unat ref + HEADER + unat (inf_length i) * element_size i \<le> hp_next h \<and> hp_next h \<le> length (hp_bytes h)
      \<and> even (unat ref) \<and> ref \<noteq> 0"
    using assms by (auto simp: heap_info_def info_read_def Let_def split: if_splits)
  then show "unat ref + HEADER + unat (inf_length i) * element_size i \<le> hp_next h"
    "hp_next h \<le> length (hp_bytes h)" "even (unat ref)"
    by blast+
  then have "unat ref \<noteq> 0" "unat ref \<noteq> 1"
    using r by (auto simp: unsigned_eq_0_iff)
  then show "2 \<le> unat ref"
    by linarith
qed

lemma element_size_pos [simp]: "0 < element_size i"
  by (simp add: element_size_def)

lemma heap_slot_eq_Ok:
  "heap_slot ref index want h = Ok (at, i) \<longleftrightarrow> heap_info h ref = Ok i \<and> is_array i = want
     \<and> index < unat (inf_length i) \<and> at = unat ref + HEADER + index * element_size i"
  by (cases "heap_info h ref") (auto simp: heap_slot_def)

lemma heap_slot_bounds:
  assumes "heap_slot ref index want h = Ok (at, i)"
  shows "at + element_size i \<le> hp_next h"
proof -
  have "Suc index * element_size i \<le> unat (inf_length i) * element_size i"
    using assms by (intro mult_le_mono1) (simp add: heap_slot_eq_Ok)
  then show ?thesis
    using assms heap_info_bounds(1) [of h ref i] by (simp add: heap_slot_eq_Ok)
qed

lemma byte_array_range_eq_Ok:
  "byte_array_range ref offset n h = Ok (at, i) \<longleftrightarrow> heap_info h ref = Ok i \<and> element_size i = 1 \<and> is_array i
     \<and> offset + n \<le> usize_max \<and> offset + n \<le> unat (inf_length i) \<and> at = unat ref + HEADER + offset"
  by (cases "heap_info h ref") (auto simp: byte_array_range_def checked_add_def)

lemma byte_array_bounds: "byte_array_range ref offset n h = Ok (at, i) \<Longrightarrow> at + n \<le> hp_next h"
  using heap_info_bounds(1) [of h ref i] by (auto simp: byte_array_range_eq_Ok)

datatype hop =
    Put_word reference nat u16 | Put_word_unconditional reference nat u16 | Put_int reference nat i32
  | Array_put reference nat i16 | Array_put_reference reference nat reference | Array_put_int reference nat i32
  | Write_slice reference nat bytes | Copy_bytes reference nat reference nat nat
  | Copy_bytes_unconditional reference nat reference nat nat
  | Fill_bytes_unconditional reference nat nat byte | Write_bytes_unconditional reference nat bytes
  | Remember_object reference
  | New_object u16 u16 jcontext | New_array byte u16 jcontext | New_reference_array u16 u16 jcontext
  | New_transient_array byte u16 jcontext byte

fun hop_step :: "hop \<Rightarrow> heap \<Rightarrow> unit jres \<times> heap" where
  "hop_step (Put_word r i v) h = put_word r i v h"
| "hop_step (Put_word_unconditional r i v) h = put_word_unconditional r i v h"
| "hop_step (Put_int r i v) h = put_int r i v h"
| "hop_step (Array_put r i v) h = array_put r i v h"
| "hop_step (Array_put_reference r i v) h = array_put_reference r i v h"
| "hop_step (Array_put_int r i v) h = array_put_int r i v h"
| "hop_step (Write_slice r off v) h = write_slice r off v h"
| "hop_step (Copy_bytes s so d ofs n) h = copy_bytes s so d ofs n h"
| "hop_step (Copy_bytes_unconditional s so d ofs n) h = copy_bytes_unconditional s so d ofs n h"
| "hop_step (Fill_bytes_unconditional r off n v) h = fill_bytes_unconditional r off n v h"
| "hop_step (Write_bytes_unconditional r off v) h = write_bytes_unconditional r off v h"
| "hop_step (Remember_object r) h = remember_object r h"
| "hop_step (New_object c n ctx) h = sbind (new_object c n ctx) (\<lambda>_. sret ()) h"
| "hop_step (New_array k n ctx) h = sbind (new_array k n ctx) (\<lambda>_. sret ()) h"
| "hop_step (New_reference_array c n ctx) h = sbind (new_reference_array c n ctx) (\<lambda>_. sret ()) h"
| "hop_step (New_transient_array k n ctx e) h = sbind (new_transient_array k n ctx e) (\<lambda>_. sret ()) h"

text \<open>
  The range an operation writes to a transient array through the transaction log, and the bytes an
  unconditional operation writes: read off its arguments and the headers it finds.
\<close>

definition info_at :: "heap \<Rightarrow> reference \<Rightarrow> info" where
  "info_at h ref = the_Ok (heap_info h ref)"

definition transient_at :: "heap \<Rightarrow> reference \<Rightarrow> bool" where
  "transient_at h ref \<longleftrightarrow> inf_clear (info_at h ref) \<noteq> 0"

definition payload_set :: "heap \<Rightarrow> reference \<Rightarrow> nat set" where
  "payload_set h ref = {unat ref + HEADER..<unat ref + HEADER + payload_size (info_at h ref)}"

fun scratch :: "hop \<Rightarrow> heap \<Rightarrow> nat set" where
  "scratch (Put_word r i v) h = (if transient_at h r then payload_set h r else {})"
| "scratch (Put_int r i v) h = (if transient_at h r then payload_set h r else {})"
| "scratch (Array_put r i v) h = (if transient_at h r then payload_set h r else {})"
| "scratch (Array_put_reference r i v) h = (if transient_at h r then payload_set h r else {})"
| "scratch (Array_put_int r i v) h = (if transient_at h r then payload_set h r else {})"
| "scratch (Write_slice r off v) h = (if transient_at h r then payload_set h r else {})"
| "scratch (Copy_bytes s so d ofs n) h = (if transient_at h d then payload_set h d else {})"
| "scratch _ h = {}"

fun unconditional :: "hop \<Rightarrow> heap \<Rightarrow> (nat \<times> bytes) option" where
  "unconditional (Put_word_unconditional r i v) h = Some (unat r + HEADER + i * 2, be16_bytes v)"
| "unconditional (Copy_bytes_unconditional s so d ofs n) h =
     Some (unat d + HEADER + ofs, bytes_at h (unat s + HEADER + so) n)"
| "unconditional (Fill_bytes_unconditional r off n v) h = Some (unat r + HEADER + off, replicate n v)"
| "unconditional (Write_bytes_unconditional r off v) h = Some (unat r + HEADER + off, v)"
| "unconditional _ h = None"

text \<open>
  The view after an operation. An unconditional write whose bytes are already in place returns
  before it reaches the log, so it does not change the view.
\<close>

definition view_after :: "hop \<Rightarrow> heap \<Rightarrow> (nat \<Rightarrow> byte) \<Rightarrow> nat \<Rightarrow> byte" where
  "view_after op h view =
     (case unconditional op h of
        None \<Rightarrow> view
      | Some (at, v) \<Rightarrow> if fst (hop_step op h) = Ok () \<and> bytes_at h at (length v) \<noteq> v then poke at v view else view)"

section \<open>Effect of each operation inside a transaction\<close>

text \<open>
  A step from \<open>h\<close> to \<open>h'\<close> that keeps the invariant and the start of the transaction, may
  allocate, and turns the committed view into \<open>view\<close> outside the set \<open>loose\<close>.
\<close>

definition tx_step :: "nat set \<Rightarrow> (nat \<Rightarrow> byte) \<Rightarrow> heap \<Rightarrow> heap \<Rightarrow> bool" where
  "tx_step loose view h h' \<longleftrightarrow> heap_inv h' \<and> hp_next h \<le> hp_next h' \<and> length (hp_bytes h') = length (hp_bytes h)
     \<and> map_option tx_frame (hp_tx h') = map_option tx_frame (hp_tx h)
     \<and> (\<forall>k < committed_bytes h. k \<notin> loose \<longrightarrow> hview h' k = view k)"

definition unlogged :: "info \<Rightarrow> nat set \<Rightarrow> nat set" where
  "unlogged i s = (if inf_clear i \<noteq> 0 then s else {})"

lemma tx_step_refl: "heap_inv h \<Longrightarrow> tx_step loose (hview h) h h"
  by (simp add: tx_step_def)

lemma tx_step_mono: "tx_step loose view h h' \<Longrightarrow> loose \<subseteq> loose' \<Longrightarrow> tx_step loose' view h h'"
  by (auto simp: tx_step_def)

lemma write_step:
  assumes "heap_inv h" and "in_tx h" and "at + length v \<le> hp_next h"
    and "remember at (length v) i h = (Ok (), h1)"
  shows "tx_step (unlogged i {at..<at + length v}) (hview h) h (heap_poke at v h1)"
proof -
  note r = remember_ok [OF assms(1,3,4)]
  have "heap_inv (heap_poke at v h1)" "same_shape h (heap_poke at v h1)"
    using r(1) assms(3) heap_inv_poke [of h1 at v] same_shape_poke [of h1 at v h] by (auto simp: same_shape_def)
  then show ?thesis
    using r(2) [of v] assms(2) by (auto simp: tx_step_def same_shape_def unlogged_def)
qed

lemma write_conditional_step:
  assumes "heap_inv h" and "in_tx h" and "at + n \<le> hp_next h" and "length v = n" and "write_conditional at v i h = (r, h')"
  shows "tx_step (unlogged i {at..<at + n}) (hview h) h h'"
proof (cases "bytes_at h at (length v) = v")
  case True
  then show ?thesis
    using assms by (auto simp: write_conditional_def tx_step_refl)
next
  case False
  obtain r1 h1 where run: "remember at (length v) i h = (r1, h1)" by fastforce
  show ?thesis
  proof (cases r1)
    case (Err e)
    then have "h' = h"
      using assms(5) False run remember_err [OF assms(1), of at "length v" i e h1]
      by (simp add: write_conditional_def sbind_def)
    then show ?thesis
      using tx_step_refl [OF assms(1)] by simp
  next
    case (Ok u)
    then have "h' = heap_poke at v h1"
      using assms(5) False run by (simp add: write_conditional_def sbind_def)
    then show ?thesis
      using write_step [OF assms(1,2), of at v i h1] assms(3,4) run Ok by simp
  qed
qed

text \<open>The pattern of the conditional operations: look up a range, then write it.\<close>

lemma lookup_write_step:
  assumes "heap_inv h" and "in_tx h"
    and "sbind (sget look) (\<lambda>(at, i). w at i) h = (r, h')"
    and ok: "\<And>at i. look h = Ok (at, i) \<Longrightarrow> heap_info h ref = Ok i \<and> {at..<at + n} \<subseteq> payload_set h ref"
    and w: "\<And>at i r h'. look h = Ok (at, i) \<Longrightarrow> w at i h = (r, h')
      \<Longrightarrow> tx_step (unlogged i {at..<at + n}) (hview h) h h'"
  shows "tx_step (if transient_at h ref then payload_set h ref else {}) (hview h) h h'"
proof (cases "look h")
  case (Err e)
  then show ?thesis
    using assms(1,3) by (auto simp: sbind_def intro: tx_step_refl)
next
  case (Ok x)
  obtain at i where x: "x = (at, i)" by (cases x)
  then have "heap_info h ref = Ok i" "{at..<at + n} \<subseteq> payload_set h ref" "w at i h = (r, h')"
    using ok [of at i] Ok assms(3) by (auto simp: sbind_def)
  then show ?thesis
    using w [of at i r h'] Ok x by (auto simp: transient_at_def info_at_def unlogged_def intro: tx_step_mono split: if_splits)
qed

lemma slot_in_payload:
  assumes "heap_slot ref index want h = Ok (at, i)"
  shows "heap_info h ref = Ok i \<and> {at..<at + element_size i} \<subseteq> payload_set h ref"
proof -
  have "Suc index * element_size i \<le> unat (inf_length i) * element_size i"
    using assms by (intro mult_le_mono1) (simp add: heap_slot_eq_Ok)
  then show ?thesis
    using assms by (auto simp: heap_slot_eq_Ok payload_set_def info_at_def payload_size_def)
qed

lemma length_codec [simp]: "length (be16_bytes w) = 2" "length (be32_bytes x) = 4"
  by (simp_all add: be16_bytes_def be32_bytes_def)

lemma object_element_size: "heap_info h ref = Ok i \<Longrightarrow> \<not> is_array i \<Longrightarrow> element_size i = 2"
  by (simp add: is_array_def element_size_def)

lemma put_word_step:
  assumes "heap_inv h" and "in_tx h" and "put_word ref index v h = (r, h')"
  shows "tx_step (if transient_at h ref then payload_set h ref else {}) (hview h) h h'"
proof (rule lookup_write_step [OF assms(1,2) assms(3) [unfolded put_word_def]])
  fix at i
  assume l: "heap_slot ref index False h = Ok (at, i)"
  then have sz: "element_size i = 2"
    using object_element_size by (auto simp: heap_slot_eq_Ok)
  show "heap_info h ref = Ok i \<and> {at..<at + 2} \<subseteq> payload_set h ref"
    using slot_in_payload [OF l] sz by simp
  show "tx_step (unlogged i {at..<at + 2}) (hview h) h h'"
    if "write_conditional at (be16_bytes v) i h = (r, h')" for r h'
    using write_conditional_step [OF assms(1,2) _ _ that, of 2] heap_slot_bounds [OF l] sz by simp
qed

lemma put_int_step:
  assumes "heap_inv h" and "in_tx h" and "put_int ref index v h = (r, h')"
  shows "tx_step (if transient_at h ref then payload_set h ref else {}) (hview h) h h'"
proof (cases "heap_slot ref (index + 1) False h")
  case (Err e)
  then show ?thesis
    using assms by (auto simp: put_int_def sbind_def tx_step_refl split: result.splits prod.splits)
next
  case (Ok x)
  have eq: "put_int ref index v h = sbind (sget (heap_slot ref index False)) (\<lambda>(at, i). write_conditional at (be32_bytes v) i) h"
    using Ok by (simp add: put_int_def sbind_def split: result.splits prod.splits)
  show ?thesis
  proof (rule lookup_write_step [OF assms(1,2) assms(3) [unfolded eq]])
    fix at i
    assume l: "heap_slot ref index False h = Ok (at, i)"
    then have i: "heap_info h ref = Ok i" "at = unat ref + HEADER + index * 2" "index + 1 < unat (inf_length i)" "element_size i = 2"
      using Ok object_element_size by (cases x, auto simp: heap_slot_eq_Ok)+
    then have fit: "at + 4 \<le> unat ref + HEADER + unat (inf_length i) * element_size i"
      by simp
    show "heap_info h ref = Ok i \<and> {at..<at + 4} \<subseteq> payload_set h ref"
      using i fit by (auto simp: payload_set_def info_at_def payload_size_def)
    show "tx_step (unlogged i {at..<at + 4}) (hview h) h h'"
      if "write_conditional at (be32_bytes v) i h = (r, h')" for r h'
      using write_conditional_step [OF assms(1,2) _ _ that, of 4] heap_info_bounds(1) [OF i(1)] fit by simp
  qed
qed

text \<open>Array stores write one element.\<close>

lemma array_store_step:
  assumes "heap_inv h" and "in_tx h"
    and "sbind (sget (heap_slot ref index True)) (\<lambda>(at, i). if bad i then sfail JType else write_conditional at (bs i) i) h = (r, h')"
    and "\<And>i. \<not> bad i \<Longrightarrow> length (bs i) = element_size i"
  shows "tx_step (if transient_at h ref then payload_set h ref else {}) (hview h) h h'"
proof (cases "heap_slot ref index True h")
  case (Err e)
  then show ?thesis
    using assms(1,3) by (auto simp: sbind_def tx_step_refl)
next
  case (Ok x)
  obtain at i where x: "x = (at, i)" by (cases x)
  note l = Ok [unfolded x]
  show ?thesis
  proof (rule lookup_write_step [OF assms(1-3)])
    fix at' i'
    assume "heap_slot ref index True h = Ok (at', i')"
    then have eq: "at' = at" "i' = i"
      using l by simp_all
    show "heap_info h ref = Ok i' \<and> {at'..<at' + element_size i} \<subseteq> payload_set h ref"
      using slot_in_payload [OF l] eq by simp
    show "tx_step (unlogged i' {at'..<at' + element_size i}) (hview h) h h'"
      if "(if bad i' then sfail JType else write_conditional at' (bs i') i') h = (r, h')" for r h'
    proof (cases "bad i")
      case True
      then show ?thesis
        using that tx_step_refl [OF assms(1)] by (simp add: eq)
    next
      case False
      then show ?thesis
        using that write_conditional_step [OF assms(1,2) heap_slot_bounds [OF l], of "bs i" i r h'] assms(4)
        by (simp add: eq)
    qed
  qed
qed

lemma array_put_step:
  assumes "heap_inv h" and "in_tx h" and "array_put ref index v h = (r, h')"
  shows "tx_step (if transient_at h ref then payload_set h ref else {}) (hview h) h h'"
  by (rule array_store_step [OF assms(1,2) assms(3) [unfolded array_put_def]])
    (auto simp: element_bytes_def element_size_def)

lemma array_put_reference_step:
  assumes "heap_inv h" and "in_tx h" and "array_put_reference ref index v h = (r, h')"
  shows "tx_step (if transient_at h ref then payload_set h ref else {}) (hview h) h h'"
  by (rule array_store_step [OF assms(1,2) assms(3) [unfolded array_put_reference_def]])
    (simp add: element_size_def)

lemma array_put_int_step:
  assumes "heap_inv h" and "in_tx h" and "array_put_int ref index v h = (r, h')"
  shows "tx_step (if transient_at h ref then payload_set h ref else {}) (hview h) h h'"
  by (rule array_store_step [OF assms(1,2) assms(3) [unfolded array_put_int_def]])
    (simp add: element_size_def)

lemma byte_range_in_payload:
  assumes "byte_array_range ref offset n h = Ok (at, i)"
  shows "heap_info h ref = Ok i \<and> {at..<at + n} \<subseteq> payload_set h ref"
  using assms by (auto simp: byte_array_range_eq_Ok payload_set_def info_at_def payload_size_def)

lemma write_slice_step:
  assumes "heap_inv h" and "in_tx h" and "write_slice ref offset v h = (r, h')"
  shows "tx_step (if transient_at h ref then payload_set h ref else {}) (hview h) h h'"
proof -
  let ?w = "\<lambda>at i. sbind (remember at (length v) i) (\<lambda>_. smodify (heap_poke at v))"
  have eq: "write_slice ref offset v h = sbind (sget (byte_array_range ref offset (length v))) (\<lambda>(at, i). ?w at i) h"
    by (auto simp: write_slice_def byte_slice_mut_def sbind_def split: result.splits prod.splits)
  show ?thesis
  proof (rule lookup_write_step [OF assms(1,2) assms(3) [unfolded eq]])
    fix at i
    assume l: "byte_array_range ref offset (length v) h = Ok (at, i)"
    show "heap_info h ref = Ok i \<and> {at..<at + length v} \<subseteq> payload_set h ref"
      by (rule byte_range_in_payload [OF l])
    show "tx_step (unlogged i {at..<at + length v}) (hview h) h h'" if "?w at i h = (r, h')" for r h'
    proof -
      obtain r1 h1 where run: "remember at (length v) i h = (r1, h1)" by fastforce
      then show ?thesis
        using that write_step [OF assms(1,2) byte_array_bounds [OF l]] tx_step_refl [OF assms(1)]
        by (cases r1) (auto simp: sbind_def dest!: remember_err [OF assms(1)])
    qed
  qed
qed

lemma byte_slice_eq_Ok:
  "byte_slice ref offset n h = Ok bs \<longleftrightarrow>
     (\<exists>i. byte_array_range ref offset n h = Ok (unat ref + HEADER + offset, i)) \<and> bs = bytes_at h (unat ref + HEADER + offset) n"
  by (auto simp: byte_slice_def rbind_eq_Ok byte_array_range_eq_Ok)

lemma copy_within_poke:
  assumes "src + n \<le> hp_next h" "dst + n \<le> hp_next h" "heap_inv h"
  shows "copy_within (hp_bytes h) src dst n = Some (overwrite (hp_bytes h) dst (bytes_at h src n))"
    and "length (bytes_at h src n) = n"
proof -
  have "hp_next h \<le> length (hp_bytes h)" "hp_next h \<le> usize_max"
    using heap_invD [OF assms(3)] by (simp_all add: u16_max_def usize_max_def)
  then show "copy_within (hp_bytes h) src dst n = Some (overwrite (hp_bytes h) dst (bytes_at h src n))"
    "length (bytes_at h src n) = n"
    using assms by (auto simp: copy_within_eq_Some bytes_at_def)
qed

text \<open>When both ranges are valid, a copy is a write of the source bytes; otherwise it changes nothing.\<close>

lemma copy_inner_cases:
  assumes "heap_inv h"
  shows "(\<exists>e. copy_bytes_inner s so d ofs n c h = (Err e, h)) \<or>
    (\<exists>i. byte_array_range d ofs n h = Ok (unat d + HEADER + ofs, i)
      \<and> unat s + HEADER + so + n \<le> hp_next h \<and> unat d + HEADER + ofs + n \<le> hp_next h
      \<and> copy_bytes_inner s so d ofs n c h =
        (let v = bytes_at h (unat s + HEADER + so) n; at = unat d + HEADER + ofs in
         if \<not> c \<and> v = bytes_at h at n then (Ok (), h)
         else if c then sbind (remember at n i) (\<lambda>_ h1. (Ok (), heap_poke at v h1)) h
         else (Ok (), preserve_tx at v (heap_poke at v (if inf_clear i = 0 then note_pending at n h else h)))))"
proof (cases "byte_slice s so n h")
  case (Err e)
  then show ?thesis
    by (auto simp: copy_bytes_inner_def)
next
  case src: (Ok x)
  show ?thesis
  proof (cases "byte_slice d ofs n h")
    case (Err e)
    then show ?thesis
      using src by (auto simp: copy_bytes_inner_def)
  next
    case dst: (Ok y)
    let ?src = "unat s + HEADER + so" and ?at = "unat d + HEADER + ofs"
    obtain i where i: "byte_array_range d ofs n h = Ok (?at, i)"
      using dst by (auto simp: byte_slice_eq_Ok)
    then have info: "heap_info h d = Ok i"
      by (simp add: byte_array_range_eq_Ok)
    have b: "?src + n \<le> hp_next h" "?at + n \<le> hp_next h"
      using src i byte_array_bounds by (auto simp: byte_slice_eq_Ok)
    have cp: "copy_within (hp_bytes h) ?src ?at n = Some (overwrite (hp_bytes h) ?at (bytes_at h ?src n))"
      and len: "length (bytes_at h ?src n) = n"
      using copy_within_poke [OF b assms] by auto
    have rem: "hp_bytes h1 = hp_bytes h" if "remember ?at n i h = (Ok (), h1)" for h1
      using remember_ok(1) [OF assms b(2) that] by simp
    have noted: "bytes_at (note_pending a b g) = bytes_at g" for a b g
      by (simp add: bytes_at_def fun_eq_iff)
    have len_h: "?at + n \<le> length (hp_bytes h)"
      using b(2) heap_invD(2) [OF assms] by linarith
    have kept: "bytes_at (heap_poke ?at (bytes_at h ?src n) h) ?at n = bytes_at h ?src n"
      using slice_of_overwrite [of ?at "bytes_at h ?src n" "hp_bytes h"] len len_h by (simp add: bytes_at_def)
    have swap: "note_pending a b (h\<lparr>hp_bytes := bs\<rparr>) = (note_pending a b h)\<lparr>hp_bytes := bs\<rparr>" for a b bs
      by (simp add: note_pending_def)
    have "copy_bytes_inner s so d ofs n c h =
        (let v = bytes_at h ?src n in
         if \<not> c \<and> v = bytes_at h ?at n then (Ok (), h)
         else if c then sbind (remember ?at n i) (\<lambda>_ h1. (Ok (), heap_poke ?at v h1)) h
         else (Ok (), preserve_tx ?at v (heap_poke ?at v (if inf_clear i = 0 then note_pending ?at n h else h))))"
    proof (cases c)
      case True
      obtain r h1 where run: "remember ?at n i h = (r, h1)" by fastforce
      show ?thesis
      proof (cases r)
        case (Err e)
        then show ?thesis
          using src dst info True run by (simp add: copy_bytes_inner_def sbind_def Let_def)
      next
        case (Ok u)
        then have "hp_bytes h1 = hp_bytes h"
          using rem [of h1] run by simp
        then show ?thesis
          using src dst info cp True run Ok by (simp add: copy_bytes_inner_def sbind_def Let_def heap_poke_def)
      qed
    next
      case False
      then show ?thesis
        using src dst info cp kept noted
        by (auto simp: copy_bytes_inner_def sbind_def Let_def heap_poke_def swap bytes_at_def)
    qed
    then show ?thesis
      using i b by (auto simp: Let_def)
  qed
qed

lemma copy_bytes_step:
  assumes "heap_inv h" and "in_tx h" and "copy_bytes s so d ofs n h = (r, h')"
  shows "tx_step (if transient_at h d then payload_set h d else {}) (hview h) h h'"
proof -
  let ?at = "unat d + HEADER + ofs"
  consider (refused) e where "copy_bytes s so d ofs n h = (Err e, h)"
    | (copy) i where "byte_array_range d ofs n h = Ok (?at, i)" "unat s + HEADER + so + n \<le> hp_next h"
      "?at + n \<le> hp_next h"
      "copy_bytes s so d ofs n h = sbind (remember ?at n i) (\<lambda>_ h1. (Ok (), heap_poke ?at (bytes_at h (unat s + HEADER + so) n) h1)) h"
    using copy_inner_cases [OF assms(1), of s so d ofs n True] by (auto simp: copy_bytes_def Let_def)
  then show ?thesis
  proof cases
    case refused
    then show ?thesis
      using assms tx_step_refl by simp
  next
    case copy
    let ?v = "bytes_at h (unat s + HEADER + so) n"
    have len: "length ?v = n"
      using copy_within_poke(2) [OF copy(2,3) assms(1)] .
    obtain r1 h1 where run: "remember ?at n i h = (r1, h1)" by fastforce
    have "tx_step (unlogged i {?at..<?at + n}) (hview h) h h'"
    proof (cases r1)
      case (Err e)
      then have "h' = h"
        using assms(3) copy(4) run remember_err [OF assms(1)] by (auto simp: sbind_def)
      then show ?thesis
        using tx_step_refl [OF assms(1)] by simp
    next
      case (Ok u)
      then have "h' = heap_poke ?at ?v h1"
        using assms(3) copy(4) run by (simp add: sbind_def)
      then show ?thesis
        using write_step [OF assms(1,2), of ?at ?v i h1] copy(3) run Ok len by simp
    qed
    then show ?thesis
      using byte_range_in_payload [OF copy(1)]
      by (auto simp: transient_at_def info_at_def unlogged_def intro: tx_step_mono split: if_splits)
  qed
qed

text \<open>An unconditional write, in either order of logging and writing, with the pending note it may leave.\<close>

lemma unconditional_step:
  fixes b :: bool and n :: nat
  assumes "heap_inv h" and "at + length v \<le> hp_next h"
  defines "g \<equiv> if b then note_pending at n h else h"
  shows "tx_step {} (poke at v (hview h)) h (heap_poke at v (preserve_tx at v g))"
    and "preserve_tx at v (heap_poke at v g) = heap_poke at v (preserve_tx at v g)"
proof -
  have g: "heap_inv g" "hp_next g = hp_next h" "hview g = hview h" "committed_bytes g = committed_bytes h"
    "length (hp_bytes g) = length (hp_bytes h)" "hp_tx g = hp_tx h"
    using assms(1) heap_inv_pending by (auto simp: g_def committed_bytes_def split: option.splits)
  then show "tx_step {} (poke at v (hview h)) h (heap_poke at v (preserve_tx at v g))"
    using unconditional_view [OF g(1), of at v] assms(2) by (auto simp: tx_step_def same_shape_def)
  show "preserve_tx at v (heap_poke at v g) = heap_poke at v (preserve_tx at v g)"
    by (simp add: preserve_tx_def heap_poke_def)
qed

lemma bytes_at_poke:
  "heap_inv h \<Longrightarrow> at + length v \<le> hp_next h \<Longrightarrow> length v = n \<Longrightarrow> bytes_at (heap_poke at v h) at n = v"
  using slice_of_overwrite [of at v "hp_bytes h"] heap_invD(2) [of h] by (simp add: bytes_at_def)

lemma refused_step: "heap_inv h \<Longrightarrow> hop_step op h = (Err e, h) \<Longrightarrow> tx_step loose (view_after op h (hview h)) h h"
  by (simp add: view_after_def tx_step_refl split: option.splits prod.splits)

lemma unconditional_write_step:
  assumes "heap_inv h" and "at + length v \<le> hp_next h" and "unconditional op h = Some (at, v)"
    and "hop_step op h = (Ok (), if bytes_at h at (length v) = v then h
      else heap_poke at v (preserve_tx at v (if b then note_pending at n h else h)))"
  shows "tx_step {} (view_after op h (hview h)) h (snd (hop_step op h))"
proof (cases "bytes_at h at (length v) = v")
  case True
  then show ?thesis
    using assms(3,4) tx_step_refl [OF assms(1)] by (simp add: view_after_def)
next
  case False
  then show ?thesis
    using assms(3,4) unconditional_step(1) [OF assms(1,2), of b n] by (simp add: view_after_def)
qed

lemma put_word_unconditional_step:
  assumes "heap_inv h" and "put_word_unconditional ref index v h = (r, h')"
  shows "tx_step {} (view_after (Put_word_unconditional ref index v) h (hview h)) h h'"
proof (cases "heap_slot ref index False h")
  case (Err e)
  then have "put_word_unconditional ref index v h = (Err e, h)"
    by (simp add: put_word_unconditional_def)
  then show ?thesis
    using assms refused_step [of h "Put_word_unconditional ref index v"] by simp
next
  case (Ok x)
  obtain at i where x: "x = (at, i)" by (cases x)
  note l = Ok [unfolded x]
  have at: "at = unat ref + HEADER + index * 2" "at + length (be16_bytes v) \<le> hp_next h"
    using l heap_slot_bounds [OF l] object_element_size by (auto simp: heap_slot_eq_Ok)
  have "put_word_unconditional ref index v h = (Ok (), if bytes_at h at (length (be16_bytes v)) = be16_bytes v then h
      else heap_poke at (be16_bytes v) (preserve_tx at (be16_bytes v) (if inf_clear i = 0 then note_pending at 2 h else h)))"
    using l by (simp add: put_word_unconditional_def sbind_def Let_def)
  then show ?thesis
    using unconditional_write_step [OF assms(1) at(2), of "Put_word_unconditional ref index v" "inf_clear i = 0" 2]
      assms(2) at(1) by simp
qed

lemma write_bytes_unconditional_step:
  assumes "heap_inv h" and "write_bytes_unconditional ref off v h = (r, h')"
  shows "tx_step {} (view_after (Write_bytes_unconditional ref off v) h (hview h)) h h'"
proof (cases "byte_slice ref off (length v) h")
  case (Err e)
  then have "write_bytes_unconditional ref off v h = (Err e, h)"
    by (simp add: write_bytes_unconditional_def)
  then show ?thesis
    using assms refused_step [of h "Write_bytes_unconditional ref off v"] by simp
next
  case (Ok x)
  let ?at = "unat ref + HEADER + off"
  obtain i where l: "byte_array_range ref off (length v) h = Ok (?at, i)"
    using Ok by (auto simp: byte_slice_eq_Ok)
  have at: "?at + length v \<le> hp_next h" and info: "heap_info h ref = Ok i"
    using byte_array_bounds [OF l] l by (simp_all add: byte_array_range_eq_Ok)
  let ?g = "if inf_clear i = 0 then note_pending ?at (length v) h else h"
  have "heap_inv ?g" "hp_next ?g = hp_next h"
    using assms(1) heap_inv_pending by auto
  then have "bytes_at (heap_poke ?at v ?g) ?at (length v) = v"
    using bytes_at_poke [of ?g ?at v] at by simp
  then have "write_bytes_unconditional ref off v h = (Ok (), if bytes_at h ?at (length v) = v then h
      else heap_poke ?at v (preserve_tx ?at v ?g))"
    using Ok info unconditional_step(2) [OF assms(1) at, of "inf_clear i = 0" "length v"]
    by (simp add: write_bytes_unconditional_def sbind_def Let_def)
  then show ?thesis
    using unconditional_write_step [OF assms(1) at, of "Write_bytes_unconditional ref off v" "inf_clear i = 0" "length v"]
      assms(2) by simp
qed

lemma fill_bytes_unconditional_step:
  assumes "heap_inv h" and "fill_bytes_unconditional ref off n v h = (r, h')"
  shows "tx_step {} (view_after (Fill_bytes_unconditional ref off n v) h (hview h)) h h'"
proof (cases "byte_slice ref off n h")
  case (Err e)
  then have "fill_bytes_unconditional ref off n v h = (Err e, h)"
    by (simp add: fill_bytes_unconditional_def)
  then show ?thesis
    using assms refused_step [of h "Fill_bytes_unconditional ref off n v"] by simp
next
  case (Ok x)
  let ?at = "unat ref + HEADER + off" and ?v = "replicate n v"
  obtain i where l: "byte_array_range ref off n h = Ok (?at, i)"
    using Ok by (auto simp: byte_slice_eq_Ok)
  have at: "?at + length ?v \<le> hp_next h" and info: "heap_info h ref = Ok i"
    using byte_array_bounds [OF l] l by (simp_all add: byte_array_range_eq_Ok)
  let ?g = "if inf_clear i = 0 then note_pending ?at n h else h"
  have "heap_inv ?g" "hp_next ?g = hp_next h"
    using assms(1) heap_inv_pending by auto
  then have "bytes_at (heap_poke ?at ?v ?g) ?at n = ?v"
    using bytes_at_poke [of ?g ?at ?v] at by simp
  moreover have "length (bytes_at h ?at n) = n"
    using at heap_invD(2) [OF assms(1)] by (simp add: bytes_at_def)
  then have "list_all (\<lambda>b. b = v) (bytes_at h ?at n) \<longleftrightarrow> bytes_at h ?at n = ?v"
    by (auto simp: list_all_iff intro: replicate_eqI)
  ultimately have "fill_bytes_unconditional ref off n v h = (Ok (), if bytes_at h ?at (length ?v) = ?v then h
      else heap_poke ?at ?v (preserve_tx ?at ?v ?g))"
    using Ok info unconditional_step(2) [OF assms(1) at, of "inf_clear i = 0" n]
    by (simp add: fill_bytes_unconditional_def sbind_def Let_def)
  then show ?thesis
    using unconditional_write_step [OF assms(1) at, of "Fill_bytes_unconditional ref off n v" "inf_clear i = 0" n]
      assms(2) by simp
qed

lemma copy_bytes_unconditional_step:
  assumes "heap_inv h" and "copy_bytes_unconditional s so d ofs n h = (r, h')"
  shows "tx_step {} (view_after (Copy_bytes_unconditional s so d ofs n) h (hview h)) h h'"
proof -
  let ?at = "unat d + HEADER + ofs" and ?v = "bytes_at h (unat s + HEADER + so) n"
  consider (refused) e where "copy_bytes_unconditional s so d ofs n h = (Err e, h)"
    | (copy) i :: info where "unat s + HEADER + so + n \<le> hp_next h" "?at + n \<le> hp_next h"
      "copy_bytes_unconditional s so d ofs n h =
        (if ?v = bytes_at h ?at n then (Ok (), h)
         else (Ok (), preserve_tx ?at ?v (heap_poke ?at ?v (if inf_clear i = 0 then note_pending ?at n h else h))))"
    using copy_inner_cases [OF assms(1), of s so d ofs n False]
    unfolding copy_bytes_unconditional_def Let_def simp_thms if_False by blast
  then show ?thesis
  proof cases
    case refused
    then show ?thesis
      using assms refused_step [of h "Copy_bytes_unconditional s so d ofs n"] by simp
  next
    case copy
    have len: "length ?v = n"
      using copy_within_poke(2) [OF copy(1,2) assms(1)] .
    then have at: "?at + length ?v \<le> hp_next h"
      using copy(2) by simp
    have "copy_bytes_unconditional s so d ofs n h = (Ok (), if bytes_at h ?at (length ?v) = ?v then h
        else heap_poke ?at ?v (preserve_tx ?at ?v (if inf_clear i = 0 then note_pending ?at n h else h)))"
      using copy(3) len unconditional_step(2) [OF assms(1) at, of "inf_clear i = 0" n] by auto
    then show ?thesis
      using unconditional_write_step [OF assms(1) at, of "Copy_bytes_unconditional s so d ofs n" "inf_clear i = 0" n]
        assms(2) by simp
  qed
qed

lemma remember_object_step:
  assumes "heap_inv h" and "in_tx h" and "remember_object ref h = (r, h')"
  shows "tx_step {} (hview h) h h'"
proof (cases "heap_info h ref")
  case (Err e)
  then show ?thesis
    using assms tx_step_refl by (auto simp: remember_object_def)
next
  case (Ok i)
  let ?at = "unat ref + HEADER" and ?n = "unat (inf_length i) * element_size i"
  have run: "remember ?at ?n i h = (r, h')"
    using assms(3) Ok by (simp add: remember_object_def)
  have fit: "?at + ?n \<le> hp_next h"
    using heap_info_bounds(1) [OF Ok] by simp
  show ?thesis
  proof (cases r)
    case (Err e)
    then show ?thesis
      using run remember_err [OF assms(1)] tx_step_refl [OF assms(1)] by blast
  next
    case (Ok u)
    have r: "remember ?at ?n i h = (Ok (), h')"
      using run Ok by simp
    let ?v = "bytes_at h ?at ?n"
    have same: "hp_bytes h' = hp_bytes h" "same_shape h h'" "heap_inv h'"
      using remember_ok(1) [OF assms(1) fit r] by auto
    have "length (hp_bytes h) \<ge> ?at + ?n"
      using fit heap_invD(2) [OF assms(1)] by linarith
    then have "heap_poke ?at ?v h' = h'"
      using same(1) overwrite_slice_of [of ?at ?n "hp_bytes h"] by (simp add: heap_poke_def bytes_at_def)
    moreover have "hview h' k = hview h k" if "k < committed_bytes h" "inf_clear i \<noteq> 0" for k
      using r that assms(2) by (simp add: remember_def)
    moreover have "length ?v = ?n"
      using \<open>length (hp_bytes h) \<ge> ?at + ?n\<close> by (simp add: bytes_at_def)
    ultimately have "hview h' k = hview h k" if "k < committed_bytes h" for k
      using remember_ok(2) [OF assms(1) fit r, of ?v k] that assms(2) by (cases "inf_clear i = 0") auto
    then show ?thesis
      using same by (simp add: tx_step_def same_shape_def)
  qed
qed

lemma heap_allocation_range_Ok:
  assumes "heap_allocation_range from kind n h = Ok (a, b)"
  shows "a = from \<and> even from \<and> b \<le> length (hp_bytes h) \<and> b \<le> u16_max
    \<and> b = from + (unat n * element_size \<lparr>inf_class = 0, inf_length = n, inf_kind = kind, inf_owner = 0, inf_clear = 0\<rparr>
        + HEADER + 1) div 2 * 2"
proof -
  have "allocation_range from HEADER (unat n)
      (element_size \<lparr>inf_class = 0, inf_length = n, inf_kind = kind, inf_owner = 0, inf_clear = 0\<rparr>) 2
      (min (length (hp_bytes h)) u16_max) = Some (a, b)"
    using assms by (simp add: heap_allocation_range_def Let_def)
  from allocation_range_2 [OF this] show ?thesis
    by simp
qed

lemma allocate_step:
  assumes "heap_inv h" and "in_tx h" and "allocate class n kind ctx ev h = (r, h')"
  shows "tx_step {} (hview h) h h'"
proof (cases "hp_aborted h \<or> is_Err (heap_allocation_range (hp_next h) kind n h)")
  case True
  then have "h' = h"
    using assms(3) by (cases "heap_allocation_range (hp_next h) kind n h") (auto simp: allocate_def split: if_splits)
  then show ?thesis
    using tx_step_refl [OF assms(1)] by simp
next
  case False
  then obtain at fin where range: "heap_allocation_range (hp_next h) kind n h = Ok (at, fin)"
    by (cases "heap_allocation_range (hp_next h) kind n h") auto
  let ?es = "element_size \<lparr>inf_class = 0, inf_length = n, inf_kind = kind, inf_owner = 0, inf_clear = 0\<rparr>"
  have ar: "at = hp_next h" "even (hp_next h)" "fin \<le> length (hp_bytes h)" "fin \<le> u16_max"
    "fin = hp_next h + (unat n * ?es + HEADER + 1) div 2 * 2"
    using heap_allocation_range_Ok [OF range] by auto
  let ?hd = "be16_bytes class @ be16_bytes n @ [kind OR push_bit 4 ev, ctx]"
  have hd: "length ?hd = 6" "hp_next h + 6 \<le> fin"
    using ar(5) by simp_all
  obtain start u where tx: "hp_tx h = Some (start, u)"
    using assms(2) by (auto simp: in_tx_def)
  note t = heap_inv_tx [OF assms(1) tx]
  have h': "h' = (heap_poke at ?hd (heap_poke at (replicate (fin - at) 0) h))\<lparr>hp_next := fin\<rparr>"
    using assms(3) False range tx by (simp add: allocate_def Let_def)
  have bytes: "length (hp_bytes h') = length (hp_bytes h)" "k < hp_next h \<Longrightarrow> hp_bytes h' ! k = hp_bytes h ! k" for k
    using ar hd h' by (auto simp: nth_overwrite)
  have "list_all (heap_fit fin) (images u)"
    using t(5) hd(2) by (auto simp: list_all_iff heap_fit_def)
  then have "heap_inv h'"
    using assms(1) t ar hd bytes(1) tx h' by (auto simp: heap_inv_def)
  moreover have "hview h' k = hview h k" if "k < committed_bytes h" for k
    using that tx t(1) bytes(2) [of k] h' holding_local [of "hmem h'" k "hmem h" u]
    by (simp add: hview_def committed_bytes_def hmem_def)
  ultimately show ?thesis
    using bytes(1) hd(2) h' by (simp add: tx_step_def)
qed

lemma new_step:
  assumes "heap_inv h" and "in_tx h"
    and "sbind (if a then sfail e1 else if b then sfail e2 else allocate class n kind ctx ev) (\<lambda>_. sret ()) h = (r, h')"
  shows "tx_step {} (hview h) h h'"
proof -
  obtain r1 h1 where run: "allocate class n kind ctx ev h = (r1, h1)" by fastforce
  have "h' = (if a \<or> b then h else h1)"
    using assms(3) run by (cases r1) (auto simp: sbind_def split: if_splits)
  then show ?thesis
    using tx_step_refl [OF assms(1)] allocate_step [OF assms(1,2) run] by simp
qed

lemma hop_tx_step:
  assumes "heap_inv h" and "in_tx h"
  shows "tx_step (scratch op h) (view_after op h (hview h)) h (snd (hop_step op h))"
proof -
  obtain r h' where run: "hop_step op h = (r, h')" by fastforce
  have "tx_step (scratch op h) (view_after op h (hview h)) h h'"
  proof (cases op)
    case (New_object c n ctx)
    then show ?thesis
      using run new_step [OF assms, of False JFormat False JFormat c n KIND_OBJECT ctx 0 r h']
      by (simp add: new_object_def view_after_def)
  next
    case (New_array k n ctx)
    then show ?thesis
      using run new_step [OF assms, of False JFormat "\<not> (KIND_BOOLEAN \<le> k \<and> k \<le> KIND_REFERENCE)" JFormat
          "if k = KIND_REFERENCE then ANY_REFERENCE_CLASS else 0" n k ctx 0 r h']
      by (simp add: new_array_def view_after_def)
  next
    case (New_reference_array c n ctx)
    then show ?thesis
      using run new_step [OF assms, of False JFormat "c = ANY_REFERENCE_CLASS" JFormat c n KIND_REFERENCE ctx 0 r h']
      by (simp add: new_reference_array_def view_after_def)
  next
    case (New_transient_array k n ctx e)
    then show ?thesis
      using run new_step [OF assms, of "\<not> (e = CLEAR_ON_RESET \<or> e = CLEAR_ON_DESELECT)" JFormat
          "\<not> (KIND_BOOLEAN \<le> k \<and> k \<le> KIND_REFERENCE)" JFormat
          "if k = KIND_REFERENCE then ANY_REFERENCE_CLASS else 0" n k ctx e r h']
      by (simp add: new_transient_array_def view_after_def)
  qed (use run assms put_word_step put_int_step array_put_step array_put_reference_step array_put_int_step
      write_slice_step copy_bytes_step put_word_unconditional_step copy_bytes_unconditional_step
      fill_bytes_unconditional_step write_bytes_unconditional_step remember_object_step
    in \<open>simp_all add: view_after_def\<close>)
  with run show ?thesis by simp
qed

section \<open>Runs inside a transaction\<close>

text \<open>
  An applet step is a heap operation or a store to a static field, which logs the old bytes and
  then overwrites them (\<open>remember_static\<close> and the copy that follows it at every call site).
\<close>

datatype txop = Heap_op hop | Put_static nat bytes

fun tx_op_step :: "txop \<Rightarrow> heap \<times> bytes \<Rightarrow> heap \<times> bytes" where
  "tx_op_step (Heap_op op) (h, st) = (snd (hop_step op h), st)"
| "tx_op_step (Put_static at v) (h, st) =
     (if at + length v \<le> length st
      then case remember_static at (slice_of st at (at + length v)) h of
             (Err _, h1) \<Rightarrow> (h1, st)
           | (Ok _, h1) \<Rightarrow> (h1, overwrite st at v)
      else (h, st))"

fun tx_run :: "txop list \<Rightarrow> heap \<times> bytes \<Rightarrow> heap \<times> bytes" where
  "tx_run [] s = s"
| "tx_run (op # ops) s = tx_run ops (tx_op_step op s)"

text \<open>The transient bytes a run touches, and its effective unconditional writes in order.\<close>

fun run_scratch :: "txop list \<Rightarrow> heap \<times> bytes \<Rightarrow> nat set" where
  "run_scratch [] s = {}"
| "run_scratch (op # ops) s =
     (case op of Heap_op hop \<Rightarrow> scratch hop (fst s) | Put_static _ _ \<Rightarrow> {}) \<union> run_scratch ops (tx_op_step op s)"

fun run_view :: "txop list \<Rightarrow> heap \<times> bytes \<Rightarrow> (nat \<Rightarrow> byte) \<Rightarrow> nat \<Rightarrow> byte" where
  "run_view [] s view = view"
| "run_view (op # ops) s view =
     run_view ops (tx_op_step op s) (case op of Heap_op hop \<Rightarrow> view_after hop (fst s) view | Put_static _ _ \<Rightarrow> view)"

definition static_view :: "heap \<times> bytes \<Rightarrow> nat \<Rightarrow> byte" where
  "static_view s k = (case hp_tx (fst s) of None \<Rightarrow> snd s ! k
     | Some (_, u) \<Rightarrow> holding u (\<lambda>i. snd s ! (i - 65536)) (65536 + k))"

definition tx_state :: "heap \<times> bytes \<Rightarrow> bool" where
  "tx_state s \<longleftrightarrow> heap_inv (fst s) \<and> in_tx (fst s)
     \<and> (\<forall>start u. hp_tx (fst s) = Some (start, u)
         \<longrightarrow> list_all (\<lambda>e. fst e - 65536 + length (snd e) \<le> length (snd s)) (static_images u))"

lemma undone_static:
  "list_all image_ok es \<Longrightarrow> undone es (65536 + k) b = undone (filter (\<lambda>e. 65536 \<le> fst e) es) (65536 + k) b"
proof (induction es arbitrary: b)
  case (Cons e es)
  obtain a bs where e: "e = (a, bs)" by (cases e)
  have "a < 65536 \<Longrightarrow> a + length bs \<le> 65535"
    using Cons.prems by (simp add: e image_ok_def u16_max_def)
  then show ?case
    using Cons by (auto simp: e)
qed simp

lemma holding_static:
  "undo_wf u \<Longrightarrow> holding u m (65536 + k) = undone (static_images u) (65536 + k) (m (65536 + k))"
  unfolding holding_def static_images_def by (rule undone_static) (simp add: undo_wf_def undo_rel_def)

lemma static_view_frame:
  assumes "heap_inv h" "heap_inv h'" "map_option tx_frame (hp_tx h') = map_option tx_frame (hp_tx h)"
  shows "static_view (h', st) k = static_view (h, st) k"
  using assms holding_static heap_inv_tx(4) [OF assms(1)] heap_inv_tx(4) [OF assms(2)]
  by (cases "hp_tx h"; cases "hp_tx h'") (auto simp: static_view_def)

lemma tx_step_state:
  assumes "tx_state (h, st)" and "tx_step loose view h h'"
  shows "tx_state (h', st)" and "committed_bytes h' = committed_bytes h" and "static_view (h', st) k = static_view (h, st) k"
proof -
  have s: "heap_inv h" "heap_inv h'" "map_option tx_frame (hp_tx h') = map_option tx_frame (hp_tx h)" "in_tx h"
    using assms by (auto simp: tx_state_def tx_step_def)
  obtain start u u' where t: "hp_tx h = Some (start, u)" "hp_tx h' = Some (start, u')" "static_images u' = static_images u"
    using s(3,4) by (cases "hp_tx h"; cases "hp_tx h'") (auto simp: in_tx_def)
  then show "tx_state (h', st)" "committed_bytes h' = committed_bytes h"
    using assms(1) s(2) by (auto simp: tx_state_def in_tx_def committed_bytes_def)
  show "static_view (h', st) k = static_view (h, st) k"
    by (rule static_view_frame [OF s(1-3)])
qed

lemma put_static_step:
  assumes "tx_state (h, st)" and "tx_op_step (Put_static at v) (h, st) = (h', st')"
  shows "tx_state (h', st') \<and> hp_next h' = hp_next h \<and> committed_bytes h' = committed_bytes h \<and> length st' = length st
    \<and> (k < committed_bytes h \<longrightarrow> hview h' k = hview h k) \<and> (k < length st \<longrightarrow> static_view (h', st') k = static_view (h, st) k)"
proof (cases "at + length v \<le> length st")
  case False
  then show ?thesis
    using assms by auto
next
  case True
  obtain start u where tx: "hp_tx h = Some (start, u)" and inv: "heap_inv h"
    using assms(1) by (auto simp: tx_state_def in_tx_def)
  note t = heap_inv_tx [OF inv tx]
  let ?old = "slice_of st at (at + length v)"
  obtain r u1 where rec: "record_before at ?old True u = (r, u1)" by fastforce
  show ?thesis
  proof (cases r)
    case (Err e)
    then have "u1 = u"
      using undo_log.record_refused [OF t(4)] rec by blast
    then have "h' = h" "st' = st"
      using assms(2) True rec Err tx by (auto simp: remember_static_def)
    then show ?thesis
      using assms(1) by simp
  next
    case (Ok x)
    then have run: "h' = h\<lparr>hp_tx := Some (start, u1)\<rparr>" "st' = overwrite st at v"
      using assms(2) True rec tx by (auto simp: remember_static_def)
    have rec: "record_before at ?old True u = (Ok (), u1)"
      using rec Ok by simp
    note rc = record_before_cases [OF t(4) rec]
    have im: "images u1 = images u \<or> images u1 = (65536 + at, ?old) # images u \<and> at + length v \<le> u16_max" "undo_wf u1"
      using rc True by (auto simp: side_def)
    have fit: "list_all (heap_fit (hp_next h)) (images u1)"
      using im t(5) by (auto simp: heap_fit_def)
    have inv': "heap_inv h'"
      using inv t fit im(2) tx run(1) by (auto simp: heap_inv_def)
    have sfit: "list_all (\<lambda>e. fst e - 65536 + length (snd e) \<le> length st) (static_images u1)"
      using im(1) assms(1) tx True by (auto simp: tx_state_def static_images_def)
    let ?m = "\<lambda>st i. st ! (i - 65536)"
    have cw: "holding u1 (poke (65536 + at) v (?m st)) = holding u (?m st)"
    proof -
      have "map (\<lambda>i. ?m st (side True + at + i)) [0..<length v] = ?old"
        using True by (intro nth_equalityI) (auto simp: side_def)
      then show ?thesis
        using undo_log.conditional_write [OF t(4), of at "?m st" True v u1] rec by (simp add: side_def)
    qed
    have "?m st' (65536 + k) = poke (65536 + at) v (?m st) (65536 + k)" if "k < length st"
      using that True run(2) by (auto simp: poke_def nth_overwrite)
    then have "static_view (h', st') k = static_view (h, st) k" if "k < length st"
      using that cw holding_local [of "?m st'" "65536 + k" "poke (65536 + at) v (?m st)" u1] run(1) tx
      by (simp add: static_view_def)
    moreover have "hview h' k = hview h k" if "k < committed_bytes h"
    proof -
      have "k < 65536"
        using that heap_invD(3,6) [OF inv] by (simp add: u16_max_def)
      then have "holding u1 (hmem h) k = holding u (hmem h) k"
        using im(1) by (auto simp: holding_def)
      moreover have "hmem h' = hmem h"
        by (simp add: run(1) hmem_def fun_eq_iff)
      ultimately show ?thesis
        using run(1) tx by (simp add: hview_def)
    qed
    ultimately show ?thesis
      using inv' sfit run tx True by (auto simp: tx_state_def in_tx_def committed_bytes_def)
  qed
qed

lemma view_after_local: "view k = view' k \<Longrightarrow> view_after op h view k = view_after op h view' k"
  by (auto simp: view_after_def poke_def split: option.splits)

lemma run_view_local: "view k = view' k \<Longrightarrow> run_view ops s view k = run_view ops s view' k"
proof (induction ops arbitrary: s view view')
  case (Cons op ops)
  show ?case
  proof (cases op)
    case (Heap_op hop)
    then show ?thesis
      using Cons.IH [of "view_after hop (fst s) view" "view_after hop (fst s) view'"]
        view_after_local [of view k view' hop "fst s"] Cons.prems by simp
  next
    case (Put_static at v)
    then show ?thesis
      using Cons.IH [of view view'] Cons.prems by simp
  qed
qed simp

lemma tx_run_spec:
  assumes "tx_state (h, st)" and "tx_run ops (h, st) = (h', st')"
  shows "tx_state (h', st') \<and> committed_bytes h' = committed_bytes h \<and> hp_next h \<le> hp_next h' \<and> length st' = length st
    \<and> (k < committed_bytes h \<longrightarrow> k \<notin> run_scratch ops (h, st) \<longrightarrow> hview h' k = run_view ops (h, st) (hview h) k)
    \<and> (k < length st \<longrightarrow> static_view (h', st') k = static_view (h, st) k)"
  using assms
proof (induction ops arbitrary: h st)
  case (Cons op ops)
  obtain g sg where step: "tx_op_step op (h, st) = (g, sg)" by fastforce
  then have run: "tx_run ops (g, sg) = (h', st')"
    using Cons.prems(2) by simp
  have one: "tx_state (g, sg) \<and> committed_bytes g = committed_bytes h \<and> hp_next h \<le> hp_next g \<and> length sg = length st
    \<and> (k < committed_bytes h \<longrightarrow> k \<notin> run_scratch [op] (h, st) \<longrightarrow> hview g k = run_view [op] (h, st) (hview h) k)
    \<and> (k < length st \<longrightarrow> static_view (g, sg) k = static_view (h, st) k)"
  proof (cases op)
    case (Put_static at v)
    then show ?thesis
      using put_static_step [of h st at v g sg k] Cons.prems(1) step by auto
  next
    case (Heap_op hop)
    then have g: "g = snd (hop_step hop h)" "sg = st"
      using step by auto
    have "tx_step (scratch hop h) (view_after hop h (hview h)) h g"
      using hop_tx_step [of h hop] Cons.prems(1) g by (simp add: tx_state_def)
    then show ?thesis
      using tx_step_state [OF Cons.prems(1), of "scratch hop h" _ g] g Heap_op by (auto simp: tx_step_def)
  qed
  have local: "run_view ops (g, sg) (hview g) k = run_view (op # ops) (h, st) (hview h) k"
    if "hview g k = run_view [op] (h, st) (hview h) k"
    using run_view_local [of "hview g" k _ ops "(g, sg)"] that step by simp
  show ?case
    using Cons.IH [of g sg] one run local step by (cases "k \<in> run_scratch [op] (h, st)") auto
qed simp

section \<open>Visiting objects\<close>

lemma visit_from_bytes:
  assumes "visit_from visit at h = (r, h')" and "hp_next h \<le> length (hp_bytes h)" and "hp_next h \<le> u16_max"
    and "\<And>ref i p. length (snd (visit ref i p)) = length p"
    and "\<And>ref i p j. j < length p \<Longrightarrow> snd (visit ref i p) ! j = p ! j \<or> snd (visit ref i p) ! j = 0"
  shows "hp_next h' = hp_next h \<and> hp_tx h' = hp_tx h \<and> hp_aborted h' = hp_aborted h \<and> hp_pending h' = hp_pending h
    \<and> length (hp_bytes h') = length (hp_bytes h)
    \<and> (k < length (hp_bytes h) \<longrightarrow> hp_bytes h' ! k = hp_bytes h ! k \<or> hp_bytes h' ! k = 0)"
  using assms
proof (induction visit at h arbitrary: h' r rule: visit_from.induct)
  case (1 visit at h)
  show ?case
  proof (cases "at < hp_next h")
    case False
    then show ?thesis
      using "1.prems"(1) by (auto simp: visit_from.simps [of visit at h] split: if_splits)
  next
    case True
    then have at: "unat (word_of_nat at :: u16) = at"
      using "1.prems"(3) by (simp add: unat_word_of_nat_u16 u16_max_def)
    show ?thesis
    proof (cases "heap_info h (word_of_nat at)")
      case (Err e)
      then show ?thesis
        using "1.prems"(1) True by (simp add: visit_from.simps [of visit at h])
    next
      case (Ok i)
      let ?fin = "at + HEADER + unat (inf_length i) * element_size i"
      let ?p = "slice_of (hp_bytes h) (at + HEADER) ?fin"
      obtain r1 p where v: "visit (word_of_nat at) i ?p = (r1, p)" by fastforce
      have fin: "?fin \<le> hp_next h"
        using heap_info_bounds(1) [OF Ok] at by simp
      have lp: "length ?p = ?fin - (at + HEADER)"
        using fin "1.prems"(2) by (intro length_slice_of) linarith
      have len: "length p = length ?p" "\<And>j. j < length ?p \<Longrightarrow> p ! j = ?p ! j \<or> p ! j = 0"
        using "1.prems"(4) [of "word_of_nat at" i ?p] "1.prems"(5) [of _ ?p "word_of_nat at" i] v by auto
      let ?g = "heap_poke (at + HEADER) p h"
      have room: "at + HEADER + length p \<le> length (hp_bytes h)"
        using len(1) lp fin "1.prems"(2) by linarith
      have g: "hp_bytes ?g ! k = hp_bytes h ! k \<or> hp_bytes ?g ! k = 0" if "k < length (hp_bytes h)"
      proof (cases "at + HEADER \<le> k \<and> k < at + HEADER + length p")
        case inside: True
        then have "?p ! (k - (at + HEADER)) = hp_bytes h ! k"
          using lp len(1) fin "1.prems"(2) by (subst nth_slice_of) auto
        then show ?thesis
          using inside room that len by (simp add: nth_overwrite) (metis add_less_imp_less_left le_add_diff_inverse)
      qed (use room that in \<open>auto simp: nth_overwrite\<close>)
      show ?thesis
      proof (cases r1)
        case (Err e)
        then have "h' = ?g"
          using "1.prems"(1) True Ok v by (simp add: visit_from.simps [of visit at h] Let_def)
        then show ?thesis
          using g room by simp
      next
        case r: (Ok x)
        then have run: "visit_from visit (next_even ?fin) ?g = (r, h')"
          using "1.prems"(1) True Ok v by (simp add: visit_from.simps [of visit at h] Let_def)
        have "hp_next h' = hp_next ?g \<and> hp_tx h' = hp_tx ?g \<and> hp_aborted h' = hp_aborted ?g \<and> hp_pending h' = hp_pending ?g
          \<and> length (hp_bytes h') = length (hp_bytes ?g)
          \<and> (k < length (hp_bytes ?g) \<longrightarrow> hp_bytes h' ! k = hp_bytes ?g ! k \<or> hp_bytes h' ! k = 0)"
          using "1.IH" [OF True Ok refl v [symmetric] r run] "1.prems"(2-5) room by simp
        then show ?thesis
          using g room by auto
      qed
    qed
  qed
qed

section \<open>Ending a transaction\<close>

lemma restore_state:
  assumes "tx_state (h, st)" and "hp_tx h = Some (start, u)" and "restore u (hp_bytes h) st = (bs, st')"
  shows "length bs = length (hp_bytes h)" and "length st' = length st"
    and "k < hp_next h \<Longrightarrow> bs ! k = hview h k" and "k < length st \<Longrightarrow> st' ! k = static_view (h, st) k"
proof -
  have inv: "heap_inv h"
    using assms(1) by (simp add: tx_state_def)
  note t = heap_inv_tx [OF inv assms(2)] and i = heap_invD [OF inv]
  have "list_all (fits (length (hp_bytes h)) (length st)) (images u)"
    using t(5) assms(1,2) i(2) by (auto simp: list_all_iff fits_def heap_fit_def tx_state_def static_images_def)
  note r = restore_view [OF t(4) this assms(3)]
  show "length bs = length (hp_bytes h)" "length st' = length st"
    by (rule r)+
  show "k < hp_next h \<Longrightarrow> bs ! k = hview h k"
    using r(3) [of k] i(2,3) assms(2) by (simp add: hview_def hmem_def [abs_def] u16_max_def)
  show "k < length st \<Longrightarrow> st' ! k = static_view (h, st) k"
    using r(4) [of k] assms(2) by (simp add: static_view_def)
qed

lemma begin_state:
  assumes "heap_inv h" and "begin_transaction alloc capacity h = (Ok (), h1)"
  shows "tx_state (h1, st)" and "committed_bytes h1 = hp_next h" and "hview h1 = hmem h" and "hp_next h1 = hp_next h"
    and "static_view (h1, st) k = st ! k"
proof -
  obtain u where u: "undo_new alloc capacity = Ok u" "h1 = h\<lparr>hp_tx := Some (hp_next h, u)\<rparr>"
    using assms(2) by (auto simp: begin_transaction_def split: if_splits result.splits)
  then have w: "undo_wf u" "images u = []"
    using undo_new_wf by auto
  then show "tx_state (h1, st)"
    using assms(1) u(2) by (auto simp: tx_state_def heap_inv_def in_tx_def static_images_def)
  show "committed_bytes h1 = hp_next h" "hp_next h1 = hp_next h"
    using u(2) by (simp_all add: committed_bytes_def)
  show "hview h1 = hmem h" "static_view (h1, st) k = st ! k"
    using u(2) w(2) by (auto simp: hview_def static_view_def holding_def hmem_def fun_eq_iff)
qed

lemma drop_new_references:
  "length (drop_new_references start p) = length p"
  "j < length p \<Longrightarrow> drop_new_references start p ! j = p ! j \<or> drop_new_references start p ! j = 0"
proof (induction start p arbitrary: j rule: drop_new_references.induct)
  case (1 start a b bs)
  {
    case 1
    show ?case using "1.IH"(1) by simp
  next
    case 2
    show ?case
      using "1.IH"(2) [of "j - 2"] 2 by (cases j; cases "j - 1") (auto simp: nth_append)
  }
qed simp_all

section \<open>A concrete heap\<close>

text \<open>A heap with one two-word object at offset 2, used below on concrete runs.\<close>

definition sample_heap :: heap where
  "sample_heap = \<lparr>hp_bytes = [3, 7, 0, 1, 0, 2, 0, 5, 0, 0, 0, 0, 0, 0, 0, 0, 0, 0, 0, 0], hp_next = 12, hp_tx = None,
     hp_aborted = False, hp_pending = default_pending\<rparr>"

definition sample_open :: heap where
  "sample_open = sample_heap\<lparr>hp_tx := Some (12, \<lparr>records = [], limit = 64\<rparr>)\<rparr>"

lemma sample_inv: "heap_inv sample_heap"
  by (simp add: heap_inv_def sample_heap_def u16_max_def default_pending_inv(1))

lemma sample_begin: "begin_transaction (\<lambda>_. True) 64 sample_heap = (Ok (), sample_open)"
  by (simp add: begin_transaction_def sample_heap_def sample_open_def undo_new_def)

lemma sample_slot: "hp_bytes h = hp_bytes sample_heap \<Longrightarrow> hp_next h = 12 \<Longrightarrow>
    heap_slot 2 0 False h = Ok (8, \<lparr>inf_class = 1, inf_length = 2, inf_kind = 0, inf_owner = 5, inf_clear = 0\<rparr>)"
  by (simp add: heap_slot_def heap_info_def info_read_def info_header_def info_valid_def sample_heap_def
      is_array_def element_size_def be16_def be_value_def)

lemma be_bytes_small:
  "be_bytes 2 v = [word_of_nat (v div 256), word_of_nat v]"
  "be_bytes 4 v = [word_of_nat (v div 256 div 256 div 256), word_of_nat (v div 256 div 256), word_of_nat (v div 256), word_of_nat v]"
proof -
  have n: "(2 :: nat) = Suc (Suc 0)" "(4 :: nat) = Suc (Suc (Suc (Suc 0)))"
    by simp_all
  show "be_bytes 2 v = [word_of_nat (v div 256), word_of_nat v]"
    unfolding be_bytes_def n(1) by simp
  show "be_bytes 4 v = [word_of_nat (v div 256 div 256 div 256), word_of_nat (v div 256 div 256), word_of_nat (v div 256), word_of_nat v]"
    unfolding be_bytes_def n(2) by simp
qed

lemma sample_put:
  "put_word 2 0 9 sample_open = (Ok (), sample_open\<lparr>hp_bytes := [3, 7, 0, 1, 0, 2, 0, 5, 0, 9, 0, 0, 0, 0, 0, 0, 0, 0, 0, 0],
     hp_tx := Some (12, \<lparr>records = [0, 0, 0, 0, 0, 8, 0, 2], limit = 64\<rparr>)\<rparr>)"
proof -
  have "heap_slot 2 0 False sample_open = Ok (8, \<lparr>inf_class = 1, inf_length = 2, inf_kind = 0, inf_owner = 5, inf_clear = 0\<rparr>)"
    by (rule sample_slot) (simp_all add: sample_open_def sample_heap_def)
  then show ?thesis
    by (simp add: put_word_def sbind_def write_conditional_def bytes_at_def slice_of_def be16_bytes_def be_bytes_small
        sample_open_def sample_heap_def remember_def record_before_def checked_add_def usize_max_def u16_max_def
        saved.simps remaining_def heap_poke_def overwrite_def)
qed

definition sample_new :: heap where
  "sample_new = sample_open\<lparr>hp_bytes := [3, 7, 0, 1, 0, 2, 0, 5, 0, 0, 0, 0, 0, 1, 0, 0, 0, 5, 0, 0], hp_next := 18\<rparr>"

lemma replicate_6: "replicate 6 x = [x, x, x, x, x, x]"
  by (simp add: numeral_eq_Suc)

lemma sample_alloc: "snd (hop_step (New_object 1 0 5) sample_open) = sample_new"
  by (simp add: new_object_def sbind_def allocate_def heap_allocation_range_def allocation_range_2_eq element_size_def
      sample_open_def sample_heap_def sample_new_def u16_max_def usize_max_def be16_bytes_def be_bytes_small
      heap_poke_def overwrite_def replicate_6)

lemma sample_images: "images \<lparr>records = [0, 0, 0, 0, 0, 8, 0, 2], limit = 64\<rparr> = [(8, [0, 0])]"
proof -
  have "undo_rel \<lparr>records = [0, 0, 0, 0, 0, 8, 0, 2], limit = 64\<rparr> [(8, [0, 0])]"
    by (simp add: undo_rel_def image_bytes_def be_bytes_small image_ok_def u16_max_def)
  then show ?thesis
    using undo_rel_images by blast
qed

text \<open>The two ends of an aborted transaction: nothing was allocated, or something was.\<close>

lemma abort_restores:
  assumes "heap_inv h" and "begin_transaction alloc capacity h = (Ok (), h1)"
    and "tx_run ops (h1, st) = (h2, st2)" and "hp_next h2 = hp_next h"
  shows "\<exists>h3. abort_transaction st2 h2 = (Ok False, h3, st) \<and> hp_tx h3 = None \<and> hp_next h3 = hp_next h
    \<and> (\<forall>k < hp_next h. k \<notin> run_scratch ops (h1, st) \<longrightarrow> hp_bytes h3 ! k = run_view ops (h1, st) (hmem h) k)"
proof -
  note b = begin_state [OF assms(1,2)]
  note r = tx_run_spec [OF b(1) assms(3)]
  have s2: "tx_state (h2, st2)" "committed_bytes h2 = hp_next h" "length st2 = length st"
    using r b(2) by simp_all
  then obtain start u where tx: "hp_tx h2 = Some (start, u)"
    by (auto simp: tx_state_def in_tx_def)
  obtain bs st3 where res: "restore u (hp_bytes h2) st2 = (bs, st3)" by fastforce
  note rs = restore_state [OF s2(1) tx res]
  have start: "start = hp_next h"
    using s2(2) tx by (simp add: committed_bytes_def)
  have "st3 = st"
    using rs(2,4) r b(5) s2(3) by (intro nth_equalityI) simp_all
  moreover have "bs ! k = run_view ops (h1, st) (hmem h) k"
    if "k < hp_next h" "k \<notin> run_scratch ops (h1, st)" for k
    using rs(3) [of k] r [of k] that b(2,3) assms(4) by simp
  ultimately show ?thesis
    using tx res start assms(4) by (simp add: abort_transaction_def)
qed

lemma abort_takes_back:
  assumes "heap_inv h" and "begin_transaction alloc capacity h = (Ok (), h1)"
    and "tx_run ops (h1, st) = (h2, st2)" and "abort_transaction st2 h2 = (Ok True, h3, st3)"
  shows "hp_aborted h3 \<and> hp_tx h3 = None \<and> hp_next h3 = hp_next h \<and> st3 = st
    \<and> (\<forall>k. hp_next h \<le> k \<and> k < hp_next h2 \<longrightarrow> hp_bytes h3 ! k = 0)
    \<and> (\<forall>k < hp_next h. k \<notin> run_scratch ops (h1, st) \<longrightarrow>
          hp_bytes h3 ! k = run_view ops (h1, st) (hmem h) k \<or> hp_bytes h3 ! k = 0)"
proof -
  note b = begin_state [OF assms(1,2)]
  note r = tx_run_spec [OF b(1) assms(3)]
  have s2: "tx_state (h2, st2)" "committed_bytes h2 = hp_next h" "length st2 = length st" "hp_next h \<le> hp_next h2"
    using r b(2,4) by simp_all
  then obtain start u where tx: "hp_tx h2 = Some (start, u)" and inv: "heap_inv h2"
    by (auto simp: tx_state_def in_tx_def)
  obtain bs st4 where res: "restore u (hp_bytes h2) st2 = (bs, st4)" by fastforce
  note rs = restore_state [OF s2(1) tx res]
  have start: "start = hp_next h"
    using s2(2) tx by (simp add: committed_bytes_def)
  have st: "st4 = st"
    using rs(2,4) r b(5) s2(3) by (intro nth_equalityI) simp_all
  let ?v = "\<lambda>_ i payload. (Ok (), if inf_kind i = KIND_REFERENCE \<and> inf_clear i \<noteq> 0 then drop_new_references start payload else payload)
    :: unit jres \<times> bytes"
  let ?g = "h2\<lparr>hp_tx := None, hp_bytes := bs\<rparr>"
  obtain x g where vis: "visit_from ?v 2 ?g = (x, g)" by fastforce
  have vb: "hp_next g = hp_next h2 \<and> hp_tx g = None \<and> length (hp_bytes g) = length (hp_bytes h2)
    \<and> (k < length (hp_bytes h2) \<longrightarrow> hp_bytes g ! k = bs ! k \<or> hp_bytes g ! k = 0)" for k
    using visit_from_bytes [OF vis, of k] heap_invD [OF inv] rs(1) drop_new_references by auto
  have fin: "h3 = (heap_poke start (replicate (hp_next g - start) 0) g)\<lparr>hp_next := start, hp_aborted := True\<rparr>" "st3 = st4"
    using assms(4) tx res vis by (auto simp: abort_transaction_def visit_objects_def Let_def split: if_splits result.splits)
  have len: "hp_next h2 \<le> length (hp_bytes h2)"
    using heap_invD(2) [OF inv] .
  have by3: "hp_bytes h3 ! k = (if start \<le> k then 0 else hp_bytes g ! k)" if "k < hp_next h2" for k
    using that fin(1) vb [of k] len s2(4) start by (auto simp: nth_overwrite)
  have "hp_bytes h3 ! k = run_view ops (h1, st) (hmem h) k \<or> hp_bytes h3 ! k = 0"
    if "k < hp_next h" "k \<notin> run_scratch ops (h1, st)" for k
    using rs(3) [of k] r [of k] that b(2,3) s2(4) by3 [of k] vb [of k] len start by auto
  then show ?thesis
    using fin st start by3 vb by auto
qed

section \<open>Properties\<close>

text \<open>
  C1 (transaction_abort_exact). Atomicity of Java Card transactions. After \<open>begin_transaction\<close>,
  any sequence of heap operations and static stores that allocates nothing, some of which may fail
  for lack of log space, followed by \<open>abort_transaction\<close>: the abort succeeds, every static field
  is exactly as before, and every heap byte outside the transient arrays that were written is what
  it was before with only the effective unconditional writes (PIN counters, non-atomic copies)
  applied. This holds for arbitrary references, valid or forged.
\<close>

theorem transaction_abort_exact:
  assumes "heap_inv h" and "begin_transaction alloc capacity h = (Ok (), h1)"
    and "tx_run ops (h1, st) = (h2, st2)" and "hp_next h2 = hp_next h"
  shows "\<exists>h3. abort_transaction st2 h2 = (Ok False, h3, st) \<and> hp_tx h3 = None \<and> hp_next h3 = hp_next h
    \<and> (\<forall>k < hp_next h. k \<notin> run_scratch ops (h1, st) \<longrightarrow> hp_bytes h3 ! k = run_view ops (h1, st) (hmem h) k)"
  using assms by (rule abort_restores)

theorem transaction_abort_exact_witness:
  "\<exists>h3. abort_transaction [7] (sample_open\<lparr>hp_bytes := [3, 7, 0, 1, 0, 2, 0, 5, 0, 9, 0, 0, 0, 0, 0, 0, 0, 0, 0, 0],
     hp_tx := Some (12, \<lparr>records = [0, 0, 0, 0, 0, 8, 0, 2], limit = 64\<rparr>)\<rparr>) = (Ok False, h3, [7])
    \<and> hp_tx h3 = None \<and> hp_next h3 = hp_next sample_heap
    \<and> (\<forall>k < hp_next sample_heap. k \<notin> run_scratch [Heap_op (Put_word 2 0 9)] (sample_open, [7])
        \<longrightarrow> hp_bytes h3 ! k = run_view [Heap_op (Put_word 2 0 9)] (sample_open, [7]) (hmem sample_heap) k)"
  by (rule transaction_abort_exact [OF sample_inv sample_begin])
    (simp_all add: sample_put, simp_all add: sample_open_def sample_heap_def)






end
