(* ===== verification/Opcode_Tables.thy ===== *)
theory Opcode_Tables
  imports Engine_Error
begin

text \<open>
  The per-opcode tables of \<open>src/crates/microcard-engine-jcvm/src/jcvm_opcodes.rs\<close>, transcribed
  as the runs of equal entries of its 256-entry arrays: which opcodes exist, how long each instruction is (zero when its operands
  say), which need 32-bit integers, where a constant pool index sits, whether control falls
  through, and the width of a branch offset.
\<close>

fun run_table :: "(nat \<times> 'a) list \<Rightarrow> 'a list" where
  "run_table [] = []"
| "run_table ((n, x) # runs) = replicate n x @ run_table runs"

lemma nth_run_table [simp]:
  "run_table ((n, x) # runs) ! k = (if k < n then x else run_table runs ! (k - n))"
  by (simp add: nth_append)

definition DEFINED :: "bool list" where
  "DEFINED = run_table [
     (185, True), (71, False)]"

definition FIXED_LENGTH :: "nat list" where
  "FIXED_LENGTH = run_table [
     (16, 1), (1, 2), (1, 3), (1, 2), (1, 3), (1, 5), (3, 2), (16, 1), (2, 2), (21, 1), (2, 2),
     (24, 1), (2, 3), (5, 1), (17, 2), (1, 3), (1, 2), (4, 0), (4, 1), (8, 3), (8, 2), (3, 3),
     (1, 5), (1, 3), (1, 2), (1, 3), (2, 1), (4, 4), (21, 3), (4, 2), (4, 3), (4, 2), (71, 0)]"

definition INT_ONLY :: "bool list" where
  "INT_ONLY = run_table [
     (9, False), (7, True), (4, False), (1, True), (2, False), (1, True), (8, False), (4, True),
     (3, False), (1, True), (2, False), (1, True), (8, False), (4, True), (3, False), (1, True),
     (7, False), (1, True), (1, False), (1, True), (1, False), (1, True), (1, False), (1, True),
     (1, False), (1, True), (1, False), (1, True), (1, False), (1, True), (1, False), (1, True),
     (1, False), (1, True), (1, False), (1, True), (1, False), (1, True), (1, False), (1, True),
     (1, False), (1, True), (1, False), (4, True), (20, False), (1, True), (1, False), (1, True),
     (2, False), (1, True), (4, False), (1, True), (3, False), (1, True), (3, False), (1, True),
     (3, False), (1, True), (12, False), (1, True), (20, False), (1, True), (3, False), (1, True),
     (3, False), (1, True), (3, False), (1, True), (71, False)]"

definition CP_INDEX_WIDTH :: "nat list" where
  "CP_INDEX_WIDTH = run_table [
     (123, 0), (8, 2), (8, 1), (5, 2), (1, 0), (1, 2), (2, 0), (2, 2), (19, 0), (4, 2), (4, 1),
     (4, 2), (4, 1), (71, 0)]"

definition CP_INDEX_OFFSET :: "nat list" where
  "CP_INDEX_OFFSET = run_table [
     (123, 0), (19, 1), (1, 2), (1, 1), (1, 0), (1, 1), (2, 0), (2, 2), (19, 0), (16, 1), (71, 0)]"

definition FALLS_THROUGH :: "bool list" where
  "FALLS_THROUGH = run_table [
     (112, True), (1, False), (1, True), (9, False), (24, True), (1, False), (20, True),
     (1, False), (16, True), (71, False)]"

definition BRANCH_WIDTH :: "nat list" where
  "BRANCH_WIDTH = run_table [
     (96, 0), (17, 1), (1, 2), (38, 0), (17, 2), (87, 0)]"

text \<open>Table lookups by opcode byte.\<close>

definition defined :: "byte \<Rightarrow> bool" where "defined op = DEFINED ! unat op"
definition fixed_length :: "byte \<Rightarrow> nat" where "fixed_length op = FIXED_LENGTH ! unat op"
definition int_only :: "byte \<Rightarrow> bool" where "int_only op = INT_ONLY ! unat op"
definition cp_index_width :: "byte \<Rightarrow> nat" where "cp_index_width op = CP_INDEX_WIDTH ! unat op"
definition cp_index_offset :: "byte \<Rightarrow> nat" where "cp_index_offset op = CP_INDEX_OFFSET ! unat op"
definition falls_through :: "byte \<Rightarrow> bool" where "falls_through op = FALLS_THROUGH ! unat op"
definition branch_width :: "byte \<Rightarrow> nat" where "branch_width op = BRANCH_WIDTH ! unat op"

text \<open>A fact about every opcode, from the entries of the tables.\<close>

lemma table_lengths:
  "length DEFINED = 256" "length FIXED_LENGTH = 256" "length BRANCH_WIDTH = 256"
  "length CP_INDEX_WIDTH = 256" "length CP_INDEX_OFFSET = 256"
  by (simp_all add: DEFINED_def FIXED_LENGTH_def BRANCH_WIDTH_def CP_INDEX_WIDTH_def CP_INDEX_OFFSET_def)

text \<open>
  The branch operand and the constant pool index of an instruction with a fixed length lie inside
  that length, and a branch has one or two bytes.
\<close>

lemma operands_inside_table:
  "list_all (\<lambda>(l, b, w, q). (b = 0 \<or> b \<le> 2 \<and> 1 + b \<le> l) \<and> (w = 0 \<or> q + w \<le> l))
     (zip FIXED_LENGTH (zip BRANCH_WIDTH (zip CP_INDEX_WIDTH CP_INDEX_OFFSET)))"
  by code_simp

lemma operands_inside:
  "branch_width op = 0 \<or> branch_width op \<le> 2 \<and> 1 + branch_width op \<le> fixed_length op"
  "cp_index_width op = 0 \<or> cp_index_offset op + cp_index_width op \<le> fixed_length op"
proof -
  have "unat op < length (zip FIXED_LENGTH (zip BRANCH_WIDTH (zip CP_INDEX_WIDTH CP_INDEX_OFFSET)))"
    by (simp add: table_lengths)
  from nth_mem [OF this] show
    "branch_width op = 0 \<or> branch_width op \<le> 2 \<and> 1 + branch_width op \<le> fixed_length op"
    "cp_index_width op = 0 \<or> cp_index_offset op + cp_index_width op \<le> fixed_length op"
    using operands_inside_table
    by (auto simp: list_all_iff table_lengths fixed_length_def branch_width_def cp_index_width_def cp_index_offset_def)
qed

end
