(* ===== verification/Bytecode.thy ===== *)
theory Bytecode
  imports Opcode_Tables
begin

text \<open>
  Decoding of a method's bytecode (\<open>src/crates/microcard-engine-jcvm/src/code.rs\<close>) and the
  per-method part of package verification (\<open>verify.rs\<close>): instruction lengths, branch targets,
  the boundary map built linearly or by reachability, the target check, the constant pool index of
  an instruction and the local variable check. Sizes are those of the 32-bit target: a cast to
  \<open>usize\<close> keeps 32 bits and an unchecked addition wraps.
\<close>

section \<open>Operands\<close>

abbreviation (input) JSR :: byte where "JSR \<equiv> 113"
abbreviation (input) RET :: byte where "RET \<equiv> 114"
abbreviation (input) STABLESWITCH :: byte where "STABLESWITCH \<equiv> 115"
abbreviation (input) ITABLESWITCH :: byte where "ITABLESWITCH \<equiv> 116"
abbreviation (input) SLOOKUPSWITCH :: byte where "SLOOKUPSWITCH \<equiv> 117"
abbreviation (input) ILOOKUPSWITCH :: byte where "ILOOKUPSWITCH \<equiv> 118"
abbreviation (input) CHECKCAST :: byte where "CHECKCAST \<equiv> 148"
abbreviation (input) INSTANCEOF :: byte where "INSTANCEOF \<equiv> 149"

record limits =
  allow_int :: bool
  allow_subroutines :: bool

definition IMPLEMENTED :: limits where
  "IMPLEMENTED = \<lparr>allow_int = True, allow_subroutines = False\<rparr>"

definition allows :: "limits \<Rightarrow> byte \<Rightarrow> unit jres" where
  "allows l op =
     (if \<not> defined op then Err JFormat
      else if (op = JSR \<or> op = RET) \<and> \<not> allow_subroutines l then Err JUnsupported
      else if int_only op \<and> \<not> allow_int l then Err JUnsupported
      else Ok ())"

definition code_word :: "bytes \<Rightarrow> nat \<Rightarrow> i16 jres" where
  "code_word code at = rbind (ok_or (get_range code at (at + 2)) JBounds) (\<lambda>bs. Ok (word_of_nat (be_value bs)))"

definition code_long :: "bytes \<Rightarrow> nat \<Rightarrow> i32 jres" where
  "code_long code at = rbind (ok_or (get_range code at (at + 4)) JBounds) (\<lambda>bs. Ok (word_of_nat (be_value bs)))"

section \<open>Instruction lengths\<close>

definition usize_wrap :: "nat \<Rightarrow> nat" where
  "usize_wrap n = n mod 2 ^ 32"

definition switch_header :: "bool \<Rightarrow> nat" where
  "switch_header wide = (if wide then 11 else 7)"

definition switch_range :: "bytes \<Rightarrow> nat \<Rightarrow> bool \<Rightarrow> (int \<times> int) jres" where
  "switch_range code at wide =
     (if wide then rbind (code_long code (at + 3)) (\<lambda>low. rbind (code_long code (at + 7)) (\<lambda>high. Ok (sint low, sint high)))
      else rbind (code_word code (at + 3)) (\<lambda>low. rbind (code_word code (at + 5)) (\<lambda>high. Ok (sint low, sint high))))"

definition table_switch_length :: "bytes \<Rightarrow> nat \<Rightarrow> bool \<Rightarrow> nat jres" where
  "table_switch_length code at wide =
     rbind (switch_range code at wide) (\<lambda>(low, high).
       if low > high then Err JFormat
       else
         let entries = usize_wrap (nat (high - low + 1)) in
         rbind (ok_or (checked_mul entries 2) JBounds) (\<lambda>table. Ok (usize_wrap (switch_header wide + table))))"

definition lookup_switch_length :: "bytes \<Rightarrow> nat \<Rightarrow> bool \<Rightarrow> nat jres" where
  "lookup_switch_length code at wide =
     rbind (code_word code (at + 3)) (\<lambda>pairs.
     rbind (ok_or (checked_mul (unat pairs) (if wide then 6 else 4)) JBounds) (\<lambda>table.
     Ok (usize_wrap (5 + table))))"

definition instruction_length :: "bytes \<Rightarrow> nat \<Rightarrow> nat jres" where
  "instruction_length code at =
     rbind (ok_or (get_at code at) JBounds) (\<lambda>op.
     if \<not> defined op then Err JFormat
     else if fixed_length op \<noteq> 0 then
       (if at + fixed_length op > length code then Err JBounds else Ok (fixed_length op))
     else
       rbind (if op = STABLESWITCH \<or> op = ITABLESWITCH then table_switch_length code at (op = ITABLESWITCH)
              else if op = SLOOKUPSWITCH \<or> op = ILOOKUPSWITCH then lookup_switch_length code at (op = ILOOKUPSWITCH)
              else Err JFormat) (\<lambda>n.
       rbind (ok_or (checked_add at n) JBounds) (\<lambda>end.
       if end > length code then Err JBounds else Ok n)))"

text \<open>
  Every decoded instruction has at least one byte and ends inside the code. The wrapped length of
  a wide table switch is odd, hence never zero.
\<close>

lemma table_switch_length_pos:
  assumes "table_switch_length code at wide = Ok n"
  shows "0 < n"
proof -
  obtain entries where t: "n = usize_wrap (switch_header wide + entries * 2)"
    using assms unfolding table_switch_length_def rbind_eq_Ok
    by (auto simp: rbind_eq_Ok Let_def split: if_splits prod.splits)
  have "odd (switch_header wide + entries * 2)"
    by (simp add: switch_header_def)
  then have "odd n"
    unfolding t usize_wrap_def by (simp add: dvd_mod_iff)
  then show ?thesis
    by (rule odd_pos)
qed

lemma lookup_switch_length_pos:
  assumes "lookup_switch_length code at wide = Ok n"
  shows "0 < n"
proof -
  obtain pairs :: i16 where p: "n = usize_wrap (5 + unat pairs * (if wide then 6 else 4))"
    using assms by (auto simp: lookup_switch_length_def rbind_eq_Ok split: if_splits)
  have "unat pairs \<le> 65535"
    using unat_u16_less [of pairs] by linarith
  then have "5 + unat pairs * (if wide then 6 else 4) < 2 ^ 32"
    by (auto split: if_split)
  then show ?thesis
    unfolding p usize_wrap_def by (subst mod_less) simp_all
qed

lemma instruction_length_inside:
  assumes "instruction_length code at = Ok n"
  shows "0 < n" and "at + n \<le> length code" and "at < length code" and "defined (code ! at)"
proof -
  have r: "at < length code \<and> defined (code ! at) \<and> 0 < n \<and> at + n \<le> length code"
    using assms table_switch_length_pos lookup_switch_length_pos
    by (auto simp: instruction_length_def rbind_eq_Ok split: if_splits)
  then show "0 < n" "at + n \<le> length code" "at < length code" "defined (code ! at)"
    by auto
qed

section \<open>Branch targets\<close>

text \<open>The visitor sees every target as a signed absolute offset and may fail.\<close>

type_synonym 's visit = "int \<Rightarrow> ('s, unit) jact"

function table_targets :: "bytes \<Rightarrow> nat \<Rightarrow> nat \<Rightarrow> 's visit \<Rightarrow> nat \<Rightarrow> ('s, unit) jact" where
  "table_targets code at fin visit entry s =
     (if entry < fin then
        sbind (slift (code_word code entry)) (\<lambda>w.
        sbind (visit (int at + sint w)) (\<lambda>_ s. table_targets code at fin visit (entry + 2) s)) s
      else (Ok (), s))"
  by pat_completeness auto
termination
  by (relation "measure (\<lambda>(_, _, fin, _, entry, _). fin - entry)") auto

function lookup_targets :: "bytes \<Rightarrow> nat \<Rightarrow> nat \<Rightarrow> nat \<Rightarrow> 's visit \<Rightarrow> int option \<Rightarrow> nat \<Rightarrow> ('s, unit) jact" where
  "lookup_targets code at match_width fin visit previous entry s =
     (if entry < fin then
        sbind (slift (if match_width = 4 then rbind (code_long code entry) (\<lambda>k. Ok (sint k))
                      else rbind (code_word code entry) (\<lambda>k. Ok (sint k)))) (\<lambda>key s.
        if (case previous of None \<Rightarrow> False | Some earlier \<Rightarrow> earlier \<ge> key) then (Err JFormat, s)
        else
          sbind (slift (code_word code (entry + match_width))) (\<lambda>w.
          sbind (visit (int at + sint w)) (\<lambda>_ s.
            lookup_targets code at match_width fin visit (Some key) (entry + match_width + 2) s)) s) s
      else (Ok (), s))"
  by pat_completeness auto
termination
  by (relation "measure (\<lambda>(_, _, _, fin, _, _, entry, _). fin - entry)") auto

declare table_targets.simps [simp del] lookup_targets.simps [simp del]

definition branch_target :: "bytes \<Rightarrow> nat \<Rightarrow> nat \<Rightarrow> int jres" where
  "branch_target code at width =
     (if width = 1 then rbind (ok_or (get_at code (at + 1)) JBounds) (\<lambda>b. Ok (int at + sint b))
      else rbind (code_word code (at + 1)) (\<lambda>w. Ok (int at + sint w)))"

definition for_each_target :: "bytes \<Rightarrow> nat \<Rightarrow> nat \<Rightarrow> 's visit \<Rightarrow> ('s, unit) jact" where
  "for_each_target code at n visit =
     (let op = code ! at in
      sbind (if branch_width op \<noteq> 0 then sbind (slift (branch_target code at (branch_width op))) visit else sret ()) (\<lambda>_.
      if op = STABLESWITCH \<or> op = ITABLESWITCH then
        sbind (slift (code_word code (at + 1))) (\<lambda>w.
        sbind (visit (int at + sint w)) (\<lambda>_.
        table_targets code at (at + n) visit (at + switch_header (op = ITABLESWITCH))))
      else if op = SLOOKUPSWITCH \<or> op = ILOOKUPSWITCH then
        sbind (slift (code_word code (at + 1))) (\<lambda>w.
        sbind (visit (int at + sint w)) (\<lambda>_.
        lookup_targets code at (if op = ILOOKUPSWITCH then 4 else 2) (at + n) visit None (at + 5)))
      else sret ()))"

section \<open>The boundary map\<close>

text \<open>
  The scratch bitmap has two halves of one bit per code byte, the instruction starts and the
  offsets still to visit. Each half is kept as the number its bits spell, lowest offset first, so
  that \<open>bit marks i\<close> is bit \<open>i mod 8\<close> of its byte \<open>i div 8\<close>.
\<close>

record boundaries =
  marks :: nat
  pending_bits :: nat
  code_length :: nat

definition scratch_for :: "nat \<Rightarrow> nat" where
  "scratch_for n = (n + 7) div 8 * 2"

definition empty_map :: "bytes \<Rightarrow> nat \<Rightarrow> boundaries jres" where
  "empty_map code scratch_len =
     (if scratch_for (length code) > scratch_len then Err JBounds
      else Ok \<lparr>marks = 0, pending_bits = 0, code_length = length code\<rparr>)"

definition is_boundary :: "boundaries \<Rightarrow> nat \<Rightarrow> bool" where
  "is_boundary m offset \<longleftrightarrow> offset < code_length m \<and> bit (marks m) offset"

definition mark :: "nat \<Rightarrow> boundaries \<Rightarrow> bool \<times> boundaries" where
  "mark at m = (\<not> bit (marks m) at, m\<lparr>marks := set_bit at (marks m)\<rparr>)"

definition enqueue :: "nat \<Rightarrow> boundaries \<Rightarrow> boundaries" where
  "enqueue at m = (if is_boundary m at then m else m\<lparr>pending_bits := set_bit at (pending_bits m)\<rparr>)"

text \<open>The lowest set bit: the first non-zero byte and its \<open>trailing_zeros\<close>.\<close>

fun lowest_bit :: "nat \<Rightarrow> nat" where
  "lowest_bit n = (if n = 0 \<or> odd n then 0 else Suc (lowest_bit (n div 2)))"

declare lowest_bit.simps [simp del]

definition take_pending :: "boundaries \<Rightarrow> nat option \<times> boundaries" where
  "take_pending m =
     (if pending_bits m = 0 then (None, m)
      else let at = lowest_bit (pending_bits m) in
           (Some at, m\<lparr>pending_bits := unset_bit at (pending_bits m)\<rparr>))"

definition bounded :: "int \<Rightarrow> nat \<Rightarrow> nat jres" where
  "bounded target n = (if target < 0 \<or> target \<ge> int n then Err JBounds else Ok (nat target))"

function build_from :: "bytes \<Rightarrow> limits \<Rightarrow> nat \<Rightarrow> boundaries \<Rightarrow> boundaries jres" where
  "build_from code l at m =
     (if at < length code then
        rbind (allows l (code ! at)) (\<lambda>_.
        rbind (instruction_length code at) (\<lambda>n. build_from code l (at + n) (snd (mark at m))))
      else Ok m)"
  by pat_completeness auto
termination
  by (relation "measure (\<lambda>(code, _, at, _). length code - at)") (auto dest: instruction_length_inside)

declare build_from.simps [simp del]

definition build :: "bytes \<Rightarrow> nat \<Rightarrow> limits \<Rightarrow> boundaries jres" where
  "build code scratch_len l = rbind (empty_map code scratch_len) (build_from code l 0)"

text \<open>
  One step of the reachability walk: the targets of the instruction at \<open>at\<close> are queued, and the
  offset of the next instruction is returned when control falls through to it.
\<close>

definition walk_one :: "bytes \<Rightarrow> limits \<Rightarrow> nat \<Rightarrow> (boundaries, nat option) jact" where
  "walk_one code l at =
     sbind (slift (allows l (code ! at))) (\<lambda>_.
     sbind (slift (instruction_length code at)) (\<lambda>n.
     sbind (for_each_target code at n (\<lambda>target.
              sbind (slift (bounded target (length code))) (\<lambda>t. smodify (enqueue t)))) (\<lambda>_.
     sret (if falls_through (code ! at) then Some (at + n) else None))))"

text \<open>
  The targets of an instruction as a list: those visited before the decoding fails, and how it
  ends. Visiting is then a pass over this list.
\<close>

fun visit_all :: "'s visit \<Rightarrow> int list \<Rightarrow> ('s, unit) jact" where
  "visit_all visit [] = sret ()"
| "visit_all visit (t # ts) = sbind (visit t) (\<lambda>_. visit_all visit ts)"

definition visiting :: "'s visit \<Rightarrow> int list \<times> unit jres \<Rightarrow> ('s, unit) jact" where
  "visiting visit p = sbind (visit_all visit (fst p)) (\<lambda>_. slift (snd p))"

definition and_then :: "int \<Rightarrow> int list \<times> unit jres \<Rightarrow> int list \<times> unit jres" where
  "and_then t p = (t # fst p, snd p)"

function table_list :: "bytes \<Rightarrow> nat \<Rightarrow> nat \<Rightarrow> nat \<Rightarrow> int list \<times> unit jres" where
  "table_list code at fin entry =
     (if entry < fin then
        case code_word code entry of Err e \<Rightarrow> ([], Err e)
        | Ok w \<Rightarrow> and_then (int at + sint w) (table_list code at fin (entry + 2))
      else ([], Ok ()))"
  by pat_completeness auto
termination
  by (relation "measure (\<lambda>(_, _, fin, entry). fin - entry)") auto

function lookup_list :: "bytes \<Rightarrow> nat \<Rightarrow> nat \<Rightarrow> nat \<Rightarrow> int option \<Rightarrow> nat \<Rightarrow> int list \<times> unit jres" where
  "lookup_list code at match_width fin previous entry =
     (if entry < fin then
        case (if match_width = 4 then rbind (code_long code entry) (\<lambda>k. Ok (sint k))
              else rbind (code_word code entry) (\<lambda>k. Ok (sint k))) of Err e \<Rightarrow> ([], Err e)
        | Ok key \<Rightarrow>
            if (case previous of None \<Rightarrow> False | Some earlier \<Rightarrow> earlier \<ge> key) then ([], Err JFormat)
            else case code_word code (entry + match_width) of Err e \<Rightarrow> ([], Err e)
            | Ok w \<Rightarrow> and_then (int at + sint w)
                (lookup_list code at match_width fin (Some key) (entry + match_width + 2))
      else ([], Ok ()))"
  by pat_completeness auto
termination
  by (relation "measure (\<lambda>(_, _, _, fin, _, entry). fin - entry)") auto

declare table_list.simps [simp del] lookup_list.simps [simp del]

lemma visiting_simps [simp]:
  "visiting visit ([], r) s = (r, s)"
  "visiting visit (and_then t p) s = sbind (visit t) (\<lambda>_. visiting visit p) s"
  by (auto simp: visiting_def and_then_def sbind_def split: prod.splits result.splits)

lemma table_targets_list: "table_targets code at fin visit entry s = visiting visit (table_list code at fin entry) s"
proof (induction code at fin visit entry s rule: table_targets.induct)
  case (1 code at fin visit entry s)
  show ?case
  proof (cases "entry < fin")
    case True
    show ?thesis
    proof (cases "code_word code entry")
      case (Ok w)
      have "table_targets code at fin visit entry s
          = sbind (visit (int at + sint w)) (\<lambda>_. table_targets code at fin visit (entry + 2)) s"
        using True Ok by (subst table_targets.simps) simp
      also have "\<dots> = sbind (visit (int at + sint w)) (\<lambda>_. visiting visit (table_list code at fin (entry + 2))) s"
        using 1 [OF True] Ok by (intro sbind_cong) auto
      also have "\<dots> = visiting visit (table_list code at fin entry) s"
        using True Ok by (subst (2) table_list.simps) simp
      finally show ?thesis .
    qed (use True in \<open>simp add: table_targets.simps [of code at fin visit entry s] table_list.simps [of code at fin entry]\<close>)
  qed (simp add: table_targets.simps [of code at fin visit entry s] table_list.simps [of code at fin entry])
qed

lemma lookup_targets_list:
  "lookup_targets code at mw fin visit previous entry s = visiting visit (lookup_list code at mw fin previous entry) s"
proof (induction code at mw fin visit previous entry s rule: lookup_targets.induct)
  case (1 code at mw fin visit previous entry s)
  let ?key = "if mw = 4 then rbind (code_long code entry) (\<lambda>k. Ok (sint k)) else rbind (code_word code entry) (\<lambda>k. Ok (sint k))"
  let ?bad = "\<lambda>key. case previous of None \<Rightarrow> False | Some earlier \<Rightarrow> earlier \<ge> key"
  note [simp] = lookup_targets.simps [of code at mw fin visit previous entry s] lookup_list.simps [of code at mw fin previous entry]
  show ?case
  proof (cases "entry < fin")
    case True
    show ?thesis
    proof (cases ?key)
      case key: (Ok key)
      show ?thesis
      proof (cases "?bad key")
        case good: False
        show ?thesis
        proof (cases "code_word code (entry + mw)")
          case (Ok w)
          have "lookup_targets code at mw fin visit previous entry s
              = sbind (visit (int at + sint w)) (\<lambda>_. lookup_targets code at mw fin visit (Some key) (entry + mw + 2)) s"
            using True key good Ok by (simp del: lookup_list.simps)
          also have "\<dots> = sbind (visit (int at + sint w)) (\<lambda>_. visiting visit (lookup_list code at mw fin (Some key) (entry + mw + 2))) s"
            using 1 [OF True] key good Ok by (intro sbind_cong) auto
          also have "\<dots> = visiting visit (lookup_list code at mw fin previous entry) s"
            using True key good Ok by (simp del: lookup_targets.simps)
          finally show ?thesis .
        qed (use True key good in simp)
      qed (use True key in simp)
    qed (use True in simp)
  qed simp
qed


definition target_list :: "bytes \<Rightarrow> nat \<Rightarrow> nat \<Rightarrow> int list \<times> unit jres" where
  "target_list code at n =
     (let op = code ! at;
          default_first = (\<lambda>p. case code_word code (at + 1) of Err e \<Rightarrow> ([], Err e) | Ok w \<Rightarrow> and_then (int at + sint w) p);
          switch = (if op = STABLESWITCH \<or> op = ITABLESWITCH then
                      default_first (table_list code at (at + n) (at + switch_header (op = ITABLESWITCH)))
                    else if op = SLOOKUPSWITCH \<or> op = ILOOKUPSWITCH then
                      default_first (lookup_list code at (if op = ILOOKUPSWITCH then 4 else 2) (at + n) None (at + 5))
                    else ([], Ok ())) in
      if branch_width op \<noteq> 0 then
        case branch_target code at (branch_width op) of Err e \<Rightarrow> ([], Err e) | Ok t \<Rightarrow> and_then t switch
      else switch)"

lemma for_each_target_list: "for_each_target code at n visit s = visiting visit (target_list code at n) s"
proof -
  define op where "op = code ! at"
  define switch where "switch =
     (if op = STABLESWITCH \<or> op = ITABLESWITCH then
        sbind (slift (code_word code (at + 1))) (\<lambda>w.
        sbind (visit (int at + sint w)) (\<lambda>_.
        table_targets code at (at + n) visit (at + switch_header (op = ITABLESWITCH))))
      else if op = SLOOKUPSWITCH \<or> op = ILOOKUPSWITCH then
        sbind (slift (code_word code (at + 1))) (\<lambda>w.
        sbind (visit (int at + sint w)) (\<lambda>_.
        lookup_targets code at (if op = ILOOKUPSWITCH then 4 else 2) (at + n) visit None (at + 5)))
      else sret ())"
  have lists: "table_targets code at fin visit entry = visiting visit (table_list code at fin entry)"
    "lookup_targets code at mw fin visit None entry = visiting visit (lookup_list code at mw fin None entry)" for fin entry mw
    by (rule ext, simp add: table_targets_list lookup_targets_list)+
  have switch: "switch = visiting visit
     (if op = STABLESWITCH \<or> op = ITABLESWITCH then
        (case code_word code (at + 1) of Err e \<Rightarrow> ([], Err e) | Ok w \<Rightarrow>
           and_then (int at + sint w) (table_list code at (at + n) (at + switch_header (op = ITABLESWITCH))))
      else if op = SLOOKUPSWITCH \<or> op = ILOOKUPSWITCH then
        (case code_word code (at + 1) of Err e \<Rightarrow> ([], Err e) | Ok w \<Rightarrow>
           and_then (int at + sint w) (lookup_list code at (if op = ILOOKUPSWITCH then 4 else 2) (at + n) None (at + 5)))
      else ([], Ok ()))"
    unfolding switch_def lists by (rule ext) (auto split: result.split)
  show ?thesis
    unfolding for_each_target_def target_list_def Let_def op_def [symmetric] switch_def [symmetric]
    unfolding switch by (auto simp: sbind_def slift_def split: result.split)
qed

end
