(* ===== verification/Method_Verifier.thy ===== *)
theory Method_Verifier
  imports Bytecode
begin

text \<open>
  Verification of one method's bytecode: the reachability walk and the target check of
  \<open>src/crates/microcard-engine-jcvm/src/code.rs\<close>, and the method part of \<open>verify.rs\<close>. The walk is
  compared with the least set of offsets closed under the successors of an instruction.
\<close>

section \<open>The reachability walk\<close>

lemma bit_lowest_bit: "n \<noteq> 0 \<Longrightarrow> bit n (lowest_bit n)"
proof (induction n rule: lowest_bit.induct)
  case (1 n)
  show ?case
  proof (cases "odd n")
    case True
    then show ?thesis by (simp add: lowest_bit.simps [of n] bit_0)
  next
    case False
    then have "bit (n div 2) (lowest_bit (n div 2))"
      using 1 by auto
    then show ?thesis
      using False 1(2) by (simp add: lowest_bit.simps [of n] bit_Suc)
  qed
qed

lemma unset_bit_less:
  assumes "bit n k"
  shows "unset_bit k n < (n :: nat)"
proof -
  have "unset_bit k n \<noteq> n"
    using assms bit_unset_bit_iff [of k n k] by auto
  moreover have "unset_bit k n \<le> n"
    using unset_bit_less_eq [of k "int n"] by (simp flip: of_nat_unset_bit_eq)
  ultimately show ?thesis by simp
qed

text \<open>Queueing the bounded targets of one instruction leaves the marks alone.\<close>

definition queue_target :: "bytes \<Rightarrow> boundaries visit" where
  "queue_target code target = sbind (slift (bounded target (length code))) (\<lambda>t. smodify (enqueue t))"

lemma visit_all_queue_Cons [simp]:
  "visit_all (queue_target code) (t # ts) m =
     (if 0 \<le> t \<and> t < int (length code) then visit_all (queue_target code) ts (enqueue (nat t) m) else (Err JBounds, m))"
  by (auto simp: queue_target_def bounded_def sbind_def slift_def smodify_def)

lemma enqueue_simps [simp]:
  "marks (enqueue t m) = marks m" "code_length (enqueue t m) = code_length m"
  "bit (pending_bits (enqueue t m)) i \<longleftrightarrow> bit (pending_bits m) i \<or> i = t \<and> \<not> is_boundary m t"
  by (auto simp: enqueue_def bit_set_bit_iff)

lemma visit_all_queue:
  assumes "visit_all (queue_target code) ts m = (r, m')"
  shows "marks m' = marks m" "code_length m' = code_length m"
    and "r = Ok () \<longleftrightarrow> (\<forall>t \<in> set ts. 0 \<le> t \<and> t < int (length code))"
    and "r = Ok () \<Longrightarrow> bit (pending_bits m') i \<longleftrightarrow> bit (pending_bits m) i \<or> int i \<in> set ts \<and> \<not> is_boundary m i"
  using assms
proof (induction ts arbitrary: m)
  case (Cons t ts)
  note visit_all.simps(2) [simp del]
  { case 1 then show ?case
      using Cons.IH(1) by (auto split: if_splits)
  next
    case 2 then show ?case
      using Cons.IH(2) by (auto split: if_splits)
  next
    case 3 then show ?case
      using Cons.IH(3) by (auto split: if_splits)
  next
    case 4
    then have t: "0 \<le> t" "t < int (length code)" and m: "visit_all (queue_target code) ts (enqueue (nat t) m) = (r, m')"
      by (auto split: if_splits)
    show ?case
      using Cons.IH(4) [OF 4(1) m] t by (auto simp: is_boundary_def)
  }
qed auto

lemma walk_one_alt:
  "walk_one code l at =
     sbind (slift (allows l (code ! at))) (\<lambda>_.
     sbind (slift (instruction_length code at)) (\<lambda>n.
     sbind (visit_all (queue_target code) (fst (target_list code at n))) (\<lambda>_.
     sbind (slift (snd (target_list code at n))) (\<lambda>_.
     sret (if falls_through (code ! at) then Some (at + n) else None)))))"
  (is "_ = ?r")
proof
  fix s
  have "for_each_target code at n (queue_target code) = visiting (queue_target code) (target_list code at n)" for n
    by (rule ext) (rule for_each_target_list)
  moreover have "(\<lambda>target. sbind (slift (bounded target (length code))) (\<lambda>t. smodify (enqueue t))) = queue_target code"
    by (rule ext) (simp add: queue_target_def)
  ultimately show "walk_one code l at s = ?r s"
    unfolding walk_one_def visiting_def
    by (auto simp: sbind_def slift_def sret_def split: result.split prod.split)
qed

lemma walk_one_marks:
  assumes "walk_one code l at m = (r, m')"
  shows "marks m' = marks m" "code_length m' = code_length m"
proof -
  have "marks m' = marks m \<and> code_length m' = code_length m"
    using assms unfolding walk_one_alt
    by (auto simp: sbind_eq slift_def sret_def dest: visit_all_queue(1,2) split: result.splits)
  then show "marks m' = marks m" "code_length m' = code_length m" by auto
qed

lemma unmarked_less:
  assumes "at < n" and "\<not> bit (k :: nat) at"
  shows "card {i. i < n \<and> \<not> bit (set_bit at k) i} < card {i. i < n \<and> \<not> bit k i}"
proof (rule psubset_card_mono)
  have "at \<in> {i. i < n \<and> \<not> bit k i}" "at \<notin> {i. i < n \<and> \<not> bit (set_bit at k) i}"
    using assms by (simp_all add: bit_set_bit_iff)
  moreover have "{i. i < n \<and> \<not> bit (set_bit at k) i} \<subseteq> {i. i < n \<and> \<not> bit k i}"
    by (simp add: bit_set_bit_iff subset_iff)
  ultimately show "{i. i < n \<and> \<not> bit (set_bit at k) i} \<subset> {i. i < n \<and> \<not> bit k i}"
    by (metis psubsetI)
qed simp

text \<open>
  The two nested loops as one function: with no offset the outer loop takes the next pending one,
  with an offset the inner loop decodes there.
\<close>

function reach :: "bytes \<Rightarrow> limits \<Rightarrow> nat option \<Rightarrow> boundaries \<Rightarrow> boundaries jres" where
  "reach code l None m =
     (case take_pending m of
        (None, m') \<Rightarrow> Ok m'
      | (Some start, m') \<Rightarrow> reach code l (Some start) m')"
| "reach code l (Some at) m =
     (if at \<ge> length code then Err JBounds
      else if \<not> fst (mark at m) then reach code l None (snd (mark at m))
      else case walk_one code l at (snd (mark at m)) of
             (Err e, _) \<Rightarrow> Err e
           | (Ok next, m') \<Rightarrow> reach code l next m')"
  by pat_completeness auto
termination
proof (relation "(\<lambda>(code, l, mode, m). card {i. i < length code \<and> \<not> bit (marks m) i}) <*mlex*>
    (\<lambda>(code, l, mode, m). pending_bits m) <*mlex*> measure (\<lambda>(code, l, mode, m). case mode of None \<Rightarrow> 0 | Some _ \<Rightarrow> 1)", goal_cases)
  case 1 then show ?case by (intro wf_mlex wf_measure)
next
  case (2 code l m _ m' start)
  then have "pending_bits m \<noteq> 0" "m' = m\<lparr>pending_bits := unset_bit (lowest_bit (pending_bits m)) (pending_bits m)\<rparr>"
    by (auto simp: take_pending_def Let_def split: if_splits)
  then show ?case
    by (simp add: mlex_prod_def unset_bit_less bit_lowest_bit)
next
  case (3 code l at m)
  then have "set_bit at (marks m) = marks m"
    by (auto simp: mark_def intro: bit_eqI simp: bit_set_bit_iff)
  then show ?case
    by (simp add: mlex_prod_def mark_def)
next
  case (4 code l at m r m' nxt)
  have "walk_one code l at (snd (mark at m)) = (Ok nxt, m')"
    using 4(3,4) by simp
  from walk_one_marks(1) [OF this] have "marks m' = set_bit at (marks m)" "\<not> bit (marks m) at"
    using 4(2) by (simp_all add: mark_def)
  then show ?case
    using unmarked_less [of at "length code" "marks m"] 4(1) by (simp add: mlex_prod_def)
qed

declare reach.simps [simp del]

fun enqueue_entries :: "bytes \<Rightarrow> nat list \<Rightarrow> boundaries \<Rightarrow> boundaries jres" where
  "enqueue_entries code [] m = Ok m"
| "enqueue_entries code (entry # entries) m =
     (if entry \<ge> length code then Err JBounds else enqueue_entries code entries (enqueue entry m))"

definition reachable :: "bytes \<Rightarrow> nat \<Rightarrow> limits \<Rightarrow> nat list \<Rightarrow> boundaries jres" where
  "reachable code scratch_len l entries =
     rbind (empty_map code scratch_len) (\<lambda>m. rbind (enqueue_entries code entries m) (reach code l None))"

section \<open>Checks after the walk\<close>

definition check_target :: "boundaries \<Rightarrow> int \<Rightarrow> unit jres" where
  "check_target m target = rbind (bounded target (code_length m)) (\<lambda>t. if \<not> is_boundary m t then Err JFormat else Ok ())"

function verify_targets_from :: "bytes \<Rightarrow> boundaries \<Rightarrow> nat \<Rightarrow> unit jres" where
  "verify_targets_from code m at =
     (if at < length code then
        if \<not> is_boundary m at then verify_targets_from code m (at + 1)
        else
          rbind (instruction_length code at) (\<lambda>n.
          rbind (fst (for_each_target code at n (\<lambda>target. slift (check_target m target)) ())) (\<lambda>_.
          verify_targets_from code m (at + n)))
      else Ok ())"
  by pat_completeness auto
termination
  by (relation "measure (\<lambda>(code, _, at). length code - at)") (auto dest: instruction_length_inside)

definition verify_targets :: "bytes \<Rightarrow> boundaries \<Rightarrow> unit jres" where
  "verify_targets code m = verify_targets_from code m 0"

definition constant_pool_index :: "bytes \<Rightarrow> nat \<Rightarrow> (nat \<times> u16) option jres" where
  "constant_pool_index code at =
     rbind (ok_or (get_at code at) JBounds) (\<lambda>op.
     if cp_index_width op = 0 then Ok None
     else
       let offset = at + cp_index_offset op;
           index = (if cp_index_width op = 1 then rbind (ok_or (get_at code offset) JBounds) (\<lambda>b. Ok (ucast b))
                    else code_word code offset) in
       if op = CHECKCAST \<or> op = INSTANCEOF then
         rbind (ok_or (get_at code (at + 1)) JBounds) (\<lambda>atype.
         if 10 \<le> atype \<and> atype \<le> 13 then
           rbind (code_word code offset) (\<lambda>w. if w \<noteq> 0 then Err JFormat else Ok None)
         else rbind index (\<lambda>i. Ok (Some (offset, i))))
       else rbind index (\<lambda>i. Ok (Some (offset, i))))"

text \<open>The local variable an instruction names and how many words it spans.\<close>

definition local_operand :: "bytes \<Rightarrow> nat \<Rightarrow> (nat \<times> nat) option" where
  "local_operand code at =
     (let op = unat (code ! at) in
      if 21 \<le> op \<and> op \<le> 23 \<or> 40 \<le> op \<and> op \<le> 42 \<or> 89 \<le> op \<and> op \<le> 90 \<or> 150 \<le> op \<and> op \<le> 151 then
        Some (unat (code ! (at + 1)), if op = 23 \<or> op = 42 \<or> op = 90 \<or> op = 151 then 2 else 1)
      else if 24 \<le> op \<and> op \<le> 35 then Some ((op - 24) mod 4, if op \<ge> 32 then 2 else 1)
      else if 43 \<le> op \<and> op \<le> 54 then Some ((op - 43) mod 4, if op \<ge> 51 then 2 else 1)
      else None)"

definition verify_local_access :: "bytes \<Rightarrow> nat \<Rightarrow> u16 \<Rightarrow> unit jres" where
  "verify_local_access code at frame_words =
     (case local_operand code at of
        None \<Rightarrow> Ok ()
      | Some (index, width) \<Rightarrow> if index + width > unat frame_words then Err JBounds else Ok ())"

definition check_constant :: "bytes \<Rightarrow> nat \<Rightarrow> nat \<Rightarrow> unit jres" where
  "check_constant code constants at =
     rbind (constant_pool_index code at) (\<lambda>named.
       case named of None \<Rightarrow> Ok () | Some (_, index) \<Rightarrow> if unat index \<ge> constants then Err JBounds else Ok ())"

function check_operands_from :: "bytes \<Rightarrow> boundaries \<Rightarrow> nat \<Rightarrow> u16 \<Rightarrow> nat \<Rightarrow> unit jres" where
  "check_operands_from code m constants frame_words at =
     (if at < length code then
        if \<not> is_boundary m at then check_operands_from code m constants frame_words (at + 1)
        else
          rbind (check_constant code constants at) (\<lambda>_.
          rbind (verify_local_access code at frame_words) (\<lambda>_.
          rbind (instruction_length code at) (\<lambda>n. check_operands_from code m constants frame_words (at + n))))
      else Ok ())"
  by pat_completeness auto
termination
  by (relation "measure (\<lambda>(code, _, _, _, at). length code - at)") (auto dest: instruction_length_inside)

declare verify_targets_from.simps [simp del] check_operands_from.simps [simp del]

text \<open>
  The entries of a method: its first byte and the handlers that lie in its region. Growing the
  vector may fail, as \<open>alloc\<close> decides.
\<close>

definition reserve :: "(nat \<Rightarrow> bool) \<Rightarrow> nat \<Rightarrow> unit jres" where
  "reserve alloc n = (if alloc n then Ok () else Err JQuota)"

fun method_entries :: "(nat \<Rightarrow> bool) \<Rightarrow> nat \<Rightarrow> nat \<Rightarrow> nat list \<Rightarrow> u16 list \<Rightarrow> nat list jres" where
  "method_entries alloc start fin entries [] = Ok entries"
| "method_entries alloc start fin entries (handler_offset # handlers) =
     (let target = unat handler_offset in
      if start \<le> target \<and> target < fin then
        rbind (reserve alloc (length entries + 1)) (\<lambda>_.
          method_entries alloc start fin (entries @ [target - start]) handlers)
      else method_entries alloc start fin entries handlers)"

definition verify_method ::
    "(nat \<Rightarrow> bool) \<Rightarrow> u16 list \<Rightarrow> bytes \<Rightarrow> nat \<times> nat \<Rightarrow> u16 \<Rightarrow> nat \<Rightarrow> limits \<Rightarrow> nat \<Rightarrow> unit jres" where
  "verify_method alloc handlers code region frame_words scratch_len l constants =
     rbind (reserve alloc 1) (\<lambda>_.
     rbind (method_entries alloc (fst region) (snd region) [0] handlers) (\<lambda>entries.
     rbind (reachable code scratch_len l entries) (\<lambda>m.
     rbind (verify_targets code m) (\<lambda>_.
     check_operands_from code m constants frame_words 0))))"

section \<open>What the walk finds\<close>

text \<open>
  An offset decodes when its opcode is allowed, its instruction lies inside the method and every
  target is inside the method; its successors are the targets and, where control falls through,
  the next instruction.
\<close>

definition decodes :: "bytes \<Rightarrow> limits \<Rightarrow> nat \<Rightarrow> bool" where
  "decodes code l at \<longleftrightarrow>
     (case (get_at code at, instruction_length code at) of
        (Some op, Ok n) \<Rightarrow> allows l op = Ok () \<and> snd (target_list code at n) = Ok ()
          \<and> list_all (\<lambda>t. 0 \<le> t \<and> t < int (length code)) (fst (target_list code at n))
      | _ \<Rightarrow> False)"

definition successors :: "bytes \<Rightarrow> nat \<Rightarrow> nat list" where
  "successors code at =
     (case instruction_length code at of
        Err _ \<Rightarrow> []
      | Ok n \<Rightarrow> map nat (fst (target_list code at n)) @ (if falls_through (code ! at) then [at + n] else []))"

inductive flows :: "bytes \<Rightarrow> limits \<Rightarrow> nat list \<Rightarrow> nat \<Rightarrow> bool" for code l entries where
  entry: "e \<in> set entries \<Longrightarrow> flows code l entries e"
| flow: "flows code l entries i \<Longrightarrow> decodes code l i \<Longrightarrow> j \<in> set (successors code i) \<Longrightarrow> flows code l entries j"

lemma decodesE:
  assumes "decodes code l at"
  obtains n where "at < length code" "allows l (code ! at) = Ok ()" "instruction_length code at = Ok n"
    "0 < n" "at + n \<le> length code" "snd (target_list code at n) = Ok ()"
    "\<forall>t \<in> set (fst (target_list code at n)). 0 \<le> t \<and> t < int (length code)"
  using assms instruction_length_inside
  by (auto simp: decodes_def get_at_def list_all_iff split: option.splits if_splits result.splits)

lemma walk_one_decodes:
  assumes "decodes code l at"
  obtains nxt m' where "walk_one code l at m = (Ok nxt, m')"
    and "marks m' = marks m" "code_length m' = code_length m"
    and "\<And>i. bit (pending_bits m) i \<Longrightarrow> bit (pending_bits m') i"
    and "\<And>i. bit (pending_bits m') i \<Longrightarrow> bit (pending_bits m) i \<or> i \<in> set (successors code at)"
    and "\<And>i. i \<in> set (successors code at) \<Longrightarrow> bit (pending_bits m') i \<or> is_boundary m i \<or> nxt = Some i"
    and "\<And>i. nxt = Some i \<Longrightarrow> i \<in> set (successors code at)"
proof -
  obtain n where d: "allows l (code ! at) = Ok ()" "instruction_length code at = Ok n"
    "snd (target_list code at n) = Ok ()"
    "\<forall>t \<in> set (fst (target_list code at n)). 0 \<le> t \<and> t < int (length code)"
    using assms by (rule decodesE)
  obtain r m' where v: "visit_all (queue_target code) (fst (target_list code at n)) m = (r, m')" by fastforce
  note q = visit_all_queue [OF v]
  have r: "r = Ok ()" using q(3) d(4) by simp
  have w: "walk_one code l at m = (Ok (if falls_through (code ! at) then Some (at + n) else None), m')"
    unfolding walk_one_alt using d v r by (simp add: sbind_def slift_def sret_def)
  have s: "set (successors code at) = nat ` set (fst (target_list code at n)) \<union> (if falls_through (code ! at) then {at + n} else {})"
    using d(2) by (simp add: successors_def)
  have t: "int i \<in> set (fst (target_list code at n)) \<longleftrightarrow> i \<in> nat ` set (fst (target_list code at n))" for i
    using d(4) by (force simp: image_iff)
  show thesis
  proof (rule that [OF w q(1,2)])
  qed (use q(4) [OF r] t s in \<open>auto split: if_splits\<close>)
qed

lemma walk_one_stuck:
  assumes "at < length code" and "\<not> decodes code l at"
  shows "\<exists>e m'. walk_one code l at m = (Err e, m')"
proof -
  have "fst (walk_one code l at m) \<noteq> Ok nxt" for nxt
  proof
    assume "fst (walk_one code l at m) = Ok nxt"
    then obtain m' where "walk_one code l at m = (Ok nxt, m')" by (cases "walk_one code l at m") auto
    then obtain n m1 m2 where "allows l (code ! at) = Ok ()" "instruction_length code at = Ok n"
      and v: "visit_all (queue_target code) (fst (target_list code at n)) m = (Ok (), m1)"
      and "snd (target_list code at n) = Ok ()"
      unfolding walk_one_alt by (auto simp: sbind_eq slift_def split: result.splits)
    then show False
      using assms visit_all_queue(3) [OF v] by (simp add: decodes_def get_at_def list_all_iff)
  qed
  then show ?thesis
    by (metis prod.collapse result.exhaust)
qed

definition walk_inv :: "bytes \<Rightarrow> limits \<Rightarrow> nat list \<Rightarrow> nat option \<Rightarrow> boundaries \<Rightarrow> bool" where
  "walk_inv code l entries mode m \<longleftrightarrow> code_length m = length code
     \<and> (\<forall>i. bit (marks m) i \<or> bit (pending_bits m) i \<or> mode = Some i \<longrightarrow> flows code l entries i)
     \<and> (\<forall>i. bit (marks m) i \<longrightarrow> decodes code l i
          \<and> (\<forall>j \<in> set (successors code i). bit (marks m) j \<or> bit (pending_bits m) j \<or> mode = Some j))
     \<and> (\<forall>e \<in> set entries. bit (marks m) e \<or> bit (pending_bits m) e \<or> mode = Some e)"

lemma reach_exact:
  assumes "walk_inv code l entries mode m"
  shows "(\<exists>m'. reach code l mode m = Ok m' \<and> walk_inv code l entries None m' \<and> pending_bits m' = 0)
    \<or> (\<exists>e i. reach code l mode m = Err e \<and> flows code l entries i \<and> \<not> decodes code l i)"
  using assms
proof (induction code l mode m rule: reach.induct)
  case (1 code l m)
  show ?case
  proof (cases "pending_bits m = 0")
    case True
    then show ?thesis
      using 1(2) by (simp add: reach.simps take_pending_def)
  next
    case False
    define at where "at = lowest_bit (pending_bits m)"
    define m' where "m' = m\<lparr>pending_bits := unset_bit at (pending_bits m)\<rparr>"
    have t: "take_pending m = (Some at, m')"
      using False by (simp add: take_pending_def Let_def at_def m'_def)
    have b: "bit (pending_bits m) i \<longleftrightarrow> bit (pending_bits m') i \<or> i = at" for i
      using bit_lowest_bit [OF False] by (auto simp: m'_def at_def bit_unset_bit_iff)
    have "walk_inv code l entries (Some at) m'"
      using 1(2) unfolding walk_inv_def b by (auto simp: m'_def)
    then show ?thesis
      using 1(1) [OF t [symmetric] refl] by (simp add: reach.simps(1) t)
  qed
next
  case (2 code l at m)
  have fl: "flows code l entries at"
    using 2(3) by (simp add: walk_inv_def)
  show ?case
  proof (cases "at < length code")
    case False
    then have "\<not> decodes code l at"
      by (auto elim: decodesE)
    then show ?thesis
      using False fl by (auto simp: reach.simps(2))
  next
    case len: True
    define m1 where "m1 = snd (mark at m)"
    have m1: "bit (marks m1) i \<longleftrightarrow> bit (marks m) i \<or> i = at" "pending_bits m1 = pending_bits m" "code_length m1 = code_length m" for i
      by (auto simp: m1_def mark_def bit_set_bit_iff)
    show ?thesis
    proof (cases "bit (marks m) at")
      case True
      then have "walk_inv code l entries None m1"
        using 2(3) by (auto simp: walk_inv_def m1)
      then show ?thesis
        using 2(1) len True by (simp add: reach.simps(2) [of code l at] m1_def mark_def)
    next
      case new: False
      show ?thesis
      proof (cases "decodes code l at")
        case True
        obtain nxt m2 where w: "walk_one code l at m1 = (Ok nxt, m2)" and m2: "marks m2 = marks m1" "code_length m2 = code_length m1"
          "\<And>i. bit (pending_bits m1) i \<Longrightarrow> bit (pending_bits m2) i"
          "\<And>i. bit (pending_bits m2) i \<Longrightarrow> bit (pending_bits m1) i \<or> i \<in> set (successors code at)"
          "\<And>i. i \<in> set (successors code at) \<Longrightarrow> bit (pending_bits m2) i \<or> is_boundary m1 i \<or> nxt = Some i"
          "\<And>i. nxt = Some i \<Longrightarrow> i \<in> set (successors code at)"
          using walk_one_decodes [OF True, of m1] by metis
        note old = 2(3) [unfolded walk_inv_def, THEN conjunct1] 2(3) [unfolded walk_inv_def, THEN conjunct2, THEN conjunct1]
          2(3) [unfolded walk_inv_def, THEN conjunct2, THEN conjunct2, THEN conjunct1]
          2(3) [unfolded walk_inv_def, THEN conjunct2, THEN conjunct2, THEN conjunct2]
        note new2 = m2(1-6) [unfolded is_boundary_def m1]
        have fs: "flows code l entries j" if "j \<in> set (successors code at)" for j
          using flows.flow [OF fl True that] .
        have "walk_inv code l entries nxt m2"
          unfolding walk_inv_def m2(1,2) m1
        proof (intro conjI allI impI)
          show "code_length m = length code"
            by (rule old(1))
          show "flows code l entries i" if "(bit (marks m) i \<or> i = at) \<or> bit (pending_bits m2) i \<or> nxt = Some i" for i
            using that old(2) new2(4,6) fs fl by blast
          show "\<forall>e \<in> set entries. (bit (marks m) e \<or> e = at) \<or> bit (pending_bits m2) e \<or> nxt = Some e"
            using old(4) new2(3) by blast
          fix i assume "bit (marks m) i \<or> i = at"
          then show "decodes code l i"
            using old(3) True by blast
          show "\<forall>j \<in> set (successors code i). (bit (marks m) j \<or> j = at) \<or> bit (pending_bits m2) j \<or> nxt = Some j"
            using \<open>bit (marks m) i \<or> i = at\<close> old(3) new2(3,5) by blast
        qed
        then show ?thesis
          using 2(2) [OF _ _ w [unfolded m1_def, symmetric] refl] w len new
          by (simp add: reach.simps(2) [of code l at] m1_def [symmetric], simp add: mark_def m1_def)
      next
        case False
        then obtain e m2 where "walk_one code l at m1 = (Err e, m2)"
          using walk_one_stuck len by blast
        then show ?thesis
          using len new False fl by (auto simp: reach.simps(2) m1_def [symmetric], auto simp: mark_def m1_def)
      qed
    qed
  qed
qed

lemma enqueue_entries_spec:
  assumes "code_length m = length code" and "marks m = 0"
  shows "(\<exists>m'. enqueue_entries code es m = Ok m' \<and> code_length m' = length code \<and> marks m' = 0
        \<and> (\<forall>i. bit (pending_bits m') i \<longleftrightarrow> bit (pending_bits m) i \<or> i \<in> set es))
    \<or> (\<exists>e. enqueue_entries code es m = Err JBounds \<and> e \<in> set es \<and> length code \<le> e)"
  using assms
proof (induction es arbitrary: m)
  case (Cons e es)
  show ?case
  proof (cases "e < length code")
    case True
    have "\<not> is_boundary m e"
      using Cons.prems by (simp add: is_boundary_def)
    then show ?thesis
      using True Cons.IH [of "enqueue e m"] Cons.prems by auto
  qed auto
qed auto

lemma reachable_walk:
  "case reachable code scratch_len l entries of
     Ok m \<Rightarrow> scratch_for (length code) \<le> scratch_len \<and> walk_inv code l entries None m \<and> pending_bits m = 0
   | Err _ \<Rightarrow> scratch_len < scratch_for (length code) \<or> (\<exists>i. flows code l entries i \<and> \<not> decodes code l i)"
proof (cases "scratch_for (length code) \<le> scratch_len")
  case fits: True
  define m0 where "m0 = \<lparr>marks = 0, pending_bits = 0, code_length = length code\<rparr>"
  have start: "reachable code scratch_len l entries = rbind (enqueue_entries code entries m0) (reach code l None)"
    using fits by (simp add: reachable_def empty_map_def m0_def)
  consider m1 where "enqueue_entries code entries m0 = Ok m1" "code_length m1 = length code" "marks m1 = 0"
      "\<forall>i. bit (pending_bits m1) i \<longleftrightarrow> i \<in> set entries"
    | e where "enqueue_entries code entries m0 = Err JBounds" "e \<in> set entries" "length code \<le> e"
    using enqueue_entries_spec [of m0 code entries] by (auto simp: m0_def)
  then show ?thesis
  proof cases
    case 1
    then have "walk_inv code l entries None m1"
      by (auto simp: walk_inv_def intro: flows.entry)
    from reach_exact [OF this] show ?thesis
      using fits start 1(1) by auto
  next
    case 2
    then have "flows code l entries e" "\<not> decodes code l e"
      by (auto intro: flows.entry elim: decodesE)
    then show ?thesis
      using start 2(1) by auto
  qed
qed (simp add: reachable_def empty_map_def)

lemma walk_inv_final:
  assumes inv: "walk_inv code l entries None m" and empty: "pending_bits m = 0"
  shows "is_boundary m i \<longleftrightarrow> flows code l entries i" and "flows code l entries i \<Longrightarrow> decodes code l i"
proof -
  have m: "bit (marks m) i" if "flows code l entries i" for i
    using that
  proof induction
    case (entry e)
    then show ?case using inv empty by (auto simp: walk_inv_def)
  next
    case (flow i j)
    then show ?case using inv empty by (auto simp: walk_inv_def)
  qed
  then show "flows code l entries i \<Longrightarrow> decodes code l i"
    using inv by (simp add: walk_inv_def)
  then show "is_boundary m i \<longleftrightarrow> flows code l entries i"
    using m inv by (auto simp: is_boundary_def walk_inv_def elim: decodesE)
qed

lemma reachable_Ok:
  assumes "reachable code scratch_len l entries = Ok m"
  shows "is_boundary m i \<longleftrightarrow> flows code l entries i" and "flows code l entries i \<Longrightarrow> decodes code l i"
    and "code_length m = length code"
proof -
  have w: "walk_inv code l entries None m" "pending_bits m = 0"
    using reachable_walk [where code = code and scratch_len = scratch_len and l = l and entries = entries] assms by auto
  note f = walk_inv_final [OF w]
  show "is_boundary m i \<longleftrightarrow> flows code l entries i" "flows code l entries i \<Longrightarrow> decodes code l i"
    by (rule f(1), rule f(2))
  show "code_length m = length code"
    using w(1) by (simp add: walk_inv_def)
qed

lemma visit_all_check:
  assumes "\<And>t. t \<in> set ts \<Longrightarrow> visit t = slift (Ok ())"
  shows "visit_all visit ts s = (Ok (), s)"
  using assms by (induction ts arbitrary: s) auto

lemma reachable_targets:
  assumes "reachable code scratch_len l entries = Ok m" and "is_boundary m at" and "instruction_length code at = Ok n"
  shows "fst (for_each_target code at n (\<lambda>target. slift (check_target m target)) ()) = Ok ()"
proof -
  note r = reachable_Ok [OF assms(1)]
  have fl: "flows code l entries at" and d: "decodes code l at"
    using assms(2) r by auto
  have t: "snd (target_list code at n) = Ok ()" "\<forall>t \<in> set (fst (target_list code at n)). 0 \<le> t \<and> t < int (length code)"
    using d assms(3) by (auto elim!: decodesE)
  have "check_target m x = Ok ()" if "x \<in> set (fst (target_list code at n))" for x
  proof -
    have "nat x \<in> set (successors code at)"
      using that assms(3) by (simp add: successors_def)
    then have "is_boundary m (nat x)"
      using r(1) flows.flow [OF fl d] by blast
    then show ?thesis
      using t(2) that by (auto simp: check_target_def bounded_def r(3))
  qed
  then show ?thesis
    unfolding for_each_target_list visiting_def using t(1) by (simp add: visit_all_check sbind_def)
qed

lemma reachable_verify_targets:
  assumes "reachable code scratch_len l entries = Ok m"
  shows "verify_targets code m = Ok ()"
proof -
  have "verify_targets_from code m at = Ok ()" for at
    using assms
  proof (induction code m at rule: verify_targets_from.induct)
    case (1 code m at)
    show ?case
    proof (cases "at < length code \<and> is_boundary m at")
      case True
      then obtain n where n: "instruction_length code at = Ok n"
        using reachable_Ok [OF 1(3)] by (metis decodesE)
      then show ?thesis
        using 1(2) [OF _ _ n] 1(3) reachable_targets [OF 1(3) _ n] True by (simp add: verify_targets_from.simps [of code m at])
    qed (use 1 in \<open>auto simp: verify_targets_from.simps [of code m at]\<close>)
  qed
  then show ?thesis by (simp add: verify_targets_def)
qed

section \<open>The operand sweep\<close>

text \<open>
  The sweep over the code checks every boundary that no earlier boundary's instruction covers.
\<close>

definition exposed :: "bytes \<Rightarrow> boundaries \<Rightarrow> nat \<Rightarrow> bool" where
  "exposed code m i \<longleftrightarrow> is_boundary m i
     \<and> (\<forall>j < i. is_boundary m j \<longrightarrow> (\<forall>n. instruction_length code j = Ok n \<longrightarrow> j + n \<le> i))"

lemma check_operands_exposed:
  assumes "check_operands_from code m constants frame_words at = Ok ()" and "at \<le> i" and "i < length code"
    and "is_boundary m i"
    and "\<forall>j < i. is_boundary m j \<longrightarrow> (\<forall>n. instruction_length code j = Ok n \<longrightarrow> j + n \<le> i)"
  shows "check_constant code constants i = Ok () \<and> verify_local_access code i frame_words = Ok ()"
  using assms
proof (induction code m constants frame_words at rule: check_operands_from.induct)
  case (1 code m constants frame_words at)
  have at: "at < length code" using 1 by simp
  note step = 1(3) [unfolded check_operands_from.simps [of code m constants frame_words at]]
  show ?case
  proof (cases "is_boundary m at")
    case True
    then obtain n where c: "check_constant code constants at = Ok ()" "verify_local_access code at frame_words = Ok ()"
      and n: "instruction_length code at = Ok n" "check_operands_from code m constants frame_words (at + n) = Ok ()"
      using step at by (auto simp: rbind_eq_Ok)
    show ?thesis
    proof (cases "i = at")
      case False
      then have "at + n \<le> i" using 1(4,7) True n(1) by (metis le_neq_implies_less)
      then show ?thesis
        using 1(2) [OF at _ c n(1,2)] True 1(5-7) by blast
    qed (use c in simp)
  next
    case False
    then have "at \<noteq> i" using 1(6) by blast
    then show ?thesis
      using 1(1) [OF at False] step at False 1(4-7) by simp
  qed
qed

section \<open>The linear decode\<close>

inductive follows :: "bytes \<Rightarrow> nat \<Rightarrow> nat \<Rightarrow> bool" for code where
  here: "follows code a a"
| there: "instruction_length code a = Ok n \<Longrightarrow> follows code (a + n) i \<Longrightarrow> follows code a i"

inductive_cases followsE: "follows code a i"

lemma follows_le: "follows code a i \<Longrightarrow> a \<le> i"
  by (induction rule: follows.induct) auto

lemma follows_disjoint:
  assumes "follows code a i" and "follows code a j" and "i < j" and "instruction_length code i = Ok n"
  shows "i + n \<le> j"
  using assms
proof (induction rule: follows.induct)
  case (here a)
  from here(1) show ?case
    by (cases rule: followsE) (use here follows_le in \<open>auto simp: follows_le\<close>)
next
  case (there a k i)
  have "a < i"
    using follows_le [OF there(2)] instruction_length_inside(1) [OF there(1)] by simp
  then have "follows code (a + k) j"
    using there(4) by (cases rule: followsE) (use there(1,5) in auto)
  then show ?case using there by blast
qed

lemma build_from_marks:
  assumes "build_from code l at m = Ok m'"
  shows "code_length m' = code_length m
    \<and> (\<forall>i. bit (marks m') i \<longleftrightarrow> bit (marks m) i \<or> i < length code \<and> follows code at i)
    \<and> (\<forall>i. i < length code \<and> follows code at i \<longrightarrow> allows l (code ! i) = Ok () \<and> (\<exists>n. instruction_length code i = Ok n))"
  using assms
proof (induction code l at m rule: build_from.induct)
  case (1 code l at m)
  show ?case
  proof (cases "at < length code")
    case True
    then obtain n where n: "allows l (code ! at) = Ok ()" "instruction_length code at = Ok n"
      "build_from code l (at + n) (snd (mark at m)) = Ok m'"
      using 1(2) by (auto simp: build_from.simps [of code l at] rbind_eq_Ok)
    have f: "follows code at i \<longleftrightarrow> i = at \<or> follows code (at + n) i" for i
      using n(2) by (auto intro: follows.intros elim: followsE)
    show ?thesis
      using 1(1) [OF True n(1,2,3)] n(1,2) True unfolding f by (auto simp: mark_def bit_set_bit_iff)
  qed (use 1(2) in \<open>auto simp: build_from.simps [of code l at] dest: follows_le\<close>)
qed

section \<open>Properties\<close>

text \<open>
  C14 (reachable_exact). The walk over the code terminates with exactly the offsets control can
  reach from the entries through branch, switch and fall-through successors, all of them decodable
  inside the method; it fails only for lack of scratch or because some reachable offset does not
  decode.
\<close>

theorem reachable_exact:
  "case reachable code scratch_len l entries of
     Ok m \<Rightarrow> scratch_for (length code) \<le> scratch_len \<and> {i. is_boundary m i} = {i. flows code l entries i}
       \<and> {i. flows code l entries i} \<subseteq> {i. decodes code l i}
   | Err _ \<Rightarrow> scratch_len < scratch_for (length code) \<or> (\<exists>i. flows code l entries i \<and> \<not> decodes code l i)"
proof (cases "reachable code scratch_len l entries")
  case (Ok m)
  then show ?thesis
    using reachable_walk [where code = code and scratch_len = scratch_len and l = l and entries = entries]
      reachable_Ok(1,2) [OF Ok] by auto
next
  case (Err e)
  then show ?thesis
    using reachable_walk [where code = code and scratch_len = scratch_len and l = l and entries = entries] by simp
qed

text \<open>
  C15 (verify_method_checks). A method that verifies has its entries and everything control reaches
  from them inside its code; every reachable instruction that does not start inside an earlier one
  names a constant pool entry that exists and locals inside the declared frame.
\<close>

theorem verify_method_checks:
  assumes "verify_method alloc handlers code region frame_words scratch_len l constants = Ok ()"
  shows "\<exists>entries m. method_entries alloc (fst region) (snd region) [0] handlers = Ok entries
    \<and> reachable code scratch_len l entries = Ok m
    \<and> (\<forall>i. flows code l entries i \<longrightarrow> decodes code l i)
    \<and> (\<forall>i w index. exposed code m i \<longrightarrow> constant_pool_index code i = Ok (Some (w, index)) \<longrightarrow> unat index < constants)
    \<and> (\<forall>i index width. exposed code m i \<longrightarrow> local_operand code i = Some (index, width) \<longrightarrow> index + width \<le> unat frame_words)"
proof -
  obtain entries m where e: "method_entries alloc (fst region) (snd region) [0] handlers = Ok entries"
    and m: "reachable code scratch_len l entries = Ok m"
    and c: "check_operands_from code m constants frame_words 0 = Ok ()"
    using assms by (auto simp: verify_method_def rbind_eq_Ok)
  have x: "check_constant code constants i = Ok ()" "verify_local_access code i frame_words = Ok ()" if "exposed code m i" for i
    using check_operands_exposed [OF c, of i] that reachable_Ok(3) [OF m] by (auto simp: exposed_def is_boundary_def)
  have "unat index < constants" if "exposed code m i" "constant_pool_index code i = Ok (Some (w, index))" for i w index
    using x(1) [OF that(1)] that(2) by (simp add: check_constant_def split: if_splits)
  moreover have "index + width \<le> unat frame_words" if "exposed code m i" "local_operand code i = Some (index, width)" for i index width
    using x(2) [OF that(1)] that(2) by (simp add: verify_local_access_def split: if_splits)
  ultimately show ?thesis
    using e m reachable_Ok(2) [OF m] by blast
qed

theorem verify_method_checks_witness:
  "\<exists>entries m. method_entries (\<lambda>_. True) (fst (0, 3 :: nat)) (snd (0 :: nat, 3)) [0] [2] = Ok entries
    \<and> reachable [16, 5, 120] 2 IMPLEMENTED entries = Ok m
    \<and> (\<forall>i. flows [16, 5, 120] IMPLEMENTED entries i \<longrightarrow> decodes [16, 5, 120] IMPLEMENTED i)
    \<and> (\<forall>i w index. exposed [16, 5, 120] m i \<longrightarrow> constant_pool_index [16, 5, 120] i = Ok (Some (w, index)) \<longrightarrow> unat index < 0)
    \<and> (\<forall>i index width. exposed [16, 5, 120] m i \<longrightarrow> local_operand [16, 5, 120] i = Some (index, width) \<longrightarrow> index + width \<le> unat (0 :: u16))"
  by (rule verify_method_checks) code_simp

text \<open>
  C37 (verify_targets_vacuous). After the reachability walk the target check cannot fail: every
  target has been queued and visited, so it is a boundary whatever it overlaps.
\<close>

theorem verify_targets_vacuous:
  assumes "reachable code scratch_len l entries = Ok m"
  shows "verify_targets code m = Ok ()"
  using assms by (rule reachable_verify_targets)

theorem verify_targets_vacuous_witness:
  "verify_targets [16, 120, 112, 255] \<lparr>marks = 7, pending_bits = 0, code_length = 4\<rparr> = Ok ()"
  by (rule verify_targets_vacuous [where scratch_len = 2 and l = IMPLEMENTED and entries = "[0]"]) code_simp

text \<open>
  C16 (linear_decode_partition). A linear decode that succeeds marks exactly the starts of the
  instructions met in order from the first byte, each allowed, and none of them lies inside
  another instruction.
\<close>

theorem linear_decode_partition:
  assumes "build code scratch_len l = Ok m"
  shows "(\<forall>i. is_boundary m i \<longleftrightarrow> i < length code \<and> follows code 0 i)
    \<and> (\<forall>i. is_boundary m i \<longrightarrow> allows l (code ! i) = Ok ())
    \<and> (\<forall>i j n. is_boundary m i \<and> is_boundary m j \<and> i < j \<and> instruction_length code i = Ok n \<longrightarrow> i + n \<le> j)"
proof -
  have "build_from code l 0 \<lparr>marks = 0, pending_bits = 0, code_length = length code\<rparr> = Ok m"
    using assms by (auto simp: build_def empty_map_def rbind_eq_Ok split: if_splits)
  from build_from_marks [OF this] have len: "code_length m = length code"
    and marks: "\<And>i. bit (marks m) i \<longleftrightarrow> i < length code \<and> follows code 0 i"
    and ok: "\<And>i. i < length code \<Longrightarrow> follows code 0 i \<Longrightarrow> allows l (code ! i) = Ok ()"
    by simp_all
  have m: "is_boundary m i \<longleftrightarrow> i < length code \<and> follows code 0 i" for i
    by (auto simp: is_boundary_def len marks)
  show ?thesis
    unfolding m using ok follows_disjoint by auto
qed

theorem linear_decode_partition_witness:
  "follows [16, 5, 120] 0 2 \<and> \<not> follows [16, 5, 120] 0 1"
proof -
  have "build [16, 5, 120] 2 IMPLEMENTED = Ok \<lparr>marks = 5, pending_bits = 0, code_length = 3\<rparr>"
    by code_simp
  note r = linear_decode_partition [OF this, THEN conjunct1, rule_format]
  show ?thesis
    using r [of 1] r [of 2] by (simp add: is_boundary_def bit_numeral_rec(2) bit_0)
qed



end
