(* ===== verification/Credential_Store.thy ===== *)
theory Credential_Store
  imports Cbor
begin

text \<open>
  The credential store (\<open>src/crates/microcard-core/src/credential_store.rs\<close>): a sorted vector of PIN
  and PUK verifiers with their retry counters, and its CBOR state.

  An \<open>i32\<close> slot is an \<open>int\<close>; retry counters are the numbers of their \<open>u8\<close>. The hash and the entropy
  source belong to the platform: they are the two fields of a \<open>provider\<close>, acting on a state of its
  own. \<open>alloc\<close> answers whether a vector can grow; a vector with spare capacity is one whose answer
  is yes. Wiping secrets on drop has no observable result here.
\<close>

section \<open>Entries\<close>

definition MIN_PIN_BYTES :: nat where "MIN_PIN_BYTES = 4"
definition MIN_PUK_BYTES :: nat where "MIN_PUK_BYTES = 6"
definition MAX_SECRET_BYTES :: nat where "MAX_SECRET_BYTES = 32"
definition MAX_RETRIES :: nat where "MAX_RETRIES = 15"
definition MAX_SLOTS :: nat where "MAX_SLOTS = 8"

definition DIGEST_CONTEXT :: bytes where
  "DIGEST_CONTEXT = map of_char ''MicroCard credential v1''"

record cred_entry =
  cslot :: int
  cowner :: bytes
  pin_salt :: bytes
  pin_digest :: bytes
  puk_salt :: bytes
  puk_digest :: bytes
  pin_retries :: nat
  pin_max_retries :: nat
  puk_retries :: nat
  puk_max_retries :: nat

type_synonym entries = "(int \<times> cred_entry) list"

text \<open>
  \<open>binary_search_by_key\<close> on a sorted vector: whether the slot is there, and the index where it is or
  where it would be inserted.
\<close>

definition position :: "entries \<Rightarrow> int \<Rightarrow> bool \<times> nat" where
  "position es slot =
     (let index = length (takeWhile (\<lambda>(candidate, _). candidate < slot) es) in
      (index < length es \<and> fst (es ! index) = slot, index))"

definition reserve_entry :: "alloc \<Rightarrow> entries \<Rightarrow> unit res" where
  "reserve_entry alloc es =
     (if length es \<ge> MAX_SLOTS then Err Quota else try_reserve alloc (length es + 1))"

definition entries_insert :: "alloc \<Rightarrow> int \<Rightarrow> cred_entry \<Rightarrow> entries \<Rightarrow> entries res" where
  "entries_insert alloc slot entry es =
     (if slot < 0 then Err Bounds
      else case position es slot of
        (True, index) \<Rightarrow> Ok (es[index := (fst (es ! index), entry)])
      | (False, index) \<Rightarrow>
          if length es \<ge> MAX_SLOTS then Err Quota
          else rbind (reserve_entry alloc es) (\<lambda>_. Ok (take index es @ (slot, entry) # drop index es)))"

definition entries_get :: "entries \<Rightarrow> int \<Rightarrow> cred_entry option" where
  "entries_get es slot = (case position es slot of (True, index) \<Rightarrow> Some (snd (es ! index)) | _ \<Rightarrow> None)"

text \<open>A write through \<open>get_mut\<close>.\<close>

definition entries_set :: "int \<Rightarrow> cred_entry \<Rightarrow> entries \<Rightarrow> entries" where
  "entries_set slot entry es =
     (case position es slot of (True, index) \<Rightarrow> es[index := (fst (es ! index), entry)] | _ \<Rightarrow> es)"

definition contains_key :: "entries \<Rightarrow> int \<Rightarrow> bool" where
  "contains_key es slot = fst (position es slot)"

definition entries_clone :: "alloc \<Rightarrow> entries \<Rightarrow> entries res" where
  "entries_clone alloc es = (if length es = 0 then Ok es else rbind (try_reserve alloc (length es)) (\<lambda>_. Ok es))"

section \<open>Checks and digests\<close>

definition valid_retries :: "nat \<Rightarrow> bool" where
  "valid_retries v \<longleftrightarrow> 1 \<le> v \<and> v \<le> MAX_RETRIES"

definition retry_count :: "int \<Rightarrow> nat res" where
  "retry_count v =
     (if v < 0 \<or> v > 255 then Err Bounds else if \<not> valid_retries (nat v) then Err Bounds else Ok (nat v))"

definition validate_secret :: "bytes \<Rightarrow> nat \<Rightarrow> unit res" where
  "validate_secret secret minimum =
     (if \<not> (minimum \<le> length secret \<and> length secret \<le> MAX_SECRET_BYTES) then Err Bounds else Ok ())"

definition validate :: "entries \<Rightarrow> bytes \<Rightarrow> unit res" where
  "validate es owner =
     (if length es > MAX_SLOTS then Err Storage
      else if list_ex (\<lambda>(slot, e). slot < 0 \<or> slot \<noteq> cslot e \<or> cowner e \<noteq> owner
          \<or> \<not> valid_retries (pin_max_retries e) \<or> \<not> valid_retries (puk_max_retries e)
          \<or> pin_retries e > pin_max_retries e \<or> puk_retries e > puk_max_retries e) es then Err Storage
      else Ok ())"

record 'p provider =
  prov_sha256 :: "bytes \<Rightarrow> ('p, error, bytes) act"
  prov_entropy :: "nat \<Rightarrow> ('p, error, bytes) act"

definition digest_input :: "bytes \<Rightarrow> int \<Rightarrow> byte \<Rightarrow> bytes \<Rightarrow> bytes \<Rightarrow> bytes" where
  "digest_input owner slot purpose salt secret =
     concat [DIGEST_CONTEXT, owner, be_bytes 4 (nat (slot mod 2 ^ 32)), [purpose], salt, secret]"

definition credential_digest ::
    "'p provider \<Rightarrow> bytes \<Rightarrow> int \<Rightarrow> byte \<Rightarrow> bytes \<Rightarrow> bytes \<Rightarrow> ('p, error, bytes) act" where
  "credential_digest P owner slot purpose salt secret = prov_sha256 P (digest_input owner slot purpose salt secret)"

section \<open>Operations\<close>

text \<open>An operation acts on the store and the provider's state.\<close>

type_synonym ('p, 'a) cact = "(entries \<times> 'p, error, 'a) act"

definition with_provider :: "('p, error, 'a) act \<Rightarrow> ('p, 'a) cact" where
  "with_provider f = (\<lambda>(es, p). case f p of (r, p') \<Rightarrow> (r, (es, p')))"

definition entry_mut :: "bytes \<Rightarrow> int \<Rightarrow> ('p, cred_entry) cact" where
  "entry_mut owner slot = sget (\<lambda>(es, _).
     rbind (ok_or (entries_get es slot) Missing) (\<lambda>e. if cowner e \<noteq> owner then Err Unauthorized else Ok e))"

definition write_entry :: "int \<Rightarrow> cred_entry \<Rightarrow> ('p, unit) cact" where
  "write_entry slot e = smodify (\<lambda>(es, p). (entries_set slot e es, p))"

definition create_entry :: "bytes \<Rightarrow> int \<Rightarrow> bytes \<Rightarrow> bytes \<Rightarrow> bytes \<Rightarrow> nat \<Rightarrow> nat \<Rightarrow> cred_entry" where
  "create_entry owner slot salts pin_d puk_d pin_max puk_max =
     \<lparr>cslot = slot, cowner = owner, pin_salt = take 16 salts, pin_digest = pin_d, puk_salt = drop 16 salts,
      puk_digest = puk_d, pin_retries = pin_max, pin_max_retries = pin_max, puk_retries = puk_max,
      puk_max_retries = puk_max\<rparr>"

definition store_insert :: "alloc \<Rightarrow> int \<Rightarrow> cred_entry \<Rightarrow> ('p, unit) cact" where
  "store_insert alloc slot entry = (\<lambda>(es, p).
     case entries_insert alloc slot entry es of
       Err e \<Rightarrow> (Err e, (es, p))
     | Ok es' \<Rightarrow> (Ok (), (es', p)))"

definition create ::
    "'p provider \<Rightarrow> alloc \<Rightarrow> bytes \<Rightarrow> int \<Rightarrow> bytes \<Rightarrow> bytes \<Rightarrow> int \<times> int \<Rightarrow> ('p, unit) cact" where
  "create P alloc owner slot pin puk retries =
     sbind (slift (validate_secret pin MIN_PIN_BYTES)) (\<lambda>_.
     sbind (slift (validate_secret puk MIN_PUK_BYTES)) (\<lambda>_.
     sbind (slift (retry_count (fst retries))) (\<lambda>pin_max.
     sbind (slift (retry_count (snd retries))) (\<lambda>puk_max.
     sbind (sget (\<lambda>(es, _).
       if slot < 0 \<or> contains_key es slot then Err (if slot < 0 then Bounds else Busy)
       else if length es \<ge> MAX_SLOTS then Err Quota
       else reserve_entry alloc es)) (\<lambda>_.
     sbind (with_provider (prov_entropy P 32)) (\<lambda>salts.
     sbind (with_provider (credential_digest P owner slot 1 (take 16 salts) pin)) (\<lambda>pin_d.
     sbind (with_provider (credential_digest P owner slot 2 (drop 16 salts) puk)) (\<lambda>puk_d.
     store_insert alloc slot (create_entry owner slot salts pin_d puk_d pin_max puk_max)))))))))"

definition verify_pin :: "'p provider \<Rightarrow> bytes \<Rightarrow> int \<Rightarrow> bytes \<Rightarrow> ('p, bool \<times> bool) cact" where
  "verify_pin P owner slot candidate =
     sbind (slift (validate_secret candidate MIN_PIN_BYTES)) (\<lambda>_.
     sbind (entry_mut owner slot) (\<lambda>e.
     if pin_retries e = 0 then sret (False, False)
     else
       sbind (with_provider (credential_digest P owner slot 1 (pin_salt e) candidate)) (\<lambda>d.
       if d = pin_digest e then
         sbind (write_entry slot (e\<lparr>pin_retries := pin_max_retries e\<rparr>)) (\<lambda>_.
         sret (True, pin_retries e \<noteq> pin_max_retries e))
       else
         sbind (write_entry slot (e\<lparr>pin_retries := pin_retries e - 1\<rparr>)) (\<lambda>_. sret (False, True)))))"

definition change_pin :: "'p provider \<Rightarrow> bytes \<Rightarrow> int \<Rightarrow> bytes \<Rightarrow> ('p, bool) cact" where
  "change_pin P owner slot new_pin =
     sbind (slift (validate_secret new_pin MIN_PIN_BYTES)) (\<lambda>_.
     sbind (with_provider (prov_entropy P 16)) (\<lambda>salt.
     sbind (with_provider (credential_digest P owner slot 1 salt new_pin)) (\<lambda>d.
     sbind (entry_mut owner slot) (\<lambda>e.
     sbind (write_entry slot (e\<lparr>pin_salt := salt, pin_digest := d, pin_retries := pin_max_retries e\<rparr>)) (\<lambda>_.
     sret True)))))"

definition unblock :: "'p provider \<Rightarrow> bytes \<Rightarrow> int \<Rightarrow> bytes \<Rightarrow> bytes \<Rightarrow> ('p, bool \<times> bool) cact" where
  "unblock P owner slot puk new_pin =
     sbind (slift (validate_secret puk MIN_PUK_BYTES)) (\<lambda>_.
     sbind (slift (validate_secret new_pin MIN_PIN_BYTES)) (\<lambda>_.
     sbind (entry_mut owner slot) (\<lambda>e.
     if puk_retries e = 0 then sret (False, False)
     else
       sbind (with_provider (credential_digest P owner slot 2 (puk_salt e) puk)) (\<lambda>candidate.
       if candidate \<noteq> puk_digest e then
         sbind (write_entry slot (e\<lparr>puk_retries := puk_retries e - 1\<rparr>)) (\<lambda>_. sret (False, True))
       else
         sbind (with_provider (prov_entropy P 16)) (\<lambda>salt.
         sbind (with_provider (credential_digest P owner slot 1 salt new_pin)) (\<lambda>d.
         sbind (entry_mut owner slot) (\<lambda>e.
         sbind (write_entry slot (e\<lparr>pin_salt := salt, pin_digest := d, pin_retries := pin_max_retries e,
             puk_retries := puk_max_retries e\<rparr>)) (\<lambda>_.
         sret (True, True)))))))))"

definition retries :: "entries \<Rightarrow> bytes \<Rightarrow> int \<Rightarrow> (nat \<times> nat) res" where
  "retries es owner slot =
     rbind (ok_or (entries_get es slot) Missing) (\<lambda>e.
     if cowner e \<noteq> owner then Err Unauthorized else Ok (pin_retries e, puk_retries e))"

definition lower_entry :: "nat \<Rightarrow> nat \<Rightarrow> cred_entry \<Rightarrow> cred_entry" where
  "lower_entry pin puk e =
     (let e1 = (if pin_retries e > pin then e\<lparr>pin_retries := pin\<rparr> else e) in
      if puk_retries e1 > puk then e1\<lparr>puk_retries := puk\<rparr> else e1)"

fun apply_retry_floor :: "bytes \<Rightarrow> (int \<times> nat \<times> nat) list \<Rightarrow> bool \<Rightarrow> (entries, error, bool) act" where
  "apply_retry_floor owner [] changed es = (Ok changed, es)"
| "apply_retry_floor owner ((slot, pin, puk) # floors) changed es =
     (case entries_get es slot of
        None \<Rightarrow> apply_retry_floor owner floors changed es
      | Some e \<Rightarrow>
          if cowner e \<noteq> owner \<or> pin > pin_max_retries e \<or> puk > puk_max_retries e then (Err Storage, es)
          else apply_retry_floor owner floors (changed \<or> pin_retries e > pin \<or> puk_retries e > puk)
                 (entries_set slot (lower_entry pin puk e) es))"

section \<open>State\<close>

definition encode_entry :: "alloc \<Rightarrow> int \<times> cred_entry \<Rightarrow> unit enc" where
  "encode_entry alloc x = (case x of (slot, e) \<Rightarrow>
     if slot \<noteq> cslot e then sfail Storage
     else put_items alloc [Array 10, Unsigned (nat (slot mod 2 ^ 64)), Bytes (cowner e),
       Bytes (pin_salt e), Bytes (pin_digest e), Bytes (puk_salt e), Bytes (puk_digest e),
       Unsigned (pin_retries e), Unsigned (pin_max_retries e), Unsigned (puk_retries e), Unsigned (puk_max_retries e)])"

fun encode_entries :: "alloc \<Rightarrow> entries \<Rightarrow> unit enc" where
  "encode_entries alloc [] = sret ()"
| "encode_entries alloc (x # xs) = sbind (encode_entry alloc x) (\<lambda>_. encode_entries alloc xs)"

definition encode_state :: "alloc \<Rightarrow> entries \<Rightarrow> unit enc" where
  "encode_state alloc es = sbind (enc_array alloc (length es)) (\<lambda>_. encode_entries alloc es)"

text \<open>\<open>d.bytes(n)?.get(..n).ok_or(Format)\<close>, and a \<open>u8\<close> read with \<open>d.number()\<close>.\<close>

definition dec_exact :: "nat \<Rightarrow> bytes dec" where
  "dec_exact n = sbind (dec_bytes n) (\<lambda>b. slift (ok_or (get_range b 0 n) Format))"

definition i32_max :: nat where "i32_max = 2 ^ 31 - 1"

definition decode_entry :: "int option \<Rightarrow> (int \<times> cred_entry) dec" where
  "decode_entry previous =
     sbind (dec_record 10) (\<lambda>_.
     sbind (dec_number i32_max) (\<lambda>slot.
     if (case previous of None \<Rightarrow> False | Some p \<Rightarrow> p \<ge> int slot) then sfail Format
     else
       sbind (dec_exact 16) (\<lambda>owner.
       sbind (dec_exact 16) (\<lambda>ps.
       sbind (dec_exact 32) (\<lambda>pd.
       sbind (dec_exact 16) (\<lambda>us.
       sbind (dec_exact 32) (\<lambda>ud.
       sbind (dec_number 255) (\<lambda>pr.
       sbind (dec_number 255) (\<lambda>pm.
       sbind (dec_number 255) (\<lambda>ur.
       sbind (dec_number 255) (\<lambda>um.
       sret (int slot, \<lparr>cslot = int slot, cowner = owner, pin_salt = ps, pin_digest = pd, puk_salt = us,
         puk_digest = ud, pin_retries = pr, pin_max_retries = pm, puk_retries = ur, puk_max_retries = um\<rparr>))))))))))))"

fun decode_entries :: "nat \<Rightarrow> int option \<Rightarrow> entries \<Rightarrow> entries dec" where
  "decode_entries 0 previous es = sret es"
| "decode_entries (Suc count) previous es =
     sbind (decode_entry previous) (\<lambda>x. decode_entries count (Some (fst x)) (es @ [x]))"

definition decode_state :: "alloc \<Rightarrow> bytes \<Rightarrow> entries dec" where
  "decode_state alloc owner =
     sbind (dec_array MAX_SLOTS) (\<lambda>count.
     sbind (slift (try_reserve alloc count)) (\<lambda>_.
     sbind (decode_entries count None []) (\<lambda>es.
     sbind (slift (validate es owner)) (\<lambda>_. sret es))))"

section \<open>The vector as a table of slots\<close>

text \<open>
  What the operations rely on: an update of a present slot changes that slot alone and keeps the
  table well formed. A quantity of the entry at a slot then moves only with updates of that slot.
\<close>

locale slot_table =
  fixes lookup :: "'s \<Rightarrow> int \<Rightarrow> 'e option"
    and update :: "int \<Rightarrow> 'e \<Rightarrow> 's \<Rightarrow> 's"
    and wf :: "'s \<Rightarrow> bool"
  assumes update_wf: "wf s \<Longrightarrow> wf (update k e s)"
    and lookup_update: "wf s \<Longrightarrow> lookup s k \<noteq> None \<Longrightarrow> lookup (update k e s) j = (if j = k then Some e else lookup s j)"
begin

definition level :: "('e \<Rightarrow> nat) \<Rightarrow> int \<Rightarrow> 's \<Rightarrow> nat" where
  "level f j s = (case lookup s j of None \<Rightarrow> 0 | Some e \<Rightarrow> f e)"

lemma level_other: "wf s \<Longrightarrow> lookup s k \<noteq> None \<Longrightarrow> j \<noteq> k \<Longrightarrow> level f j (update k e s) = level f j s"
  by (simp add: level_def lookup_update)

lemma level_same: "wf s \<Longrightarrow> lookup s k = Some e \<Longrightarrow> level f k (update k e' s) = f e'"
  by (simp add: level_def lookup_update)

lemma level_le:
  assumes "wf s" and "lookup s k = Some e" and "f e' \<le> f e"
  shows "level f j (update k e' s) \<le> level f j s"
  using assms by (simp add: level_def lookup_update)

lemma all_update:
  assumes "wf s" and "lookup s k = Some e" and "\<And>j e. lookup s j = Some e \<Longrightarrow> Q j e" and "Q k e'"
    and "lookup (update k e' s) j = Some x"
  shows "Q j x"
  using assms by (auto simp: lookup_update split: if_splits)

end

definition sorted_slots :: "entries \<Rightarrow> bool" where
  "sorted_slots es \<longleftrightarrow> sorted_wrt (<) (map fst es)"

lemma position_cases:
  assumes "sorted_slots es"
  obtains (found) l e r where "es = l @ (slot, e) # r" "\<forall>x \<in> set l. fst x < slot" "\<forall>x \<in> set r. slot < fst x"
      "position es slot = (True, length l)"
  | (missing) l r where "es = l @ r" "\<forall>x \<in> set l. fst x < slot" "\<forall>x \<in> set r. slot < fst x"
      "position es slot = (False, length l)"
proof -
  let ?P = "\<lambda>(candidate, _). candidate < slot" and ?l = "takeWhile (\<lambda>(candidate, _). candidate < slot) es"
  let ?r = "dropWhile (\<lambda>(candidate, _). candidate < slot) es"
  have es: "es = ?l @ ?r" by simp
  have l: "\<forall>x \<in> set ?l. fst x < slot" by (auto dest: set_takeWhileD)
  have sorted: "sorted_slots (?l @ ?r)"
    using assms by simp
  show thesis
  proof (cases ?r)
    case Nil
    then have t: "?l = es" using es by (metis append_Nil2)
    show ?thesis
    proof (rule missing [of es "[]"])
      show "position es slot = (False, length es)"
        unfolding position_def t by simp
    qed (use l [unfolded t] in simp_all)
  next
    case (Cons x r)
    have x: "\<not> fst x < slot"
      using hd_dropWhile [of ?P es] Cons by (simp add: case_prod_beta)
    have r: "\<forall>y \<in> set r. fst x < fst y"
      using sorted unfolding Cons sorted_slots_def by (simp add: sorted_wrt_append)
    have nth: "es ! length ?l = x"
      using es Cons by (metis nth_append_length)
    have len: "length ?l < length es"
      using es Cons by (metis length_append less_add_same_cancel1 length_Cons zero_less_Suc)
    show ?thesis
    proof (cases "fst x = slot")
      case True
      then show ?thesis
        using found [of ?l "snd x" r] es Cons l r nth len by (auto simp: position_def Let_def)
    next
      case False
      have "\<forall>y \<in> set (x # r). slot < fst y"
        using x r False by force
      then show ?thesis
        using missing [of ?l "x # r"] es Cons l nth False by (simp add: position_def)
    qed
  qed
qed

lemma entries_get_simps:
  assumes "\<forall>x \<in> set l. fst x < slot"
  shows "entries_get (l @ (slot, e) # r) slot = Some e"
    and "entries_set slot e' (l @ (slot, e) # r) = l @ (slot, e') # r"
proof -
  have "takeWhile (\<lambda>(candidate, _). candidate < slot) (l @ (slot, e) # r) = l"
    using assms by (subst takeWhile_append2) auto
  then show "entries_get (l @ (slot, e) # r) slot = Some e"
    "entries_set slot e' (l @ (slot, e) # r) = l @ (slot, e') # r"
    by (simp_all add: entries_get_def entries_set_def position_def)
qed

lemma entries_get_map_of:
  assumes "sorted_slots es"
  shows "entries_get es slot = map_of es slot"
proof (cases rule: position_cases [OF assms, where slot = slot])
  case (1 l e r)
  then have "map_of l slot = None" by (auto simp: map_of_eq_None_iff)
  then show ?thesis
    using entries_get_simps(1) [OF 1(2), of e r] 1(1) by (simp add: map_add_def)
next
  case (2 l r)
  then have "slot \<notin> fst ` set es" by auto
  then have "map_of es slot = None" by (simp add: map_of_eq_None_iff)
  then show ?thesis
    using 2(4) by (simp add: entries_get_def)
qed

lemma entries_set_keys: "map fst (entries_set slot e es) = map fst es"
  by (auto simp: entries_set_def position_def Let_def map_update split: prod.splits bool.splits) (metis length_map list_update_id nth_map)

lemma entries_set_get:
  assumes "sorted_slots es" and "entries_get es k \<noteq> None"
  shows "entries_get (entries_set k e es) j = (if j = k then Some e else entries_get es j)"
proof (cases rule: position_cases [OF assms(1), where slot = k])
  case (1 l e0 r)
  have s: "entries_set k e es = l @ (k, e) # r"
    using entries_get_simps(2) [OF 1(2)] 1(1) by simp
  have "sorted_slots (l @ (k, e) # r)"
    using assms(1) unfolding s [symmetric] by (simp add: sorted_slots_def entries_set_keys)
  moreover have "map_of l k = None"
    using 1(2) by (auto simp: map_of_eq_None_iff)
  ultimately have "entries_get (l @ (k, e) # r) j = (if j = k then Some e else map_of (l @ (k, e0) # r) j)"
    by (auto simp: entries_get_map_of map_add_def split: option.splits)
  then show ?thesis
    using s 1(1) entries_get_map_of [OF assms(1)] by simp
next
  case (2 l r)
  then show ?thesis using assms(2) by (simp add: entries_get_def)
qed

interpretation table: slot_table entries_get entries_set sorted_slots
  by unfold_locales (simp_all add: sorted_slots_def entries_set_keys entries_set_get)

lemma entries_insert_new:
  assumes "sorted_slots es" and "\<not> contains_key es slot" and "entries_insert alloc slot e es = Ok es'"
  shows "sorted_slots es'" and "entries_get es' j = (if j = slot then Some e else entries_get es j)"
    and "set es' = insert (slot, e) (set es)" and "length es' \<le> MAX_SLOTS" and "0 \<le> slot"
proof -
  obtain l r where p: "es = l @ r" "\<forall>x \<in> set l. fst x < slot" "\<forall>x \<in> set r. slot < fst x"
    "position es slot = (False, length l)"
    using assms(2) by (cases rule: position_cases [OF assms(1), where slot = slot]) (auto simp: contains_key_def)
  have i: "es' = l @ (slot, e) # r" "length es < MAX_SLOTS" "0 \<le> slot"
    using assms(3) p(1,4) by (auto simp: entries_insert_def rbind_eq_Ok split: if_splits)
  show "0 \<le> slot" "set es' = insert (slot, e) (set es)" "length es' \<le> MAX_SLOTS"
    using i p(1) by auto
  show s: "sorted_slots es'"
    using assms(1) p(1-3) i(1) by (auto simp: sorted_slots_def sorted_wrt_append)
  show "entries_get es' j = (if j = slot then Some e else entries_get es j)"
  proof -
    have "map_of l slot = None"
      using p(2) by (auto simp: map_of_eq_None_iff)
    then have "map_of es' j = (if j = slot then Some e else map_of es j)"
      unfolding i(1) p(1) by (auto simp: map_add_def split: option.splits)
    then show ?thesis
      by (simp add: entries_get_map_of s assms(1))
  qed
qed

section \<open>The invariant\<close>

definition entry_ok :: "bytes \<Rightarrow> int \<Rightarrow> cred_entry \<Rightarrow> bool" where
  "entry_ok owner slot e \<longleftrightarrow> 0 \<le> slot \<and> slot = cslot e \<and> cowner e = owner
     \<and> valid_retries (pin_max_retries e) \<and> valid_retries (puk_max_retries e)
     \<and> pin_retries e \<le> pin_max_retries e \<and> puk_retries e \<le> puk_max_retries e"

definition store_ok :: "bytes \<Rightarrow> entries \<Rightarrow> bool" where
  "store_ok owner es \<longleftrightarrow> sorted_slots es \<and> length es \<le> MAX_SLOTS \<and> (\<forall>(slot, e) \<in> set es. entry_ok owner slot e)"

lemma validate_iff: "validate es owner = Ok () \<longleftrightarrow> length es \<le> MAX_SLOTS \<and> (\<forall>(slot, e) \<in> set es. entry_ok owner slot e)"
proof -
  have "(\<lambda>(slot, e). slot < 0 \<or> slot \<noteq> cslot e \<or> cowner e \<noteq> owner
      \<or> \<not> valid_retries (pin_max_retries e) \<or> \<not> valid_retries (puk_max_retries e)
      \<or> pin_retries e > pin_max_retries e \<or> puk_retries e > puk_max_retries e) = (\<lambda>(slot, e). \<not> entry_ok owner slot e)"
    by (auto simp: fun_eq_iff entry_ok_def)
  then show ?thesis
    unfolding validate_def by (auto simp: list_ex_iff)
qed

lemma store_ok_get: "store_ok owner es \<Longrightarrow> entries_get es k = Some e \<Longrightarrow> entry_ok owner k e"
  by (auto simp: store_ok_def entries_get_map_of dest!: map_of_SomeD)

lemma store_ok_set:
  assumes "store_ok owner es" and "entries_get es k = Some e" and "entry_ok owner k e'"
  shows "store_ok owner (entries_set k e' es)"
proof -
  have s: "sorted_slots es" "sorted_slots (entries_set k e' es)"
    using assms(1) table.update_wf by (auto simp: store_ok_def)
  have "entry_ok owner j x" if "(j, x) \<in> set (entries_set k e' es)" for j x
  proof -
    have "distinct (map fst (entries_set k e' es))"
      using s(2) unfolding sorted_slots_def by (simp add: strict_sorted_iff)
    then have "entries_get (entries_set k e' es) j = Some x"
      using that s(2) by (simp add: entries_get_map_of)
    then show ?thesis
      using table.all_update [OF s(1) assms(2), where Q = "entry_ok owner"] store_ok_get [OF assms(1)] assms(3) by blast
  qed
  moreover have "length (entries_set k e' es) = length es"
    using entries_set_keys [of k e' es] by (metis length_map)
  ultimately show ?thesis
    using assms(1) s(2) by (auto simp: store_ok_def)
qed

text \<open>
  Every operation changes the store at most at its own slot. \<open>moves\<close> says which entries may be there
  afterwards, given the result; the store is unchanged when the operation fails.
\<close>

lemma lower_entry_simps [simp]:
  "pin_retries (lower_entry pin puk e) = min pin (pin_retries e)"
  "puk_retries (lower_entry pin puk e) = min puk (puk_retries e)"
  "cslot (lower_entry pin puk e) = cslot e" "cowner (lower_entry pin puk e) = cowner e"
  "pin_max_retries (lower_entry pin puk e) = pin_max_retries e" "puk_max_retries (lower_entry pin puk e) = puk_max_retries e"
  by (simp_all add: lower_entry_def min_def)

lemma with_provider_eq: "with_provider f (es, p) = (r, st) \<longleftrightarrow> (\<exists>p'. f p = (r, p') \<and> st = (es, p'))"
  by (auto simp: with_provider_def split: prod.splits)

lemma entry_mut_eq: "entry_mut owner slot (es, p) = (r, st) \<longleftrightarrow> st = (es, p)
    \<and> (case entries_get es slot of None \<Rightarrow> r = Err Missing
       | Some e \<Rightarrow> if cowner e \<noteq> owner then r = Err Unauthorized else r = Ok e)"
  by (auto simp: entry_mut_def sget_def rbind_def ok_or_def split: option.splits)

lemma write_entry_eq: "write_entry slot e (es, p) = (r, st) \<longleftrightarrow> r = Ok () \<and> st = (entries_set slot e es, p)"
  by (auto simp: write_entry_def smodify_def)

lemma store_insert_eq: "store_insert alloc slot e (es, p) = (r, st) \<longleftrightarrow>
    (\<exists>c. entries_insert alloc slot e es = Err c \<and> r = Err c \<and> st = (es, p))
    \<or> (\<exists>es'. entries_insert alloc slot e es = Ok es' \<and> r = Ok () \<and> st = (es', p))"
  by (auto simp: store_insert_def split: result.splits)

lemmas cact_simps = store_insert_eq with_provider_eq entry_mut_eq write_entry_eq sbind_eq slift_def sret_def

lemma verify_pin_moves:
  assumes "verify_pin P owner slot candidate (es, p) = (r, es', p')"
  shows "es' = es \<and> (\<forall>b. r \<noteq> Ok (b, True)) \<or> (\<exists>e. entries_get es slot = Some e \<and> cowner e = owner \<and> 0 < pin_retries e
     \<and> (r = Ok (True, pin_retries e \<noteq> pin_max_retries e) \<and> es' = entries_set slot (e\<lparr>pin_retries := pin_max_retries e\<rparr>) es
        \<or> r = Ok (False, True) \<and> es' = entries_set slot (e\<lparr>pin_retries := pin_retries e - 1\<rparr>) es))"
  using assms unfolding verify_pin_def
  by (auto simp: cact_simps split: if_splits option.splits result.splits)

lemma change_pin_moves:
  assumes "change_pin P owner slot new_pin (es, p) = (r, es', p')"
  shows "es' = es \<and> r \<noteq> Ok True \<or> (\<exists>e salt d. r = Ok True \<and> entries_get es slot = Some e \<and> cowner e = owner
     \<and> es' = entries_set slot (e\<lparr>pin_salt := salt, pin_digest := d, pin_retries := pin_max_retries e\<rparr>) es)"
  using assms unfolding change_pin_def
  by (auto simp: cact_simps split: if_splits option.splits result.splits)

lemma unblock_moves:
  assumes "unblock P owner slot puk new_pin (es, p) = (r, es', p')"
  shows "es' = es \<and> (\<forall>b. r \<noteq> Ok (b, True)) \<or> (\<exists>e. entries_get es slot = Some e \<and> cowner e = owner \<and> 0 < puk_retries e
     \<and> (r = Ok (False, True) \<and> es' = entries_set slot (e\<lparr>puk_retries := puk_retries e - 1\<rparr>) es
        \<or> (\<exists>salt d. r = Ok (True, True) \<and> es' = entries_set slot (e\<lparr>pin_salt := salt, pin_digest := d,
             pin_retries := pin_max_retries e, puk_retries := puk_max_retries e\<rparr>) es)))"
  using assms unfolding unblock_def
  by (auto simp: cact_simps split: if_splits option.splits result.splits)

lemma create_moves:
  assumes "create P alloc owner slot pin puk ret (es, p) = (r, es', p')" and "sorted_slots es"
  shows "es' = es \<and> r \<noteq> Ok () \<or> r = Ok () \<and> \<not> contains_key es slot
     \<and> (\<exists>e. entries_insert alloc slot e es = Ok es' \<and> (0 \<le> slot \<longrightarrow> entry_ok owner slot e))"
proof -
  have ok: "entry_ok owner slot (create_entry owner slot salts pd ud a b)"
    if "retry_count x = Ok a" "retry_count y = Ok b" "0 \<le> slot" for salts pd ud a b x y
    using that by (auto simp: entry_ok_def create_entry_def retry_count_def split: if_splits)
  show ?thesis
    using assms(1) unfolding create_def
    by (auto simp: cact_simps sget_def dest: ok split: if_splits result.splits prod.splits)
qed

lemma floor_moves:
  assumes "apply_retry_floor owner floors changed es = (r, es')" and "store_ok owner es"
  shows "store_ok owner es' \<and> (\<forall>j. table.level pin_retries j es' \<le> table.level pin_retries j es)
     \<and> (\<forall>j. table.level puk_retries j es' \<le> table.level puk_retries j es)
     \<and> (\<forall>j. entries_get es' j = None \<longleftrightarrow> entries_get es j = None)"
  using assms
proof (induction owner floors changed es rule: apply_retry_floor.induct)
  case (2 owner slot pin puk floors changed es)
  show ?case
  proof (cases "entries_get es slot")
    case (Some e)
    let ?es = "entries_set slot (lower_entry pin puk e) es"
    have sorted: "sorted_slots es" using 2(4) by (simp add: store_ok_def)
    show ?thesis
    proof (cases "cowner e \<noteq> owner \<or> pin > pin_max_retries e \<or> puk > puk_max_retries e")
      case False
      have "entry_ok owner slot (lower_entry pin puk e)"
        using store_ok_get [OF 2(4) Some] by (auto simp: entry_ok_def)
      then have "store_ok owner ?es"
        by (rule store_ok_set [OF 2(4) Some])
      then have rest: "store_ok owner es' \<and> (\<forall>j. table.level pin_retries j es' \<le> table.level pin_retries j ?es)
          \<and> (\<forall>j. table.level puk_retries j es' \<le> table.level puk_retries j ?es)
          \<and> (\<forall>j. entries_get es' j = None \<longleftrightarrow> entries_get ?es j = None)"
        using 2(2) [OF Some False] 2(3) Some False by simp
      moreover have "table.level pin_retries j ?es \<le> table.level pin_retries j es"
        "table.level puk_retries j ?es \<le> table.level puk_retries j es" for j
        by (rule table.level_le [OF sorted Some], simp)+
      ultimately show ?thesis
        using Some by (auto simp: entries_set_get [OF sorted] intro: order_trans)
    qed (use 2(3,4) Some in auto)
  qed (use 2 in auto)
qed auto

section \<open>Sequences of operations\<close>

datatype cop =
    Create alloc int bytes bytes "int \<times> int"
  | Verify_pin int bytes
  | Change_pin int bytes
  | Unblock int bytes bytes
  | Retry_floor "(int \<times> nat \<times> nat) list"

text \<open>The result of a step: success or refusal of the credential, and whether the state changed.\<close>

definition flagged :: "('a \<Rightarrow> bool \<times> bool) \<Rightarrow> ('p, 'a) cact \<Rightarrow> ('p, bool \<times> bool) cact" where
  "flagged f m = sbind m (\<lambda>x. sret (f x))"

fun cop_step :: "'p provider \<Rightarrow> bytes \<Rightarrow> cop \<Rightarrow> ('p, bool \<times> bool) cact" where
  "cop_step P owner (Create alloc slot pin puk ret) = flagged (\<lambda>_. (True, True)) (create P alloc owner slot pin puk ret)"
| "cop_step P owner (Verify_pin slot candidate) = verify_pin P owner slot candidate"
| "cop_step P owner (Change_pin slot new_pin) = flagged (\<lambda>c. (True, c)) (change_pin P owner slot new_pin)"
| "cop_step P owner (Unblock slot puk new_pin) = unblock P owner slot puk new_pin"
| "cop_step P owner (Retry_floor floors) = flagged (\<lambda>c. (False, c))
     (\<lambda>(es, p). case apply_retry_floor owner floors False es of (r, es') \<Rightarrow> (r, (es', p)))"

fun cop_run :: "'p provider \<Rightarrow> bytes \<Rightarrow> cop list \<Rightarrow> entries \<times> 'p \<Rightarrow> (bool \<times> bool) res list \<times> entries \<times> 'p" where
  "cop_run P owner [] st = ([], st)"
| "cop_run P owner (c # cs) st =
     (let (r, st1) = cop_step P owner c st; (rs, st2) = cop_run P owner cs st1 in (r # rs, st2))"

text \<open>
  A wrong guess of a slot's PIN or PUK is a comparison that failed; the PIN counter of a slot is
  refilled by a correct PIN, a change, an unblock or the creation of the slot.
\<close>

fun pin_guess :: "int \<Rightarrow> cop \<times> (bool \<times> bool) res \<Rightarrow> bool" where
  "pin_guess k (Verify_pin slot _, r) = (slot = k \<and> r = Ok (False, True))"
| "pin_guess k _ = False"

fun puk_guess :: "int \<Rightarrow> cop \<times> (bool \<times> bool) res \<Rightarrow> bool" where
  "puk_guess k (Unblock slot _ _, r) = (slot = k \<and> r = Ok (False, True))"
| "puk_guess k _ = False"

definition succeeded :: "(bool \<times> bool) res \<Rightarrow> bool" where
  "succeeded r \<longleftrightarrow> (case r of Ok (True, _) \<Rightarrow> True | _ \<Rightarrow> False)"

fun pin_refill :: "int \<Rightarrow> cop \<times> (bool \<times> bool) res \<Rightarrow> bool" where
  "pin_refill k (Verify_pin slot _, r) = (slot = k \<and> succeeded r)"
| "pin_refill k (Change_pin slot _, r) = (slot = k \<and> succeeded r)"
| "pin_refill k (Unblock slot _ _, r) = (slot = k \<and> succeeded r)"
| "pin_refill k (Create _ slot _ _ _, r) = (slot = k \<and> succeeded r)"
| "pin_refill k (Retry_floor _, r) = False"

fun puk_refill :: "int \<Rightarrow> cop \<times> (bool \<times> bool) res \<Rightarrow> bool" where
  "puk_refill k (Unblock slot _ _, r) = (slot = k \<and> succeeded r)"
| "puk_refill k (Create _ slot _ _ _, r) = (slot = k \<and> succeeded r)"
| "puk_refill k (_, r) = False"

abbreviation pin_left :: "int \<Rightarrow> entries \<Rightarrow> nat" where
  "pin_left \<equiv> table.level pin_retries"

abbreviation puk_left :: "int \<Rightarrow> entries \<Rightarrow> nat" where
  "puk_left \<equiv> table.level puk_retries"

definition step_ok :: "bytes \<Rightarrow> entries \<Rightarrow> cop \<times> (bool \<times> bool) res \<Rightarrow> entries \<Rightarrow> bool" where
  "step_ok owner es x es' \<longleftrightarrow> store_ok owner es'
     \<and> (\<forall>k. \<not> pin_refill k x \<longrightarrow> pin_left k es' + of_bool (pin_guess k x) \<le> pin_left k es)
     \<and> (\<forall>k. \<not> puk_refill k x \<longrightarrow> puk_left k es' + of_bool (puk_guess k x) \<le> puk_left k es)"

lemma step_ok_same:
  assumes "store_ok owner es" and "\<And>k. \<not> pin_guess k x" and "\<And>k. \<not> puk_guess k x"
  shows "step_ok owner es x es"
  using assms by (simp add: step_ok_def)

lemma step_ok_set:
  assumes ok: "store_ok owner es" and get: "entries_get es slot = Some e" and "entry_ok owner slot e'"
    and pin: "pin_refill slot x \<or> pin_retries e' + of_bool (pin_guess slot x) \<le> pin_retries e"
    and puk: "puk_refill slot x \<or> puk_retries e' + of_bool (puk_guess slot x) \<le> puk_retries e"
    and only: "\<And>k. pin_guess k x \<or> puk_guess k x \<Longrightarrow> k = slot"
  shows "step_ok owner es x (entries_set slot e' es)"
proof -
  have sorted: "sorted_slots es" using ok by (simp add: store_ok_def)
  have same: "table.level f slot (entries_set slot e' es) = f e'" "table.level f slot es = f e" for f :: "cred_entry \<Rightarrow> nat"
    by (rule table.level_same [OF sorted get], simp add: table.level_def get)
  have other: "table.level f k (entries_set slot e' es) = table.level f k es" if "k \<noteq> slot" for f :: "cred_entry \<Rightarrow> nat" and k
    by (rule table.level_other [OF sorted _ that]) (simp add: get)
  have "pin_left k (entries_set slot e' es) + of_bool (pin_guess k x) \<le> pin_left k es" if "\<not> pin_refill k x" for k
  proof (cases "k = slot")
    case True
    then show ?thesis using pin that by (simp only: same simp_thms)
  next
    case False
    then have "\<not> pin_guess k x" using only by blast
    then show ?thesis by (simp add: other [OF False])
  qed
  moreover have "puk_left k (entries_set slot e' es) + of_bool (puk_guess k x) \<le> puk_left k es" if "\<not> puk_refill k x" for k
  proof (cases "k = slot")
    case True
    then show ?thesis using puk that by (simp only: same simp_thms)
  next
    case False
    then have "\<not> puk_guess k x" using only by blast
    then show ?thesis by (simp add: other [OF False])
  qed
  ultimately show ?thesis
    using store_ok_set [OF ok get assms(3)] by (simp add: step_ok_def)
qed

lemma step_create:
  assumes "cop_step P owner (Create alloc slot pin puk ret) (es, p) = (r, es', p')" and ok: "store_ok owner es"
  shows "step_ok owner es (Create alloc slot pin puk ret, r) es'"
proof -
  have sorted: "sorted_slots es" using ok by (simp add: store_ok_def)
  obtain q where q: "create P alloc owner slot pin puk ret (es, p) = (q, es', p')"
    and r: "r = (case q of Ok _ \<Rightarrow> Ok (True, True) | Err e \<Rightarrow> Err e)"
    using assms(1) by (auto simp: flagged_def sbind_eq sret_def split: result.splits)
  show ?thesis
  proof (cases "es' = es")
    case True
    then show ?thesis using step_ok_same [OF ok] by simp
  next
    case False
    then obtain e where e: "q = Ok ()" "\<not> contains_key es slot" "entries_insert alloc slot e es = Ok es'"
      "0 \<le> slot \<longrightarrow> entry_ok owner slot e"
      using create_moves [OF q sorted] by blast
    note i = entries_insert_new [OF sorted e(2,3)]
    have "store_ok owner es'"
      using ok i e(4) by (auto simp: store_ok_def)
    then show ?thesis
      using r e(1) i(2) by (auto simp: step_ok_def table.level_def succeeded_def)
  qed
qed

lemma step_verify_pin:
  assumes "cop_step P owner (Verify_pin slot candidate) (es, p) = (r, es', p')" and ok: "store_ok owner es"
  shows "step_ok owner es (Verify_pin slot candidate, r) es'"
proof -
  have v: "verify_pin P owner slot candidate (es, p) = (r, es', p')"
    using assms(1) by simp
  from verify_pin_moves [OF v] show ?thesis
  proof (elim disjE exE conjE)
    fix e assume e: "entries_get es slot = Some e" "0 < pin_retries e" and r: "r = Ok (False, True)"
      and s: "es' = entries_set slot (e\<lparr>pin_retries := pin_retries e - 1\<rparr>) es"
    show ?thesis
      unfolding s r
      by (rule step_ok_set [OF ok e(1)]) (use store_ok_get [OF ok e(1)] e(2) in \<open>auto simp: entry_ok_def\<close>)
  next
    fix e assume e: "entries_get es slot = Some e" and r: "r = Ok (True, pin_retries e \<noteq> pin_max_retries e)"
      and s: "es' = entries_set slot (e\<lparr>pin_retries := pin_max_retries e\<rparr>) es"
    show ?thesis
      unfolding s r
      by (rule step_ok_set [OF ok e]) (use store_ok_get [OF ok e] in \<open>auto simp: entry_ok_def succeeded_def\<close>)
  qed (use step_ok_same [OF ok] in auto)
qed

lemma step_change_pin:
  assumes "cop_step P owner (Change_pin slot new_pin) (es, p) = (r, es', p')" and ok: "store_ok owner es"
  shows "step_ok owner es (Change_pin slot new_pin, r) es'"
proof -
  obtain q where q: "change_pin P owner slot new_pin (es, p) = (q, es', p')"
    and r: "r = (case q of Ok c \<Rightarrow> Ok (True, c) | Err e \<Rightarrow> Err e)"
    using assms(1) by (auto simp: flagged_def sbind_eq sret_def split: result.splits)
  from change_pin_moves [OF q] show ?thesis
  proof (elim disjE exE conjE)
    fix e salt d assume e: "entries_get es slot = Some e" and c: "q = Ok True"
      and s: "es' = entries_set slot (e\<lparr>pin_salt := salt, pin_digest := d, pin_retries := pin_max_retries e\<rparr>) es"
    show ?thesis
      unfolding s r c
      by (rule step_ok_set [OF ok e]) (use store_ok_get [OF ok e] in \<open>auto simp: entry_ok_def succeeded_def\<close>)
  qed (use step_ok_same [OF ok] in auto)
qed

lemma step_unblock:
  assumes "cop_step P owner (Unblock slot puk new_pin) (es, p) = (r, es', p')" and ok: "store_ok owner es"
  shows "step_ok owner es (Unblock slot puk new_pin, r) es'"
proof -
  have v: "unblock P owner slot puk new_pin (es, p) = (r, es', p')"
    using assms(1) by simp
  from unblock_moves [OF v] show ?thesis
  proof (elim disjE exE conjE)
    fix e assume e: "entries_get es slot = Some e" "0 < puk_retries e" and r: "r = Ok (False, True)"
      and s: "es' = entries_set slot (e\<lparr>puk_retries := puk_retries e - 1\<rparr>) es"
    show ?thesis
      unfolding s r
      by (rule step_ok_set [OF ok e(1)]) (use store_ok_get [OF ok e(1)] e(2) in \<open>auto simp: entry_ok_def\<close>)
  next
    fix e salt d assume e: "entries_get es slot = Some e" and r: "r = Ok (True, True)"
      and s: "es' = entries_set slot (e\<lparr>pin_salt := salt, pin_digest := d,
             pin_retries := pin_max_retries e, puk_retries := puk_max_retries e\<rparr>) es"
    show ?thesis
      unfolding s r
      by (rule step_ok_set [OF ok e]) (use store_ok_get [OF ok e] in \<open>auto simp: entry_ok_def succeeded_def\<close>)
  qed (use step_ok_same [OF ok] in auto)
qed

lemma step_retry_floor:
  assumes "cop_step P owner (Retry_floor floors) (es, p) = (r, es', p')" and ok: "store_ok owner es"
  shows "step_ok owner es (Retry_floor floors, r) es'"
proof -
  obtain q where "apply_retry_floor owner floors False es = (q, es')"
    using assms(1) by (auto simp: flagged_def sbind_eq sret_def split: result.splits prod.splits)
  from floor_moves [OF this ok] show ?thesis
    by (simp add: step_ok_def)
qed

lemma cop_step_ok:
  "cop_step P owner c (es, p) = (r, es', p') \<Longrightarrow> store_ok owner es \<Longrightarrow> step_ok owner es (c, r) es'"
  by (cases c) (simp_all only: step_create step_verify_pin step_change_pin step_unblock step_retry_floor)

lemma cop_run_ok:
  assumes "cop_run P owner cs (es, p) = (rs, es', p')" and "store_ok owner es"
  shows "store_ok owner es'
    \<and> (\<forall>k. (\<forall>x \<in> set (zip cs rs). \<not> pin_refill k x) \<longrightarrow>
          pin_left k es' + length (filter (pin_guess k) (zip cs rs)) \<le> pin_left k es)
    \<and> (\<forall>k. (\<forall>x \<in> set (zip cs rs). \<not> puk_refill k x) \<longrightarrow>
          puk_left k es' + length (filter (puk_guess k) (zip cs rs)) \<le> puk_left k es)"
  using assms
proof (induction cs arbitrary: es p rs)
  case (Cons c cs)
  obtain r es1 p1 rs1 where st: "cop_step P owner c (es, p) = (r, es1, p1)"
    and run: "cop_run P owner cs (es1, p1) = (rs1, es', p')" and rs: "rs = r # rs1"
    using Cons.prems(1) by (auto simp: Let_def split: prod.splits)
  note step = cop_step_ok [OF st Cons.prems(2), unfolded step_ok_def]
  note rest = Cons.IH [OF run step [THEN conjunct1]]
  show ?case
    unfolding rs
  proof (intro conjI allI impI)
    show "store_ok owner es'" using rest by blast
  next
    fix k assume no: "\<forall>x \<in> set (zip (c # cs) (r # rs1)). \<not> pin_refill k x"
    then have "pin_left k es1 + of_bool (pin_guess k (c, r)) \<le> pin_left k es"
      "pin_left k es' + length (filter (pin_guess k) (zip cs rs1)) \<le> pin_left k es1"
      using step [THEN conjunct2, THEN conjunct1, rule_format, of k] rest [THEN conjunct2, THEN conjunct1, rule_format, of k] by auto
    then show "pin_left k es' + length (filter (pin_guess k) (zip (c # cs) (r # rs1))) \<le> pin_left k es"
      by (simp add: of_bool_def split: if_splits)
  next
    fix k assume no: "\<forall>x \<in> set (zip (c # cs) (r # rs1)). \<not> puk_refill k x"
    then have "puk_left k es1 + of_bool (puk_guess k (c, r)) \<le> puk_left k es"
      "puk_left k es' + length (filter (puk_guess k) (zip cs rs1)) \<le> puk_left k es1"
      using step [THEN conjunct2, THEN conjunct2, rule_format, of k] rest [THEN conjunct2, THEN conjunct2, rule_format, of k] by auto
    then show "puk_left k es' + length (filter (puk_guess k) (zip (c # cs) (r # rs1))) \<le> puk_left k es"
      by (simp add: of_bool_def split: if_splits)
  qed
qed simp

section \<open>The state codec\<close>

lemma codec_exact:
  assumes "n \<le> usize_max"
  shows "codec (string_wire 2) (\<lambda>b. length b = n) (dec_exact n)"
proof
  show "dec_exact n (string_wire 2 b @ r) = (Ok b, r)" if "length b = n" for b r
    using that assms
    by (simp add: dec_exact_def c_bytes.dec_sbind_wire string_dom_def length_dom_def get_range_def slice_of_def)
  show "length b = n \<and> bs = string_wire 2 b @ r" if "dec_exact n bs = (Ok b, r)" for bs b r
    using that
    by (auto simp: dec_exact_def c_bytes.dec_sbind_iff slift_def string_dom_def length_dom_def get_range_def slice_of_def
        ok_or_def split: if_splits)
qed

interpretation c_exact16: codec "string_wire 2" "\<lambda>b. length b = 16" "dec_exact 16"
  by (rule codec_exact) (simp add: usize_max_def)

interpretation c_exact32: codec "string_wire 2" "\<lambda>b. length b = 32" "dec_exact 32"
  by (rule codec_exact) (simp add: usize_max_def)

interpretation c_record10: codec "\<lambda>_ :: unit. head 4 10" "\<lambda>_. True" "dec_record 10"
proof
  show "dec_record 10 (head 4 10 @ r) = (Ok x, r)" for x r
    by (simp add: dec_record_def c_array.dec_sbind_wire length_dom_def usize_max_def)
  show "True \<and> bs = head 4 10 @ r" if "dec_record 10 bs = (Ok x, r)" for bs x r
    using that by (auto simp: dec_record_def c_array.dec_sbind_iff sret_def sfail_def split: if_splits)
qed

definition entry_typed :: "cred_entry \<Rightarrow> bool" where
  "entry_typed e \<longleftrightarrow> 0 \<le> cslot e \<and> cslot e \<le> int i32_max \<and> length (cowner e) = 16
     \<and> length (pin_salt e) = 16 \<and> length (pin_digest e) = 32 \<and> length (puk_salt e) = 16 \<and> length (puk_digest e) = 32
     \<and> pin_retries e \<le> 255 \<and> pin_max_retries e \<le> 255 \<and> puk_retries e \<le> 255 \<and> puk_max_retries e \<le> 255"

definition entry_wire :: "cred_entry \<Rightarrow> bytes" where
  "entry_wire e = head 4 10 @ head 0 (nat (cslot e)) @ string_wire 2 (cowner e)
     @ string_wire 2 (pin_salt e) @ string_wire 2 (pin_digest e) @ string_wire 2 (puk_salt e) @ string_wire 2 (puk_digest e)
     @ head 0 (pin_retries e) @ head 0 (pin_max_retries e) @ head 0 (puk_retries e) @ head 0 (puk_max_retries e)"

definition after :: "int option \<Rightarrow> int \<Rightarrow> bool" where
  "after previous k \<longleftrightarrow> (case previous of None \<Rightarrow> True | Some p \<Rightarrow> p < k)"

lemma u64_small: "i32_max \<le> u64_max" "255 \<le> u64_max"
  by (simp_all add: i32_max_def u64_max_def)

lemma decode_entry_wire:
  assumes "entry_typed e" and "after previous (cslot e)"
  shows "decode_entry previous (entry_wire e @ r) = (Ok (cslot e, e), r)"
proof -
  obtain k where k: "cslot e = int k" "k \<le> i32_max" "k \<le> u64_max"
    using assms(1) u64_small(1) by (auto simp: entry_typed_def nat_le_iff intro!: that [of "nat (cslot e)"])
  have small: "n \<le> 255 \<Longrightarrow> n \<le> u64_max" for n
    using u64_small(2) by linarith
  have new: "\<not> (case previous of None \<Rightarrow> False | Some p \<Rightarrow> p \<ge> int k)"
    using assms(2) k(1) by (auto simp: after_def split: option.splits)
  have e: "\<lparr>cslot = int k, cowner = cowner e, pin_salt = pin_salt e, pin_digest = pin_digest e, puk_salt = puk_salt e,
      puk_digest = puk_digest e, pin_retries = pin_retries e, pin_max_retries = pin_max_retries e,
      puk_retries = puk_retries e, puk_max_retries = puk_max_retries e\<rparr> = e"
    using k(1) by (cases e) simp
  show ?thesis
    using assms(1) k new small e unfolding entry_typed_def
    by (simp add: decode_entry_def entry_wire_def c_record10.dec_sbind_wire [where x = "()"] c_number.dec_sbind_wire
        c_exact16.dec_sbind_wire c_exact32.dec_sbind_wire sret_def)
qed

lemma decode_entry_sound:
  assumes "decode_entry previous bs = (Ok x, r)"
  shows "entry_typed (snd x) \<and> fst x = cslot (snd x) \<and> after previous (fst x) \<and> bs = entry_wire (snd x) @ r"
  using assms unfolding decode_entry_def c_record10.dec_sbind_iff c_number.dec_sbind_iff
  by (auto simp: c_exact16.dec_sbind_iff c_exact32.dec_sbind_iff c_number.dec_sbind_iff sret_def sfail_def
      entry_typed_def entry_wire_def after_def split: if_splits option.splits)

definition chain :: "int option \<Rightarrow> entries \<Rightarrow> bool" where
  "chain previous xs \<longleftrightarrow> sorted_slots xs \<and> (\<forall>x \<in> set xs. after previous (fst x) \<and> fst x = cslot (snd x) \<and> entry_typed (snd x))"

lemma chain_simps:
  "chain previous []"
  "chain previous (x # xs) \<longleftrightarrow> after previous (fst x) \<and> fst x = cslot (snd x) \<and> entry_typed (snd x) \<and> chain (Some (fst x)) xs"
  by (auto simp: chain_def sorted_slots_def after_def split: option.splits)

lemma decode_entries_iff:
  "decode_entries n previous acc bs = (Ok es, r) \<longleftrightarrow>
     (\<exists>xs. es = acc @ xs \<and> length xs = n \<and> chain previous xs \<and> bs = concat (map (entry_wire \<circ> snd) xs) @ r)"
proof (induction n arbitrary: previous acc bs)
  case 0
  then show ?case by (auto simp: sret_def chain_simps)
next
  case (Suc n)
  show ?case
  proof
    assume "decode_entries (Suc n) previous acc bs = (Ok es, r)"
    then obtain x t where x: "decode_entry previous bs = (Ok x, t)"
      and rest: "decode_entries n (Some (fst x)) (acc @ [x]) t = (Ok es, r)"
      by (auto simp: sbind_eq_Ok)
    then show "\<exists>xs. es = acc @ xs \<and> length xs = Suc n \<and> chain previous xs \<and> bs = concat (map (entry_wire \<circ> snd) xs) @ r"
      using decode_entry_sound [OF x] unfolding Suc.IH
      by (elim exE conjE) (rule_tac x = "x # xs" in exI, simp add: chain_simps)
  next
    assume "\<exists>xs. es = acc @ xs \<and> length xs = Suc n \<and> chain previous xs \<and> bs = concat (map (entry_wire \<circ> snd) xs) @ r"
    then obtain x xs where xs: "es = acc @ x # xs" "length xs = n" "chain previous (x # xs)"
      "bs = entry_wire (snd x) @ concat (map (entry_wire \<circ> snd) xs) @ r"
      by (auto simp: length_Suc_conv)
    have "decode_entry previous bs = (Ok x, concat (map (entry_wire \<circ> snd) xs) @ r)"
      using decode_entry_wire [of "snd x" previous] xs(3) unfolding xs(4) chain_simps by (metis prod.collapse)
    moreover have "decode_entries n (Some (fst x)) (acc @ [x]) (concat (map (entry_wire \<circ> snd) xs) @ r) = (Ok es, r)"
      unfolding Suc.IH using xs(1-3) chain_simps(2) [of previous x xs] by auto
    ultimately show "decode_entries (Suc n) previous acc bs = (Ok es, r)" by simp
  qed
qed

definition state_wire :: "entries \<Rightarrow> bytes" where
  "state_wire es = head 4 (length es) @ concat (map (entry_wire \<circ> snd) es)"

lemma decode_state_iff:
  "decode_state alloc owner bs = (Ok es, r) \<longleftrightarrow>
     store_ok owner es \<and> (\<forall>x \<in> set es. entry_typed (snd x)) \<and> alloc (length es) \<and> bs = state_wire es @ r"
proof -
  have "decode_state alloc owner bs = (Ok es, r) \<longleftrightarrow>
      (\<exists>n t. length_dom MAX_SLOTS n \<and> bs = head 4 n @ t \<and> alloc n
        \<and> decode_entries n None [] t = (Ok es, r) \<and> validate es owner = Ok ())"
    unfolding decode_state_def c_array.dec_sbind_iff by (auto simp: sbind_eq_Ok slift_def sret_def)
  also have "\<dots> \<longleftrightarrow> store_ok owner es \<and> (\<forall>x \<in> set es. entry_typed (snd x)) \<and> alloc (length es) \<and> bs = state_wire es @ r"
    unfolding decode_entries_iff validate_iff
    by (fastforce simp: chain_def after_def store_ok_def state_wire_def length_dom_def entry_ok_def usize_max_def MAX_SLOTS_def)
  finally show ?thesis .
qed

lemma encode_entry_ok:
  assumes "encode_entry alloc (cslot e, e) s = (Ok u, s')" and "entry_typed e"
  shows "ebytes s' = ebytes s @ entry_wire e \<and> emax s' = emax s"
proof -
  have "nat (cslot e mod 2 ^ 64) = nat (cslot e)"
    using assms(2) by (auto simp: entry_typed_def i32_max_def)
  then have "put_items alloc [Array 10, Unsigned (nat (cslot e)), Bytes (cowner e),
       Bytes (pin_salt e), Bytes (pin_digest e), Bytes (puk_salt e), Bytes (puk_digest e),
       Unsigned (pin_retries e), Unsigned (pin_max_retries e), Unsigned (puk_retries e), Unsigned (puk_max_retries e)] s
      = (Ok u, s')"
    using assms(1) by (simp add: encode_entry_def del: put_items.simps)
  from put_items_ok [OF this] show ?thesis
    by (simp add: entry_wire_def)
qed

lemma encode_state_ok:
  assumes "encode_state alloc es s = (Ok u, s')" and "\<forall>x \<in> set es. fst x = cslot (snd x) \<and> entry_typed (snd x)"
  shows "ebytes s' = ebytes s @ state_wire es"
proof -
  have entries: "encode_entries alloc xs t = (Ok v, t') \<Longrightarrow> set xs \<subseteq> set es \<Longrightarrow>
      ebytes t' = ebytes t @ concat (map (entry_wire \<circ> snd) xs)" for xs t t' v
  proof (induction xs arbitrary: t)
    case (Cons x xs)
    then obtain y t1 where "encode_entry alloc x t = (Ok y, t1)" "encode_entries alloc xs t1 = (Ok v, t')"
      by (auto simp: sbind_eq_Ok)
    then show ?case
      using Cons encode_entry_ok [of alloc "snd x" t y t1] assms(2) by (metis (no_types, lifting) append_assoc comp_apply
          concat.simps(2) list.set_intros(1) list.simps(9) prod.collapse set_subset_Cons subset_code(1))
  qed (simp add: sret_def)
  obtain t where "enc_array alloc (length es) s = (Ok (), t)" "encode_entries alloc es t = (Ok u, s')"
    using assms(1) by (auto simp: encode_state_def sbind_eq_Ok)
  then show ?thesis
    using w_array.put_ok [of alloc "length es" s "()" t] entries [of es t u s'] by (simp add: state_wire_def)
qed

section \<open>Properties\<close>


definition sample_entry :: cred_entry where
  "sample_entry = \<lparr>cslot = 1, cowner = replicate 16 7, pin_salt = replicate 16 1, pin_digest = replicate 32 2,
     puk_salt = replicate 16 3, puk_digest = replicate 32 4, pin_retries = 3, pin_max_retries = 3,
     puk_retries = 2, puk_max_retries = 2\<rparr>"

definition sample_provider :: "unit provider" where
  "sample_provider = \<lparr>prov_sha256 = (\<lambda>x. sret (replicate 32 9)), prov_entropy = (\<lambda>n. sret (replicate n 5))\<rparr>"

lemma sample_store_ok: "store_ok (replicate 16 7) [(1, sample_entry)]"
  by (simp add: store_ok_def sorted_slots_def MAX_SLOTS_def MAX_RETRIES_def entry_ok_def sample_entry_def valid_retries_def)


text \<open>
  C18 (credential_state_roundtrip). The state of a valid store that the encoder accepted decodes to
  exactly that store, and it is the only byte string that does: no second encoding of the same
  credentials is accepted.
\<close>

theorem credential_state_roundtrip:
  assumes "store_ok owner es" and "\<forall>x \<in> set es. entry_typed (snd x)" and "alloc (length es)"
    and "encode_state alloc' es (enc_new maximum) = (Ok (), e)"
  shows "decode_state alloc owner bs = (Ok es, r) \<longleftrightarrow> bs = enc_finish e @ r"
proof -
  have "ebytes e = state_wire es"
    using encode_state_ok [OF assms(4)] assms(1,2) by (force simp: enc_new_def store_ok_def entry_ok_def)
  then show ?thesis
    using assms(1-3) by (simp add: decode_state_iff enc_finish_def)
qed

theorem credential_state_roundtrip_witness:
  "\<exists>e. encode_state (\<lambda>_. True) [] (enc_new 8) = (Ok (), e)
     \<and> (decode_state (\<lambda>_. True) (replicate 16 7) [0x80, 0x55] = (Ok [], [0x55]) \<longleftrightarrow> [0x80, 0x55] = enc_finish e @ [0x55])
     \<and> enc_finish e = [0x80]"
proof -
  define e where "e = \<lparr>ebytes = [0x80], emax = 8, ecap = 1\<rparr>"
  have e: "encode_state (\<lambda>_. True) [] (enc_new 8) = (Ok (), e)"
    by (simp add: e_def encode_state_def enc_new_def enc_array_def enc_argument_def enc_append_def enc_reserve_def head_eq
        additional_def argument_octets_def argument_size_def usize_max_def sret_def)
  have "store_ok (replicate 16 7) []"
    by (simp add: store_ok_def sorted_slots_def)
  from credential_state_roundtrip [OF this _ _ e, of "\<lambda>_. True" "[0x80, 0x55]" "[0x55]"] e show ?thesis
    by (auto simp: e_def enc_finish_def)
qed

text \<open>
  The hashed inputs of two credentials are equal only for the
  same owner, slot, purpose, salt and secret, so no verifier of one credential is a verifier of
  another unless the hash collides.
\<close>

theorem credential_digest_separation:
  assumes "length owner = 16" "length owner' = 16" "length salt = 16" "length salt' = 16"
    and "0 \<le> slot" "slot \<le> int i32_max" "0 \<le> slot'" "slot' \<le> int i32_max"
  shows "digest_input owner slot purpose salt secret = digest_input owner' slot' purpose' salt' secret' \<longleftrightarrow>
    owner = owner' \<and> slot = slot' \<and> purpose = purpose' \<and> salt = salt' \<and> secret = secret'"
proof -
  have b: "be_value (be_bytes 4 (nat (s mod 2 ^ 32))) = nat s" if "0 \<le> s" "s \<le> int i32_max" for s
    using that by (simp add: be_value_be_bytes i32_max_def)
  have "be_bytes 4 (nat (slot mod 2 ^ 32)) = be_bytes 4 (nat (slot' mod 2 ^ 32)) \<longleftrightarrow> slot = slot'"
    using b [of slot] b [of slot'] assms(5-8) by (metis int_nat_eq)
  then show ?thesis
    using assms(1-4) by (auto simp: digest_input_def)
qed

theorem credential_digest_separation_witness:
  "digest_input (replicate 16 7) 1 1 (replicate 16 0) [1, 2, 3, 4] \<noteq> digest_input (replicate 16 7) 1 2 (replicate 16 0) [1, 2, 3, 4]"
  using credential_digest_separation [of "replicate 16 7" "replicate 16 7" "replicate 16 0" "replicate 16 0" 1 1 1 "[1, 2, 3, 4]" 2]
  by (simp add: i32_max_def)

end
