(* ===== verification/Journal_Flash.thy ===== *)
theory Journal_Flash
  imports Core_Error
begin

text \<open>
  The flash under the journal (\<open>src/crates/microcard-core/src/journal.rs\<close>, trait \<open>Flash\<close>) and the host
  fault model that implements it (\<open>journal/memory_flash.rs\<close>): an erase may stop at any byte, a word
  program is indivisible, a counter word counts as consumed once any of its bytes is programmed.
  The package images that \<open>MemoryFlash\<close> also holds belong to the image store and are left out, as
  are the counters of its tests.
\<close>

section \<open>The trait\<close>

record 'f jflash =
  jf_slot_count :: "'f \<Rightarrow> nat"
  jf_slot_size :: "'f \<Rightarrow> nat"
  jf_monotonic_capacity :: "'f \<Rightarrow> nat"
  jf_monotonic_generation :: "'f \<Rightarrow> nat res"
  jf_advance_monotonic :: "nat \<Rightarrow> ('f, error, unit) act"
  jf_nonce_capacity :: "'f \<Rightarrow> nat"
  jf_nonce_generation :: "'f \<Rightarrow> nat res"
  jf_reserve_nonce :: "('f, error, nat) act"
  jf_is_erased :: "nat \<Rightarrow> 'f \<Rightarrow> bool res"
  jf_read :: "nat \<Rightarrow> nat \<Rightarrow> nat \<Rightarrow> 'f \<Rightarrow> bytes res"
  jf_erase :: "nat \<Rightarrow> ('f, error, unit) act"
  jf_program :: "nat \<Rightarrow> nat \<Rightarrow> bytes \<Rightarrow> ('f, error, unit) act"

section \<open>Counters in flash\<close>

fun words_from :: "bytes \<Rightarrow> nat \<Rightarrow> bool \<Rightarrow> nat res" where
  "words_from (a # b # c # d # rest) generation saw_erased =
     (if list_ex (\<lambda>x. x \<noteq> 0xff) [a, b, c, d] then
        if saw_erased then Err Storage
        else rbind (ok_or (checked_add_u64 generation 1) Storage) (\<lambda>g. words_from rest g saw_erased)
      else words_from rest generation True)"
| "words_from _ generation saw_erased = Ok generation"

definition decode_monotonic_words :: "bytes \<Rightarrow> nat res" where
  "decode_monotonic_words bs = (if \<not> 4 dvd length bs then Err Storage else words_from bs 0 False)"

fun once_words_from :: "bytes \<Rightarrow> nat \<Rightarrow> bool \<Rightarrow> nat res" where
  "once_words_from (a # b # c # d # rest) generation saw_erased =
     (let w = le_value [a, b, c, d] in
      if w = 0 then
        if saw_erased then Err Storage
        else rbind (ok_or (checked_add_u64 generation 1) Storage) (\<lambda>g. once_words_from rest g saw_erased)
      else if w = 2 ^ 32 - 1 then once_words_from rest generation True
      else Err Storage)"
| "once_words_from _ generation saw_erased = Ok generation"

definition decode_program_once_words :: "bytes \<Rightarrow> nat res" where
  "decode_program_once_words bs = (if \<not> 4 dvd length bs then Err Storage else once_words_from bs 0 False)"

definition next_program_once_word :: "bytes \<Rightarrow> nat \<Rightarrow> nat res" where
  "next_program_once_word bs generation =
     rbind (decode_program_once_words bs) (\<lambda>current.
     if checked_add_u64 current 1 \<noteq> Some generation then Err Storage
     else
       rbind (ok_or (checked_sub generation 1) Storage) (\<lambda>index.
       if index > usize_max then Err Storage
       else
         rbind (ok_or (checked_mul index 4) Storage) (\<lambda>offset.
         case checked_add offset 4 of
           None \<Rightarrow> Err Quota
         | Some fin \<Rightarrow> if fin > length bs then Err Quota else Ok offset)))"

fun bits_from :: "bool list \<Rightarrow> nat \<Rightarrow> bool \<Rightarrow> nat res" where
  "bits_from [] generation saw_erased = Ok generation"
| "bits_from (consumed # rest) generation saw_erased =
     (if consumed then
        if saw_erased then Err Storage
        else rbind (ok_or (checked_add_u64 generation 1) Storage) (\<lambda>g. bits_from rest g saw_erased)
      else bits_from rest generation True)"

definition decode_monotonic_bits :: "bytes \<Rightarrow> nat res" where
  "decode_monotonic_bits bs = bits_from (concat (map (\<lambda>b. map (\<lambda>i. \<not> bit b i) [0..<8]) bs)) 0 False"

section \<open>The memory flash\<close>

record memory_flash =
  mf_slots :: "bytes list"
  mf_word_writes :: "nat list list"
  mf_monotonic :: bytes
  mf_nonces :: bytes
  mf_fail_after :: "nat option"

definition mf_with_slots :: "nat \<Rightarrow> nat \<Rightarrow> memory_flash" where
  "mf_with_slots n slot_count =
     \<lparr>mf_slots = replicate slot_count (replicate n 0xff),
      mf_word_writes = replicate slot_count (replicate ((n + 3) div 4) 0),
      mf_monotonic = replicate n 0xff, mf_nonces = replicate n 0xff, mf_fail_after = None\<rparr>"

definition mf_new :: "nat \<Rightarrow> memory_flash" where
  "mf_new n = mf_with_slots n 2"

definition mf_slot_size :: "memory_flash \<Rightarrow> nat" where
  "mf_slot_size f = length (mf_slots f ! 0)"

definition tick :: "(memory_flash, error, unit) act" where
  "tick f = (case mf_fail_after f of
       None \<Rightarrow> (Ok (), f)
     | Some 0 \<Rightarrow> (Err Storage, f)
     | Some (Suc n) \<Rightarrow> (Ok (), f\<lparr>mf_fail_after := Some n\<rparr>))"

fun ticks :: "nat \<Rightarrow> (memory_flash, error, unit) act" where
  "ticks 0 = sret ()"
| "ticks (Suc n) = sbind tick (\<lambda>_. ticks n)"

definition counter_of :: "bool \<Rightarrow> memory_flash \<Rightarrow> bytes" where
  "counter_of nonce f = (if nonce then mf_nonces f else mf_monotonic f)"

definition set_counter :: "bool \<Rightarrow> bytes \<Rightarrow> memory_flash \<Rightarrow> memory_flash" where
  "set_counter nonce c f = (if nonce then f\<lparr>mf_nonces := c\<rparr> else f\<lparr>mf_monotonic := c\<rparr>)"

text \<open>Programming the four bytes of a counter word one at a time.\<close>

fun zero_counter :: "bool \<Rightarrow> nat \<Rightarrow> nat \<Rightarrow> (memory_flash, error, unit) act" where
  "zero_counter nonce at 0 = sret ()"
| "zero_counter nonce at (Suc n) =
     sbind tick (\<lambda>_.
     sbind (smodify (\<lambda>f. set_counter nonce ((counter_of nonce f)[at := 0]) f)) (\<lambda>_.
     zero_counter nonce (at + 1) n))"

definition advance_word_counter :: "nat \<Rightarrow> bool \<Rightarrow> (memory_flash, error, unit) act" where
  "advance_word_counter generation nonce =
     sbind (slift (ok_or (checked_sub generation 1) Storage)) (\<lambda>index.
     sbind (slift (if index > usize_max then Err Storage else Ok ())) (\<lambda>_.
     sbind (slift (ok_or (checked_mul index 4) Storage)) (\<lambda>offset.
     sbind (sget (\<lambda>f. ok_or (get_range (counter_of nonce f) offset (offset + 4)) Quota)) (\<lambda>word.
     if list_ex (\<lambda>b. b \<noteq> 0xff) word then sfail Storage
     else zero_counter nonce offset 4))))"

definition mf_nonce_generation :: "memory_flash \<Rightarrow> nat res" where
  "mf_nonce_generation f = decode_monotonic_words (mf_nonces f)"

definition mf_reserve_nonce :: "(memory_flash, error, nat) act" where
  "mf_reserve_nonce =
     sbind (sget mf_nonce_generation) (\<lambda>g.
     sbind (slift (ok_or (checked_add_u64 g 1) Quota)) (\<lambda>next.
     sbind (advance_word_counter next True) (\<lambda>_. sret next)))"

definition mf_is_erased :: "nat \<Rightarrow> memory_flash \<Rightarrow> bool res" where
  "mf_is_erased s f = rbind (ok_or (get_at (mf_slots f) s) Bounds) (\<lambda>slot. Ok (list_all (\<lambda>b. b = 0xff) slot))"

definition mf_read :: "nat \<Rightarrow> nat \<Rightarrow> nat \<Rightarrow> memory_flash \<Rightarrow> bytes res" where
  "mf_read s at n f =
     rbind (ok_or (get_at (mf_slots f) s) Bounds) (\<lambda>slot.
     rbind (ok_or (checked_add at n) Bounds) (\<lambda>fin.
     ok_or (get_range slot at fin) Bounds))"

definition put_slot :: "nat \<Rightarrow> bytes \<Rightarrow> memory_flash \<Rightarrow> memory_flash" where
  "put_slot s c f = f\<lparr>mf_slots := (mf_slots f)[s := c]\<rparr>"

fun erase_bytes :: "nat \<Rightarrow> nat \<Rightarrow> nat \<Rightarrow> (memory_flash, error, unit) act" where
  "erase_bytes s at 0 = sret ()"
| "erase_bytes s at (Suc n) =
     sbind tick (\<lambda>_.
     sbind (smodify (\<lambda>f. put_slot s ((mf_slots f ! s)[at := 0xff]) f)) (\<lambda>_.
     erase_bytes s (at + 1) n))"

definition mf_erase :: "nat \<Rightarrow> (memory_flash, error, unit) act" where
  "mf_erase s =
     sbind (sget (\<lambda>f. Ok (mf_slot_size f))) (\<lambda>n.
     sbind (erase_bytes s 0 n) (\<lambda>_.
     smodify (\<lambda>f. f\<lparr>mf_word_writes := (mf_word_writes f)[s := map (\<lambda>_. 0) (mf_word_writes f ! s)]\<rparr>)))"

text \<open>
  One word of a program operation: the bytes of the word that the data covers are merged over the
  old ones, clearing bits only; a word that would not change is skipped, and a word takes at most
  two writes between erases.
\<close>

definition merged_word :: "bytes \<Rightarrow> nat \<Rightarrow> bytes \<Rightarrow> nat \<Rightarrow> bytes" where
  "merged_word old at b pos =
     map (\<lambda>i. if at \<le> pos + i \<and> pos + i < at + length b then b ! (pos + i - at) else old ! i) [0..<length old]"

definition program_word :: "nat \<Rightarrow> nat \<Rightarrow> bytes \<Rightarrow> nat \<Rightarrow> (memory_flash, error, unit) act" where
  "program_word s at b pos = (\<lambda>f.
     let fin = min (pos + 4) (mf_slot_size f);
         old = slice_of (mf_slots f ! s) pos fin;
         merged = merged_word old at b pos in
     if list_ex (\<lambda>i. old ! i AND merged ! i \<noteq> merged ! i) [0..<length old] then (Err Storage, f)
     else if merged = old then (Ok (), f)
     else if mf_word_writes f ! s ! (pos div 4) \<ge> 2 then (Err Storage, f)
     else
       sbind (ticks (fin - pos)) (\<lambda>_. smodify (\<lambda>f.
         (put_slot s (overwrite (mf_slots f ! s) pos merged) f)
           \<lparr>mf_word_writes := (mf_word_writes f)[s := (mf_word_writes f ! s)[pos div 4 := mf_word_writes f ! s ! (pos div 4) + 1]]\<rparr>)) f)"

function program_words :: "nat \<Rightarrow> nat \<Rightarrow> bytes \<Rightarrow> nat \<Rightarrow> nat \<Rightarrow> (memory_flash, error, unit) act" where
  "program_words s at b pos fin f =
     (if pos < fin then sbind (program_word s at b pos) (\<lambda>_ f. program_words s at b (pos + 4) fin f) f
      else (Ok (), f))"
  by pat_completeness auto
termination
  by (relation "measure (\<lambda>(_, _, _, pos, fin, _). fin - pos)") auto

declare program_words.simps [simp del]

definition mf_program :: "nat \<Rightarrow> nat \<Rightarrow> bytes \<Rightarrow> (memory_flash, error, unit) act" where
  "mf_program s at b = (\<lambda>f.
     if (case checked_add at (length b) of None \<Rightarrow> True | Some n \<Rightarrow> n > mf_slot_size f) then (Err Bounds, f)
     else program_words s at b (at div 4 * 4) ((at + length b + 3) div 4 * 4) f)"

definition mf_ops :: "memory_flash jflash" where
  "mf_ops = \<lparr>jf_slot_count = (\<lambda>f. length (mf_slots f)), jf_slot_size = mf_slot_size,
     jf_monotonic_capacity = (\<lambda>f. length (mf_monotonic f) div 4),
     jf_monotonic_generation = (\<lambda>f. decode_monotonic_words (mf_monotonic f)),
     jf_advance_monotonic = (\<lambda>g. advance_word_counter g False),
     jf_nonce_capacity = (\<lambda>f. length (mf_monotonic f) div 4),
     jf_nonce_generation = mf_nonce_generation, jf_reserve_nonce = mf_reserve_nonce,
     jf_is_erased = mf_is_erased, jf_read = mf_read, jf_erase = mf_erase, jf_program = mf_program\<rparr>"

section \<open>The contract\<close>

text \<open>
  What the journal relies on. \<open>content\<close> is what a slot reads back, \<open>mono\<close> and \<open>nonces\<close> the two counters,
  \<open>reboot\<close> the state after power returns. An interrupted erase leaves a prefix erased, an interrupted
  program a prefix of words written, an interrupted counter step either value; nothing else changes.
\<close>

definition same_shape_flash :: "'f jflash \<Rightarrow> 'f \<Rightarrow> 'f \<Rightarrow> bool" where
  "same_shape_flash ops f f' \<longleftrightarrow> jf_slot_count ops f' = jf_slot_count ops f \<and> jf_slot_size ops f' = jf_slot_size ops f
     \<and> jf_monotonic_capacity ops f' = jf_monotonic_capacity ops f \<and> jf_nonce_capacity ops f' = jf_nonce_capacity ops f"

definition torn_erase :: "bytes \<Rightarrow> nat \<Rightarrow> bytes" where
  "torn_erase c k = replicate k 0xff @ drop k c"

definition torn_program :: "bytes \<Rightarrow> nat \<Rightarrow> bytes \<Rightarrow> nat \<Rightarrow> bytes" where
  "torn_program c at b k = overwrite c at (take (4 * k) b)"

locale journal_flash =
  fixes ops :: "'f jflash"
    and content :: "'f \<Rightarrow> nat \<Rightarrow> bytes"
    and mono nonces :: "'f \<Rightarrow> nat"
    and wf :: "'f \<Rightarrow> bool"
    and reboot :: "'f \<Rightarrow> 'f"
  assumes content_length: "wf f \<Longrightarrow> s < jf_slot_count ops f \<Longrightarrow> length (content f s) = jf_slot_size ops f"
    and size_fits: "wf f \<Longrightarrow> 4 dvd jf_slot_size ops f \<and> jf_slot_size ops f \<le> usize_max"
    and read: "wf f \<Longrightarrow> s < jf_slot_count ops f \<Longrightarrow> at + n \<le> jf_slot_size ops f \<Longrightarrow>
        jf_read ops s at n f = Ok (slice_of (content f s) at (at + n))"
    and is_erased: "wf f \<Longrightarrow> s < jf_slot_count ops f \<Longrightarrow> jf_is_erased ops s f = Ok (list_all (\<lambda>b. b = 0xff) (content f s))"
    and monotonic: "wf f \<Longrightarrow> jf_monotonic_generation ops f = Ok (mono f) \<and> mono f \<le> jf_monotonic_capacity ops f"
    and nonce: "wf f \<Longrightarrow> jf_nonce_generation ops f = Ok (nonces f) \<and> nonces f \<le> jf_nonce_capacity ops f"
    and capacity_fits: "wf f \<Longrightarrow> jf_nonce_capacity ops f \<le> usize_max \<and> jf_monotonic_capacity ops f \<le> usize_max"
    and advance: "wf f \<Longrightarrow> jf_advance_monotonic ops (Suc (mono f)) f = (r, f') \<Longrightarrow>
        wf f' \<and> same_shape_flash ops f f' \<and> content f' = content f \<and> nonces f' = nonces f
        \<and> (mono f' = mono f \<or> mono f' = Suc (mono f)) \<and> (r = Ok () \<longrightarrow> mono f' = Suc (mono f))"
    and reserve: "wf f \<Longrightarrow> jf_reserve_nonce ops f = (q, f') \<Longrightarrow>
        wf f' \<and> same_shape_flash ops f f' \<and> content f' = content f \<and> mono f' = mono f
        \<and> (nonces f' = nonces f \<or> nonces f' = Suc (nonces f)) \<and> (\<forall>v. q = Ok v \<longrightarrow> v = Suc (nonces f) \<and> nonces f' = v)"
    and erase: "wf f \<Longrightarrow> s < jf_slot_count ops f \<Longrightarrow> jf_erase ops s f = (r, f') \<Longrightarrow>
        wf f' \<and> same_shape_flash ops f f' \<and> mono f' = mono f \<and> nonces f' = nonces f
        \<and> (\<exists>k \<le> jf_slot_size ops f. content f' = (content f)(s := torn_erase (content f s) k)
             \<and> (r = Ok () \<longrightarrow> k = jf_slot_size ops f))"
    and program: "wf f \<Longrightarrow> s < jf_slot_count ops f \<Longrightarrow> 4 dvd at \<Longrightarrow> at + length b \<le> jf_slot_size ops f \<Longrightarrow>
        jf_program ops s at b f = (r, f') \<Longrightarrow>
        wf f' \<and> same_shape_flash ops f f' \<and> mono f' = mono f \<and> nonces f' = nonces f
        \<and> (\<exists>k. content f' = (content f)(s := torn_program (content f s) at b k) \<and> (r = Ok () \<longrightarrow> length b \<le> 4 * k))"
    and rebooted: "wf f \<Longrightarrow> wf (reboot f) \<and> same_shape_flash ops f (reboot f) \<and> content (reboot f) = content f
        \<and> mono (reboot f) = mono f \<and> nonces (reboot f) = nonces f"
    and rebooted_advance: "wf f \<Longrightarrow> mono f < jf_monotonic_capacity ops f \<Longrightarrow>
        fst (jf_advance_monotonic ops (Suc (mono f)) (reboot f)) = Ok ()"

section \<open>The memory flash keeps the contract\<close>

fun consumed_words :: "bytes \<Rightarrow> bool" where
  "consumed_words [] = True"
| "consumed_words (a # b # c # d # rest) = (list_ex (\<lambda>x. x \<noteq> 0xff) [a, b, c, d] \<and> consumed_words rest)"
| "consumed_words _ = False"

definition counter :: "bytes \<Rightarrow> nat \<Rightarrow> bool" where
  "counter c g \<longleftrightarrow> (\<exists>u k. c = u @ replicate (4 * k) 0xff \<and> consumed_words u \<and> length u = 4 * g)"

lemma replicate_4: "replicate (4 * Suc k) x = x # x # x # x # replicate (4 * k) x"
  by (simp add: numeral_eq_Suc)

lemma words_from_erased: "words_from (replicate (4 * k) 0xff) g saw = Ok g"
proof (induction k arbitrary: saw)
  case (Suc k)
  then show ?case unfolding replicate_4 by simp
qed simp

lemma words_from_consumed:
  assumes "consumed_words u" and "length u = 4 * n" and "g + n \<le> u64_max"
  shows "words_from (u @ rest) g False = words_from rest (g + n) False"
  using assms
proof (induction u arbitrary: g n rule: consumed_words.induct)
  case (2 a b c d u)
  then obtain m where "n = Suc m" by (cases n) auto
  then show ?case using 2 by (simp add: ok_or_def checked_add_u64_def)
qed auto

lemma counter_decode:
  assumes "counter c g" and "length c \<le> usize_max"
  shows "decode_monotonic_words c = Ok g"
proof -
  obtain u k where c: "c = u @ replicate (4 * k) 0xff" "consumed_words u" "length u = 4 * g"
    using assms(1) by (auto simp: counter_def)
  have "g \<le> u64_max"
    using assms(2) c(1,3) by (simp add: usize_max_def u64_max_def)
  then show ?thesis
    unfolding decode_monotonic_words_def c(1)
    using words_from_consumed [OF c(2,3), of 0] words_from_erased c(3) by simp
qed

lemma consumed_append: "consumed_words u \<Longrightarrow> consumed_words v \<Longrightarrow> consumed_words (u @ v)"
  by (induction u rule: consumed_words.induct) auto

lemma replicate_small:
  "replicate 2 x = [x, x]" "replicate 3 x = [x, x, x]" "replicate 4 x = [x, x, x, x]"
  by (simp_all add: numeral_eq_Suc)

text \<open>Zeroing the first bytes of the next erased word consumes it.\<close>

lemma counter_step:
  assumes "counter c g" and "4 * g + 4 \<le> length c" and "j \<le> 4"
  shows "counter (overwrite c (4 * g) (replicate j 0)) (if j = 0 then g else Suc g)"
proof -
  obtain u k where c: "c = u @ replicate (4 * k) 0xff" "consumed_words u" "length u = 4 * g"
    using assms(1) by (auto simp: counter_def)
  obtain k' where k: "k = Suc k'"
    using assms(2) c(1,3) by (cases k) auto
  let ?w = "replicate j 0 @ replicate (4 - j) (0xff :: byte)"
  have o: "overwrite c (4 * g) (replicate j 0) = (u @ ?w) @ replicate (4 * k') 0xff"
    using c(1,3) assms(3) unfolding k by (simp add: overwrite_def) (metis Nat.add_diff_assoc2 replicate_add)
  show ?thesis
  proof (cases "j = 0")
    case True
    then show ?thesis using assms(1) by (simp add: overwrite_def)
  next
    case False
    then have "j = 1 \<or> j = 2 \<or> j = 3 \<or> j = 4" using assms(3) by auto
    then have "consumed_words ?w" by (auto simp: replicate_small)
    then have "consumed_words (u @ ?w)" using c(2) by (rule consumed_append [rotated])
    then show ?thesis
      unfolding o counter_def using False c(3) assms(3) by (intro exI [of _ "u @ ?w"] exI [of _ k']) simp
  qed
qed

lemma tick_cases:
  assumes "tick f = (r, f')"
  shows "f' = f\<lparr>mf_fail_after := mf_fail_after f'\<rparr>" and "mf_fail_after f = None \<Longrightarrow> r = Ok () \<and> mf_fail_after f' = None"
  using assms by (auto simp: tick_def split: option.splits nat.splits)

lemma ticks_cases:
  assumes "ticks n f = (r, f')"
  shows "f' = f\<lparr>mf_fail_after := mf_fail_after f'\<rparr> \<and> (mf_fail_after f = None \<longrightarrow> r = Ok () \<and> mf_fail_after f' = None)"
  using assms
proof (induction n arbitrary: f)
  case (Suc n)
  from Suc.prems consider e where "tick f = (Err e, f')" "r = Err e" | f1 where "tick f = (Ok (), f1)" "ticks n f1 = (r, f')"
    by (auto simp: sbind_eq)
  then show ?case
  proof cases
    case 1
    then show ?thesis using tick_cases [OF 1(1)] by auto
  next
    case 2
    note t = tick_cases [OF 2(1)] and i = Suc.IH [OF 2(2)]
    have "f' = f\<lparr>mf_fail_after := mf_fail_after f'\<rparr>"
      using t(1) i by (metis memory_flash.update_convs(5) memory_flash.surjective memory_flash.select_convs(5))
    then show ?thesis using t(2) i by auto
  qed
qed (auto simp: sret_def)

lemma counter_simps [simp]:
  "counter_of n (set_counter n c f) = c"
  "n \<noteq> m \<Longrightarrow> counter_of n (set_counter m c f) = counter_of n f"
  "mf_fail_after (set_counter n c f) = mf_fail_after f" "mf_slots (set_counter n c f) = mf_slots f"
  "mf_word_writes (set_counter n c f) = mf_word_writes f"
  "set_counter n c (f\<lparr>mf_fail_after := x\<rparr>) = (set_counter n c f)\<lparr>mf_fail_after := x\<rparr>"
  "counter_of n (f\<lparr>mf_fail_after := x\<rparr>) = counter_of n f"
  "set_counter n c (set_counter n d f) = set_counter n c f" "set_counter n (counter_of n f) f = f"
  by (auto simp: counter_of_def set_counter_def)

lemma zero_counter_cases:
  assumes "zero_counter nonce at n f = (r, f')" and "at + n \<le> length (counter_of nonce f)"
  shows "\<exists>j \<le> n. f' = (set_counter nonce (overwrite (counter_of nonce f) at (replicate j 0)) f)\<lparr>mf_fail_after := mf_fail_after f'\<rparr>
    \<and> (r = Ok () \<longrightarrow> j = n) \<and> (mf_fail_after f = None \<longrightarrow> r = Ok () \<and> mf_fail_after f' = None)"
  using assms
proof (induction n arbitrary: at f)
  case 0
  then show ?case by (auto simp: sret_def overwrite_def)
next
  case (Suc n)
  let ?c = "counter_of nonce f"
  from Suc.prems(1) consider e where "tick f = (Err e, f')" "r = Err e"
    | f1 where "tick f = (Ok (), f1)" "zero_counter nonce (at + 1) n (set_counter nonce ((counter_of nonce f1)[at := 0]) f1) = (r, f')"
    by (auto simp: sbind_eq smodify_def)
  then show ?case
  proof cases
    case 1
    then show ?thesis
      using tick_cases [OF 1(1)] by (intro exI [of _ 0]) (auto simp: overwrite_def)
  next
    case 2
    define x where "x = mf_fail_after f1"
    have f1: "f1 = f\<lparr>mf_fail_after := x\<rparr>" and calm: "mf_fail_after f = None \<Longrightarrow> x = None"
      using tick_cases [OF 2(1)] by (auto simp: x_def)
    let ?f2 = "(set_counter nonce (?c[at := 0]) f)\<lparr>mf_fail_after := x\<rparr>"
    have z: "zero_counter nonce (at + 1) n ?f2 = (r, f')"
      using 2(2) by (simp add: f1)
    have "at + 1 + n \<le> length (counter_of nonce ?f2)"
      using Suc.prems(2) by simp
    from Suc.IH [OF z this] obtain j where j: "j \<le> n"
      "f' = (set_counter nonce (overwrite (?c[at := 0]) (at + 1) (replicate j 0)) f)\<lparr>mf_fail_after := mf_fail_after f'\<rparr>"
      "r = Ok () \<longrightarrow> j = n" "x = None \<longrightarrow> r = Ok () \<and> mf_fail_after f' = None"
      by auto
    have "overwrite (?c[at := 0]) (at + 1) (replicate j 0) = overwrite ?c at (replicate (Suc j) 0)"
      using Suc.prems(2) by (simp add: overwrite_def take_Suc_conv_app_nth upd_conv_take_nth_drop min_def ac_simps)
    then show ?thesis
      using j calm by (intro exI [of _ "Suc j"]) auto
  qed
qed

lemma advance_counter:
  assumes "advance_word_counter (Suc g) nonce f = (r, f')" and c: "counter (counter_of nonce f) g"
    and "length (counter_of nonce f) \<le> usize_max"
  shows "\<exists>c. f' = (set_counter nonce c f)\<lparr>mf_fail_after := mf_fail_after f'\<rparr> \<and> length c = length (counter_of nonce f)
    \<and> (counter c g \<and> r \<noteq> Ok () \<or> counter c (Suc g))
    \<and> (mf_fail_after f = None \<and> 4 * Suc g \<le> length (counter_of nonce f) \<longrightarrow> r = Ok () \<and> mf_fail_after f' = None)"
proof (cases "4 * g + 4 \<le> length (counter_of nonce f)")
  case True
  obtain u k where u: "counter_of nonce f = u @ replicate (4 * k) 0xff" "length u = 4 * g"
    using c by (auto simp: counter_def)
  then have "slice_of (counter_of nonce f) (4 * g) (4 * g + 4) = replicate 4 0xff"
    using True by (simp add: slice_of_def min_def)
  moreover have "checked_sub (Suc g) 1 = Some g" "checked_mul g 4 = Some (4 * g)" "\<not> g > usize_max"
    using True assms(3) by simp_all
  moreover have "get_range (counter_of nonce f) (4 * g) (4 * g + 4) = Some (slice_of (counter_of nonce f) (4 * g) (4 * g + 4))"
    using True by (simp add: get_range_def)
  ultimately have "zero_counter nonce (4 * g) 4 f = (r, f')"
    using assms(1) by (simp add: advance_word_counter_def sbind_def sget_def slift_def ok_or_def list_ex_iff del: checked_eq_Some get_range_eq_Some)
  from zero_counter_cases [OF this True] show ?thesis
  proof (elim exE conjE)
    fix j assume j: "j \<le> 4"
      "f' = (set_counter nonce (overwrite (counter_of nonce f) (4 * g) (replicate j 0)) f)\<lparr>mf_fail_after := mf_fail_after f'\<rparr>"
      "r = Ok () \<longrightarrow> j = 4" "mf_fail_after f = None \<longrightarrow> r = Ok () \<and> mf_fail_after f' = None"
    let ?c = "overwrite (counter_of nonce f) (4 * g) (replicate j 0)"
    have len: "length ?c = length (counter_of nonce f)"
      using j(1) True by (simp add: length_overwrite)
    have ctr: "counter ?c g \<and> r \<noteq> Ok () \<or> counter ?c (Suc g)"
      using counter_step [OF c True j(1)] j(3) by (cases "j = 0") auto
    show ?thesis
      by (rule exI [of _ ?c], intro conjI) (fact j(2), fact len, fact ctr, use j(4) in blast)
  qed
next
  case False
  then have "r = Err Quota \<or> r = Err Storage" "f' = f"
    using assms(1) by (auto simp: advance_word_counter_def sbind_eq slift_def sget_def ok_or_def get_range_def mult.commute split: if_splits option.splits)
  then show ?thesis
    using c False by (intro exI [of _ "counter_of nonce f"]) auto
qed

definition mf_mono :: "memory_flash \<Rightarrow> nat" where
  "mf_mono f = (case decode_monotonic_words (mf_monotonic f) of Ok g \<Rightarrow> g | Err _ \<Rightarrow> 0)"

definition mf_nonce :: "memory_flash \<Rightarrow> nat" where
  "mf_nonce f = (case decode_monotonic_words (mf_nonces f) of Ok g \<Rightarrow> g | Err _ \<Rightarrow> 0)"

definition mf_wf :: "memory_flash \<Rightarrow> bool" where
  "mf_wf f \<longleftrightarrow> mf_slots f \<noteq> [] \<and> (\<forall>c \<in> set (mf_slots f). length c = mf_slot_size f)
     \<and> 4 dvd mf_slot_size f \<and> mf_slot_size f \<le> usize_max
     \<and> length (mf_nonces f) = length (mf_monotonic f) \<and> length (mf_monotonic f) \<le> usize_max
     \<and> (\<exists>g. counter (mf_monotonic f) g) \<and> (\<exists>g. counter (mf_nonces f) g)"

definition mf_content :: "memory_flash \<Rightarrow> nat \<Rightarrow> bytes" where
  "mf_content f s = (if s < length (mf_slots f) then mf_slots f ! s else [])"

definition mf_reboot :: "memory_flash \<Rightarrow> memory_flash" where
  "mf_reboot f = f\<lparr>mf_fail_after := None\<rparr>"

lemma mf_wf_counters:
  assumes "mf_wf f"
  shows "counter (mf_monotonic f) (mf_mono f)" "decode_monotonic_words (mf_monotonic f) = Ok (mf_mono f)"
    "4 * mf_mono f \<le> length (mf_monotonic f)" "counter (mf_nonces f) (mf_nonce f)"
    "decode_monotonic_words (mf_nonces f) = Ok (mf_nonce f)" "4 * mf_nonce f \<le> length (mf_nonces f)"
proof -
  obtain g h where c: "counter (mf_monotonic f) g" "counter (mf_nonces f) h"
    and l: "length (mf_monotonic f) \<le> usize_max" "length (mf_nonces f) \<le> usize_max"
    using assms by (auto simp: mf_wf_def)
  have "mf_mono f = g" "mf_nonce f = h"
    using counter_decode [OF c(1) l(1)] counter_decode [OF c(2) l(2)] by (simp_all add: mf_mono_def mf_nonce_def)
  then show "counter (mf_monotonic f) (mf_mono f)" "decode_monotonic_words (mf_monotonic f) = Ok (mf_mono f)"
    "4 * mf_mono f \<le> length (mf_monotonic f)" "counter (mf_nonces f) (mf_nonce f)"
    "decode_monotonic_words (mf_nonces f) = Ok (mf_nonce f)" "4 * mf_nonce f \<le> length (mf_nonces f)"
    using c counter_decode [OF c(1) l(1)] counter_decode [OF c(2) l(2)] by (auto simp: counter_def)
qed

text \<open>Two states that differ in one slot and in the bookkeeping of writes and faults.\<close>

definition differs_at :: "nat \<Rightarrow> memory_flash \<Rightarrow> memory_flash \<Rightarrow> bytes \<Rightarrow> bool" where
  "differs_at s f f' c \<longleftrightarrow> mf_slots f' = (mf_slots f)[s := c] \<and> mf_monotonic f' = mf_monotonic f \<and> mf_nonces f' = mf_nonces f"

lemma differs_trans: "differs_at s f f1 c \<Longrightarrow> differs_at s f1 f' d \<Longrightarrow> differs_at s f f' d"
  by (simp add: differs_at_def)

lemma differs_same: "mf_slots f' = mf_slots f \<Longrightarrow> mf_monotonic f' = mf_monotonic f \<Longrightarrow> mf_nonces f' = mf_nonces f \<Longrightarrow>
    differs_at s f f' (mf_slots f ! s)"
  by (simp add: differs_at_def)

lemma tick_differs:
  assumes "tick f = (r, f')"
  shows "differs_at s f f' (mf_slots f ! s)" "mf_slots f' = mf_slots f"
  using assms by (auto simp: tick_def differs_at_def split: option.splits nat.splits)

lemma ticks_differs: "ticks n f = (r, f') \<Longrightarrow> mf_slots f' = mf_slots f \<and> mf_monotonic f' = mf_monotonic f
    \<and> mf_nonces f' = mf_nonces f \<and> mf_word_writes f' = mf_word_writes f"
  using ticks_cases [of n f r f'] by (metis memory_flash.simps(1-4) memory_flash.update_convs(5) memory_flash.surjective)

lemma erase_bytes_cases:
  assumes "erase_bytes s at n f = (r, f')" and "s < length (mf_slots f)" and "at + n \<le> length (mf_slots f ! s)"
  shows "\<exists>k \<le> n. differs_at s f f' (overwrite (mf_slots f ! s) at (replicate k 0xff)) \<and> (r = Ok () \<longrightarrow> k = n)"
  using assms
proof (induction n arbitrary: at f)
  case 0
  then show ?case by (auto simp: sret_def overwrite_def differs_at_def)
next
  case (Suc n)
  let ?c = "mf_slots f ! s"
  from Suc.prems(1) consider e where "tick f = (Err e, f')" "r = Err e"
    | f1 where "tick f = (Ok (), f1)" "erase_bytes s (at + 1) n (put_slot s ((mf_slots f1 ! s)[at := 0xff]) f1) = (r, f')"
    by (auto simp: sbind_eq smodify_def)
  then show ?case
  proof cases
    case 1
    then show ?thesis
      using tick_differs(1) [OF 1(1), of s] by (intro exI [of _ 0]) (auto simp: overwrite_def)
  next
    case 2
    let ?f2 = "put_slot s (?c[at := 0xff]) f1"
    have f2: "mf_slots ?f2 = (mf_slots f)[s := ?c[at := 0xff]]" "mf_slots f1 = mf_slots f" "differs_at s f ?f2 (?c[at := 0xff])"
      using tick_differs(1) [OF 2(1), of s] tick_differs(2) [OF 2(1)] by (auto simp: put_slot_def differs_at_def)
    then obtain k where k: "k \<le> n" "differs_at s ?f2 f' (overwrite (?c[at := 0xff]) (at + 1) (replicate k 0xff))" "r = Ok () \<longrightarrow> k = n"
      using Suc.IH [of "at + 1" ?f2] 2(2) Suc.prems(2,3) by auto
    have "overwrite (?c[at := 0xff]) (at + 1) (replicate k 0xff) = overwrite ?c at (replicate (Suc k) 0xff)"
      using Suc.prems(3) by (simp add: overwrite_def take_Suc_conv_app_nth upd_conv_take_nth_drop min_def ac_simps)
    then show ?thesis
      using k differs_trans [OF f2(3)] by (intro exI [of _ "Suc k"]) auto
  qed
qed

lemma merged_torn:
  assumes "at + length b \<le> length c" and "4 dvd length c" and "4 dvd at" and "pos = at + 4 * k" and "pos < at + length b"
  shows "overwrite (torn_program c at b k) pos (merged_word (slice_of (torn_program c at b k) pos (pos + 4)) at b pos)
      = torn_program c at b (Suc k)"
proof -
  let ?t = "torn_program c at b k" and ?o = "slice_of (torn_program c at b k) pos (pos + 4)"
  have len: "length (torn_program c at b j) = length c" for j
    using assms(1) by (simp add: torn_program_def length_overwrite)
  have fin: "pos + 4 \<le> length c"
  proof -
    obtain m n where "length c = 4 * m" "pos = 4 * n"
      using assms(2-4) by (auto simp: dvd_def) (metis add_mult_distrib2)
    then show ?thesis using assms(1,5) by presburger
  qed
  have lo: "length ?o = 4" using fin by (simp add: len)
  have nth: "torn_program c at b j ! i = (if at \<le> i \<and> i < at + min (4 * j) (length b) then b ! (i - at) else c ! i)"
    if "i < length c" for i j
    using that assms(1) by (auto simp: torn_program_def nth_overwrite min_def)
  show ?thesis
  proof (rule nth_equalityI)
    show "length (overwrite ?t pos (merged_word ?o at b pos)) = length (torn_program c at b (Suc k))"
      using fin by (simp add: len length_overwrite merged_word_def lo)
    fix i assume "i < length (overwrite ?t pos (merged_word ?o at b pos))"
    then have i: "i < length c"
      using fin by (simp add: length_overwrite len merged_word_def lo)
    then show "overwrite ?t pos (merged_word ?o at b pos) ! i = torn_program c at b (Suc k) ! i"
      using fin assms(4) by (auto simp: nth_overwrite len merged_word_def lo nth)
  qed
qed

lemma program_word_cases:
  assumes "program_word s at b pos f = (r, f')" and "s < length (mf_slots f)" and "mf_slots f ! s = torn_program c at b k"
    and "length c = mf_slot_size f" and "at + length b \<le> length c" and "4 dvd length c" and "4 dvd at"
    and "pos = at + 4 * k" and "pos < at + length b"
  shows "differs_at s f f' (torn_program c at b (if r = Ok () then Suc k else k))"
proof -
  let ?t = "torn_program c at b k"
  have len: "length ?t = length c"
    using assms(5) by (simp add: torn_program_def length_overwrite)
  have "pos + 4 \<le> length c"
  proof -
    obtain m n where "length c = 4 * m" "pos = 4 * n"
      using assms(6-8) by (auto simp: dvd_def) (metis add_mult_distrib2)
    then show ?thesis using assms(5,9) by presburger
  qed
  then have fin: "min (pos + 4) (mf_slot_size f) = pos + 4"
    using assms(4) by simp
  define merged where "merged = merged_word (slice_of ?t pos (pos + 4)) at b pos"
  have torn: "overwrite ?t pos merged = torn_program c at b (Suc k)"
    unfolding merged_def by (rule merged_torn [OF assms(5-9)])
  have same: "differs_at s f f ?t"
    using assms(3) by (simp add: differs_at_def flip: assms(3))
  have stay: "torn_program c at b (Suc k) = ?t" if "merged = slice_of ?t pos (pos + 4)"
    using torn that \<open>pos + 4 \<le> length c\<close> len by (simp flip: torn add: overwrite_slice_of)
  have cases: "(r = Ok () \<and> f' = f \<and> merged = slice_of ?t pos (pos + 4)) \<or> (r \<noteq> Ok () \<and> f' = f)
      \<or> (\<exists>q f1. ticks (pos + 4 - pos) f = (q, f1) \<and> (q \<noteq> Ok () \<and> r \<noteq> Ok () \<and> f' = f1
           \<or> q = Ok () \<and> r = Ok () \<and> mf_slots f' = (mf_slots f1)[s := overwrite (mf_slots f1 ! s) pos merged]
             \<and> mf_monotonic f' = mf_monotonic f1 \<and> mf_nonces f' = mf_nonces f1))"
    using assms(1) unfolding program_word_def Let_def fin assms(3) merged_def [symmetric]
    by (auto simp: sbind_eq smodify_def put_slot_def split: if_splits)
  then show ?thesis
  proof (elim disjE exE conjE)
    fix q f1 assume t: "ticks (pos + 4 - pos) f = (q, f1)" and "r = Ok ()"
      and f': "mf_slots f' = (mf_slots f1)[s := overwrite (mf_slots f1 ! s) pos merged]"
        "mf_monotonic f' = mf_monotonic f1" "mf_nonces f' = mf_nonces f1"
    then show ?thesis
      using ticks_differs [OF t] torn assms(3) by (simp add: differs_at_def)
  next
    fix q f1 assume t: "ticks (pos + 4 - pos) f = (q, f1)" and "r \<noteq> Ok ()" "f' = f1"
    then show ?thesis
      using ticks_differs [OF t] same by (simp add: differs_at_def)
  qed (use same stay in auto)
qed

lemma program_words_cases:
  assumes "program_words s at b pos fin f = (r, f')" and "s < length (mf_slots f)" and "mf_slots f ! s = torn_program c at b k"
    and "length c = mf_slot_size f" and "at + length b \<le> length c" and "4 dvd length c" and "4 dvd at"
    and "pos = at + 4 * k" and "fin = (at + length b + 3) div 4 * 4"
    and "\<forall>x \<in> set (mf_slots f). length x = mf_slot_size f"
  shows "\<exists>k'. differs_at s f f' (torn_program c at b k') \<and> (r = Ok () \<longrightarrow> length b \<le> 4 * k')"
  using assms
proof (induction s at b pos fin f arbitrary: k rule: program_words.induct)
  case (1 s at b pos fin f)
  have same: "differs_at s f f (torn_program c at b k)"
    using 1(4) by (simp add: differs_at_def flip: 1(4))
  show ?case
  proof (cases "pos < fin")
    case False
    then have "length b \<le> 4 * k" using 1(8,9,10) by (auto simp: dvd_def)
    then show ?thesis
      using 1(2) False same by (auto simp: program_words.simps)
  next
    case True
    have inside: "pos < at + length b"
      using True 1(9,10) div_times_less_eq_dividend [of "at + length b + 3" 4] 1(8) by (auto simp: dvd_def) presburger
    obtain q f1 where w: "program_word s at b pos f = (q, f1)" by fastforce
    note d = program_word_cases [OF w 1(3-9) inside]
    show ?thesis
    proof (cases "q = Ok ()")
      case False
      then have "r \<noteq> Ok ()" "f' = f1"
        using 1(2) True w by (cases q; auto simp: program_words.simps [of s at b pos fin f] sbind_def)+
      then show ?thesis using d False by auto
    next
      case ok: True
      have len: "length (torn_program c at b (Suc k)) = length c"
        using 1(6) by (simp add: torn_program_def length_overwrite)
      have f1: "s < length (mf_slots f1)" "mf_slots f1 ! s = torn_program c at b (Suc k)"
        "length c = mf_slot_size f1" "\<forall>x \<in> set (mf_slots f1). length x = mf_slot_size f1"
        using d ok 1(3,5,11) len by (auto simp: differs_at_def mf_slot_size_def nth_list_update dest!: set_update_subset_insert [THEN subsetD])
      have w1: "program_word s at b pos f = (Ok (), f1)" and rest: "program_words s at b (pos + 4) fin f1 = (r, f')"
        using 1(2) True w ok by (simp_all add: program_words.simps [of s at b pos fin f] sbind_def)
      have "pos + 4 = at + 4 * Suc k" using 1(9) by simp
      then obtain k' where "differs_at s f1 f' (torn_program c at b k')" "r = Ok () \<longrightarrow> length b \<le> 4 * k'"
        using 1(1) [OF True w1 rest f1(1,2,3) 1(6-8) _ 1(10) f1(4)] by blast
      then show ?thesis
        using differs_trans [OF d] by blast
    qed
  qed
qed

lemma differs_wf:
  assumes "mf_wf f" and "differs_at s f f' c" and "s < length (mf_slots f)" and "length c = mf_slot_size f"
  shows "mf_wf f'" and "same_shape_flash mf_ops f f'" and "mf_content f' = (mf_content f)(s := c)"
    and "mf_mono f' = mf_mono f" and "mf_nonce f' = mf_nonce f"
proof -
  have sz: "mf_slot_size f' = mf_slot_size f"
    using assms by (auto simp: mf_slot_size_def differs_at_def nth_list_update)
  show "mf_wf f'"
    using assms sz by (auto simp: mf_wf_def differs_at_def dest!: set_update_subset_insert [THEN subsetD])
  show "same_shape_flash mf_ops f f'"
    using assms(2) sz by (simp add: same_shape_flash_def mf_ops_def differs_at_def)
  show "mf_content f' = (mf_content f)(s := c)"
    using assms(2,3) by (auto simp: mf_content_def differs_at_def fun_eq_iff nth_list_update)
  show "mf_mono f' = mf_mono f" "mf_nonce f' = mf_nonce f"
    using assms(2) by (simp_all add: mf_mono_def mf_nonce_def differs_at_def)
qed

lemma mf_slot_size_simps [simp]:
  "mf_slot_size (set_counter n c f) = mf_slot_size f" "mf_slot_size (f\<lparr>mf_fail_after := x\<rparr>) = mf_slot_size f"
  "mf_slot_size (f\<lparr>mf_monotonic := c\<rparr>) = mf_slot_size f" "mf_slot_size (f\<lparr>mf_nonces := c\<rparr>) = mf_slot_size f"
  by (simp_all add: mf_slot_size_def)

lemma counter_update_wf:
  assumes "mf_wf f" and f': "f' = (set_counter nonce c f)\<lparr>mf_fail_after := x\<rparr>" and "counter c g"
    and "length c = length (counter_of nonce f)"
  shows "mf_wf f'" and "same_shape_flash mf_ops f f'" and "mf_content f' = mf_content f"
    and "if nonce then mf_nonce f' = g \<and> mf_mono f' = mf_mono f else mf_mono f' = g \<and> mf_nonce f' = mf_nonce f"
proof -
  have d: "decode_monotonic_words c = Ok g"
    using assms(1,3,4) by (intro counter_decode) (auto simp: mf_wf_def counter_of_def split: if_splits)
  show "mf_wf f'"
    using assms(1,3,4) by (cases nonce) (auto simp: mf_wf_def f' set_counter_def counter_of_def)
  show "same_shape_flash mf_ops f f'"
    using assms(4) by (auto simp: same_shape_flash_def mf_ops_def f' set_counter_def counter_of_def)
  show "mf_content f' = mf_content f"
    by (auto simp: mf_content_def f' set_counter_def fun_eq_iff)
  show "if nonce then mf_nonce f' = g \<and> mf_mono f' = mf_mono f else mf_mono f' = g \<and> mf_nonce f' = mf_nonce f"
    using d by (simp add: f' set_counter_def mf_mono_def mf_nonce_def)
qed

lemma mf_advance:
  assumes "mf_wf f" and "advance_word_counter (Suc (if nonce then mf_nonce f else mf_mono f)) nonce f = (r, f')"
  shows "mf_wf f' \<and> same_shape_flash mf_ops f f' \<and> mf_content f' = mf_content f
    \<and> (if nonce then mf_mono f' = mf_mono f \<and> (mf_nonce f' = mf_nonce f \<and> r \<noteq> Ok () \<or> mf_nonce f' = Suc (mf_nonce f))
       else mf_nonce f' = mf_nonce f \<and> (mf_mono f' = mf_mono f \<and> r \<noteq> Ok () \<or> mf_mono f' = Suc (mf_mono f)))
    \<and> (mf_fail_after f = None \<and> (if nonce then mf_nonce f else mf_mono f) < length (counter_of nonce f) div 4 \<longrightarrow> r = Ok ())"
proof -
  let ?g = "if nonce then mf_nonce f else mf_mono f"
  have c: "counter (counter_of nonce f) ?g" "length (counter_of nonce f) \<le> usize_max"
    using mf_wf_counters [OF assms(1)] assms(1) by (auto simp: counter_of_def mf_wf_def)
  from advance_counter [OF assms(2) c] show ?thesis
  proof (elim exE conjE)
    fix d assume d: "f' = (set_counter nonce d f)\<lparr>mf_fail_after := mf_fail_after f'\<rparr>" "length d = length (counter_of nonce f)"
      "counter d ?g \<and> r \<noteq> Ok () \<or> counter d (Suc ?g)"
      and ok: "mf_fail_after f = None \<and> 4 * Suc ?g \<le> length (counter_of nonce f) \<longrightarrow> r = Ok () \<and> mf_fail_after f' = None"
    have "mf_fail_after f = None \<and> ?g < length (counter_of nonce f) div 4 \<longrightarrow> r = Ok ()"
      using ok by (auto split: if_splits)
    moreover obtain h where h: "counter d h" "h = ?g \<and> r \<noteq> Ok () \<or> h = Suc ?g" using d(3) by blast
    ultimately show ?thesis
      using counter_update_wf [OF assms(1) d(1) h(1) d(2)] h(2) by (cases nonce) auto
  qed
qed

lemma mf_reserve_cases:
  assumes wf: "mf_wf f" and "mf_reserve_nonce f = (q, f')"
  shows "mf_wf f' \<and> same_shape_flash mf_ops f f' \<and> mf_content f' = mf_content f \<and> mf_mono f' = mf_mono f
    \<and> (mf_nonce f' = mf_nonce f \<or> mf_nonce f' = Suc (mf_nonce f)) \<and> (\<forall>v. q = Ok v \<longrightarrow> v = Suc (mf_nonce f) \<and> mf_nonce f' = v)"
proof -
  have "mf_nonce f + 1 \<le> u64_max"
    using mf_wf_counters(6) [OF wf] wf by (simp add: mf_wf_def usize_max_def u64_max_def)
  then obtain r where r: "advance_word_counter (Suc (mf_nonce f)) True f = (r, f')" "q = (case r of Ok _ \<Rightarrow> Ok (Suc (mf_nonce f)) | Err e \<Rightarrow> Err e)"
    using assms(2) mf_wf_counters(5) [OF wf]
    by (auto simp: mf_reserve_nonce_def mf_nonce_generation_def sbind_eq sget_def slift_def sret_def ok_or_def checked_add_u64_def
        split: result.splits)
  from mf_advance [OF wf, of True r f'] r show ?thesis
    by (auto split: result.splits)
qed

lemma mf_reboot_advance:
  assumes "mf_wf f" and "mf_mono f < length (mf_monotonic f) div 4"
  shows "fst (advance_word_counter (Suc (mf_mono f)) False (mf_reboot f)) = Ok ()"
proof -
  have "mf_wf (mf_reboot f)" "mf_mono (mf_reboot f) = mf_mono f" "mf_fail_after (mf_reboot f) = None"
    "counter_of False (mf_reboot f) = mf_monotonic f"
    using assms(1) by (auto simp: mf_reboot_def mf_wf_def mf_mono_def counter_of_def)
  then show ?thesis
    using mf_advance [of "mf_reboot f" False "fst (advance_word_counter (Suc (mf_mono f)) False (mf_reboot f))"
        "snd (advance_word_counter (Suc (mf_mono f)) False (mf_reboot f))"] assms(2) by simp
qed

lemma mf_erase_cases:
  assumes wf: "mf_wf f" and s: "s < length (mf_slots f)" and "mf_erase s f = (r, f')"
  shows "mf_wf f' \<and> same_shape_flash mf_ops f f' \<and> mf_mono f' = mf_mono f \<and> mf_nonce f' = mf_nonce f
    \<and> (\<exists>k \<le> mf_slot_size f. mf_content f' = (mf_content f)(s := torn_erase (mf_slots f ! s) k) \<and> (r = Ok () \<longrightarrow> k = mf_slot_size f))"
proof -
  have len: "length (mf_slots f ! s) = mf_slot_size f"
    using wf s by (simp add: mf_wf_def)
  obtain f1 where e: "erase_bytes s 0 (mf_slot_size f) f = (r, f1)" and f': "differs_at s f1 f' (mf_slots f1 ! s)"
    using assms(3) by (auto simp: mf_erase_def sbind_eq sget_def smodify_def differs_at_def)
  obtain k where k: "k \<le> mf_slot_size f" "differs_at s f f1 (overwrite (mf_slots f ! s) 0 (replicate k 0xff))" "r = Ok () \<longrightarrow> k = mf_slot_size f"
    using erase_bytes_cases [OF e s] len by auto
  have t: "overwrite (mf_slots f ! s) 0 (replicate k 0xff) = torn_erase (mf_slots f ! s) k"
    by (simp add: overwrite_def torn_erase_def)
  have d: "differs_at s f f' (torn_erase (mf_slots f ! s) k)"
    using k(2) f' s unfolding t by (auto simp: differs_at_def)
  have "length (torn_erase (mf_slots f ! s) k) = mf_slot_size f"
    using len k(1) by (simp add: torn_erase_def)
  from differs_wf [OF wf d s this] show ?thesis
    using k(1,3) by blast
qed

lemma mf_program_cases:
  assumes wf: "mf_wf f" and s: "s < length (mf_slots f)" and a: "4 dvd at" and b: "at + length b \<le> mf_slot_size f"
    and "mf_program s at b f = (r, f')"
  shows "mf_wf f' \<and> same_shape_flash mf_ops f f' \<and> mf_mono f' = mf_mono f \<and> mf_nonce f' = mf_nonce f
    \<and> (\<exists>k. mf_content f' = (mf_content f)(s := torn_program (mf_slots f ! s) at b k) \<and> (r = Ok () \<longrightarrow> length b \<le> 4 * k))"
proof -
  let ?c = "mf_slots f ! s"
  have len: "length ?c = mf_slot_size f"
    using wf s by (simp add: mf_wf_def)
  have p: "program_words s at b (at + 4 * 0) ((at + length b + 3) div 4 * 4) f = (r, f')"
    using assms(5) a b wf by (simp add: mf_program_def checked_add_def mf_wf_def split: if_splits)
  have "mf_slots f ! s = torn_program ?c at b 0"
    using len b by (simp add: torn_program_def overwrite_def)
  from program_words_cases [OF p s this len _ _ a refl refl] obtain k where
    k: "differs_at s f f' (torn_program ?c at b k)" "r = Ok () \<longrightarrow> length b \<le> 4 * k"
    using len b wf by (auto simp: mf_wf_def)
  have "length (torn_program ?c at b k) = mf_slot_size f"
    using len b by (simp add: torn_program_def length_overwrite)
  from differs_wf [OF wf k(1) s this] show ?thesis
    using k(2) by blast
qed

interpretation memory: journal_flash mf_ops mf_content mf_mono mf_nonce mf_wf mf_reboot
proof unfold_locales
  fix f f' :: memory_flash and s at n :: nat and b :: bytes and r :: "unit res" and q :: "nat res"
  assume wf: "mf_wf f"
  show "4 dvd jf_slot_size mf_ops f \<and> jf_slot_size mf_ops f \<le> usize_max"
    using wf by (simp add: mf_ops_def mf_wf_def)
  show "jf_monotonic_generation mf_ops f = Ok (mf_mono f) \<and> mf_mono f \<le> jf_monotonic_capacity mf_ops f"
    using mf_wf_counters [OF wf] by (simp add: mf_ops_def)
  show "jf_nonce_generation mf_ops f = Ok (mf_nonce f) \<and> mf_nonce f \<le> jf_nonce_capacity mf_ops f"
    using mf_wf_counters [OF wf] wf by (simp add: mf_ops_def mf_nonce_generation_def mf_wf_def)
  show "jf_nonce_capacity mf_ops f \<le> usize_max \<and> jf_monotonic_capacity mf_ops f \<le> usize_max"
  proof -
    have "length (mf_monotonic f) div 4 \<le> usize_max"
      using wf div_le_dividend [of "length (mf_monotonic f)" 4] unfolding mf_wf_def by linarith
    then show ?thesis by (simp add: mf_ops_def)
  qed
  show "jf_advance_monotonic mf_ops (Suc (mf_mono f)) f = (r, f') \<Longrightarrow>
      mf_wf f' \<and> same_shape_flash mf_ops f f' \<and> mf_content f' = mf_content f \<and> mf_nonce f' = mf_nonce f
      \<and> (mf_mono f' = mf_mono f \<or> mf_mono f' = Suc (mf_mono f)) \<and> (r = Ok () \<longrightarrow> mf_mono f' = Suc (mf_mono f))"
    using mf_advance [OF wf, of False r f'] by (auto simp: mf_ops_def)
  show "jf_reserve_nonce mf_ops f = (q, f') \<Longrightarrow>
      mf_wf f' \<and> same_shape_flash mf_ops f f' \<and> mf_content f' = mf_content f \<and> mf_mono f' = mf_mono f
      \<and> (mf_nonce f' = mf_nonce f \<or> mf_nonce f' = Suc (mf_nonce f)) \<and> (\<forall>v. q = Ok v \<longrightarrow> v = Suc (mf_nonce f) \<and> mf_nonce f' = v)"
    using mf_reserve_cases [OF wf, of q f'] by (simp add: mf_ops_def)
  show "mf_wf (mf_reboot f) \<and> same_shape_flash mf_ops f (mf_reboot f) \<and> mf_content (mf_reboot f) = mf_content f
      \<and> mf_mono (mf_reboot f) = mf_mono f \<and> mf_nonce (mf_reboot f) = mf_nonce f"
    using wf by (auto simp: mf_reboot_def mf_wf_def same_shape_flash_def mf_ops_def mf_content_def mf_mono_def mf_nonce_def
        fun_eq_iff)
  show "mf_mono f < jf_monotonic_capacity mf_ops f \<Longrightarrow> fst (jf_advance_monotonic mf_ops (Suc (mf_mono f)) (mf_reboot f)) = Ok ()"
    using mf_reboot_advance [OF wf] by (simp add: mf_ops_def)
  assume s: "s < jf_slot_count mf_ops f"
  then have len: "length (mf_slots f ! s) = mf_slot_size f" "s < length (mf_slots f)"
    using wf by (auto simp: mf_wf_def mf_ops_def)
  show "length (mf_content f s) = jf_slot_size mf_ops f"
    using len by (simp add: mf_content_def mf_ops_def)
  show "jf_is_erased mf_ops s f = Ok (list_all (\<lambda>b. b = 0xff) (mf_content f s))"
    using len by (simp add: mf_ops_def mf_is_erased_def get_at_def mf_content_def)
  show "at + n \<le> jf_slot_size mf_ops f \<Longrightarrow> jf_read mf_ops s at n f = Ok (slice_of (mf_content f s) at (at + n))"
    using len wf by (simp add: mf_ops_def mf_read_def get_at_def mf_content_def mf_wf_def checked_add_def get_range_def)
  show "jf_erase mf_ops s f = (r, f') \<Longrightarrow> mf_wf f' \<and> same_shape_flash mf_ops f f' \<and> mf_mono f' = mf_mono f \<and> mf_nonce f' = mf_nonce f
      \<and> (\<exists>k \<le> jf_slot_size mf_ops f. mf_content f' = (mf_content f)(s := torn_erase (mf_content f s) k)
           \<and> (r = Ok () \<longrightarrow> k = jf_slot_size mf_ops f))"
    using mf_erase_cases [OF wf len(2), of r f'] len by (simp add: mf_ops_def mf_content_def)
  show "4 dvd at \<Longrightarrow> at + length b \<le> jf_slot_size mf_ops f \<Longrightarrow> jf_program mf_ops s at b f = (r, f') \<Longrightarrow>
      mf_wf f' \<and> same_shape_flash mf_ops f f' \<and> mf_mono f' = mf_mono f \<and> mf_nonce f' = mf_nonce f
      \<and> (\<exists>k. mf_content f' = (mf_content f)(s := torn_program (mf_content f s) at b k) \<and> (r = Ok () \<longrightarrow> length b \<le> 4 * k))"
    using mf_program_cases [OF wf len(2), of "at" b r f'] len by (simp add: mf_ops_def mf_content_def)
qed

end
