(* ===== verification/Journal_Record.thy ===== *)
theory Journal_Record
  imports Journal_Flash
begin

text \<open>
  Records of the journal (\<open>src/crates/microcard-core/src/journal.rs\<close>) and of its append frames
  (\<open>journal/append.rs\<close>): generations and anchors, the record header, sealing, and replay of appended
  frames. Generations and attempts are \<open>u64\<close> numbers. AES-CCM belongs to the crypto provider: it is
  the pair of functions of an \<open>aead\<close>, acting on a buffer in place and answering how many bytes it
  wrote. The callback that applies a change to a snapshot is an argument.
\<close>

section \<open>Generations\<close>

definition HEADER_BYTES :: nat where "HEADER_BYTES = 24"
definition TAIL_BYTES :: nat where "TAIL_BYTES = 12"
definition RECLAIM_STARTED :: nat where "RECLAIM_STARTED = TAIL_BYTES"
definition RECLAIM_COMPLETE :: nat where "RECLAIM_COMPLETE = TAIL_BYTES - 4"
definition COMMITTED :: nat where "COMMITTED = TAIL_BYTES - 8"
definition RECORD_OVERHEAD :: nat where "RECORD_OVERHEAD = HEADER_BYTES + 16"
definition OVERHEAD :: nat where "OVERHEAD = RECORD_OVERHEAD + TAIL_BYTES"

lemmas journal_sizes =
  HEADER_BYTES_def TAIL_BYTES_def RECLAIM_STARTED_def RECLAIM_COMPLETE_def COMMITTED_def RECORD_OVERHEAD_def OVERHEAD_def

datatype durability = Ordinary | Anchored

datatype checkpoint_reason = ApduEnd | TransactionCommit | Installation | OwnerPin

definition durability_of :: "checkpoint_reason \<Rightarrow> durability" where
  "durability_of reason = (case reason of ApduEnd \<Rightarrow> Ordinary | TransactionCommit \<Rightarrow> Ordinary
     | Installation \<Rightarrow> Anchored | OwnerPin \<Rightarrow> Anchored)"

definition u32_max :: nat where "u32_max = 2 ^ 32 - 1"

definition low32 :: "nat \<Rightarrow> nat" where "low32 g = g mod 2 ^ 32"

definition anchor :: "nat \<Rightarrow> bool \<Rightarrow> nat" where
  "anchor generation append_enabled = (if append_enabled then generation div 2 ^ 32 else generation)"

definition next_generation :: "nat \<Rightarrow> bool \<Rightarrow> durability \<Rightarrow> nat res" where
  "next_generation generation append_enabled durability =
     (if \<not> append_enabled then ok_or (checked_add_u64 generation 1) Quota
      else if low32 generation + 1 > u32_max then Err Quota
      else
        let sequence = low32 generation + 1 in
        rbind (ok_or (checked_add_u64 (anchor generation True) (of_bool (durability = Anchored))) Quota) (\<lambda>anchored.
        if anchored = 0 \<or> anchored > u32_max then Err Quota
        else Ok (anchored * 2 ^ 32 + sequence)))"

section \<open>Record headers\<close>

record record_header =
  rh_append_enabled :: bool
  rh_generation :: nat
  rh_attempt :: nat
  rh_payload_length :: nat

definition magic :: "string \<Rightarrow> bytes" where
  "magic = map of_char"

definition encode_header :: "record_header \<Rightarrow> bytes" where
  "encode_header h =
     (if rh_append_enabled h then magic ''MJ09'' else magic ''MJ08'')
     @ le_bytes 8 (rh_generation h) @ le_bytes 8 (rh_attempt h) @ le_bytes 4 (rh_payload_length h)"

definition old_magic :: "bytes \<Rightarrow> bool" where
  "old_magic bs \<longleftrightarrow> take 4 bs \<in> set (map magic [''MJ01'', ''MJ02'', ''MJ03'', ''MJ04'', ''MJ05'', ''MJ06'', ''MJ07''])"

definition decode_header :: "bytes \<Rightarrow> nat \<Rightarrow> nat \<Rightarrow> record_header res" where
  "decode_header bs capacity reserved_nonce =
     (if old_magic bs then Err IncompatibleState
      else
        rbind (if take 4 bs = magic ''MJ08'' then Ok False else if take 4 bs = magic ''MJ09'' then Ok True else Err Storage) (\<lambda>append.
        let h = \<lparr>rh_append_enabled = append, rh_generation = le_value (slice_of bs 4 12),
                 rh_attempt = le_value (slice_of bs 12 20), rh_payload_length = le_value (slice_of bs 20 24)\<rparr> in
        if rh_attempt h = 0 \<or> rh_attempt h > reserved_nonce \<or> rh_payload_length h < 16 \<or> rh_payload_length h > capacity
        then Err Storage
        else if append \<and> (anchor (rh_generation h) True = 0 \<or> low32 (rh_generation h) = 0) then Err Storage
        else Ok h))"

section \<open>Sealing\<close>

text \<open>
  The buffer of a snapshot may be too small for the record, and then a new one is reserved; the
  model reserves in every case, so that a failing allocation is always possible.
\<close>

record aead =
  ccm_encrypt :: "bytes \<Rightarrow> bytes \<Rightarrow> bytes \<Rightarrow> bytes \<Rightarrow> (nat \<times> bytes) res"
  ccm_decrypt :: "bytes \<Rightarrow> bytes \<Rightarrow> bytes \<Rightarrow> bytes \<Rightarrow> (nat \<times> bytes) res"

definition prepare_record :: "alloc \<Rightarrow> bytes \<Rightarrow> (bytes \<times> nat) res" where
  "prepare_record alloc data =
     rbind (ok_or (checked_add (length data) 16) Quota) (\<lambda>payload_length.
     if payload_length > u32_max then Err Quota
     else
       rbind (ok_or (checked_add HEADER_BYTES payload_length) Quota) (\<lambda>record_length.
       rbind (try_reserve alloc record_length) (\<lambda>_.
       Ok (overwrite (data @ replicate (record_length - length data) 0) HEADER_BYTES data, payload_length))))"

definition encrypt_record :: "aead \<Rightarrow> bytes \<Rightarrow> bytes \<Rightarrow> record_header \<Rightarrow> bytes \<Rightarrow> bytes res" where
  "encrypt_record A record key header nonce =
     (let record' = overwrite record 0 (encode_header header) in
      rbind (ccm_encrypt A key nonce (take HEADER_BYTES record') (drop HEADER_BYTES record')) (\<lambda>(written, ciphertext).
      if written \<noteq> length (drop HEADER_BYTES record') then Err Storage
      else Ok (take HEADER_BYTES record' @ ciphertext)))"

definition record_nonce :: "nat \<Rightarrow> bytes" where
  "record_nonce attempt = map of_char ''MCJN3'' @ le_bytes 8 attempt"

section \<open>Append frames\<close>

definition MARKER_BYTES :: nat where "MARKER_BYTES = 4"
definition MAX_FRAME_BYTES :: nat where "MAX_FRAME_BYTES = 1024"
definition MIN_FRAME_BYTES :: nat where "MIN_FRAME_BYTES = HEADER_BYTES + 16 + MARKER_BYTES"
definition MAX_PAYLOAD :: nat where "MAX_PAYLOAD = MAX_FRAME_BYTES - MIN_FRAME_BYTES"

definition frame_end :: "'f jflash \<Rightarrow> 'f \<Rightarrow> nat \<Rightarrow> nat \<Rightarrow> nat res" where
  "frame_end ops f at n =
     (if \<not> 4 dvd at then Err Bounds
      else if n > MAX_PAYLOAD then Err Quota
      else case checked_add at MIN_FRAME_BYTES of None \<Rightarrow> Err Quota | Some a \<Rightarrow>
        case checked_add a n of None \<Rightarrow> Err Quota | Some b \<Rightarrow>
        case checked_add b 3 of None \<Rightarrow> Err Quota | Some c \<Rightarrow>
        let fin = c div 4 * 4 in
        if fin \<le> jf_slot_size ops f - TAIL_BYTES then Ok fin else Err Quota)"

function erased_range :: "'f jflash \<Rightarrow> 'f \<Rightarrow> nat \<Rightarrow> nat \<Rightarrow> nat \<Rightarrow> bool res" where
  "erased_range ops f slot offset fin =
     (if offset < fin then
        let count = min (fin - offset) 64 in
        rbind (jf_read ops slot offset count f) (\<lambda>bs.
        if list_ex (\<lambda>b. b \<noteq> 0xff) bs then Ok False
        else erased_range ops f slot (offset + count) fin)
      else Ok True)"
  by pat_completeness auto
termination
  by (relation "measure (\<lambda>(_, _, _, offset, fin). fin - offset)") auto

declare erased_range.simps [simp del]

definition append_nonce :: "nat \<Rightarrow> nat \<Rightarrow> bytes res" where
  "append_nonce attempt offset =
     (if offset > u32_max then Err Bounds else Ok (map of_char ''A'' @ le_bytes 8 attempt @ le_bytes 4 offset))"

definition zeroizing_buffer :: "alloc \<Rightarrow> nat \<Rightarrow> unit res" where
  "zeroizing_buffer alloc n = try_reserve alloc n"

definition frame_follows :: "record_header \<Rightarrow> nat \<Rightarrow> nat \<Rightarrow> bool res" where
  "frame_follows h generation base_attempt =
     (if low32 generation + 1 > u32_max then Err Storage
      else Ok (rh_append_enabled h \<and> low32 (rh_generation h) = low32 generation + 1
        \<and> (anchor (rh_generation h) True = anchor generation True \<or> anchor (rh_generation h) True = anchor generation True + 1)
        \<and> rh_attempt h = base_attempt))"

text \<open>One frame: its payload, its end and its generation, or \<open>None\<close> where no complete frame starts.\<close>

definition open_frame :: "aead \<Rightarrow> 'f jflash \<Rightarrow> alloc \<Rightarrow> 'f \<Rightarrow> bytes \<Rightarrow> nat \<Rightarrow> nat \<Rightarrow> nat \<Rightarrow> bytes \<Rightarrow> record_header \<Rightarrow> nat \<Rightarrow>
    (bytes \<times> nat \<times> nat) res" where
  "open_frame A ops alloc f key slot at base_attempt bs h fin =
     rbind (zeroizing_buffer alloc (rh_payload_length h)) (\<lambda>_.
     rbind (jf_read ops slot (at + HEADER_BYTES) (rh_payload_length h) f) (\<lambda>payload.
     rbind (append_nonce base_attempt at) (\<lambda>nonce.
     rbind (ccm_decrypt A key nonce bs payload) (\<lambda>(written, plain).
     if written \<noteq> length payload - 16 then Err Storage
     else Ok (take written plain, fin, rh_generation h)))))"

definition accept_frame :: "aead \<Rightarrow> 'f jflash \<Rightarrow> alloc \<Rightarrow> 'f \<Rightarrow> bytes \<Rightarrow> nat \<Rightarrow> nat \<Rightarrow> nat \<Rightarrow> nat \<Rightarrow> bytes \<Rightarrow> record_header \<Rightarrow>
    (bytes \<times> nat \<times> nat) option res" where
  "accept_frame A ops alloc f key slot at generation base_attempt bs h =
     (case frame_end ops f at (rh_payload_length h - 16) of
        Err e \<Rightarrow> if e = Quota then Ok None else Err e
      | Ok fin \<Rightarrow>
          rbind (jf_read ops slot (fin - MARKER_BYTES) MARKER_BYTES f) (\<lambda>marker.
          if marker \<noteq> replicate MARKER_BYTES 0 then Ok None
          else
            rbind (frame_follows h generation base_attempt) (\<lambda>follows.
            if \<not> follows then Err Format
            else rbind (open_frame A ops alloc f key slot at base_attempt bs h fin) (\<lambda>r. Ok (Some r)))))"

definition read_frame :: "aead \<Rightarrow> 'f jflash \<Rightarrow> alloc \<Rightarrow> 'f \<Rightarrow> bytes \<Rightarrow> nat \<Rightarrow> nat \<Rightarrow> nat \<Rightarrow> nat \<Rightarrow>
    (bytes \<times> nat \<times> nat) option res" where
  "read_frame A ops alloc f key slot at generation base_attempt =
     rbind (frame_end ops f at 0) (\<lambda>_.
     rbind (jf_read ops slot at HEADER_BYTES f) (\<lambda>bs.
     if list_all (\<lambda>b. b = 0xff) bs then Ok None
     else
       rbind (jf_nonce_generation ops f) (\<lambda>reserved.
       if reserved > jf_nonce_capacity ops f then Err Storage
       else case decode_header bs (MAX_PAYLOAD + 16) reserved of
         Err e \<Rightarrow> if e = IncompatibleState then Err e else Ok None
       | Ok h \<Rightarrow> accept_frame A ops alloc f key slot at generation base_attempt bs h)))"

lemma frame_end_bounds:
  assumes "frame_end ops f at n = Ok fin"
  shows "at + MIN_FRAME_BYTES + n \<le> fin" "fin < at + MIN_FRAME_BYTES + n + 4" "fin \<le> jf_slot_size ops f - TAIL_BYTES" "4 dvd fin" "4 dvd at"
  using assms by (auto simp: frame_end_def Let_def MIN_FRAME_BYTES_def MARKER_BYTES_def HEADER_BYTES_def
      split: if_splits option.splits)

lemma accept_frame_end:
  assumes "accept_frame A ops alloc f key slot at generation base bs h = Ok (Some (payload, fin, g))"
  shows "frame_end ops f at (rh_payload_length h - 16) = Ok fin"
  using assms
  by (cases "frame_end ops f at (rh_payload_length h - 16)")
    (auto simp: accept_frame_def open_frame_def rbind_eq_Ok split: if_splits)

lemma read_frame_end:
  assumes "read_frame A ops alloc f key slot at generation base = Ok (Some (payload, fin, g))"
  shows "at + MIN_FRAME_BYTES \<le> fin \<and> fin \<le> jf_slot_size ops f"
proof -
  obtain bs reserved where "(case decode_header bs (MAX_PAYLOAD + 16) reserved of
         Err e \<Rightarrow> if e = IncompatibleState then Err e else Ok None
       | Ok h \<Rightarrow> accept_frame A ops alloc f key slot at generation base bs h) = Ok (Some (payload, fin, g))"
    using assms unfolding read_frame_def rbind_eq_Ok by (auto simp: rbind_eq_Ok split: if_splits)
  then obtain h where "accept_frame A ops alloc f key slot at generation base bs h = Ok (Some (payload, fin, g))"
    by (cases "decode_header bs (MAX_PAYLOAD + 16) reserved") (auto split: if_splits)
  from frame_end_bounds [OF accept_frame_end [OF this]] show ?thesis by simp
qed

function replay_frames :: "aead \<Rightarrow> 'f jflash \<Rightarrow> alloc \<Rightarrow> 'f \<Rightarrow> bytes \<Rightarrow> nat \<Rightarrow> (nat \<Rightarrow> bytes \<Rightarrow> bytes \<Rightarrow> bytes res) \<Rightarrow> nat \<Rightarrow>
    nat \<Rightarrow> nat \<Rightarrow> bytes \<Rightarrow> (bytes \<times> nat \<times> nat option) res" where
  "replay_frames A ops alloc f key slot apply base_attempt generation at state =
     (case frame_end ops f at 0 of
        Err _ \<Rightarrow> Ok (state, generation, None)
      | Ok _ \<Rightarrow>
          rbind (read_frame A ops alloc f key slot at generation base_attempt) (\<lambda>frame.
          case frame of
            None \<Rightarrow>
              rbind (erased_range ops f slot at (jf_slot_size ops f - TAIL_BYTES)) (\<lambda>available.
              Ok (state, generation, if available then Some at else None))
          | Some (payload, fin, g) \<Rightarrow>
              rbind (apply generation payload state) (\<lambda>state'.
              replay_frames A ops alloc f key slot apply base_attempt g fin state')))"
  by pat_completeness auto
termination
proof (relation "measure (\<lambda>(_, ops, _, f, _, _, _, _, _, at, _). jf_slot_size ops f - at)", goal_cases)
  case (2 A ops alloc f key slot app base_attempt generation "at" state e frame r payload x fin g state')
  then have "at + MIN_FRAME_BYTES \<le> fin \<and> fin \<le> jf_slot_size ops f"
    by (auto dest: read_frame_end)
  then show ?case
    by (auto simp: MIN_FRAME_BYTES_def HEADER_BYTES_def)
qed simp

declare replay_frames.simps [simp del]

definition replay :: "aead \<Rightarrow> 'f jflash \<Rightarrow> alloc \<Rightarrow> 'f \<Rightarrow> bytes \<Rightarrow> nat \<Rightarrow> (nat \<Rightarrow> bytes \<Rightarrow> bytes \<Rightarrow> bytes res) \<Rightarrow> nat \<Rightarrow>
    nat \<Rightarrow> nat \<Rightarrow> bytes \<Rightarrow> (bytes \<times> nat \<times> nat option) res" where
  "replay A ops alloc f key slot apply base_attempt generation at state =
     (if \<not> 4 dvd at then Err Bounds
      else replay_frames A ops alloc f key slot apply base_attempt generation at state)"

end
