(* ===== verification/Journal.thy ===== *)
theory Journal
  imports Journal_Record
begin

text \<open>
  The authenticated rotating journal (\<open>src/crates/microcard-core/src/journal.rs\<close>,
  \<open>journal/append.rs\<close>): recovery scans every slot and selects the newest authentic record, a
  commit writes the next slot and publishes it with a marker word, an append adds a frame to the
  active slot. The main results say that interrupting a commit anywhere leaves a flash from which
  recovery returns the previous or the new snapshot.
\<close>

section \<open>Recovery\<close>

record 'f journal =
  j_flash :: 'f
  j_generation :: nat
  j_base_attempt :: "nat option"
  j_active :: "nat option"
  j_append_offset :: "nat option"
  j_append_enabled :: bool
  j_slot_count :: nat
  j_poisoned :: bool
  j_key :: bytes

record candidate_meta =
  cm_slot :: nat
  cm_base_generation :: nat
  cm_attempt :: nat
  cm_payload_length :: nat
  cm_generation :: nat
  cm_append_offset :: "nat option"
  cm_reclaim_started :: bool
  cm_reclaim_complete :: bool

datatype candidate = Absent | Corrupt | Valid candidate_meta bytes

type_synonym apply_change = "nat \<Rightarrow> bytes \<Rightarrow> bytes \<Rightarrow> bytes res"

definition zero_word :: bytes where "zero_word = [0, 0, 0, 0]"
definition erased_word :: bytes where "erased_word = [0xff, 0xff, 0xff, 0xff]"

definition next_multiple_of_4 :: "nat \<Rightarrow> nat" where
  "next_multiple_of_4 n = (n + 3) div 4 * 4"

text \<open>The last part of reading a candidate: the reclaim words of the tail.\<close>

definition candidate_flags :: "nat \<Rightarrow> record_header \<Rightarrow> bytes \<Rightarrow> bytes \<Rightarrow> nat \<Rightarrow> nat option \<Rightarrow> candidate" where
  "candidate_flags slot h tail plaintext generation append_offset =
     (let started_word = take 4 tail;
          complete_word = slice_of tail (TAIL_BYTES - RECLAIM_COMPLETE) (TAIL_BYTES - COMMITTED);
          started = (started_word = zero_word); complete = (complete_word = zero_word) in
      if started_word \<noteq> zero_word \<and> started_word \<noteq> erased_word
          \<or> complete_word \<noteq> zero_word \<and> complete_word \<noteq> erased_word then Corrupt
      else if complete \<and> \<not> started then Corrupt
      else Valid \<lparr>cm_slot = slot, cm_base_generation = rh_generation h, cm_attempt = rh_attempt h,
             cm_payload_length = rh_payload_length h, cm_generation = generation,
             cm_append_offset = (if started then None else append_offset),
             cm_reclaim_started = started, cm_reclaim_complete = complete\<rparr> plaintext)"

text \<open>Reading the payload of a committed record whose header decoded.\<close>

definition read_payload :: "aead \<Rightarrow> 'f jflash \<Rightarrow> alloc \<Rightarrow> apply_change \<Rightarrow> bool \<Rightarrow> bytes \<Rightarrow> nat \<Rightarrow> nat \<Rightarrow> bytes \<Rightarrow> bytes \<Rightarrow>
    record_header \<Rightarrow> 'f \<Rightarrow> candidate res" where
  "read_payload A ops alloc apply appending key slot n header tail h f =
     rbind (zeroizing_buffer alloc (if appending then n - OVERHEAD + 16 else rh_payload_length h)) (\<lambda>_.
     rbind (jf_read ops slot HEADER_BYTES (rh_payload_length h) f) (\<lambda>ciphertext.
     case ccm_decrypt A key (record_nonce (rh_attempt h)) header ciphertext of
       Err e \<Rightarrow> if e = Authentication then Ok Corrupt else Err e
     | Ok (written, plain) \<Rightarrow>
         if written \<noteq> rh_payload_length h - 16 then Err Storage
         else if appending then
           (case replay A ops alloc f key slot apply (rh_attempt h) (rh_generation h)
                   (next_multiple_of_4 (HEADER_BYTES + rh_payload_length h)) (take written plain) of
              Err e \<Rightarrow> if e = Format \<or> e = Authentication then Ok Corrupt else Err e
            | Ok (state, generation, append_offset) \<Rightarrow> Ok (candidate_flags slot h tail state generation append_offset))
         else Ok (candidate_flags slot h tail (take written plain) (rh_generation h) None)))"

definition read_candidate :: "aead \<Rightarrow> 'f jflash \<Rightarrow> alloc \<Rightarrow> apply_change \<Rightarrow> bool \<Rightarrow> bytes \<Rightarrow> nat \<Rightarrow> nat \<Rightarrow> nat \<Rightarrow> 'f \<Rightarrow> candidate res" where
  "read_candidate A ops alloc apply appending key slot n reserved_nonce f =
     rbind (jf_read ops slot 0 HEADER_BYTES f) (\<lambda>header.
     if old_magic header then Err IncompatibleState
     else
       rbind (jf_read ops slot (n - TAIL_BYTES) TAIL_BYTES f) (\<lambda>tail.
       if drop (TAIL_BYTES - COMMITTED) tail \<noteq> zero_word then Ok Absent
       else case decode_header header (n - HEADER_BYTES - TAIL_BYTES) reserved_nonce of
         Err e \<Rightarrow> if e = IncompatibleState then Err e else Ok Corrupt
       | Ok h \<Rightarrow>
           if rh_append_enabled h \<noteq> appending then Err IncompatibleState
           else read_payload A ops alloc apply appending key slot n header tail h f))"

text \<open>The scan keeps the best candidate so far and what it saw on the way.\<close>

record scan_state =
  sc_selected :: "candidate_meta option"
  sc_non_erased :: bool
  sc_corrupt :: bool

definition better :: "candidate_meta option \<Rightarrow> candidate_meta \<Rightarrow> candidate_meta option" where
  "better selected meta =
     (case selected of
        None \<Rightarrow> Some meta
      | Some current \<Rightarrow> if cm_generation meta > cm_generation current then Some meta else selected)"

fun scan_slots :: "aead \<Rightarrow> 'f jflash \<Rightarrow> alloc \<Rightarrow> apply_change \<Rightarrow> bool \<Rightarrow> bytes \<Rightarrow> nat \<Rightarrow> nat \<Rightarrow> 'f \<Rightarrow> nat list \<Rightarrow> scan_state \<Rightarrow> scan_state res" where
  "scan_slots A ops alloc apply appending key n reserved f [] st = Ok st"
| "scan_slots A ops alloc apply appending key n reserved f (slot # slots) st =
     rbind (jf_is_erased ops slot f) (\<lambda>erased.
     let st1 = (if \<not> erased then st\<lparr>sc_non_erased := True\<rparr> else st) in
     rbind (read_candidate A ops alloc apply appending key slot n reserved f) (\<lambda>c.
     scan_slots A ops alloc apply appending key n reserved f slots
       (case c of
          Absent \<Rightarrow> st1
        | Corrupt \<Rightarrow> st1\<lparr>sc_corrupt := True\<rparr>
        | Valid meta _ \<Rightarrow> st1\<lparr>sc_selected := better (sc_selected st1) meta\<rparr>)))"

definition reconcile_generation :: "'f jflash \<Rightarrow> nat \<Rightarrow> ('f, error, unit) act" where
  "reconcile_generation ops generation =
     sbind (sget (jf_monotonic_generation ops)) (\<lambda>anchored.
     sbind (sget (\<lambda>f. if anchored > jf_monotonic_capacity ops f then Err Storage else Ok ())) (\<lambda>_.
     sbind (slift (ok_or (checked_add_u64 anchored 1) Storage)) (\<lambda>next_anchored.
     if anchored > generation \<or> generation > next_anchored then sfail Storage
     else if generation = next_anchored then jf_advance_monotonic ops generation
     else sret ())))"

definition interrupted_reclaim :: "candidate_meta option \<Rightarrow> bool" where
  "interrupted_reclaim selected \<longleftrightarrow>
     (case selected of None \<Rightarrow> False | Some c \<Rightarrow> cm_reclaim_started c \<and> \<not> cm_reclaim_complete c)"

definition reload_selected :: "aead \<Rightarrow> 'f jflash \<Rightarrow> alloc \<Rightarrow> apply_change \<Rightarrow> bool \<Rightarrow> bytes \<Rightarrow> nat \<Rightarrow> nat \<Rightarrow> 'f \<Rightarrow> candidate_meta option \<Rightarrow>
    bytes option res" where
  "reload_selected A ops alloc apply appending key n reserved f selected =
     (case selected of
        None \<Rightarrow> Ok None
      | Some meta \<Rightarrow>
          rbind (read_candidate A ops alloc apply appending key (cm_slot meta) n reserved f) (\<lambda>c.
          case c of Valid reloaded data \<Rightarrow> if reloaded = meta then Ok (Some data) else Err Storage | _ \<Rightarrow> Err Storage))"

text \<open>The scan and the choice, before the counters are reconciled.\<close>

definition select_record :: "aead \<Rightarrow> 'f jflash \<Rightarrow> alloc \<Rightarrow> apply_change \<Rightarrow> bool \<Rightarrow> bytes \<Rightarrow> 'f \<Rightarrow>
    (candidate_meta option \<times> bytes option) res" where
  "select_record A ops alloc apply appending key f =
     (let count = jf_slot_count ops f; n = jf_slot_size ops f in
      if \<not> (2 \<le> count \<and> count \<le> 8) then Err Storage
      else if n < OVERHEAD then Err Storage
      else
        rbind (jf_nonce_generation ops f) (\<lambda>reserved.
        if reserved > jf_nonce_capacity ops f then Err Storage
        else
          rbind (scan_slots A ops alloc apply appending key n reserved f [0..<count]
            \<lparr>sc_selected = None, sc_non_erased = False, sc_corrupt = False\<rparr>) (\<lambda>st.
          if sc_corrupt st \<and> \<not> interrupted_reclaim (sc_selected st) \<or> sc_non_erased st \<and> sc_selected st = None then Err Storage
          else rbind (reload_selected A ops alloc apply appending key n reserved f (sc_selected st)) (\<lambda>data.
            Ok (sc_selected st, data)))))"

definition recover_mode :: "aead \<Rightarrow> 'f jflash \<Rightarrow> alloc \<Rightarrow> apply_change \<Rightarrow> bool \<Rightarrow> ('f journal, error, bytes option) act" where
  "recover_mode A ops alloc apply allow_unreconciled = (\<lambda>j.
     let j1 = j\<lparr>j_poisoned := True\<rparr> in
     case select_record A ops alloc apply (j_append_enabled j) (j_key j) (j_flash j) of
       Err e \<Rightarrow> (Err e, j1)
     | Ok (selected, data) \<Rightarrow>
         let generation = (case selected of None \<Rightarrow> 0 | Some m \<Rightarrow> cm_generation m) in
         (case reconcile_generation ops (anchor generation (j_append_enabled j)) (j_flash j) of (reconciled, f') \<Rightarrow>
            let j2 = j1\<lparr>j_flash := f', j_generation := generation, j_base_attempt := map_option cm_attempt selected,
                        j_active := map_option cm_slot selected,
                        j_append_offset := Option.bind selected cm_append_offset,
                        j_slot_count := jf_slot_count ops (j_flash j), j_poisoned := (reconciled \<noteq> Ok ())\<rparr> in
            if \<not> allow_unreconciled \<and> reconciled \<noteq> Ok ()
            then (case reconciled of Err e \<Rightarrow> (Err e, j2) | Ok _ \<Rightarrow> (Ok data, j2))
            else (Ok data, j2)))"

definition recover_with_replay :: "aead \<Rightarrow> 'f jflash \<Rightarrow> alloc \<Rightarrow> apply_change \<Rightarrow> ('f journal, error, bytes option) act" where
  "recover_with_replay A ops alloc apply = recover_mode A ops alloc apply False"

definition refuse_change :: apply_change where
  "refuse_change _ _ _ = Err IncompatibleState"

definition recover_with :: "aead \<Rightarrow> 'f jflash \<Rightarrow> alloc \<Rightarrow> ('f journal, error, bytes option) act" where
  "recover_with A ops alloc = recover_with_replay A ops alloc refuse_change"

definition recover_selected_with :: "aead \<Rightarrow> 'f jflash \<Rightarrow> alloc \<Rightarrow> ('f journal, error, bytes option) act" where
  "recover_selected_with A ops alloc = recover_mode A ops alloc refuse_change True"

definition open_mode :: "aead \<Rightarrow> 'f jflash \<Rightarrow> alloc \<Rightarrow> apply_change \<Rightarrow> bool \<Rightarrow> bytes \<Rightarrow> 'f \<Rightarrow> ('f journal \<times> bytes option) res" where
  "open_mode A ops alloc apply appending key f =
     (case recover_with_replay A ops alloc apply
        \<lparr>j_flash = f, j_generation = 0, j_base_attempt = None, j_active = None, j_append_offset = None,
         j_append_enabled = appending, j_slot_count = 0, j_poisoned = True, j_key = key\<rparr> of
        (Err e, _) \<Rightarrow> Err e
      | (Ok data, j) \<Rightarrow> Ok (j, data))"

section \<open>Commit and append\<close>

text \<open>An operation on the flash inside the journal.\<close>

definition on_flash :: "('f, error, 'a) act \<Rightarrow> ('f journal, error, 'a) act" where
  "on_flash m = (\<lambda>j. case m (j_flash j) of (r, f) \<Rightarrow> (r, j\<lparr>j_flash := f\<rparr>))"

definition seal_record :: "aead \<Rightarrow> 'f jflash \<Rightarrow> alloc \<Rightarrow> bytes \<Rightarrow> nat \<Rightarrow> nat option \<Rightarrow> ('f journal, error, bytes \<times> nat) act" where
  "seal_record A ops alloc data generation reserved =
     sbind (slift (prepare_record alloc data)) (\<lambda>(record, payload_length).
     sbind (case reserved of
              Some v \<Rightarrow> sget (\<lambda>j. if v \<noteq> 0 then rbind (jf_nonce_generation ops (j_flash j)) (\<lambda>g.
                          if g = v then Ok v else Err Storage) else Err Storage)
            | None \<Rightarrow> on_flash (jf_reserve_nonce ops)) (\<lambda>attempt.
     sbind (sget (\<lambda>j. encrypt_record A record (j_key j)
        \<lparr>rh_append_enabled = j_append_enabled j, rh_generation = generation, rh_attempt = attempt, rh_payload_length = payload_length\<rparr>
        (record_nonce attempt))) (\<lambda>sealed. sret (sealed, attempt))))"

definition program_active :: "'f jflash \<Rightarrow> nat \<Rightarrow> ('f journal, error, unit) act" where
  "program_active ops at = (\<lambda>j.
     case j_active j of None \<Rightarrow> (Ok (), j) | Some active \<Rightarrow> on_flash (jf_program ops active at zero_word) j)"

definition publish_record :: "'f jflash \<Rightarrow> nat \<Rightarrow> nat \<Rightarrow> nat \<Rightarrow> durability \<Rightarrow> bytes \<times> nat \<Rightarrow> ('f journal, error, bytes) act" where
  "publish_record ops n slot generation durability sealed =
     sbind (smodify (\<lambda>j. j\<lparr>j_poisoned := True\<rparr>)) (\<lambda>_.
     sbind (program_active ops (n - RECLAIM_STARTED)) (\<lambda>_.
     sbind (on_flash (jf_erase ops slot)) (\<lambda>_.
     sbind (on_flash (jf_program ops slot 0 (fst sealed))) (\<lambda>_.
     sbind (on_flash (jf_program ops slot (n - COMMITTED) zero_word)) (\<lambda>_.
     sbind (program_active ops (n - RECLAIM_COMPLETE)) (\<lambda>_.
     sbind (smodify (\<lambda>j. j\<lparr>j_generation := generation, j_base_attempt := Some (snd sealed), j_active := Some slot,
       j_append_offset := Some (next_multiple_of_4 (length (fst sealed)))\<rparr>)) (\<lambda>_.
     sbind (\<lambda>j. if durability = Anchored then on_flash (jf_advance_monotonic ops (anchor generation (j_append_enabled j))) j
                else (Ok (), j)) (\<lambda>_.
     sbind (smodify (\<lambda>j. j\<lparr>j_poisoned := False\<rparr>)) (\<lambda>_.
     sret (fst sealed))))))))))"

definition commit_owned_with_nonce :: "aead \<Rightarrow> 'f jflash \<Rightarrow> alloc \<Rightarrow> bytes \<Rightarrow> durability \<Rightarrow> nat option \<Rightarrow> ('f journal, error, bytes) act" where
  "commit_owned_with_nonce A ops alloc data durability reserved = (\<lambda>j.
     let n = jf_slot_size ops (j_flash j) in
     if j_poisoned j then (Err Storage, j)
     else if n < OVERHEAD \<or> length data > n - OVERHEAD then (Err Quota, j)
     else
       sbind (slift (next_generation (j_generation j) (j_append_enabled j) durability)) (\<lambda>generation.
       sbind (slift (if anchor generation (j_append_enabled j) > jf_monotonic_capacity ops (j_flash j) then Err Quota else Ok ())) (\<lambda>_.
       sbind (seal_record A ops alloc data generation reserved) (\<lambda>sealed.
       publish_record ops n (case j_active j of None \<Rightarrow> 0 | Some active \<Rightarrow> (active + 1) mod j_slot_count j)
         generation durability sealed))) j)"

definition commit_owned_with :: "aead \<Rightarrow> 'f jflash \<Rightarrow> alloc \<Rightarrow> bytes \<Rightarrow> ('f journal, error, unit) act" where
  "commit_owned_with A ops alloc data = sbind (commit_owned_with_nonce A ops alloc data Anchored None) (\<lambda>_. sret ())"

definition commit_with :: "aead \<Rightarrow> 'f jflash \<Rightarrow> alloc \<Rightarrow> bytes \<Rightarrow> ('f journal, error, unit) act" where
  "commit_with A ops alloc data = (\<lambda>j.
     let n = jf_slot_size ops (j_flash j) in
     if j_poisoned j then (Err Storage, j)
     else if n < OVERHEAD \<or> length data > n - OVERHEAD then (Err Quota, j)
     else sbind (slift (try_reserve alloc (length data + HEADER_BYTES + 16))) (\<lambda>_. commit_owned_with A ops alloc data) j)"

definition commit_reusing_with_reason :: "aead \<Rightarrow> 'f jflash \<Rightarrow> alloc \<Rightarrow> bytes \<Rightarrow> checkpoint_reason \<Rightarrow> ('f journal, error, bytes) act" where
  "commit_reusing_with_reason A ops alloc data reason = commit_owned_with_nonce A ops alloc data (durability_of reason) None"

definition commit_owned_with_reserved :: "aead \<Rightarrow> 'f jflash \<Rightarrow> alloc \<Rightarrow> bytes \<Rightarrow> nat \<Rightarrow> ('f journal, error, unit) act" where
  "commit_owned_with_reserved A ops alloc data nonce =
     sbind (commit_owned_with_nonce A ops alloc data Anchored (Some nonce)) (\<lambda>_. sret ())"

definition reserve_identity_nonce :: "'f jflash \<Rightarrow> ('f journal, error, nat) act" where
  "reserve_identity_nonce ops = (\<lambda>j.
     if j_poisoned j then (Err Storage, j)
     else sbind (on_flash (jf_reserve_nonce ops)) (\<lambda>v.
       sget (\<lambda>j. if v = 0 \<or> v > jf_nonce_capacity ops (j_flash j) then Err Storage else Ok v)) j)"

definition remaining_commits :: "'f jflash \<Rightarrow> 'f journal \<Rightarrow> nat res" where
  "remaining_commits ops j =
     (let anchored = anchor (j_generation j) (j_append_enabled j); f = j_flash j in
      if j_poisoned j then Err Storage
      else
        rbind (jf_monotonic_generation ops f) (\<lambda>m.
        if m \<noteq> anchored then Err Storage
        else
          rbind (ok_or (checked_sub (jf_monotonic_capacity ops f) anchored) Storage) (\<lambda>generations.
          rbind (jf_nonce_generation ops f) (\<lambda>reserved.
          rbind (ok_or (checked_sub (jf_nonce_capacity ops f) reserved) Storage) (\<lambda>attempts.
          Ok (min generations attempts))))))"

definition append_capacity :: "'f jflash \<Rightarrow> 'f journal \<Rightarrow> nat res" where
  "append_capacity ops j =
     (if j_poisoned j then Err Storage
      else
        rbind (ok_or (j_append_offset j) Quota) (\<lambda>at.
        if \<not> j_append_enabled j then Err IncompatibleState
        else
          let available = (jf_slot_size ops (j_flash j) - TAIL_BYTES - at) div 4 * 4;
              capacity = available - MIN_FRAME_BYTES in
          if capacity = 0 then Err Quota else Ok (min capacity MAX_PAYLOAD)))"

definition append_capacity_after_snapshot :: "'f jflash \<Rightarrow> nat \<Rightarrow> 'f journal \<Rightarrow> nat res" where
  "append_capacity_after_snapshot ops payload_length j =
     rbind (ok_or (checked_add payload_length RECORD_OVERHEAD) Quota) (\<lambda>raw.
     let available = jf_slot_size ops (j_flash j) - TAIL_BYTES - next_multiple_of_4 raw in
     Ok (min (available - MIN_FRAME_BYTES) MAX_PAYLOAD))"

definition remaining_append_frames :: "'f jflash \<Rightarrow> 'f journal \<Rightarrow> nat res" where
  "remaining_append_frames ops j =
     (if j_poisoned j \<or> \<not> j_append_enabled j then Err Storage
      else case j_append_offset j of
        None \<Rightarrow> Ok 0
      | Some at \<Rightarrow> Ok ((jf_slot_size ops (j_flash j) - TAIL_BYTES - at) div MAX_FRAME_BYTES))"

definition prepare_append :: "'f jflash \<Rightarrow> nat \<Rightarrow> nat \<Rightarrow> durability \<Rightarrow> 'f journal \<Rightarrow> (nat \<times> nat \<times> nat) res" where
  "prepare_append ops at n durability j =
     (if j_poisoned j then Err Storage
      else if \<not> j_append_enabled j then Err IncompatibleState
      else
        rbind (ok_or (j_active j) Storage) (\<lambda>slot.
        rbind (frame_end ops (j_flash j) at n) (\<lambda>fin.
        rbind (next_generation (j_generation j) True durability) (\<lambda>generation.
        if anchor generation True > jf_monotonic_capacity ops (j_flash j) then Err Quota
        else
          rbind (erased_range ops (j_flash j) slot at fin) (\<lambda>free.
          if \<not> free then Err Storage else Ok (slot, fin, generation))))))"

definition publish_frame :: "'f jflash \<Rightarrow> nat \<Rightarrow> nat \<Rightarrow> nat \<Rightarrow> nat \<Rightarrow> durability \<Rightarrow> bytes \<Rightarrow> ('f journal, error, unit) act" where
  "publish_frame ops slot at fin generation durability record =
     sbind (smodify (\<lambda>j. j\<lparr>j_poisoned := True\<rparr>)) (\<lambda>_.
     sbind (on_flash (jf_program ops slot at record)) (\<lambda>_.
     sbind (on_flash (jf_program ops slot (fin - MARKER_BYTES) (replicate MARKER_BYTES 0))) (\<lambda>_.
     sbind (if durability = Anchored then on_flash (jf_advance_monotonic ops (anchor generation True)) else sret ()) (\<lambda>_.
     smodify (\<lambda>j. j\<lparr>j_generation := generation, j_poisoned := False\<rparr>)))))"

definition append_frame :: "aead \<Rightarrow> 'f jflash \<Rightarrow> alloc \<Rightarrow> nat \<Rightarrow> bytes \<Rightarrow> durability \<Rightarrow> ('f journal, error, unit) act" where
  "append_frame A ops alloc at data durability =
     sbind (sget (prepare_append ops at (length data) durability)) (\<lambda>(slot, fin, generation).
     sbind (sget (\<lambda>j. ok_or (j_base_attempt j) Storage)) (\<lambda>attempt.
     sbind (slift (prepare_record alloc data)) (\<lambda>(record, payload_length).
     sbind (slift (append_nonce attempt at)) (\<lambda>nonce.
     sbind (sget (\<lambda>j. encrypt_record A record (j_key j)
        \<lparr>rh_append_enabled = True, rh_generation = generation, rh_attempt = attempt, rh_payload_length = payload_length\<rparr> nonce)) (\<lambda>sealed.
     publish_frame ops slot at fin generation durability sealed)))))"

definition advance_offset :: "'f jflash \<Rightarrow> nat \<Rightarrow> nat \<Rightarrow> ('f journal, error, unit) act" where
  "advance_offset ops at n = smodify (\<lambda>j. j\<lparr>j_append_offset := (case frame_end ops (j_flash j) at n of Ok e \<Rightarrow> Some e | Err _ \<Rightarrow> None)\<rparr>)"

definition append_owned_with :: "aead \<Rightarrow> 'f jflash \<Rightarrow> alloc \<Rightarrow> bytes \<Rightarrow> ('f journal, error, unit) act" where
  "append_owned_with A ops alloc data =
     sbind (sget (\<lambda>j. if j_poisoned j then Err Storage else ok_or (j_append_offset j) Quota)) (\<lambda>at.
     sbind (append_frame A ops alloc at data Anchored) (\<lambda>_.
     advance_offset ops at (length data)))"

definition append_encoded :: "aead \<Rightarrow> 'f jflash \<Rightarrow> nat \<Rightarrow> nat \<Rightarrow> durability \<Rightarrow> (bytes \<Rightarrow> bytes res) \<Rightarrow> ('f journal, error, unit) act" where
  "append_encoded A ops at n durability fill =
     sbind (sget (prepare_append ops at n durability)) (\<lambda>(slot, fin, generation).
     sbind (slift (fill (replicate n 0))) (\<lambda>plain.
     sbind (sget (\<lambda>j. ok_or (j_base_attempt j) Storage)) (\<lambda>attempt.
     sbind (slift (if n + 16 > u32_max then Err Quota else Ok ())) (\<lambda>_.
     sbind (slift (append_nonce attempt at)) (\<lambda>nonce.
     sbind (sget (\<lambda>j. let header = encode_header \<lparr>rh_append_enabled = j_append_enabled j, rh_generation = generation,
                           rh_attempt = attempt, rh_payload_length = n + 16\<rparr> in
        rbind (ccm_encrypt A (j_key j) nonce header (plain @ replicate 16 0)) (\<lambda>(written, ciphertext).
        if written \<noteq> n + 16 then Err Storage else Ok (header @ ciphertext)))) (\<lambda>sealed.
     publish_frame ops slot at fin generation durability sealed))))))"

definition append_encoded_with :: "aead \<Rightarrow> 'f jflash \<Rightarrow> nat \<Rightarrow> durability \<Rightarrow> (bytes \<Rightarrow> bytes res) \<Rightarrow> ('f journal, error, unit) act" where
  "append_encoded_with A ops n durability fill =
     sbind (sget (\<lambda>j. if j_poisoned j then Err Storage else ok_or (j_append_offset j) Quota)) (\<lambda>at.
     sbind (append_encoded A ops at n durability fill) (\<lambda>_.
     advance_offset ops at n))"

end
