(* ===== verification/Journal_Atomic.thy ===== *)
theory Journal_Atomic
  imports Journal
begin

text \<open>
  Crash atomicity of the snapshot journal: what recovery reads from the content of a slot, the
  states a commit passes through when power is cut at any point, and the two outcomes that remain.
  The argument is for a journal without append frames; it uses the flash through its contract.
\<close>

section \<open>Headers\<close>

definition header_ok :: "nat \<Rightarrow> nat \<Rightarrow> record_header \<Rightarrow> bool" where
  "header_ok capacity reserved h \<longleftrightarrow> rh_generation h < 2 ^ 64 \<and> rh_attempt h < 2 ^ 64 \<and> rh_payload_length h < 2 ^ 32
     \<and> 0 < rh_attempt h \<and> rh_attempt h \<le> reserved \<and> 16 \<le> rh_payload_length h \<and> rh_payload_length h \<le> capacity
     \<and> (\<not> rh_append_enabled h \<or> anchor (rh_generation h) True \<noteq> 0 \<and> low32 (rh_generation h) \<noteq> 0)"

lemma length_header [simp]: "length (encode_header h) = 24"
  by (simp add: encode_header_def magic_def)

lemma take_header: "take 4 (encode_header h) = (if rh_append_enabled h then magic ''MJ09'' else magic ''MJ08'')"
  by (simp add: encode_header_def magic_def)

lemma magic_distinct:
  "\<not> old_magic (encode_header h)" "magic ''MJ08'' \<noteq> magic ''MJ09''" "magic ''MJ09'' \<noteq> magic ''MJ08''"
  unfolding old_magic_def take_header by (simp_all add: magic_def)

lemma header_slices:
  "slice_of (encode_header h) 4 12 = le_bytes 8 (rh_generation h)"
  "slice_of (encode_header h) 12 20 = le_bytes 8 (rh_attempt h)"
  "slice_of (encode_header h) 20 24 = le_bytes 4 (rh_payload_length h)"
  by (simp_all add: encode_header_def magic_def slice_of_def)

lemma decode_encode_header: "header_ok capacity reserved h \<Longrightarrow> decode_header (encode_header h) capacity reserved = Ok h"
  by (cases "rh_append_enabled h")
    (simp_all add: decode_header_def magic_distinct take_header header_slices header_ok_def Let_def)

lemma decode_header_sound:
  assumes "decode_header bs capacity reserved = Ok h" and "length bs = 24"
  shows "header_ok capacity reserved h \<and> bs = encode_header h"
proof -
  have parts: "bs = take 4 bs @ slice_of bs 4 12 @ slice_of bs 12 20 @ slice_of bs 20 24"
    using assms(2) by (auto simp: slice_of_def intro!: nth_equalityI simp: nth_append)
  have len: "length (slice_of bs 4 12) = 8" "length (slice_of bs 12 20) = 8" "length (slice_of bs 20 24) = 4"
    using assms(2) by simp_all
  have v: "le_bytes 8 (le_value (slice_of bs 4 12)) = slice_of bs 4 12" "le_bytes 8 (le_value (slice_of bs 12 20)) = slice_of bs 12 20"
    "le_bytes 4 (le_value (slice_of bs 20 24)) = slice_of bs 20 24"
    using le_bytes_le_value [of "slice_of bs 4 12"] le_bytes_le_value [of "slice_of bs 12 20"] le_bytes_le_value [of "slice_of bs 20 24"]
    by (simp_all add: len)
  have b: "le_value (slice_of bs 4 12) < 2 ^ 64" "le_value (slice_of bs 12 20) < 2 ^ 64" "le_value (slice_of bs 20 24) < 2 ^ 32"
    using le_value_less [of "slice_of bs 4 12"] le_value_less [of "slice_of bs 12 20"] le_value_less [of "slice_of bs 20 24"]
    by (simp_all add: len)
  from assms(1) obtain app where app: "take 4 bs = (if app then magic ''MJ09'' else magic ''MJ08'')"
    and h: "h = \<lparr>rh_append_enabled = app, rh_generation = le_value (slice_of bs 4 12),
                 rh_attempt = le_value (slice_of bs 12 20), rh_payload_length = le_value (slice_of bs 20 24)\<rparr>"
    and ok: "\<not> (rh_attempt h = 0 \<or> rh_attempt h > reserved \<or> rh_payload_length h < 16 \<or> rh_payload_length h > capacity)"
      "\<not> (app \<and> (anchor (rh_generation h) True = 0 \<or> low32 (rh_generation h) = 0))"
    by (auto simp: decode_header_def Let_def rbind_eq_Ok split: if_splits)
  have "encode_header h = take 4 bs @ slice_of bs 4 12 @ slice_of bs 12 20 @ slice_of bs 20 24"
    by (simp only: h encode_header_def app record_header.simps v)
  from trans [OF parts this [symmetric]] have "bs = encode_header h" .
  moreover have "header_ok capacity reserved h"
    using ok b by (simp add: header_ok_def h)
  ultimately show ?thesis
    by blast
qed

lemma decode_header_mono:
  assumes "decode_header bs capacity reserved = Ok h" and "reserved \<le> reserved'"
  shows "decode_header bs capacity reserved' = Ok h"
  using assms(2) assms(1) [unfolded decode_header_def Let_def]
  unfolding decode_header_def Let_def
  by (cases "take 4 bs = magic ''MJ08''"; cases "take 4 bs = magic ''MJ09''") (simp_all split: if_splits)

section \<open>Slot contents\<close>

text \<open>The three words of the tail: reclaim started, reclaim complete, committed.\<close>

definition tail_word :: "nat \<Rightarrow> bytes \<Rightarrow> bytes" where
  "tail_word k c = slice_of c (length c - k) (length c - k + 4)"

abbreviation started :: "bytes \<Rightarrow> bool" where "started c \<equiv> tail_word RECLAIM_STARTED c = zero_word"
abbreviation complete :: "bytes \<Rightarrow> bool" where "complete c \<equiv> tail_word RECLAIM_COMPLETE c = zero_word"
abbreviation committed :: "bytes \<Rightarrow> bool" where "committed c \<equiv> tail_word COMMITTED c = zero_word"

definition flags_ok :: "bytes \<Rightarrow> bool" where
  "flags_ok c \<longleftrightarrow> (started c \<or> tail_word RECLAIM_STARTED c = erased_word)
     \<and> (complete c \<or> tail_word RECLAIM_COMPLETE c = erased_word) \<and> (complete c \<longrightarrow> started c)"

text \<open>A slot with nothing published, one whose erase was cut, and one that holds a snapshot.\<close>

definition blank :: "bytes \<Rightarrow> bool" where
  "blank c \<longleftrightarrow> \<not> old_magic c \<and> \<not> committed c"

definition torn_slot :: "bytes \<Rightarrow> bool" where
  "torn_slot c \<longleftrightarrow> c ! 0 = 0xff"

definition sealed :: "aead \<Rightarrow> bytes \<Rightarrow> nat \<Rightarrow> record_header \<Rightarrow> bytes \<Rightarrow> bytes \<Rightarrow> bool" where
  "sealed A key reserved h d c \<longleftrightarrow> \<not> rh_append_enabled h
     \<and> decode_header (take 24 c) (length c - 36) reserved = Ok h
     \<and> (\<exists>plain. ccm_decrypt A key (record_nonce (rh_attempt h)) (take 24 c) (slice_of c 24 (24 + rh_payload_length h))
            = Ok (rh_payload_length h - 16, plain) \<and> d = take (rh_payload_length h - 16) plain)
     \<and> committed c \<and> flags_ok c"

lemma sealed_mono: "sealed A key reserved h d c \<Longrightarrow> reserved \<le> reserved' \<Longrightarrow> sealed A key reserved' h d c"
  unfolding sealed_def using decode_header_mono by blast

definition meta_of :: "nat \<Rightarrow> record_header \<Rightarrow> bytes \<Rightarrow> candidate_meta" where
  "meta_of slot h c = \<lparr>cm_slot = slot, cm_base_generation = rh_generation h, cm_attempt = rh_attempt h,
     cm_payload_length = rh_payload_length h, cm_generation = rh_generation h, cm_append_offset = None,
     cm_reclaim_started = started c, cm_reclaim_complete = complete c\<rparr>"

text \<open>Writing a tail word changes that word only.\<close>

lemma length_tail_write:
  assumes "k \<in> {4, 8, 12}" and "12 \<le> length c"
  shows "length (overwrite c (length c - k) zero_word) = length c"
  using assms by (auto simp: length_overwrite zero_word_def)

lemma tail_word_write:
  assumes "k \<in> {4, 8, 12}" and "m \<in> {4, 8, 12}" and "12 \<le> length c"
  shows "tail_word m (overwrite c (length c - k) zero_word) = (if m = k then zero_word else tail_word m c)"
proof -
  have len: "length zero_word = 4" by (simp add: zero_word_def)
  have "slice_of (overwrite c (length c - k) zero_word) (length c - k) (length c - k + 4) = zero_word"
    using slice_of_overwrite [of "length c - k" zero_word c] assms by (auto simp: len)
  moreover have "m \<noteq> k \<Longrightarrow> slice_of (overwrite c (length c - k) zero_word) (length c - m) (length c - m + 4)
      = slice_of c (length c - m) (length c - m + 4)"
    using assms by (intro slice_of_overwrite_disjoint) (auto simp: len)
  ultimately show ?thesis
    using length_tail_write [OF assms(1,3)] by (auto simp: tail_word_def)
qed

lemma front_write:
  assumes "k \<in> {4, 8, 12}" and "12 \<le> length c" and "m \<le> length c - 12"
  shows "take m (overwrite c (length c - k) zero_word) = take m c"
    and "slice_of (overwrite c (length c - k) zero_word) i m = slice_of c i m"
proof -
  show "take m (overwrite c (length c - k) zero_word) = take m c"
    using assms by (auto simp: overwrite_def min_def)
  show "slice_of (overwrite c (length c - k) zero_word) i m = slice_of c i m"
    using assms by (intro slice_of_overwrite_disjoint) (auto simp: zero_word_def)
qed

lemma sealed_write:
  assumes "sealed A key reserved h d c" and "k = RECLAIM_STARTED \<or> k = RECLAIM_COMPLETE \<and> started c" and "36 \<le> length c"
  shows "sealed A key reserved h d (overwrite c (length c - k) zero_word)"
proof -
  have k: "k \<in> {4, 8, 12}" and n: "12 \<le> length c"
    using assms(2,3) by (auto simp: journal_sizes)
  have p: "24 + rh_payload_length h \<le> length c - 12"
    using assms(1,3) decode_header_sound [of "take 24 c" "length c - 36" reserved h]
    by (auto simp: sealed_def header_ok_def)
  have f: "take 24 (overwrite c (length c - k) zero_word) = take 24 c"
    "slice_of (overwrite c (length c - k) zero_word) 24 (24 + rh_payload_length h) = slice_of c 24 (24 + rh_payload_length h)"
    by (rule front_write [OF k n], use assms(3) p in simp)+
  have w: "tail_word RECLAIM_STARTED (overwrite c (length c - k) zero_word) = (if RECLAIM_STARTED = k then zero_word else tail_word RECLAIM_STARTED c)"
    "tail_word RECLAIM_COMPLETE (overwrite c (length c - k) zero_word) = (if RECLAIM_COMPLETE = k then zero_word else tail_word RECLAIM_COMPLETE c)"
    "tail_word COMMITTED (overwrite c (length c - k) zero_word) = (if COMMITTED = k then zero_word else tail_word COMMITTED c)"
    by (rule tail_word_write [OF k _ n], simp add: journal_sizes)+
  show ?thesis
    using assms(1,2) unfolding sealed_def f flags_ok_def w length_tail_write [OF k n]
    by (auto simp: journal_sizes)
qed

section \<open>Recovery\<close>

text \<open>
  The slots of a recoverable flash: slot \<open>a\<close> holds snapshot \<open>d\<close> of generation \<open>g\<close>, every other slot is
  blank, older, or the torn target of a replacement that \<open>a\<close> authorised.
\<close>

definition older_slot :: "aead \<Rightarrow> bytes \<Rightarrow> nat \<Rightarrow> nat \<Rightarrow> bytes \<Rightarrow> bool" where
  "older_slot A key reserved g c \<longleftrightarrow> blank c \<or> (\<exists>h d. sealed A key reserved h d c \<and> rh_generation h < g)"

definition slots_hold :: "aead \<Rightarrow> bytes \<Rightarrow> nat \<Rightarrow> (nat \<Rightarrow> bytes) \<Rightarrow> nat \<Rightarrow> nat \<Rightarrow> nat \<Rightarrow> bytes \<Rightarrow> bool" where
  "slots_hold A key count c reserved a g d \<longleftrightarrow> a < count
     \<and> (\<exists>h. sealed A key reserved h d (c a) \<and> rh_generation h = g) \<and> \<not> complete (c a)
     \<and> (\<forall>s < count. s \<noteq> a \<longrightarrow>
          older_slot A key reserved g (c s) \<or> torn_slot (c s) \<and> s = (a + 1) mod count \<and> started (c a))"

definition flash_holds :: "'f jflash \<Rightarrow> ('f \<Rightarrow> nat \<Rightarrow> bytes) \<Rightarrow> ('f \<Rightarrow> nat) \<Rightarrow> ('f \<Rightarrow> nat) \<Rightarrow> ('f \<Rightarrow> bool) \<Rightarrow>
    aead \<Rightarrow> bytes \<Rightarrow> nat \<Rightarrow> nat \<Rightarrow> bytes \<Rightarrow> 'f \<Rightarrow> bool" where
  "flash_holds ops content anchored nonces valid A key a g d f \<longleftrightarrow> valid f \<and> 2 \<le> jf_slot_count ops f \<and> jf_slot_count ops f \<le> 8
     \<and> OVERHEAD \<le> jf_slot_size ops f \<and> slots_hold A key (jf_slot_count ops f) (content f) (nonces f) a g d
     \<and> (anchored f = g \<or> Suc (anchored f) = g) \<and> g \<le> jf_monotonic_capacity ops f"

definition journal_ready :: "'f jflash \<Rightarrow> ('f \<Rightarrow> nat \<Rightarrow> bytes) \<Rightarrow> ('f \<Rightarrow> nat) \<Rightarrow> ('f \<Rightarrow> nat) \<Rightarrow> ('f \<Rightarrow> bool) \<Rightarrow>
    aead \<Rightarrow> bytes \<Rightarrow> 'f journal \<Rightarrow> bool" where
  "journal_ready ops content anchored nonces valid A d j \<longleftrightarrow> \<not> j_poisoned j \<and> \<not> j_append_enabled j
     \<and> (\<exists>a. j_active j = Some a \<and> flash_holds ops content anchored nonces valid A (j_key j) a (j_generation j) d (j_flash j))
     \<and> j_slot_count j = jf_slot_count ops (j_flash j) \<and> anchored (j_flash j) = j_generation j"

lemma old_magic_take [simp]: "old_magic (take 24 c) = old_magic c"
  by (simp add: old_magic_def)

lemma tail_slices:
  assumes "12 \<le> length c"
  shows "take 4 (slice_of c (length c - 12) (length c)) = tail_word RECLAIM_STARTED c"
    "slice_of (slice_of c (length c - 12) (length c)) 4 8 = tail_word RECLAIM_COMPLETE c"
    "drop 8 (slice_of c (length c - 12) (length c)) = tail_word COMMITTED c"
  using assms by (auto simp: tail_word_def journal_sizes slice_of_def drop_take intro!: nth_equalityI)

text \<open>A scan in which one record dominates every other readable one selects it.\<close>

definition read_outcome :: "(nat \<Rightarrow> candidate res) \<Rightarrow> nat \<Rightarrow> candidate_meta \<Rightarrow> bytes \<Rightarrow> nat \<Rightarrow> bool" where
  "read_outcome rd a m d s \<longleftrightarrow> (if s = a then rd s = Ok (Valid m d)
     else rd s = Ok Absent \<or> rd s = Ok Corrupt \<or> (\<exists>m' d'. rd s = Ok (Valid m' d') \<and> cm_generation m' < cm_generation m))"

lemma scan_slots_selects:
  assumes "\<forall>s \<in> set slots. read_outcome (\<lambda>s. read_candidate A ops alloc app appending key s n reserved f) a m d s
      \<and> (\<exists>b. jf_is_erased ops s f = Ok b)"
    and "sc_selected st = Some m \<or> a \<in> set slots \<and> (\<forall>m'. sc_selected st = Some m' \<longrightarrow> cm_generation m' < cm_generation m)"
  shows "\<exists>st'. scan_slots A ops alloc app appending key n reserved f slots st = Ok st' \<and> sc_selected st' = Some m
      \<and> (sc_corrupt st' \<longrightarrow> sc_corrupt st \<or> (\<exists>s \<in> set slots. read_candidate A ops alloc app appending key s n reserved f = Ok Corrupt))"
  using assms
proof (induction slots arbitrary: st)
  case Nil
  then show ?case by simp
next
  case (Cons s slots)
  let ?rd = "\<lambda>s. read_candidate A ops alloc app appending key s n reserved f"
  obtain b where b: "jf_is_erased ops s f = Ok b"
    using Cons.prems(1) by auto
  define st1 where "st1 = (if \<not> b then st\<lparr>sc_non_erased := True\<rparr> else st)"
  have st1: "sc_selected st1 = sc_selected st" "sc_corrupt st1 = sc_corrupt st"
    by (simp_all add: st1_def)
  obtain c where c: "?rd s = Ok c"
    using Cons.prems(1) by (auto simp: read_outcome_def split: if_splits)
  define st2 where "st2 = (case c of Absent \<Rightarrow> st1 | Corrupt \<Rightarrow> st1\<lparr>sc_corrupt := True\<rparr>
      | Valid meta _ \<Rightarrow> st1\<lparr>sc_selected := better (sc_selected st1) meta\<rparr>)"
  have step: "scan_slots A ops alloc app appending key n reserved f (s # slots) st
      = scan_slots A ops alloc app appending key n reserved f slots st2"
    by (simp only: scan_slots.simps b c rbind_simps Let_def st1_def [symmetric] st2_def [symmetric])
  have o: "read_outcome ?rd a m d s"
    using Cons.prems(1) by simp
  have sel: "sc_selected st2 = Some m \<or> a \<in> set slots \<and> (\<forall>m'. sc_selected st2 = Some m' \<longrightarrow> cm_generation m' < cm_generation m)"
    using Cons.prems(2) o c st1 by (cases c) (auto simp: st2_def read_outcome_def better_def split: if_splits option.splits)
  have cor: "sc_corrupt st2 \<longrightarrow> sc_corrupt st \<or> ?rd s = Ok Corrupt"
    using c st1 by (cases c) (auto simp: st2_def)
  from Cons.IH [OF _ sel] Cons.prems(1) cor show ?case
    unfolding step by fastforce
qed

context journal_flash
begin

lemma read_header_tail:
  assumes "wf f" "s < jf_slot_count ops f" "OVERHEAD \<le> jf_slot_size ops f" and c: "c = content f s"
  shows "jf_read ops s 0 HEADER_BYTES f = Ok (take 24 c)"
    and "jf_read ops s (jf_slot_size ops f - TAIL_BYTES) TAIL_BYTES f = Ok (slice_of c (length c - 12) (length c))"
    and "length c = jf_slot_size ops f"
  using assms content_length [OF assms(1,2)]
  by (simp_all add: read journal_sizes slice_of_def)

lemma read_cases:
  assumes "wf f" "s < jf_slot_count ops f" "OVERHEAD \<le> jf_slot_size ops f" and c: "c = content f s"
  shows "read_candidate A ops alloc app False key s (jf_slot_size ops f) reserved f =
     (if old_magic c then Err IncompatibleState
      else if \<not> committed c then Ok Absent
      else case decode_header (take 24 c) (length c - 36) reserved of
         Err e \<Rightarrow> if e = IncompatibleState then Err e else Ok Corrupt
       | Ok h \<Rightarrow>
           if rh_append_enabled h then Err IncompatibleState
           else read_payload A ops alloc app False key s (jf_slot_size ops f) (take 24 c)
             (slice_of c (length c - 12) (length c)) h f)"
proof -
  note r = read_header_tail [OF assms]
  have n: "jf_slot_size ops f - HEADER_BYTES - TAIL_BYTES = length c - 36" "TAIL_BYTES - COMMITTED = 8"
    using r(3) by (simp_all add: journal_sizes)
  have d: "drop 8 (slice_of c (length c - 12) (length c)) = tail_word COMMITTED c"
    using tail_slices(3) [of c] r(3) assms(3) by (simp add: journal_sizes)
  show ?thesis
    unfolding read_candidate_def r(1,2) rbind_simps n d old_magic_take by (simp split: result.split)
qed

lemma read_blank:
  assumes "wf f" "s < jf_slot_count ops f" "OVERHEAD \<le> jf_slot_size ops f" and "blank (content f s)"
  shows "read_candidate A ops alloc app False key s (jf_slot_size ops f) reserved f = Ok Absent"
  using assms(4) by (simp add: read_cases [OF assms(1-3) refl] blank_def)

lemma read_torn:
  assumes "wf f" "s < jf_slot_count ops f" "OVERHEAD \<le> jf_slot_size ops f" and "torn_slot (content f s)"
  shows "read_candidate A ops alloc app False key s (jf_slot_size ops f) reserved f = Ok Absent
    \<or> read_candidate A ops alloc app False key s (jf_slot_size ops f) reserved f = Ok Corrupt"
proof -
  have "content f s \<noteq> []"
    using content_length [OF assms(1,2)] assms(3) by (auto simp: journal_sizes)
  then have "take 4 (content f s) = 0xff # take 3 (tl (content f s))"
    using assms(4) by (cases "content f s") (simp_all add: torn_slot_def)
  then have "\<not> old_magic (content f s)" "take 4 (take 24 (content f s)) \<noteq> magic ''MJ08''" "take 4 (take 24 (content f s)) \<noteq> magic ''MJ09''"
    by (simp_all add: old_magic_def magic_def)
  then show ?thesis
    by (simp add: read_cases [OF assms(1-3) refl] decode_header_def)
qed

lemma read_sealed:
  assumes "wf f" "s < jf_slot_count ops f" "OVERHEAD \<le> jf_slot_size ops f" and c: "sealed A key reserved h d (content f s)"
  shows "read_candidate A ops (\<lambda>_. True) app False key s (jf_slot_size ops f) reserved f = Ok (Valid (meta_of s h (content f s)) d)"
proof -
  let ?c = "content f s"
  have n: "length ?c = jf_slot_size ops f" "12 \<le> length ?c" "36 \<le> length ?c"
    using content_length [OF assms(1,2)] assms(3) by (simp_all add: journal_sizes)
  have dec: "decode_header (take 24 ?c) (length ?c - 36) reserved = Ok h" and app: "\<not> rh_append_enabled h"
    and com: "committed ?c" and fl: "flags_ok ?c"
    using c by (simp_all add: sealed_def)
  obtain plain where plain: "ccm_decrypt A key (record_nonce (rh_attempt h)) (take 24 ?c) (slice_of ?c 24 (24 + rh_payload_length h))
      = Ok (rh_payload_length h - 16, plain)" "d = take (rh_payload_length h - 16) plain"
    using c by (auto simp: sealed_def)
  have ok: "header_ok (length ?c - 36) reserved h \<and> take 24 ?c = encode_header h"
    using decode_header_sound [OF dec] n by simp
  then have old: "\<not> old_magic ?c"
    using magic_distinct(1) [of h] old_magic_take [of ?c] by simp
  have rd: "jf_read ops s HEADER_BYTES (rh_payload_length h) f = Ok (slice_of ?c 24 (24 + rh_payload_length h))"
    using ok n by (subst read [OF assms(1,2)]) (auto simp: header_ok_def journal_sizes)
  have "read_payload A ops (\<lambda>_. True) app False key s (jf_slot_size ops f) (take 24 ?c)
      (slice_of ?c (length ?c - 12) (length ?c)) h f = Ok (Valid (meta_of s h ?c) d)"
    using fl tail_slices [OF n(2)] rd
    by (simp add: read_payload_def zeroizing_buffer_def try_reserve_def plain candidate_flags_def meta_of_def flags_ok_def
        Let_def journal_sizes)
  then show ?thesis
    by (simp add: read_cases [OF assms(1-3) refl] old com dec app)
qed

abbreviation holds :: "aead \<Rightarrow> bytes \<Rightarrow> nat \<Rightarrow> nat \<Rightarrow> bytes \<Rightarrow> 'f \<Rightarrow> bool" where
  "holds \<equiv> flash_holds ops content mono nonces wf"

abbreviation ready :: "aead \<Rightarrow> bytes \<Rightarrow> 'f journal \<Rightarrow> bool" where
  "ready \<equiv> journal_ready ops content mono nonces wf"

lemma select_held:
  assumes "holds A key a g d f"
  shows "\<exists>m. select_record A ops (\<lambda>_. True) app False key f = Ok (Some m, Some d) \<and> cm_slot m = a \<and> cm_generation m = g"
proof -
  let ?n = "jf_slot_size ops f" and ?count = "jf_slot_count ops f"
  let ?rd = "\<lambda>s. read_candidate A ops (\<lambda>_. True) app False key s ?n (nonces f) f"
  have f: "wf f" "2 \<le> ?count" "?count \<le> 8" "OVERHEAD \<le> ?n" and hold: "slots_hold A key ?count (content f) (nonces f) a g d"
    using assms by (simp_all add: flash_holds_def)
  obtain h where h: "sealed A key (nonces f) h d (content f a)" "rh_generation h = g" and a: "a < ?count"
    and others: "\<And>s. s < ?count \<Longrightarrow> s \<noteq> a \<Longrightarrow>
      older_slot A key (nonces f) g (content f s) \<or> torn_slot (content f s) \<and> started (content f a)"
    and compl: "\<not> complete (content f a)"
    using hold by (auto simp: slots_hold_def)
  define m where "m = meta_of a h (content f a)"
  have at: "?rd a = Ok (Valid m d)"
    unfolding m_def by (rule read_sealed [OF f(1) a f(4) h(1)])
  have gen: "cm_generation m = g" "cm_slot m = a"
    by (simp_all add: m_def meta_of_def h)
  have other: "(?rd s = Ok Absent \<or> ?rd s = Ok Corrupt \<and> started (content f a)
      \<or> (\<exists>m' d'. ?rd s = Ok (Valid m' d') \<and> cm_generation m' < cm_generation m))"
    if s: "s < ?count" "s \<noteq> a" for s
    using others [OF s] read_blank [OF f(1) s(1) f(4)] read_torn [OF f(1) s(1) f(4)] read_sealed [OF f(1) s(1) f(4)] gen
    by (fastforce simp: older_slot_def meta_of_def)
  have outcomes: "\<forall>s \<in> set [0..<?count]. read_outcome ?rd a m d s \<and> (\<exists>b. jf_is_erased ops s f = Ok b)"
    using other at is_erased [OF f(1)] unfolding read_outcome_def set_upt by (metis atLeastLessThan_iff)
  obtain st where st: "scan_slots A ops (\<lambda>_. True) app False key ?n (nonces f) f [0..<?count]
      \<lparr>sc_selected = None, sc_non_erased = False, sc_corrupt = False\<rparr> = Ok st" "sc_selected st = Some m"
    "sc_corrupt st \<longrightarrow> (\<exists>s < ?count. ?rd s = Ok Corrupt)"
    using scan_slots_selects [OF outcomes, of "\<lparr>sc_selected = None, sc_non_erased = False, sc_corrupt = False\<rparr>"] a
    unfolding scan_state.simps set_upt by (metis atLeastLessThan_iff option.distinct(1) zero_le)
  have "sc_corrupt st \<longrightarrow> interrupted_reclaim (Some m)"
    using st(3) other at compl by (fastforce simp: interrupted_reclaim_def m_def meta_of_def)
  then show ?thesis
    using f nonce [OF f(1)] st(1,2) at gen
    by (simp add: select_record_def Let_def reload_selected_def)
qed

lemma reconcile_held:
  assumes "wf f" and "mono f = g \<or> Suc (mono f) = g" and "g \<le> jf_monotonic_capacity ops f"
  shows "\<exists>f'. reconcile_generation ops g (reboot f) = (Ok (), f') \<and> wf f' \<and> same_shape_flash ops f f'
    \<and> content f' = content f \<and> nonces f' = nonces f \<and> mono f' = g"
proof -
  note rb = rebooted [OF assms(1)]
  have cap: "jf_monotonic_capacity ops (reboot f) = jf_monotonic_capacity ops f"
    using rb by (simp add: same_shape_flash_def)
  have m: "jf_monotonic_generation ops (reboot f) = Ok (mono f)" "mono f \<le> jf_monotonic_capacity ops f"
    "mono f + 1 \<le> u64_max"
    using monotonic [of "reboot f"] rb cap capacity_fits [OF assms(1)] by (auto simp: usize_max_def u64_max_def)
  have unfold: "reconcile_generation ops g (reboot f) =
      (if Suc (mono f) = g then jf_advance_monotonic ops g (reboot f) else (Ok (), reboot f))"
    using assms(2) m by (auto simp: reconcile_generation_def sbind_def cap checked_add_u64_def)
  show ?thesis
  proof (cases "Suc (mono f) = g")
    case True
    obtain r f' where adv: "jf_advance_monotonic ops (Suc (mono f)) (reboot f) = (r, f')"
      by fastforce
    have "r = Ok ()"
      using rebooted_advance [OF assms(1)] True assms(3) adv by simp
    then show ?thesis
      using advance [of "reboot f" r f'] rb adv True unfold by (auto simp: same_shape_flash_def)
  next
    case False
    then show ?thesis using unfold rb assms(2) by simp
  qed
qed

text \<open>Recovery on a flash that holds a snapshot returns it and leaves the journal ready to commit.\<close>

lemma recover_held:
  assumes "holds A (j_key j) a g d f" and "j_flash j = reboot f" and "\<not> j_append_enabled j"
  shows "\<exists>j'. recover_with A ops (\<lambda>_. True) j = (Ok (Some d), j') \<and> ready A d j' \<and> j_key j' = j_key j"
proof -
  have f: "wf f" and hold: "slots_hold A (j_key j) (jf_slot_count ops f) (content f) (nonces f) a g d"
    using assms(1) by (simp_all add: flash_holds_def)
  note rb = rebooted [OF f]
  have "holds A (j_key j) a g d (reboot f)"
    using assms(1) rb by (simp add: flash_holds_def same_shape_flash_def)
  from select_held [OF this] obtain m where
    m: "select_record A ops (\<lambda>_. True) refuse_change False (j_key j) (reboot f) = Ok (Some m, Some d)" "cm_slot m = a" "cm_generation m = g"
    by blast
  obtain f' where f': "reconcile_generation ops g (reboot f) = (Ok (), f')" "wf f'" "same_shape_flash ops f f'"
    "content f' = content f" "nonces f' = nonces f" "mono f' = g"
    using reconcile_held [OF f] assms(1) unfolding flash_holds_def by blast
  have "holds A (j_key j) a g d f'"
    using assms(1) f' by (simp add: flash_holds_def same_shape_flash_def)
  then show ?thesis
    using m f' rb assms(2,3)
    by (simp add: recover_with_def recover_with_replay_def recover_mode_def anchor_def Let_def journal_ready_def same_shape_flash_def)
qed

end

end
