(* ===== verification/Journal_Crash.thy ===== *)
theory Journal_Crash
  imports Journal_Atomic
begin

text \<open>
  Commits that may be cut at any point. Each flash operation of a commit leads to a flash that holds
  the old snapshot or the new one; the commit returns \<open>Ok\<close> only when it is the new one.
\<close>

section \<open>Outcomes of actions\<close>

definition ends :: "('s, 'e, 'a) act \<Rightarrow> 's \<Rightarrow> ('a \<Rightarrow> 's \<Rightarrow> bool) \<Rightarrow> ('s \<Rightarrow> bool) \<Rightarrow> bool" where
  "ends m s P Q \<longleftrightarrow> (\<forall>r t. m s = (r, t) \<longrightarrow> (case r of Ok x \<Rightarrow> P x t | Err _ \<Rightarrow> Q t))"

lemma endsI: "(\<And>r t. m s = (r, t) \<Longrightarrow> (case r of Ok x \<Rightarrow> P x t | Err _ \<Rightarrow> Q t)) \<Longrightarrow> ends m s P Q"
  by (simp add: ends_def)

lemma endsD: "ends m s P Q \<Longrightarrow> m s = (r, t) \<Longrightarrow> (case r of Ok x \<Rightarrow> P x t | Err _ \<Rightarrow> Q t)"
  by (simp add: ends_def)

lemma ends_sbind:
  assumes "ends m s R Q" and "\<And>x t. R x t \<Longrightarrow> ends (k x) t P Q"
  shows "ends (sbind m k) s P Q"
  using assms by (fastforce simp: ends_def sbind_eq split: result.splits)

lemma ends_sret: "P x s \<Longrightarrow> ends (sret x) s P Q"
  by (simp add: ends_def)

lemma ends_smodify: "P () (g s) \<Longrightarrow> ends (smodify g) s P Q"
  by (simp add: ends_def)

lemma ends_slift: "(\<And>x. r = Ok x \<Longrightarrow> P x s) \<Longrightarrow> Q s \<Longrightarrow> ends (slift r) s P Q"
  by (auto simp: ends_def split: result.splits)

lemma ends_sget: "(\<And>x. h s = Ok x \<Longrightarrow> P x s) \<Longrightarrow> Q s \<Longrightarrow> ends (sget h) s P Q"
  by (auto simp: ends_def split: result.splits)

lemma ends_weaken:
  assumes "ends m s P Q" and "\<And>x t. P x t \<Longrightarrow> P' x t" and "\<And>t. Q t \<Longrightarrow> Q' t"
  shows "ends m s P' Q'"
  using assms unfolding ends_def by (metis (mono_tags, lifting) result.case_eq_if)

lemma ends_on_flash:
  assumes "ends m (j_flash j) P Q" and "\<And>x f. P x f \<Longrightarrow> P' x (j\<lparr>j_flash := f\<rparr>)" and "\<And>f. Q f \<Longrightarrow> Q' (j\<lparr>j_flash := f\<rparr>)"
  shows "ends (on_flash m) j P' Q'"
  using assms by (fastforce simp: ends_def on_flash_def split: prod.splits result.splits)

lemma program_active_Some: "j_active j = Some a \<Longrightarrow> program_active ops at j = on_flash (jf_program ops a at zero_word) j"
  by (simp add: program_active_def)

section \<open>The new record\<close>

text \<open>What the journal needs of AES-CCM: decryption of what encryption produced, with a tag of 16 bytes.\<close>

definition ccm_inverts :: "aead \<Rightarrow> bool" where
  "ccm_inverts A \<longleftrightarrow> (\<forall>key nonce aad plain w ct. ccm_encrypt A key nonce aad (plain @ replicate 16 0) = Ok (w, ct) \<longrightarrow>
     length ct = length plain + 16 \<and> (\<exists>p. ccm_decrypt A key nonce aad ct = Ok (length plain, p) \<and> take (length plain) p = plain))"

definition record_of :: "aead \<Rightarrow> bytes \<Rightarrow> record_header \<Rightarrow> bytes \<Rightarrow> bytes \<Rightarrow> bool" where
  "record_of A key h data rec \<longleftrightarrow> \<not> rh_append_enabled h \<and> rh_payload_length h = length data + 16
     \<and> (\<exists>ct. rec = encode_header h @ ct \<and> length ct = length data + 16
          \<and> (\<exists>p. ccm_decrypt A key (record_nonce (rh_attempt h)) (encode_header h) ct = Ok (length data, p) \<and> take (length data) p = data))"

lemma prepared_record:
  assumes "prepare_record alloc data = Ok (buf, n)"
  shows "n = length data + 16 \<and> n \<le> u32_max \<and> length buf = length data + 40 \<and> drop 24 buf = data @ replicate 16 0"
  using assms by (auto simp: prepare_record_def rbind_eq_Ok HEADER_BYTES_def overwrite_def split: if_splits)

lemma encrypted_record:
  assumes "encrypt_record A buf key h (record_nonce (rh_attempt h)) = Ok rec" and "ccm_inverts A" and "\<not> rh_append_enabled h"
    and "length buf = length data + 40" and "drop 24 buf = data @ replicate 16 0" and "rh_payload_length h = length data + 16"
  shows "record_of A key h data rec"
proof -
  let ?b = "overwrite buf 0 (encode_header h)"
  have parts: "take HEADER_BYTES ?b = encode_header h" "drop HEADER_BYTES ?b = data @ replicate 16 0"
    using assms(4,5) by (simp_all add: overwrite_def HEADER_BYTES_def)
  obtain w ct where ct: "ccm_encrypt A key (record_nonce (rh_attempt h)) (encode_header h) (data @ replicate 16 0) = Ok (w, ct)"
    "rec = encode_header h @ ct"
    using assms(1) unfolding encrypt_record_def Let_def parts by (auto simp: rbind_eq_Ok split: if_splits)
  from assms(2) [unfolded ccm_inverts_def, rule_format, OF ct(1)] show ?thesis
    unfolding record_of_def using ct(2) assms(3,6) by simp
qed

text \<open>The slot while the record is written, and once the commit marker is there.\<close>

lemma replicate_erased: "replicate 4 0xff = erased_word"
  by (simp add: erased_word_def numeral_eq_Suc)

lemma words_differ [simp]: "erased_word \<noteq> zero_word" "zero_word \<noteq> erased_word"
  by (simp_all add: erased_word_def zero_word_def)

lemma blank_prefix:
  assumes "record_of A key h data rec" and "length rec \<le> n - 12" and "12 \<le> n"
  shows "blank (overwrite (replicate n 0xff) 0 (take (4 * k) rec))"
proof -
  let ?c = "overwrite (replicate n 0xff) 0 (take (4 * k) rec)"
  have len: "length (take (4 * k) rec) \<le> n - 12"
    using assms(2) by simp
  have "length ?c = n"
    using len by simp
  moreover have "slice_of ?c (n - 4) n = slice_of (replicate n 0xff) (n - 4) n"
    using len assms(3) by (intro slice_of_overwrite_disjoint) auto
  ultimately have "tail_word COMMITTED ?c = replicate 4 0xff"
    using assms(3) by (simp add: tail_word_def journal_sizes slice_of_def)
  moreover have "take 4 ?c = (if k = 0 then replicate 4 0xff else magic ''MJ08'')"
    using assms(1,3) take_header [of h]
    by (cases k) (auto simp: record_of_def overwrite_def)
  then have "take 4 ?c = [0xff, 0xff, 0xff, 0xff] \<or> take 4 ?c = magic ''MJ08''"
    by (simp add: numeral_eq_Suc split: if_splits)
  then have "\<not> old_magic ?c"
    unfolding old_magic_def by (elim disjE) (simp_all add: magic_def)
  ultimately show ?thesis
    by (simp add: blank_def replicate_erased words_differ)
qed

lemma sealed_record:
  assumes r: "record_of A key h data rec" and len: "length rec \<le> n - 12" "36 \<le> n" and ok: "header_ok (n - 36) reserved h"
  defines "c \<equiv> overwrite (overwrite (replicate n 0xff) 0 rec) (n - 4) zero_word"
  shows "sealed A key reserved h data c" and "\<not> started c" and "\<not> complete c"
proof -
  obtain ct p where ct: "rec = encode_header h @ ct" "length ct = length data + 16"
    "ccm_decrypt A key (record_nonce (rh_attempt h)) (encode_header h) ct = Ok (length data, p)" "take (length data) p = data"
    and h: "\<not> rh_append_enabled h" "rh_payload_length h = length data + 16"
    using r by (auto simp: record_of_def)
  let ?b = "overwrite (replicate n 0xff) 0 rec"
  have b: "length ?b = n" "12 \<le> length ?b" "?b = encode_header h @ ct @ replicate (n - length rec) 0xff"
    using len by (simp_all add: ct overwrite_def)
  have k: "(4::nat) \<in> {4, 8, 12}" by simp
  have cb: "c = overwrite ?b (length ?b - 4) zero_word" "length c = n"
    using b length_tail_write [OF k b(2)] by (simp_all add: c_def)
  have fb: "take 24 ?b = encode_header h" "slice_of ?b 24 (24 + rh_payload_length h) = ct"
    using ct(2) h by (simp_all add: b(3) slice_of_def)
  have front: "take 24 c = encode_header h" "slice_of c 24 (24 + rh_payload_length h) = ct"
    unfolding cb(1) using fb front_write(1) [OF k b(2), of 24] front_write(2) [OF k b(2), of "24 + rh_payload_length h" 24] len b(1)
    by (simp_all add: h ct(1,2))
  have ff: "slice_of ?b i (i + 4) = erased_word" if "n - 12 \<le> i" "i + 4 \<le> n" for i
  proof -
    have "slice_of ?b i (i + 4) = slice_of (replicate n 0xff) i (i + 4)"
      using that len by (intro slice_of_overwrite_disjoint) auto
    then show ?thesis
      using that by (simp add: slice_of_def replicate_erased)
  qed
  have words: "tail_word 12 c = erased_word" "tail_word 8 c = erased_word" "committed c"
    unfolding cb(1) using len b(1) tail_word_write [OF k _ b(2), of 12] tail_word_write [OF k _ b(2), of 8] tail_word_write [OF k _ b(2), of 4]
      ff [of "n - 12"] ff [of "n - 8"]
    by (simp_all add: journal_sizes tail_word_def)
  have "flags_ok c"
    using words by (simp add: flags_ok_def journal_sizes erased_word_def zero_word_def)
  then show "sealed A key reserved h data c"
    using words(3) front ct h decode_encode_header [OF ok] by (simp add: sealed_def cb(2))
  show "\<not> started c" "\<not> complete c"
    using words by (simp_all add: journal_sizes erased_word_def zero_word_def)
qed

section \<open>Slots through a commit\<close>

lemma target_other: "2 \<le> count \<Longrightarrow> a < count \<Longrightarrow> (a + 1) mod count \<noteq> a \<and> (a + 1) mod count < (count::nat)"
  by (cases "Suc a = count") simp_all

lemma older_mono: "older_slot A key reserved g c \<Longrightarrow> reserved \<le> reserved' \<Longrightarrow> older_slot A key reserved' g c"
  unfolding older_slot_def using sealed_mono by blast

lemma hold_mono:
  assumes "slots_hold A key count c reserved a g d" and "reserved \<le> reserved'"
  shows "slots_hold A key count c reserved' a g d"
  using assms(1) sealed_mono [OF _ assms(2)] older_mono [OF _ assms(2)] unfolding slots_hold_def by blast

lemma hold_other:
  assumes "slots_hold A key count c reserved a g d" and "s \<noteq> a"
    and "older_slot A key reserved g x \<or> torn_slot x \<and> s = (a + 1) mod count \<and> started (c a)"
  shows "slots_hold A key count (c(s := x)) reserved a g d"
  using assms by (simp add: slots_hold_def)

lemma hold_started:
  assumes "slots_hold A key count c reserved a g d" and "36 \<le> length (c a)"
  defines "x \<equiv> overwrite (c a) (length (c a) - RECLAIM_STARTED) zero_word"
  shows "slots_hold A key count (c(a := x)) reserved a g d" and "started x"
proof -
  have k: "RECLAIM_STARTED \<in> {4, 8, 12}" "RECLAIM_COMPLETE \<in> {4, 8, 12}" "12 \<le> length (c a)" "RECLAIM_COMPLETE \<noteq> RECLAIM_STARTED"
    using assms(2) by (simp_all add: journal_sizes)
  show st: "started x"
    using tail_word_write [OF k(1) k(1) k(3)] by (simp add: x_def)
  have "complete x = complete (c a)"
    using tail_word_write [OF k(1) k(2) k(3)] k(4) by (simp add: x_def)
  then show "slots_hold A key count (c(a := x)) reserved a g d"
    using assms(1,2) st sealed_write [of A key reserved _ d "c a" RECLAIM_STARTED] unfolding slots_hold_def x_def
    by auto
qed

lemma hold_publish:
  assumes "slots_hold A key count c reserved a g d" and "2 \<le> count" and "t = (a + 1) mod count"
    and "sealed A key reserved h data x" and "rh_generation h = Suc g" and "\<not> complete x"
  shows "slots_hold A key count (c(t := x)) reserved t (Suc g) data"
proof -
  have t: "t \<noteq> a" "t < count"
    using target_other [OF assms(2)] assms(1,3) by (auto simp: slots_hold_def)
  have "older_slot A key reserved (Suc g) (c s)" if "s < count" "s \<noteq> t" for s
    using assms(1,3) that unfolding slots_hold_def older_slot_def by (metis less_Suc_eq)
  then show ?thesis
    using t assms(4-6) by (auto simp: slots_hold_def)
qed

lemma length_zero_word [simp]: "length zero_word = 4"
  by (simp add: zero_word_def)

lemma torn_word: "torn_program c at zero_word k = (if k = 0 then c else overwrite c at zero_word)"
  by (cases k) (simp_all add: torn_program_def zero_word_def)

lemma torn_erase_slot: "k \<noteq> 0 \<Longrightarrow> torn_slot (torn_erase c k)"
  by (cases k) (simp_all add: torn_erase_def torn_slot_def)

definition same_counters :: "'f jflash \<Rightarrow> ('f \<Rightarrow> nat) \<Rightarrow> ('f \<Rightarrow> nat) \<Rightarrow> 'f \<Rightarrow> 'f \<Rightarrow> bool" where
  "same_counters ops anchored nonces f f' \<longleftrightarrow> same_shape_flash ops f f' \<and> anchored f' = anchored f \<and> nonces f' = nonces f"

lemma flash_holds_update:
  assumes "flash_holds ops content anchored nonces valid A key a g d f" and "valid f'" and "same_counters ops anchored nonces f f'"
    and "slots_hold A key (jf_slot_count ops f) (content f') (nonces f) a g d"
  shows "flash_holds ops content anchored nonces valid A key a g d f'"
  using assms by (simp add: flash_holds_def same_counters_def same_shape_flash_def)

section \<open>The flash operations of a commit\<close>

context journal_flash
begin

abbreviation same :: "'f \<Rightarrow> 'f \<Rightarrow> bool" where
  "same \<equiv> same_counters ops mono nonces"

lemma held_facts:
  assumes "holds A key a g d f"
  shows "wf f" "a < jf_slot_count ops f" "36 \<le> length (content f a)" "length (content f a) = jf_slot_size ops f"
    "(a + 1) mod jf_slot_count ops f \<noteq> a" "(a + 1) mod jf_slot_count ops f < jf_slot_count ops f"
    "52 \<le> jf_slot_size ops f" "4 dvd jf_slot_size ops f" "2 \<le> jf_slot_count ops f"
    "slots_hold A key (jf_slot_count ops f) (content f) (nonces f) a g d"
proof -
  show f: "wf f" "a < jf_slot_count ops f" and n: "52 \<le> jf_slot_size ops f" and c: "2 \<le> jf_slot_count ops f"
    using assms by (simp_all add: flash_holds_def slots_hold_def journal_sizes)
  show "length (content f a) = jf_slot_size ops f" "36 \<le> length (content f a)"
    using content_length [OF f] n by simp_all
  show "(a + 1) mod jf_slot_count ops f \<noteq> a" "(a + 1) mod jf_slot_count ops f < jf_slot_count ops f"
    using target_other [OF c f(2)] by simp_all
  show "4 dvd jf_slot_size ops f"
    using size_fits [OF f(1)] by simp
  show "slots_hold A key (jf_slot_count ops f) (content f) (nonces f) a g d"
    using assms by (simp add: flash_holds_def)
qed

lemma program_tail:
  assumes "wf f" "s < jf_slot_count ops f" "52 \<le> jf_slot_size ops f" and k: "k \<in> {4, 8, 12}"
  shows "ends (jf_program ops s (jf_slot_size ops f - k) zero_word) f
    (\<lambda>_ f'. wf f' \<and> same f f' \<and> content f' = (content f)(s := overwrite (content f s) (length (content f s) - k) zero_word))
    (\<lambda>f'. wf f' \<and> same f f' \<and> (content f' = content f
       \<or> content f' = (content f)(s := overwrite (content f s) (length (content f s) - k) zero_word)))"
proof (rule endsI)
  fix r f' assume p: "jf_program ops s (jf_slot_size ops f - k) zero_word f = (r, f')"
  have a: "4 dvd jf_slot_size ops f - k" "jf_slot_size ops f - k + length zero_word \<le> jf_slot_size ops f"
    using size_fits [OF assms(1)] assms(3) k by (auto simp: dvd_diff_nat)
  from program [OF assms(1,2) a p] content_length [OF assms(1,2)]
  show "case r of Ok x \<Rightarrow> wf f' \<and> same f f' \<and> content f' = (content f)(s := overwrite (content f s) (length (content f s) - k) zero_word)
      | Err _ \<Rightarrow> wf f' \<and> same f f' \<and> (content f' = content f
       \<or> content f' = (content f)(s := overwrite (content f s) (length (content f s) - k) zero_word))"
    by (cases r) (auto simp: torn_word same_counters_def split: if_splits)
qed

lemma start_reclaim:
  assumes "holds A key a g d f"
  shows "ends (jf_program ops a (jf_slot_size ops f - RECLAIM_STARTED) zero_word) f
    (\<lambda>_ f'. holds A key a g d f' \<and> same f f' \<and> started (content f' a)) (\<lambda>f'. holds A key a g d f')"
proof -
  note h = held_facts [OF assms]
  have k: "RECLAIM_STARTED \<in> {4, 8, 12}" by (simp add: journal_sizes)
  show ?thesis
    by (rule ends_weaken [OF program_tail [OF h(1,2,7) k]])
      (use hold_started [OF h(10,3)] h(10) in \<open>auto intro: flash_holds_update [OF assms]\<close>)
qed

lemma erase_target:
  assumes "holds A key a g d f" and "started (content f a)" and t: "t = (a + 1) mod jf_slot_count ops f"
  shows "ends (jf_erase ops t) f
    (\<lambda>_ f'. holds A key a g d f' \<and> same f f' \<and> started (content f' a) \<and> content f' t = replicate (jf_slot_size ops f) 0xff)
    (\<lambda>f'. holds A key a g d f')"
proof (rule endsI)
  fix r f' assume e: "jf_erase ops t f = (r, f')"
  note h = held_facts [OF assms(1)]
  obtain k where f': "wf f'" "same f f'" and k: "k \<le> jf_slot_size ops f" "content f' = (content f)(t := torn_erase (content f t) k)"
    "r = Ok () \<longrightarrow> k = jf_slot_size ops f"
    using erase [OF h(1) _ e] h(6) t by (auto simp: same_counters_def)
  have "slots_hold A key (jf_slot_count ops f) (content f') (nonces f) a g d"
    using hold_other [OF h(10), of t "torn_erase (content f t) k"] h(5,10) assms(2) t k(2) torn_erase_slot [of k "content f t"]
    by (cases "k = 0") (auto simp: torn_erase_def)
  then have "holds A key a g d f'"
    using f' by (intro flash_holds_update [OF assms(1)])
  moreover have "length (content f t) = jf_slot_size ops f"
    using content_length [OF h(1)] h(6) t by simp
  ultimately show "case r of Ok x \<Rightarrow> holds A key a g d f' \<and> same f f' \<and> started (content f' a)
      \<and> content f' t = replicate (jf_slot_size ops f) 0xff | Err _ \<Rightarrow> holds A key a g d f'"
    using f' k assms(2) t h(5) by (cases r) (auto simp: torn_erase_def)
qed

lemma program_record:
  assumes "holds A key a g d f" and "started (content f a)" and t: "t = (a + 1) mod jf_slot_count ops f"
    and er: "content f t = replicate (jf_slot_size ops f) 0xff"
    and rec: "record_of A key h data rec" "length rec \<le> jf_slot_size ops f - 12"
  shows "ends (jf_program ops t 0 rec) f
    (\<lambda>_ f'. holds A key a g d f' \<and> same f f' \<and> started (content f' a)
       \<and> content f' t = overwrite (replicate (jf_slot_size ops f) 0xff) 0 rec)
    (\<lambda>f'. holds A key a g d f')"
proof (rule endsI)
  fix r f' assume p: "jf_program ops t 0 rec f = (r, f')"
  note h = held_facts [OF assms(1)]
  have len: "0 + length rec \<le> jf_slot_size ops f"
    using rec(2) by simp
  obtain k where f': "wf f'" "same f f'" and k: "content f' = (content f)(t := torn_program (content f t) 0 rec k)"
    "r = Ok () \<longrightarrow> length rec \<le> 4 * k"
    using program [OF h(1) h(6) [folded t] dvd_0_right len p] by (auto simp: same_counters_def)
  have "blank (torn_program (content f t) 0 rec k)"
    unfolding er torn_program_def using blank_prefix [OF rec] h(7) by simp
  then have "slots_hold A key (jf_slot_count ops f) (content f') (nonces f) a g d"
    using hold_other [OF h(10)] h(5) t k(1) by (auto simp: older_slot_def)
  then have "holds A key a g d f'"
    using f' by (intro flash_holds_update [OF assms(1)])
  then show "case r of Ok x \<Rightarrow> holds A key a g d f' \<and> same f f' \<and> started (content f' a)
      \<and> content f' t = overwrite (replicate (jf_slot_size ops f) 0xff) 0 rec | Err _ \<Rightarrow> holds A key a g d f'"
    using f' k assms(2) t h(5) er by (cases r) (auto simp: torn_program_def)
qed

lemma publish_marker:
  assumes "holds A key a g d f" and "started (content f a)" and t: "t = (a + 1) mod jf_slot_count ops f" and "mono f = g"
    and er: "content f t = overwrite (replicate (jf_slot_size ops f) 0xff) 0 rec"
    and rec: "record_of A key h data rec" "length rec \<le> jf_slot_size ops f - 12"
    and ok: "header_ok (jf_slot_size ops f - 36) (nonces f) h" "rh_generation h = Suc g" "Suc g \<le> jf_monotonic_capacity ops f"
  shows "ends (jf_program ops t (jf_slot_size ops f - COMMITTED) zero_word) f
    (\<lambda>_ f'. holds A key t (Suc g) data f' \<and> same f f'
       \<and> (\<exists>h. sealed A key (nonces f) h d (content f' a) \<and> rh_generation h = g) \<and> started (content f' a))
    (\<lambda>f'. holds A key a g d f' \<or> holds A key t (Suc g) data f')"
proof -
  note h = held_facts [OF assms(1)]
  have k: "COMMITTED \<in> {4, 8, 12}" by (simp add: journal_sizes)
  have n: "length (content f t) = jf_slot_size ops f" "36 \<le> jf_slot_size ops f" "COMMITTED = 4"
    using content_length [OF h(1)] h(6,7) t by (simp_all add: journal_sizes)
  define x where "x = overwrite (content f t) (length (content f t) - COMMITTED) zero_word"
  have "x = overwrite (content f t) (jf_slot_size ops f - 4) zero_word"
    by (simp only: x_def n(1,3))
  then have x: "sealed A key (nonces f) h data x" "\<not> complete x"
    using sealed_record [OF rec n(2) ok(1)] unfolding er by simp_all
  note pub = hold_publish [OF h(10) h(9) t x(1) ok(2) x(2)]
  have new: "holds A key t (Suc g) data f'" if "wf f'" "same f f'" "content f' = (content f)(t := x)" for f'
    using that pub assms(1,4) ok(3) unfolding flash_holds_def same_counters_def same_shape_flash_def by simp
  have old: "holds A key a g d f'" if "wf f'" "same f f'" "content f' = content f" for f'
    using that h(10) by (intro flash_holds_update [OF assms(1)]) auto
  have slot_a: "\<exists>h. sealed A key (nonces f) h d (content f a) \<and> rh_generation h = g"
    using h(10) by (auto simp: slots_hold_def)
  show ?thesis
    by (rule ends_weaken [OF program_tail [OF h(1) h(6) [folded t] h(7) k, folded x_def]])
      (use new old slot_a assms(2) h(5) [folded t] in auto)
qed

lemma finish_reclaim:
  assumes "holds A key t g' data f" and a: "a < jf_slot_count ops f" "a \<noteq> t"
    and old: "sealed A key (nonces f) h d (content f a)" "rh_generation h < g'" "started (content f a)"
  shows "ends (jf_program ops a (jf_slot_size ops f - RECLAIM_COMPLETE) zero_word) f
    (\<lambda>_ f'. holds A key t g' data f' \<and> same f f') (\<lambda>f'. holds A key t g' data f')"
proof -
  note h = held_facts [OF assms(1)]
  have k: "RECLAIM_COMPLETE \<in> {4, 8, 12}" by (simp add: journal_sizes)
  have n: "36 \<le> length (content f a)"
    using content_length [OF h(1) a(1)] h(7) by simp
  have "older_slot A key (nonces f) g' (overwrite (content f a) (length (content f a) - RECLAIM_COMPLETE) zero_word)"
    using sealed_write [OF old(1) _ n, of RECLAIM_COMPLETE] old(2,3) unfolding older_slot_def by blast
  note upd = hold_other [OF h(10) a(2) disjI1 [OF this]]
  show ?thesis
    by (rule ends_weaken [OF program_tail [OF h(1) a(1) h(7) k]])
      (use upd h(10) in \<open>auto intro!: flash_holds_update [OF assms(1)]\<close>)
qed

lemma anchor_generation:
  assumes "holds A key t (Suc g) data f" and "mono f = g"
  shows "ends (jf_advance_monotonic ops (Suc g)) f (\<lambda>_ f'. holds A key t (Suc g) data f' \<and> mono f' = Suc g \<and> same_shape_flash ops f f')
    (\<lambda>f'. holds A key t (Suc g) data f')"
proof (rule endsI)
  fix r f' assume "jf_advance_monotonic ops (Suc g) f = (r, f')"
  from advance [OF held_facts(1) [OF assms(1)]] this assms
  show "case r of Ok x \<Rightarrow> holds A key t (Suc g) data f' \<and> mono f' = Suc g \<and> same_shape_flash ops f f' | Err _ \<Rightarrow> holds A key t (Suc g) data f'"
    by (cases r) (auto simp: flash_holds_def same_shape_flash_def)
qed

lemma reserve_attempt:
  assumes "holds A key a g d f" and "mono f = g"
  shows "ends (jf_reserve_nonce ops) f
    (\<lambda>v f'. holds A key a g d f' \<and> mono f' = g \<and> same_shape_flash ops f f' \<and> v = nonces f' \<and> 0 < v)
    (\<lambda>f'. holds A key a g d f' \<and> mono f' = g \<and> same_shape_flash ops f f')"
proof (rule endsI)
  fix r f' assume q: "jf_reserve_nonce ops f = (r, f')"
  note h = held_facts [OF assms(1)]
  note f' = reserve [OF h(1) q]
  have "slots_hold A key (jf_slot_count ops f) (content f) (nonces f') a g d"
    using f' by (intro hold_mono [OF h(10)]) auto
  then have "holds A key a g d f'"
    using f' assms(1) by (simp add: flash_holds_def same_shape_flash_def)
  then show "case r of Ok v \<Rightarrow> holds A key a g d f' \<and> mono f' = g \<and> same_shape_flash ops f f' \<and> v = nonces f' \<and> 0 < v
      | Err _ \<Rightarrow> holds A key a g d f' \<and> mono f' = g \<and> same_shape_flash ops f f'"
    using f' assms(2) by (cases r) auto
qed

section \<open>Commits\<close>

text \<open>The journal after a commit that was cut: one of the two snapshots is on the flash.\<close>

definition survives :: "aead \<Rightarrow> bytes \<Rightarrow> bytes \<Rightarrow> bytes \<Rightarrow> 'f journal \<Rightarrow> bool" where
  "survives A key d data j \<longleftrightarrow> j_key j = key \<and> \<not> j_append_enabled j
     \<and> (\<exists>a g. holds A key a g d (j_flash j) \<or> holds A key a g data (j_flash j))"

text \<open>A commit in progress: the journal it started from, and the state its flash has reached.\<close>

definition commit_setup :: "aead \<Rightarrow> 'f journal \<Rightarrow> nat \<Rightarrow> nat \<Rightarrow> bytes \<Rightarrow> record_header \<Rightarrow> bytes \<Rightarrow> bytes \<Rightarrow> nat \<Rightarrow> nat \<Rightarrow> bool" where
  "commit_setup A j a g d h data rec t n \<longleftrightarrow> holds A (j_key j) a g d (j_flash j) \<and> j_active j = Some a \<and> \<not> j_append_enabled j
     \<and> j_slot_count j = jf_slot_count ops (j_flash j) \<and> mono (j_flash j) = g
     \<and> t = (a + 1) mod jf_slot_count ops (j_flash j) \<and> n = jf_slot_size ops (j_flash j)
     \<and> record_of A (j_key j) h data rec \<and> length rec \<le> n - 12 \<and> header_ok (n - 36) (nonces (j_flash j)) h
     \<and> rh_generation h = Suc g \<and> Suc g \<le> jf_monotonic_capacity ops (j_flash j)"

definition staged :: "'f journal \<Rightarrow> ('f \<Rightarrow> bool) \<Rightarrow> 'f journal \<Rightarrow> bool" where
  "staged j P j' \<longleftrightarrow> j_key j' = j_key j \<and> j_active j' = j_active j \<and> \<not> j_append_enabled j' \<and> j_slot_count j' = j_slot_count j
     \<and> same (j_flash j) (j_flash j') \<and> P (j_flash j')"

lemma staged_facts:
  assumes "commit_setup A j a g d h data rec t n" and "staged j P j1"
  shows "P (j_flash j1)" "jf_slot_size ops (j_flash j1) = n" "t = (a + 1) mod jf_slot_count ops (j_flash j1)" "mono (j_flash j1) = g"
    "nonces (j_flash j1) = nonces (j_flash j)" "Suc g \<le> jf_monotonic_capacity ops (j_flash j1)" "j_active j1 = Some a"
    "a < jf_slot_count ops (j_flash j1)" "a \<noteq> t"
  using assms held_facts(2,5) [of A "j_key j" a g d "j_flash j"]
  by (auto simp: commit_setup_def staged_def same_counters_def same_shape_flash_def)

text \<open>A flash operation on a staged journal: what it reaches when it succeeds, and what survives when it does not.\<close>

lemma staged_step:
  assumes "commit_setup A j a g d h data rec t n" and "staged j P j1"
    and "ends m (j_flash j1) (\<lambda>_ f'. same (j_flash j1) f' \<and> R f') (\<lambda>f'. holds A (j_key j) a g d f' \<or> holds A (j_key j) t (Suc g) data f')"
  shows "ends (on_flash m) j1 (\<lambda>_. staged j R) (survives A (j_key j) d data)"
proof (rule ends_on_flash [OF assms(3)])
  fix x f' assume "same (j_flash j1) f' \<and> R f'"
  then show "staged j R (j1\<lparr>j_flash := f'\<rparr>)"
    using assms(2) by (auto simp: staged_def same_counters_def same_shape_flash_def)
next
  fix f' assume "holds A (j_key j) a g d f' \<or> holds A (j_key j) t (Suc g) data f'"
  then show "survives A (j_key j) d data (j1\<lparr>j_flash := f'\<rparr>)"
    using assms(2) by (auto simp: survives_def staged_def)
qed

lemma program_active_step:
  assumes "commit_setup A j a g d h data rec t n" and "staged j P j1"
    and "ends (jf_program ops a at zero_word) (j_flash j1) (\<lambda>_ f'. same (j_flash j1) f' \<and> R f')
      (\<lambda>f'. holds A (j_key j) a g d f' \<or> holds A (j_key j) t (Suc g) data f')"
  shows "ends (program_active ops at) j1 (\<lambda>_. staged j R) (survives A (j_key j) d data)"
  using staged_step [OF assms] staged_facts(7) [OF assms(1,2)] by (simp add: ends_def program_active_Some)

lemma publish_record_outcome:
  assumes cs: "commit_setup A j a g d h data rec t n"
  shows "ends (publish_record ops n t (Suc g) Anchored (rec, attempt)) j
    (\<lambda>_ j'. ready A data j' \<and> j_key j' = j_key j) (survives A (j_key j) d data)"
proof -
  let ?key = "j_key j" and ?S = "survives A (j_key j) d data"
  let ?started = "\<lambda>f. holds A ?key a g d f \<and> started (content f a)"
  let ?published = "\<lambda>f. holds A ?key t (Suc g) data f \<and> (\<exists>h. sealed A ?key (nonces (j_flash j)) h d (content f a) \<and> rh_generation h = g)
    \<and> started (content f a)"
  have rec: "record_of A ?key h data rec" "length rec \<le> n - 12" "header_ok (n - 36) (nonces (j_flash j)) h" "rh_generation h = Suc g"
    using cs by (auto simp: commit_setup_def)
  note fact = staged_facts [OF cs] and active = program_active_step [OF cs] and step = staged_step [OF cs]
  have s0: "staged j (holds A ?key a g d) (j\<lparr>j_poisoned := True\<rparr>)"
    using cs by (simp add: commit_setup_def staged_def same_counters_def same_shape_flash_def)
  have s1: "ends (program_active ops (n - RECLAIM_STARTED)) j1 (\<lambda>_. staged j ?started) ?S" if "staged j (holds A ?key a g d) j1" for j1
    using fact [OF that] start_reclaim [of A ?key a g d "j_flash j1"] by (intro active [OF that]) (auto elim!: ends_weaken)
  have s2: "ends (on_flash (jf_erase ops t)) j1 (\<lambda>_. staged j (\<lambda>f. ?started f \<and> content f t = replicate n 0xff)) ?S"
    if "staged j ?started j1" for j1
    using fact [OF that] erase_target [of A ?key a g d "j_flash j1" t] by (intro step [OF that]) (auto elim!: ends_weaken)
  have s3: "ends (on_flash (jf_program ops t 0 rec)) j1
      (\<lambda>_. staged j (\<lambda>f. ?started f \<and> content f t = overwrite (replicate n 0xff) 0 rec)) ?S"
    if "staged j (\<lambda>f. ?started f \<and> content f t = replicate n 0xff) j1" for j1
    using fact [OF that] rec program_record [of A ?key a g d "j_flash j1" t h data rec]
    by (intro step [OF that]) (auto elim!: ends_weaken)
  have s4: "ends (on_flash (jf_program ops t (n - COMMITTED) zero_word)) j1 (\<lambda>_. staged j ?published) ?S"
    if "staged j (\<lambda>f. ?started f \<and> content f t = overwrite (replicate n 0xff) 0 rec) j1" for j1
    using fact [OF that] rec publish_marker [of A ?key a g d "j_flash j1" t rec h data]
    by (intro step [OF that]) (auto elim!: ends_weaken)
  have s5: "ends (program_active ops (n - RECLAIM_COMPLETE)) j1 (\<lambda>_. staged j (holds A ?key t (Suc g) data)) ?S"
    if o: "staged j ?published j1" for j1
  proof -
    obtain h' where h': "sealed A ?key (nonces (j_flash j)) h' d (content (j_flash j1) a)" "rh_generation h' = g"
      using fact(1) [OF o] by blast
    then show ?thesis
      using fact [OF o] finish_reclaim [of A ?key t "Suc g" data "j_flash j1" a h' d]
      by (intro active [OF o]) (auto elim!: ends_weaken)
  qed
  have s6: "ends (\<lambda>j. if Anchored = Anchored then on_flash (jf_advance_monotonic ops (anchor (Suc g) (j_append_enabled j))) j else (Ok (), j))
      (j1\<lparr>j_generation := Suc g, j_base_attempt := Some attempt, j_active := Some t, j_append_offset := p\<rparr>)
      (\<lambda>_ j'. ready A data (j'\<lparr>j_poisoned := False\<rparr>) \<and> j_key j' = ?key) ?S"
    if o: "staged j (holds A ?key t (Suc g) data) j1" for j1 p
  proof -
    let ?j = "j1\<lparr>j_generation := Suc g, j_base_attempt := Some attempt, j_active := Some t, j_append_offset := p\<rparr>"
    have h: "holds A ?key t (Suc g) data (j_flash ?j)" "mono (j_flash ?j) = g"
      using fact [OF o] by simp_all
    have "ends (on_flash (jf_advance_monotonic ops (Suc g))) ?j (\<lambda>_ j'. ready A data (j'\<lparr>j_poisoned := False\<rparr>) \<and> j_key j' = ?key) ?S"
      by (rule ends_on_flash [OF anchor_generation [OF h]])
        (use cs o in \<open>auto simp: journal_ready_def survives_def same_shape_flash_def same_counters_def staged_def commit_setup_def\<close>)
    then show ?thesis
      using o by (simp add: ends_def anchor_def staged_def)
  qed
  show ?thesis
    unfolding publish_record_def fst_conv snd_conv
    apply (rule ends_sbind, rule ends_smodify, rule s0)
    apply (rule ends_sbind, erule s1)
    apply (rule ends_sbind, erule s2)
    apply (rule ends_sbind, erule s3)
    apply (rule ends_sbind, erule s4)
    apply (rule ends_sbind, erule s5)
    apply (rule ends_sbind [where R = "\<lambda>_ j'. \<exists>j1 p. staged j (holds A ?key t (Suc g) data) j1
       \<and> j' = j1\<lparr>j_generation := Suc g, j_base_attempt := Some attempt, j_active := Some t, j_append_offset := p\<rparr>"])
     apply (rule ends_smodify, blast)
    apply (elim exE conjE, hypsubst, rule ends_sbind, erule s6)
    apply (rule ends_sbind [where R = "\<lambda>_ j'. ready A data j' \<and> j_key j' = ?key"])
     apply (rule ends_smodify, simp)
    by (rule ends_sret)
qed

lemma seal_record_outcome:
  assumes hold: "holds A (j_key j) a g d (j_flash j)" and j: "\<not> j_append_enabled j" "mono (j_flash j) = g" and A: "ccm_inverts A"
    and len: "length data \<le> jf_slot_size ops (j_flash j) - OVERHEAD" and g: "Suc g < 2 ^ 64"
  shows "ends (seal_record A ops alloc data (Suc g) None) j
    (\<lambda>(rec, attempt) j'. \<exists>f' h. j' = j\<lparr>j_flash := f'\<rparr> \<and> holds A (j_key j) a g d f' \<and> mono f' = g \<and> same_shape_flash ops (j_flash j) f'
       \<and> record_of A (j_key j) h data rec \<and> length rec \<le> jf_slot_size ops (j_flash j) - 12
       \<and> header_ok (jf_slot_size ops (j_flash j) - 36) (nonces f') h \<and> rh_generation h = Suc g)
    (\<lambda>j'. \<exists>f'. j' = j\<lparr>j_flash := f'\<rparr> \<and> holds A (j_key j) a g d f' \<and> mono f' = g \<and> same_shape_flash ops (j_flash j) f')"
proof -
  let ?shape = "\<lambda>f'. holds A (j_key j) a g d f' \<and> mono f' = g \<and> same_shape_flash ops (j_flash j) f'"
  let ?err = "\<lambda>j'. \<exists>f'. j' = j\<lparr>j_flash := f'\<rparr> \<and> ?shape f'"
  have j0: "?err j"
    using hold j by (intro exI [of _ "j_flash j"]) (simp add: same_shape_flash_def)
  have n: "52 \<le> jf_slot_size ops (j_flash j)"
    using held_facts(7) [OF hold] .
  have s1: "ends (on_flash (jf_reserve_nonce ops)) j (\<lambda>v j'. \<exists>f'. j' = j\<lparr>j_flash := f'\<rparr> \<and> ?shape f' \<and> v = nonces f' \<and> 0 < v) ?err"
    by (rule ends_on_flash [OF reserve_attempt [OF hold j(2)]]) blast+
  have fin: "\<exists>h. record_of A (j_key j) h data rec \<and> length rec \<le> jf_slot_size ops (j_flash j) - 12
       \<and> header_ok (jf_slot_size ops (j_flash j) - 36) (nonces f') h \<and> rh_generation h = Suc g"
    if p: "prepare_record alloc data = Ok (buf, m)" and f': "?shape f'" "0 < nonces f'"
      and e: "encrypt_record A buf (j_key j) \<lparr>rh_append_enabled = False, rh_generation = Suc g, rh_attempt = nonces f', rh_payload_length = m\<rparr>
        (record_nonce (nonces f')) = Ok rec" for buf m f' rec
  proof -
    let ?h = "\<lparr>rh_append_enabled = False, rh_generation = Suc g, rh_attempt = nonces f', rh_payload_length = m\<rparr>"
    note b = prepared_record [OF p]
    have r: "record_of A (j_key j) ?h data rec"
      using encrypted_record [of A buf "j_key j" ?h rec data] e A b by simp
    then have "length rec = length data + 40"
      by (auto simp: record_of_def)
    moreover have "nonces f' < 2 ^ 64"
      using nonce [of f'] capacity_fits [of f'] f'(1) by (simp add: flash_holds_def usize_max_def)
    moreover have "m < 2 ^ 32"
      using b by (simp add: u32_max_def)
    ultimately have "length rec \<le> jf_slot_size ops (j_flash j) - 12 \<and> header_ok (jf_slot_size ops (j_flash j) - 36) (nonces f') ?h"
      using b g len n f'(2) by (auto simp: header_ok_def journal_sizes)
    then show ?thesis
      using r by (intro exI [of _ ?h]) simp
  qed
  show ?thesis
    unfolding seal_record_def
    apply (rule ends_sbind [where R = "\<lambda>b j'. j' = j \<and> prepare_record alloc data = Ok b"])
    subgoal
      by (rule ends_slift) (use j0 in auto)
    apply (clarsimp simp only: case_prod_unfold option.case fst_conv snd_conv)
    apply (rule ends_sbind, rule s1)
    apply (rule ends_sbind [where R = "\<lambda>rec j'. \<exists>f' h. j' = j\<lparr>j_flash := f'\<rparr> \<and> ?shape f'
       \<and> record_of A (j_key j) h data rec \<and> length rec \<le> jf_slot_size ops (j_flash j) - 12
       \<and> header_ok (jf_slot_size ops (j_flash j) - 36) (nonces f') h \<and> rh_generation h = Suc g"])
    subgoal
      by (rule ends_sget) (use fin j in fastforce)+
    by (rule ends_sret) auto
qed

text \<open>A commit from a ready journal either completes, or leaves one of the two snapshots.\<close>

lemma commit_outcome:
  assumes r: "ready A d j" and A: "ccm_inverts A"
  shows "ends (commit_with A ops alloc data) j (\<lambda>_ j'. ready A data j' \<and> j_key j' = j_key j) (survives A (j_key j) d data)"
proof -
  obtain a g where j: "\<not> j_poisoned j" "\<not> j_append_enabled j" "j_active j = Some a" "j_generation j = g"
      "j_slot_count j = jf_slot_count ops (j_flash j)" "mono (j_flash j) = g" and hold: "holds A (j_key j) a g d (j_flash j)"
    using r by (auto simp: journal_ready_def)
  let ?n = "jf_slot_size ops (j_flash j)" and ?S = "survives A (j_key j) d data"
  have S: "?S (j\<lparr>j_flash := f'\<rparr>)" if "holds A (j_key j) a g d f'" for f'
    using that j(2) by (auto simp: survives_def)
  have S0: "?S j"
    using S [OF hold] by simp
  show ?thesis
  proof (cases "length data \<le> ?n - OVERHEAD \<and> alloc (length data + HEADER_BYTES + 16) \<and> Suc g \<le> u64_max \<and> Suc g \<le> jf_monotonic_capacity ops (j_flash j)")
    case False
    then have "\<exists>e. commit_with A ops alloc data j = (Err e, j)"
      using j by (auto simp: commit_with_def commit_owned_with_def commit_owned_with_nonce_def Let_def next_generation_def
          sbind_def try_reserve_def guard_def anchor_def ok_or_def checked_add_u64_def)
    then show ?thesis
      using S0 by (auto simp: ends_def)
  next
    case True
    have n: "OVERHEAD \<le> ?n"
      using held_facts(7) [OF hold] by (simp add: journal_sizes)
    let ?R = "\<lambda>(rec :: bytes, attempt :: nat) j'. \<exists>f' h. j' = j\<lparr>j_flash := f'\<rparr> \<and> holds A (j_key j) a g d f' \<and> mono f' = g
           \<and> same_shape_flash ops (j_flash j) f' \<and> record_of A (j_key j) h data rec \<and> length rec \<le> ?n - 12
           \<and> header_ok (?n - 36) (nonces f') h \<and> rh_generation h = Suc g"
    have "ends (seal_record A ops alloc data (Suc g) None) j ?R ?S"
      by (rule ends_weaken [OF seal_record_outcome [OF hold j(2,6) A]]) (use True S in \<open>auto simp: u64_max_def\<close>)
    then have "ends (sbind (seal_record A ops alloc data (Suc g) None)
        (publish_record ops ?n ((a + 1) mod jf_slot_count ops (j_flash j)) (Suc g) Anchored)) j (\<lambda>_ j'. ready A data j' \<and> j_key j' = j_key j) ?S"
    proof (rule ends_sbind)
      fix x :: "bytes \<times> nat" and j1
      assume "?R x j1"
      then obtain rec f' h and attempt :: nat where x: "x = (rec, attempt)" and j1: "j1 = j\<lparr>j_flash := f'\<rparr>"
        and f': "holds A (j_key j) a g d f'" "mono f' = g" "same_shape_flash ops (j_flash j) f'" "record_of A (j_key j) h data rec"
          "length rec \<le> ?n - 12" "header_ok (?n - 36) (nonces f') h" "rh_generation h = Suc g"
        by auto
      have "ends (publish_record ops ?n ((a + 1) mod jf_slot_count ops (j_flash j)) (Suc g) Anchored (rec, attempt)) j1
          (\<lambda>_ j'. ready A data j' \<and> j_key j' = j_key j1) (survives A (j_key j1) d data)"
        by (rule publish_record_outcome [of _ _ a g _ h])
          (use f' j True in \<open>auto simp: j1 commit_setup_def same_shape_flash_def\<close>)
      then show "ends (publish_record ops ?n ((a + 1) mod jf_slot_count ops (j_flash j)) (Suc g) Anchored x) j1
          (\<lambda>_ j'. ready A data j' \<and> j_key j' = j_key j) ?S"
        by (simp add: x j1)
    qed
    then show ?thesis
      using True j n
      by (auto simp: ends_def commit_with_def commit_owned_with_def commit_owned_with_nonce_def Let_def next_generation_def
          sbind_def try_reserve_def guard_def anchor_def ok_or_def checked_add_u64_def split: prod.splits result.splits)
  qed
qed

lemma open_held:
  assumes "holds A key a g d f"
  shows "\<exists>j. open_mode A ops (\<lambda>_. True) refuse_change False key (reboot f) = Ok (j, Some d) \<and> ready A d j \<and> j_key j = key"
proof -
  let ?j = "\<lparr>j_flash = reboot f, j_generation = 0, j_base_attempt = None, j_active = None, j_append_offset = None,
     j_append_enabled = False, j_slot_count = 0, j_poisoned = True, j_key = key\<rparr>"
  have k: "holds A (j_key ?j) a g d f"
    using assms by simp
  obtain j' where "recover_with A ops (\<lambda>_. True) ?j = (Ok (Some d), j')" "ready A d j'" "j_key j' = key"
    using recover_held [OF k] by auto
  then show ?thesis
    by (simp add: open_mode_def recover_with_def)
qed

lemma ready_survives: "ready A d j \<Longrightarrow> survives A (j_key j) d d j"
  by (auto simp: journal_ready_def survives_def)

lemma survives_open:
  assumes "survives A key d data j"
  shows "\<exists>d' j'. open_mode A ops (\<lambda>_. True) refuse_change False key (reboot (j_flash j)) = Ok (j', Some d')
    \<and> ready A d' j' \<and> j_key j' = key \<and> (d' = d \<or> d' = data)"
  using assms open_held unfolding survives_def by metis

text \<open>What a commit, cut anywhere, followed by a restart, may return.\<close>

lemma commit_restart:
  assumes "ready A d j" and "ccm_inverts A" and "commit_with A ops alloc data j = (r, j')"
  shows "\<exists>d' j''. open_mode A ops (\<lambda>_. True) refuse_change False (j_key j) (reboot (j_flash j')) = Ok (j'', Some d')
    \<and> ready A d' j'' \<and> j_key j'' = j_key j \<and> (d' = d \<or> d' = data) \<and> (r = Ok () \<longrightarrow> d' = data)"
proof (cases r)
  case (Err e)
  then show ?thesis
    using endsD [OF commit_outcome [OF assms(1,2)] assms(3)] survives_open by fastforce
next
  case (Ok u)
  then have "ready A data j'" "j_key j' = j_key j"
    using endsD [OF commit_outcome [OF assms(1,2)] assms(3)] by simp_all
  then show ?thesis
    using survives_open [OF ready_survives] by metis
qed

lemma reconcile_anchor:
  assumes "wf f" and "reconcile_generation ops g f = (Ok (), f')"
  shows "mono f \<le> g \<and> g \<le> Suc (mono f) \<and> mono f' = g"
proof -
  have m: "jf_monotonic_generation ops f = Ok (mono f)" "\<not> mono f > jf_monotonic_capacity ops f"
    using monotonic [OF assms(1)] by auto
  have fits: "mono f + 1 \<le> u64_max"
    using monotonic [OF assms(1)] capacity_fits [OF assms(1)] by (simp add: usize_max_def u64_max_def)
  have eq: "reconcile_generation ops g f = (if mono f > g \<or> g > Suc (mono f) then (Err Storage, f)
      else if g = Suc (mono f) then jf_advance_monotonic ops g f else (Ok (), f))"
    using m fits by (simp add: reconcile_generation_def sbind_def checked_add_u64_def)
  have range: "mono f \<le> g \<and> g \<le> Suc (mono f)"
    using assms(2) unfolding eq by (auto split: if_splits)
  show ?thesis
  proof (cases "g = Suc (mono f)")
    case True
    then have "jf_advance_monotonic ops (Suc (mono f)) f = (Ok (), f')"
      using assms(2) eq by simp
    from advance [OF assms(1) this] True show ?thesis by simp
  next
    case False
    then have "f' = f" "g = mono f"
      using assms(2) eq range by auto
    then show ?thesis by simp
  qed
qed

lemma recover_anchor:
  assumes "wf (j_flash j)" and "recover_with_replay A ops alloc app j = (Ok data, j')"
  shows "mono (j_flash j) \<le> anchor (j_generation j') (j_append_enabled j)
    \<and> anchor (j_generation j') (j_append_enabled j) \<le> Suc (mono (j_flash j))
    \<and> mono (j_flash j') = anchor (j_generation j') (j_append_enabled j) \<and> \<not> j_poisoned j'"
proof -
  obtain sel d where sel: "select_record A ops alloc app (j_append_enabled j) (j_key j) (j_flash j) = Ok (sel, d)"
    using assms(2) by (auto simp: recover_with_replay_def recover_mode_def Let_def split: result.splits)
  let ?g = "case sel of None \<Rightarrow> 0 | Some m \<Rightarrow> cm_generation m"
  obtain r f' where rec: "reconcile_generation ops (anchor ?g (j_append_enabled j)) (j_flash j) = (r, f')"
    by fastforce
  have r: "r = Ok ()"
    using assms(2) sel rec by (cases r) (auto simp: recover_with_replay_def recover_mode_def Let_def)
  then have "j_generation j' = ?g" "j_flash j' = f'" "\<not> j_poisoned j'"
    using assms(2) sel rec by (auto simp: recover_with_replay_def recover_mode_def Let_def)
  then show ?thesis
    using reconcile_anchor [OF assms(1) rec [unfolded r]] by simp
qed

end

section \<open>The journal on the memory flash\<close>

abbreviation mf_ready :: "aead \<Rightarrow> bytes \<Rightarrow> memory_flash journal \<Rightarrow> bool" where
  "mf_ready \<equiv> journal_ready mf_ops mf_content mf_mono mf_nonce mf_wf"

abbreviation restart :: "aead \<Rightarrow> memory_flash journal \<Rightarrow> (memory_flash journal \<times> bytes option) res" where
  "restart A j \<equiv> open_mode A mf_ops (\<lambda>_. True) refuse_change False (j_key j) (mf_reboot (j_flash j))"

text \<open>
  A life of the journal: commits that return \<open>Ok\<close>, commits that fail and are followed by a restart,
  and power faults scheduled at any number of flash steps. The list keeps the last committed
  snapshot and every snapshot whose commit failed since.
\<close>

inductive journal_run :: "aead \<Rightarrow> memory_flash journal \<Rightarrow> bytes list \<Rightarrow> memory_flash journal \<Rightarrow> bytes list \<Rightarrow> bool" for A where
  run_here: "journal_run A j ds j ds"
| run_fault: "journal_run A j ds j1 ds1 \<Longrightarrow> journal_run A j ds (j1\<lparr>j_flash := (j_flash j1)\<lparr>mf_fail_after := k\<rparr>\<rparr>) ds1"
| run_commit: "journal_run A j ds j1 ds1 \<Longrightarrow> commit_with A mf_ops alloc data j1 = (Ok (), j2) \<Longrightarrow> journal_run A j ds j2 [data]"
| run_cut: "journal_run A j ds j1 ds1 \<Longrightarrow> commit_with A mf_ops alloc data j1 = (Err e, j2) \<Longrightarrow> restart A j2 = Ok (j3, snapshot) \<Longrightarrow>
    journal_run A j ds j3 (ds1 @ [data])"

lemma ready_fault:
  assumes "mf_ready A d j"
  shows "mf_ready A d (j\<lparr>j_flash := (j_flash j)\<lparr>mf_fail_after := k\<rparr>\<rparr>)"
proof -
  let ?f = "(j_flash j)\<lparr>mf_fail_after := k\<rparr>"
  have "mf_wf ?f = mf_wf (j_flash j)" "mf_content ?f = mf_content (j_flash j)" "mf_mono ?f = mf_mono (j_flash j)"
    "mf_nonce ?f = mf_nonce (j_flash j)" "same_shape_flash mf_ops (j_flash j) ?f"
    by (simp_all add: mf_wf_def mf_content_def mf_mono_def mf_nonce_def same_shape_flash_def mf_ops_def fun_eq_iff)
  then show ?thesis
    using assms by (auto simp: journal_ready_def flash_holds_def same_shape_flash_def)
qed

lemma run_ready:
  assumes "journal_run A j ds j' ds'" and "ccm_inverts A" and "mf_ready A d j" and "d \<in> set ds"
  shows "\<exists>d' \<in> set ds'. mf_ready A d' j'"
  using assms(1,3,4)
proof (induction rule: journal_run.induct)
  case (run_fault j ds j1 ds1 k)
  then show ?case using ready_fault by blast
next
  case (run_commit j ds j1 ds1 alloc data j2)
  then show ?case
    using endsD [OF memory.commit_outcome [OF _ assms(2)]] by fastforce
next
  case (run_cut j ds j1 ds1 alloc data e j2 j3 snapshot)
  then obtain d1 where d1: "d1 \<in> set ds1" "mf_ready A d1 j1" by blast
  have "memory.survives A (j_key j1) d1 data j2"
    using endsD [OF memory.commit_outcome [OF d1(2) assms(2)] run_cut.hyps(2)] by simp
  moreover from this have "j_key j2 = j_key j1"
    unfolding memory.survives_def by blast
  ultimately have "\<exists>d'. mf_ready A d' j3 \<and> (d' = d1 \<or> d' = data)"
    using memory.survives_open [of A "j_key j1" d1 data j2] run_cut.hyps(3) by auto
  then show ?case
    using d1(1) by auto
qed blast

section \<open>A journal on a small flash\<close>

text \<open>Two slots of 64 bytes, a stand-in cipher with a zero tag, one snapshot, and power for 20 steps.\<close>

definition plain_aead :: aead where
  "plain_aead = \<lparr>ccm_encrypt = (\<lambda>_ _ _ b. Ok (length b, b)), ccm_decrypt = (\<lambda>_ _ _ b. Ok (length b - 16, b))\<rparr>"

definition small_header :: record_header where
  "small_header = \<lparr>rh_append_enabled = False, rh_generation = 1, rh_attempt = 1, rh_payload_length = 20\<rparr>"

definition small_flash :: memory_flash where
  "small_flash = \<lparr>mf_slots = [overwrite (overwrite (replicate 64 0xff) 0 (encode_header small_header @ [1, 2, 3, 4] @ replicate 16 0)) 60 zero_word,
       replicate 64 0xff],
     mf_word_writes = replicate 2 (replicate 16 0), mf_monotonic = [0, 0, 0, 0] @ replicate 60 0xff,
     mf_nonces = [0, 0, 0, 0] @ replicate 60 0xff, mf_fail_after = Some 20\<rparr>"

definition small_journal :: "memory_flash journal" where
  "small_journal = \<lparr>j_flash = small_flash, j_generation = 1, j_base_attempt = Some 1, j_active = Some 0, j_append_offset = None,
     j_append_enabled = False, j_slot_count = 2, j_poisoned = False, j_key = replicate 16 7\<rparr>"

lemma plain_inverts: "ccm_inverts plain_aead"
  by (auto simp: ccm_inverts_def plain_aead_def)

lemma small_counter: "counter ([0, 0, 0, 0] @ replicate 60 0xff) 1"
  unfolding counter_def
  by (intro exI [of _ "[0, 0, 0, 0]"] exI [of _ 15]) simp

lemma small_wf: "mf_wf small_flash" "mf_mono small_flash = 1" "mf_nonce small_flash = 1"
proof -
  have d: "decode_monotonic_words ([0, 0, 0, 0] @ replicate 60 0xff) = Ok 1"
    using counter_decode [OF small_counter] by (simp add: usize_max_def)
  show "mf_wf small_flash"
    using small_counter by (auto simp: mf_wf_def mf_slot_size_def small_flash_def usize_max_def)
  show "mf_mono small_flash = 1" "mf_nonce small_flash = 1"
    using d by (simp_all add: mf_mono_def mf_nonce_def small_flash_def)
qed

lemma small_ready: "mf_ready plain_aead [1, 2, 3, 4] small_journal"
proof -
  let ?rec = "encode_header small_header @ [1, 2, 3, 4] @ replicate 16 0"
  have rec: "record_of plain_aead (replicate 16 7) small_header [1, 2, 3, 4] ?rec" "length ?rec \<le> 64 - 12"
    by (auto simp: record_of_def small_header_def plain_aead_def)
  have ok: "header_ok (64 - 36) 1 small_header"
    by (simp add: header_ok_def small_header_def)
  note s = sealed_record [OF rec _ ok]
  have b: "blank (replicate 64 0xff)"
    using blank_prefix [OF rec, of 0] by simp
  have c: "mf_content small_flash 0 = overwrite (overwrite (replicate 64 0xff) 0 ?rec) 60 zero_word"
    "mf_content small_flash 1 = replicate 64 0xff" "jf_slot_count mf_ops small_flash = 2" "jf_slot_size mf_ops small_flash = 64"
    "jf_monotonic_capacity mf_ops small_flash = 16"
    by (simp_all add: mf_content_def small_flash_def mf_ops_def mf_slot_size_def)
  have two: "t < (2::nat) \<Longrightarrow> t \<noteq> 0 \<Longrightarrow> t = 1" for t
    by simp
  have "slots_hold plain_aead (replicate 16 7) 2 (mf_content small_flash) 1 0 1 [1, 2, 3, 4]"
    unfolding slots_hold_def c(1)
    using s b c(2) by (auto simp: older_slot_def small_header_def dest!: two)
  then have "flash_holds mf_ops mf_content mf_mono mf_nonce mf_wf plain_aead (replicate 16 7) 0 1 [1, 2, 3, 4] small_flash"
    using small_wf c by (simp add: flash_holds_def journal_sizes)
  then show ?thesis
    using small_wf c by (simp add: journal_ready_def small_journal_def)
qed

section \<open>Properties\<close>

text \<open>
  C7 (journal_commit_atomic). A commit is atomic under power loss. Wherever the fault strikes, in the
  nonce reservation, the reclaim words, the erase, the record, the commit marker or the generation
  anchor, restarting opens the journal and returns either the previous snapshot or the new one,
  never neither and never an error; and when the commit returned \<open>Ok\<close> it is the new one. The
  reopened journal is ready for the next commit.
\<close>

theorem journal_commit_atomic:
  assumes "journal_ready mf_ops mf_content mf_mono mf_nonce mf_wf A d j" and "ccm_inverts A"
    and "commit_with A mf_ops alloc data j = (r, j')"
  shows "\<exists>d' j''. open_mode A mf_ops (\<lambda>_. True) refuse_change False (j_key j) (mf_reboot (j_flash j')) = Ok (j'', Some d')
    \<and> journal_ready mf_ops mf_content mf_mono mf_nonce mf_wf A d' j'' \<and> (d' = d \<or> d' = data) \<and> (r = Ok () \<longrightarrow> d' = data)"
  using memory.commit_restart [OF assms] by blast

theorem journal_commit_atomic_witness:
  "\<exists>d' j''. open_mode plain_aead mf_ops (\<lambda>_. True) refuse_change False (j_key small_journal)
       (mf_reboot (j_flash (snd (commit_with plain_aead mf_ops (\<lambda>_. True) [9, 9] small_journal)))) = Ok (j'', Some d')
    \<and> (d' = [1, 2, 3, 4] \<or> d' = [9, 9])"
  using journal_commit_atomic [OF small_ready plain_inverts prod.collapse [symmetric], of "\<lambda>_. True" "[9, 9]"]
  by blast





text \<open>
  The header codec is exact: the bytes that decode to a header within a
  capacity and a number of reserved nonces are exactly the encodings of the headers within them,
  and the decoded header is the encoded one.
\<close>

theorem record_header_roundtrip:
  assumes "length bs = 24"
  shows "(decode_header bs capacity reserved = Ok h) = (header_ok capacity reserved h \<and> bs = encode_header h)"
  using assms decode_header_sound decode_encode_header by blast

theorem record_header_roundtrip_witness:
  "decode_header (encode_header small_header) 28 1 = Ok small_header"
  using record_header_roundtrip [of "encode_header small_header" 28 1 small_header]
  by (simp add: header_ok_def small_header_def)

end
