(* ===== verification/Journal_Seed.thy ===== *)
theory Journal_Seed
  imports Journal_Crash
begin

text \<open>
  Seed records (\<open>src/crates/microcard-core/src/journal/seed.rs\<close>): the sealed first record of a new
  journal epoch, its authentication, and its installation into a prepared bank.
\<close>

section \<open>Operations\<close>

definition SEED_MIN_BYTES :: nat where "SEED_MIN_BYTES = HEADER_BYTES + 16 + 1"
definition SEED_MAX_BYTES :: nat where "SEED_MAX_BYTES = 65536 - TAIL_BYTES"

definition seal_new_epoch :: "aead \<Rightarrow> alloc \<Rightarrow> bytes \<Rightarrow> bytes \<Rightarrow> bytes res" where
  "seal_new_epoch A alloc snapshot key =
     rbind (ok_or (checked_add (length snapshot) (HEADER_BYTES + 16)) Quota) (\<lambda>n.
     if \<not> (SEED_MIN_BYTES \<le> n \<and> n \<le> SEED_MAX_BYTES) then Err Quota
     else
       rbind (prepare_record alloc snapshot) (\<lambda>(record, payload_length).
       rbind (next_generation 0 True Anchored) (\<lambda>generation.
       encrypt_record A record key
         \<lparr>rh_append_enabled = True, rh_generation = generation, rh_attempt = 1, rh_payload_length = payload_length\<rparr>
         (record_nonce 1))))"

text \<open>The seed record is the bytes that were authenticated.\<close>

definition authenticate :: "aead \<Rightarrow> alloc \<Rightarrow> bytes \<Rightarrow> bytes \<Rightarrow> (bytes \<Rightarrow> unit res) \<Rightarrow> bytes res" where
  "authenticate A alloc bs key validate =
     (if \<not> (SEED_MIN_BYTES \<le> length bs \<and> length bs \<le> SEED_MAX_BYTES) then Err Format
      else
        rbind (ok_or (get_range bs 0 HEADER_BYTES) Format) (\<lambda>header.
        rbind (decode_header header (length bs - HEADER_BYTES) 1) (\<lambda>fields.
        if \<not> rh_append_enabled fields then Err IncompatibleState
        else
          rbind (next_generation 0 True Anchored) (\<lambda>first.
          if rh_generation fields \<noteq> first \<or> rh_attempt fields \<noteq> 1 \<or> rh_payload_length fields \<noteq> length bs - HEADER_BYTES
          then Err Format
          else
            rbind (zeroizing_buffer alloc (rh_payload_length fields)) (\<lambda>_.
            rbind (ccm_decrypt A key (record_nonce 1) header (drop HEADER_BYTES bs)) (\<lambda>(n, plain).
            if n \<noteq> length (drop HEADER_BYTES bs) - 16 then Err Storage
            else rbind (validate (take n plain)) (\<lambda>_. Ok bs)))))))"

fun all_erased :: "'f jflash \<Rightarrow> nat list \<Rightarrow> 'f \<Rightarrow> unit res" where
  "all_erased ops [] f = Ok ()"
| "all_erased ops (slot # slots) f =
     rbind (jf_is_erased ops slot f) (\<lambda>erased. if \<not> erased then Err Storage else all_erased ops slots f)"

text \<open>The read-back loop compares the record in chunks of 64 bytes.\<close>

function read_back :: "'f jflash \<Rightarrow> bytes \<Rightarrow> nat \<Rightarrow> 'f \<Rightarrow> unit res" where
  "read_back ops bs index f =
     (if index * 64 < length bs then
        let expected = take 64 (drop (index * 64) bs) in
        rbind (jf_read ops 0 (index * 64) (length expected) f) (\<lambda>output.
        if output \<noteq> expected then Err Storage else read_back ops bs (index + 1) f)
      else Ok ())"
  by pat_completeness auto
termination
  by (relation "measure (\<lambda>(_, bs, index, _). length bs - index * 64)") auto

declare read_back.simps [simp del]

definition install_empty_bank :: "'f jflash \<Rightarrow> bytes \<Rightarrow> ('f, error, unit) act" where
  "install_empty_bank ops bs = (\<lambda>f.
     let n = jf_slot_size ops f in
     if \<not> (2 \<le> jf_slot_count ops f \<and> jf_slot_count ops f \<le> 8) \<or> n < OVERHEAD \<or> length bs > n - TAIL_BYTES then (Err Bounds, f)
     else if jf_monotonic_capacity ops f = 0 \<or> jf_nonce_capacity ops f = 0 then (Err Quota, f)
     else
       sbind (sget (jf_monotonic_generation ops)) (\<lambda>anchored.
       sbind (slift (guard (anchored = 0) Storage)) (\<lambda>_.
       sbind (sget (jf_nonce_generation ops)) (\<lambda>reserved.
       sbind (slift (guard (reserved = 0) Storage)) (\<lambda>_.
       sbind (sget (\<lambda>f. all_erased ops [0..<jf_slot_count ops f] f)) (\<lambda>_.
       sbind (jf_reserve_nonce ops) (\<lambda>v.
       sbind (slift (guard (v = 1) Storage)) (\<lambda>_.
       sbind (sget (jf_nonce_generation ops)) (\<lambda>v.
       sbind (slift (guard (v = 1) Storage)) (\<lambda>_.
       sbind (jf_program ops 0 0 bs) (\<lambda>_.
       sbind (sget (read_back ops bs 0)) (\<lambda>_.
       sbind (jf_program ops 0 (n - COMMITTED) zero_word) (\<lambda>_.
       sbind (sget (jf_read ops 0 (n - COMMITTED) 4)) (\<lambda>marker.
       sbind (slift (guard (marker = zero_word) Storage)) (\<lambda>_.
       sbind (jf_advance_monotonic ops 1) (\<lambda>_.
       sbind (sget (jf_monotonic_generation ops)) (\<lambda>v.
       slift (guard (v = 1) Storage))))))))))))))))) f)"

section \<open>Properties\<close>

lemma first_generation: "next_generation 0 True Anchored = Ok (2 ^ 32 + 1)"
  by (simp add: next_generation_def low32_def anchor_def u32_max_def checked_add_u64_def u64_max_def)

lemma sealed_seed:
  assumes "seal_new_epoch A alloc snapshot key = Ok bs" and "ccm_inverts A"
  defines "h \<equiv> \<lparr>rh_append_enabled = True, rh_generation = 2 ^ 32 + 1, rh_attempt = 1, rh_payload_length = length snapshot + 16\<rparr>"
  shows "\<exists>ct p. bs = encode_header h @ ct \<and> length ct = length snapshot + 16 \<and> length snapshot + 16 \<le> u32_max
    \<and> SEED_MIN_BYTES \<le> length bs \<and> length bs \<le> SEED_MAX_BYTES
    \<and> ccm_decrypt A key (record_nonce 1) (encode_header h) ct = Ok (length snapshot, p) \<and> take (length snapshot) p = snapshot"
proof -
  obtain buf m where p: "prepare_record alloc snapshot = Ok (buf, m)"
    and e0: "encrypt_record A buf key \<lparr>rh_append_enabled = True, rh_generation = 2 ^ 32 + 1, rh_attempt = 1, rh_payload_length = m\<rparr>
      (record_nonce 1) = Ok bs"
    and n: "SEED_MIN_BYTES \<le> length snapshot + (HEADER_BYTES + 16)" "length snapshot + (HEADER_BYTES + 16) \<le> SEED_MAX_BYTES"
    using assms(1) unfolding seal_new_epoch_def first_generation rbind_simps
    by (auto simp: rbind_eq_Ok split: if_splits)
  note b = prepared_record [OF p]
  have e: "encrypt_record A buf key h (record_nonce 1) = Ok bs"
    using e0 b unfolding h_def by (simp only:)
  let ?b = "overwrite buf 0 (encode_header h)"
  have parts: "take HEADER_BYTES ?b = encode_header h" "drop HEADER_BYTES ?b = snapshot @ replicate 16 0"
    using b by (simp_all add: overwrite_def HEADER_BYTES_def)
  obtain w ct where ct: "ccm_encrypt A key (record_nonce 1) (encode_header h) (snapshot @ replicate 16 0) = Ok (w, ct)"
    "bs = encode_header h @ ct"
    using e unfolding encrypt_record_def Let_def parts by (auto simp: rbind_eq_Ok split: if_splits)
  from assms(2) [unfolded ccm_inverts_def, rule_format, OF ct(1)] show ?thesis
    using ct(2) b n by (auto simp: HEADER_BYTES_def)
qed



end
