(* ===== verification/Ccid.thy ===== *)
theory Ccid
  imports Core_Error
begin

text \<open>
  USB CCID messages and the state of the one card slot (\<open>src/crates/microcard-core/src/ccid.rs\<close>).
  Commands arrive on the bulk pipe, the class-specific half of an abort on the control pipe; the two
  are not ordered with respect to each other. Messages borrow their input in the code and are
  values here. Runs of the slot are described by an inductive relation over every interleaving.
\<close>

section \<open>Messages\<close>

definition CCID_HEADER_BYTES :: nat where "CCID_HEADER_BYTES = 10"
definition MAX_SHORT_COMMAND_BYTES :: nat where "MAX_SHORT_COMMAND_BYTES = 261"
definition MAX_SHORT_RESPONSE_BYTES :: nat where "MAX_SHORT_RESPONSE_BYTES = 258"
definition MAX_COMMAND_MESSAGE_BYTES :: nat where "MAX_COMMAND_MESSAGE_BYTES = CCID_HEADER_BYTES + MAX_SHORT_COMMAND_BYTES"
definition MAX_SLOT_INDEX :: byte where "MAX_SLOT_INDEX = 0"
definition ATR :: bytes where "ATR = [0x3b, 0x80, 0x01, 0x81]"

definition PC_TO_RDR_ICC_POWER_ON :: byte where "PC_TO_RDR_ICC_POWER_ON = 0x62"
definition PC_TO_RDR_ICC_POWER_OFF :: byte where "PC_TO_RDR_ICC_POWER_OFF = 0x63"
definition PC_TO_RDR_GET_SLOT_STATUS :: byte where "PC_TO_RDR_GET_SLOT_STATUS = 0x65"
definition PC_TO_RDR_XFR_BLOCK :: byte where "PC_TO_RDR_XFR_BLOCK = 0x6f"
definition PC_TO_RDR_ABORT :: byte where "PC_TO_RDR_ABORT = 0x72"
definition RDR_TO_PC_DATA_BLOCK :: byte where "RDR_TO_PC_DATA_BLOCK = 0x80"
definition RDR_TO_PC_SLOT_STATUS :: byte where "RDR_TO_PC_SLOT_STATUS = 0x81"
definition RDR_TO_PC_NOTIFY_SLOT_CHANGE :: byte where "RDR_TO_PC_NOTIFY_SLOT_CHANGE = 0x50"
definition ERROR_BAD_LENGTH :: byte where "ERROR_BAD_LENGTH = 1"
definition ERROR_BAD_SLOT :: byte where "ERROR_BAD_SLOT = 5"
definition ERROR_BAD_POWER_SELECT :: byte where "ERROR_BAD_POWER_SELECT = 7"
definition ERROR_BAD_LEVEL_PARAMETER :: byte where "ERROR_BAD_LEVEL_PARAMETER = 8"
definition ERROR_COMMAND_NOT_SUPPORTED :: byte where "ERROR_COMMAND_NOT_SUPPORTED = 0"
definition ERROR_COMMAND_ABORTED :: byte where "ERROR_COMMAND_ABORTED = 0xff"
definition ERROR_ICC_MUTE :: byte where "ERROR_ICC_MUTE = 0xfe"
definition ERROR_SLOT_BUSY :: byte where "ERROR_SLOT_BUSY = 0xe0"
definition POWER_SELECT_1V8 :: byte where "POWER_SELECT_1V8 = 3"

lemmas message_types = PC_TO_RDR_ICC_POWER_ON_def PC_TO_RDR_ICC_POWER_OFF_def PC_TO_RDR_GET_SLOT_STATUS_def
  PC_TO_RDR_XFR_BLOCK_def PC_TO_RDR_ABORT_def

record ccid_header =
  message_type :: byte
  data_length :: nat
  ch_slot :: byte
  ch_sequence :: byte
  parameters :: bytes

datatype ccid_command =
    PowerOn (sequence: byte)
  | PowerOff (sequence: byte)
  | GetSlotStatus (sequence: byte)
  | TransferBlock (sequence: byte) (apdu: bytes)
  | Abort (sequence: byte)

datatype icc_status = Active | Inactive | NotPresent
datatype command_status = Success | Failed_status | TimeExtension
datatype response_kind = DataBlock_kind | SlotStatus_kind

definition icc_code :: "icc_status \<Rightarrow> byte" where
  "icc_code i = (case i of Active \<Rightarrow> 0 | Inactive \<Rightarrow> 1 | NotPresent \<Rightarrow> 2)"

definition status_code :: "command_status \<Rightarrow> byte" where
  "status_code c = (case c of Success \<Rightarrow> 0 | Failed_status \<Rightarrow> 0x40 | TimeExtension \<Rightarrow> 0x80)"

definition ccid_status :: "icc_status \<Rightarrow> command_status \<Rightarrow> byte" where
  "ccid_status icc command = icc_code icc OR status_code command"

definition parse_header :: "bytes \<Rightarrow> ccid_header res" where
  "parse_header input =
     (if length input < CCID_HEADER_BYTES then Err Bounds
      else Ok \<lparr>message_type = input ! 0, data_length = le_value (slice_of input 1 5), ch_slot = input ! 5,
               ch_sequence = input ! 6, parameters = slice_of input 7 10\<rparr>)"

text \<open>The match on the message type, arms in order.\<close>

definition decode_kind :: "ccid_header \<Rightarrow> bytes \<Rightarrow> ccid_command res" where
  "decode_kind h data =
     (let t = message_type h; q = ch_sequence h; p = parameters h in
      if t = PC_TO_RDR_ICC_POWER_ON \<and> data = [] \<and> p ! 0 \<le> POWER_SELECT_1V8 \<and> drop 1 p = [0, 0] then Ok (PowerOn q)
      else if t = PC_TO_RDR_ICC_POWER_OFF \<and> data = [] \<and> p = [0, 0, 0] then Ok (PowerOff q)
      else if t = PC_TO_RDR_GET_SLOT_STATUS \<and> data = [] \<and> p = [0, 0, 0] then Ok (GetSlotStatus q)
      else if t = PC_TO_RDR_XFR_BLOCK \<and> p = [0, 0, 0] then Ok (TransferBlock q data)
      else if t = PC_TO_RDR_ABORT \<and> data = [] \<and> p = [0, 0, 0] then Ok (Abort q)
      else if t \<in> {PC_TO_RDR_ICC_POWER_ON, PC_TO_RDR_ICC_POWER_OFF, PC_TO_RDR_GET_SLOT_STATUS, PC_TO_RDR_XFR_BLOCK, PC_TO_RDR_ABORT}
      then Err Format
      else Err Unsupported)"

definition ccid_decode :: "bytes \<Rightarrow> ccid_command res" where
  "ccid_decode input =
     rbind (parse_header input) (\<lambda>h.
     if length input > MAX_COMMAND_MESSAGE_BYTES then Err Bounds
     else if data_length h > MAX_SHORT_COMMAND_BYTES \<or> data_length h \<noteq> length input - CCID_HEADER_BYTES then Err Bounds
     else if ch_slot h \<noteq> 0 then Err Missing
     else decode_kind h (drop CCID_HEADER_BYTES input))"

definition error_code :: "ccid_header \<Rightarrow> error \<Rightarrow> byte" where
  "error_code h e =
     (if e = Bounds then ERROR_BAD_LENGTH
      else if e = Missing then ERROR_BAD_SLOT
      else if e = Format \<and> message_type h = PC_TO_RDR_ICC_POWER_ON then ERROR_BAD_POWER_SELECT
      else if e = Format \<and> message_type h = PC_TO_RDR_XFR_BLOCK then ERROR_BAD_LEVEL_PARAMETER
      else ERROR_COMMAND_NOT_SUPPORTED)"

text \<open>The writers return the number of bytes and the buffer afterwards.\<close>

definition write_data_block :: "bytes \<Rightarrow> byte \<Rightarrow> byte \<Rightarrow> icc_status \<Rightarrow> command_status \<Rightarrow> byte \<Rightarrow> bytes \<Rightarrow> nat res \<times> bytes" where
  "write_data_block output slot q icc command err data =
     (if length data > MAX_SHORT_RESPONSE_BYTES \<or> length output < CCID_HEADER_BYTES + length data then (Err Bounds, output)
      else (Ok (CCID_HEADER_BYTES + length data),
            overwrite (overwrite output 0 (RDR_TO_PC_DATA_BLOCK # le_bytes 4 (length data) @ [slot, q, ccid_status icc command, err, 0]))
              CCID_HEADER_BYTES data))"

definition write_slot_status :: "bytes \<Rightarrow> byte \<Rightarrow> byte \<Rightarrow> icc_status \<Rightarrow> command_status \<Rightarrow> byte \<Rightarrow> nat res \<times> bytes" where
  "write_slot_status output slot q icc command err =
     (if length output < CCID_HEADER_BYTES then (Err Bounds, output)
      else (Ok CCID_HEADER_BYTES, overwrite output 0 [RDR_TO_PC_SLOT_STATUS, 0, 0, 0, 0, slot, q, ccid_status icc command, err, 0]))"

definition write_slot_change :: "bytes \<Rightarrow> bool \<Rightarrow> nat res \<times> bytes" where
  "write_slot_change output changed =
     (if length output < 2 then (Err Bounds, output)
      else (Ok 2, overwrite output 0 [RDR_TO_PC_NOTIFY_SLOT_CHANGE, 1 OR (if changed then 2 else 0)]))"

section \<open>The slot\<close>

datatype slot_action =
    DataBlock byte bytes
  | SlotStatus byte
  | Dispatch byte bytes
  | Failed byte response_kind byte
  | AwaitAbortPair byte

record slot_state =
  powered :: bool
  in_flight :: "byte option"
  control_abort_half :: "byte option"
  bulk_abort :: "byte option"

definition slot_new :: slot_state where
  "slot_new = \<lparr>powered = False, in_flight = None, control_abort_half = None, bulk_abort = None\<rparr>"

definition slot_icc_status :: "slot_state \<Rightarrow> icc_status" where
  "slot_icc_status s = (if powered s then Active else Inactive)"

definition abort_pending :: "byte \<Rightarrow> slot_state \<Rightarrow> bool" where
  "abort_pending q s \<longleftrightarrow> in_flight s = Some q \<and> (control_abort_half s \<noteq> None \<or> bulk_abort s \<noteq> None)"

definition finish_abort :: "byte \<Rightarrow> slot_state \<Rightarrow> slot_action \<times> slot_state" where
  "finish_abort q s = (SlotStatus q, s\<lparr>in_flight := None, control_abort_half := None, bulk_abort := None\<rparr>)"

definition response_kind_of :: "ccid_command \<Rightarrow> response_kind" where
  "response_kind_of c = (case c of PowerOn _ \<Rightarrow> DataBlock_kind | TransferBlock _ _ \<Rightarrow> DataBlock_kind
     | PowerOff _ \<Rightarrow> SlotStatus_kind | GetSlotStatus _ \<Rightarrow> SlotStatus_kind | Abort _ \<Rightarrow> SlotStatus_kind)"

abbreviation is_abort :: "ccid_command \<Rightarrow> bool" where
  "is_abort c \<equiv> (case c of Abort _ \<Rightarrow> True | _ \<Rightarrow> False)"

text \<open>The last match of \<open>accept\<close>, reached with no command in flight.\<close>

definition accept_idle :: "ccid_command \<Rightarrow> slot_state \<Rightarrow> slot_action \<times> slot_state" where
  "accept_idle c s =
     (case c of
        PowerOn q \<Rightarrow> (DataBlock q ATR, s\<lparr>powered := True\<rparr>)
      | PowerOff q \<Rightarrow> (SlotStatus q, s\<lparr>powered := False\<rparr>)
      | GetSlotStatus q \<Rightarrow> (SlotStatus q, s)
      | TransferBlock q d \<Rightarrow>
          if powered s then (Dispatch q d, s\<lparr>in_flight := Some q\<rparr>) else (Failed q DataBlock_kind ERROR_ICC_MUTE, s)
      | Abort q \<Rightarrow> (Failed q SlotStatus_kind ERROR_COMMAND_NOT_SUPPORTED, s))"

definition accept :: "ccid_command \<Rightarrow> slot_state \<Rightarrow> slot_action \<times> slot_state" where
  "accept c s =
     (case control_abort_half s of
        Some a \<Rightarrow>
          if is_abort c \<and> sequence c = a then finish_abort (sequence c) s
          else (Failed (sequence c) (response_kind_of c) ERROR_COMMAND_ABORTED, s)
      | None \<Rightarrow>
          if is_abort c then
            (case bulk_abort s of
               Some a \<Rightarrow>
                 if sequence c = a then (AwaitAbortPair (sequence c), s)
                 else (Failed (sequence c) SlotStatus_kind ERROR_SLOT_BUSY, s)
             | None \<Rightarrow>
                 if in_flight s = None then (Failed (sequence c) SlotStatus_kind ERROR_COMMAND_NOT_SUPPORTED, s)
                 else (AwaitAbortPair (sequence c), s\<lparr>bulk_abort := Some (sequence c)\<rparr>))
          else if in_flight s \<noteq> None then (Failed (sequence c) (response_kind_of c) ERROR_SLOT_BUSY, s)
          else accept_idle c s)"

definition control_abort :: "byte \<Rightarrow> byte \<Rightarrow> slot_state \<Rightarrow> slot_action option res \<times> slot_state" where
  "control_abort slot q s =
     (if slot \<noteq> MAX_SLOT_INDEX then (Err Missing, s)
      else if bulk_abort s = Some q then (case finish_abort q s of (a, s') \<Rightarrow> (Ok (Some a), s'))
      else if in_flight s = None then (Err Missing, s)
      else (Ok None, s\<lparr>control_abort_half := Some q\<rparr>))"

definition slot_complete :: "byte \<Rightarrow> slot_state \<Rightarrow> unit res \<times> slot_state" where
  "slot_complete q s =
     (if in_flight s \<noteq> Some q \<or> control_abort_half s \<noteq> None \<or> bulk_abort s \<noteq> None then (Err Missing, s)
      else (Ok (), s\<lparr>in_flight := None\<rparr>))"

definition disconnect :: "slot_state \<Rightarrow> slot_state" where
  "disconnect s = slot_new"

section \<open>Runs\<close>

text \<open>
  What the host sees, newest first. \<open>outstanding\<close> and \<open>switched_on\<close> read off the events alone which
  command should be in flight and whether the card is powered; \<open>lawful\<close> says when a dispatch and a
  completion are allowed.
\<close>

datatype slot_event =
    Accepted ccid_command slot_action
  | Controlled byte "slot_action option res"
  | Completed byte "unit res"
  | Disconnected

fun outstanding :: "slot_event list \<Rightarrow> byte option" where
  "outstanding [] = None"
| "outstanding (e # es) =
     (case e of
        Accepted _ (Dispatch q _) \<Rightarrow> Some q
      | Accepted (Abort _) (SlotStatus _) \<Rightarrow> None
      | Controlled _ (Ok (Some _)) \<Rightarrow> None
      | Completed _ (Ok _) \<Rightarrow> None
      | Disconnected \<Rightarrow> None
      | _ \<Rightarrow> outstanding es)"

fun switched_on :: "slot_event list \<Rightarrow> bool" where
  "switched_on [] = False"
| "switched_on (e # es) =
     (case e of
        Accepted (PowerOn _) (DataBlock _ _) \<Rightarrow> True
      | Accepted (PowerOff _) (SlotStatus _) \<Rightarrow> False
      | Disconnected \<Rightarrow> False
      | _ \<Rightarrow> switched_on es)"

text \<open>An abort was announced since the command in flight was dispatched.\<close>

fun abort_announced :: "slot_event list \<Rightarrow> bool" where
  "abort_announced [] = False"
| "abort_announced (e # es) =
     (case e of
        Accepted _ (AwaitAbortPair _) \<Rightarrow> True
      | Controlled _ (Ok None) \<Rightarrow> True
      | Accepted _ (Dispatch _ _) \<Rightarrow> False
      | Accepted (Abort _) (SlotStatus _) \<Rightarrow> False
      | Controlled _ (Ok (Some _)) \<Rightarrow> False
      | Disconnected \<Rightarrow> False
      | _ \<Rightarrow> abort_announced es)"

fun lawful :: "slot_event list \<Rightarrow> bool" where
  "lawful [] = True"
| "lawful (e # es) \<longleftrightarrow> lawful es \<and>
     (case e of
        Accepted c (Dispatch q d) \<Rightarrow> c = TransferBlock q d \<and> outstanding es = None \<and> switched_on es
      | Completed q (Ok _) \<Rightarrow> outstanding es = Some q \<and> \<not> abort_announced es
      | Accepted (PowerOff _) (SlotStatus _) \<Rightarrow> outstanding es = None
      | Accepted (Abort _) (SlotStatus _) \<Rightarrow> outstanding es \<noteq> None \<and> abort_announced es
      | Controlled _ (Ok _) \<Rightarrow> outstanding es \<noteq> None
      | _ \<Rightarrow> True)"

inductive slot_run :: "slot_event list \<Rightarrow> slot_state \<Rightarrow> bool" where
  start: "slot_run [] slot_new"
| bulk: "slot_run es s \<Longrightarrow> accept c s = (a, s') \<Longrightarrow> slot_run (Accepted c a # es) s'"
| control: "slot_run es s \<Longrightarrow> control_abort slot q s = (r, s') \<Longrightarrow> slot_run (Controlled q r # es) s'"
| completion: "slot_run es s \<Longrightarrow> slot_complete q s = (r, s') \<Longrightarrow> slot_run (Completed q r # es) s'"
| unplug: "slot_run es s \<Longrightarrow> slot_run (Disconnected # es) (disconnect s)"

definition slot_inv :: "slot_event list \<Rightarrow> slot_state \<Rightarrow> bool" where
  "slot_inv es s \<longleftrightarrow> outstanding es = in_flight s \<and> switched_on es = powered s
     \<and> abort_announced es = (control_abort_half s \<noteq> None \<or> bulk_abort s \<noteq> None)
     \<and> (in_flight s = None \<longrightarrow> control_abort_half s = None \<and> bulk_abort s = None) \<and> (in_flight s \<noteq> None \<longrightarrow> powered s)"

lemma accept_inv:
  assumes "slot_inv es s" and "lawful es" and "accept c s = (a, s')"
  shows "slot_inv (Accepted c a # es) s' \<and> lawful (Accepted c a # es)"
proof (cases "control_abort_half s")
  case (Some h)
  then show ?thesis
    using assms by (cases c; cases "in_flight s") (auto simp: slot_inv_def accept_def finish_abort_def split: if_splits)
next
  case None
  then show ?thesis
    using assms
    by (cases c; cases "bulk_abort s"; cases "in_flight s")
      (auto simp: slot_inv_def accept_def accept_idle_def split: if_splits)
qed

lemma run_inv: "slot_run es s \<Longrightarrow> slot_inv es s \<and> lawful es"
proof (induction rule: slot_run.induct)
  case start
  then show ?case by (simp add: slot_inv_def slot_new_def)
next
  case (bulk es s c a s')
  then show ?case using accept_inv by blast
next
  case (control es s slot q r s')
  then show ?case
    by (cases "bulk_abort s = Some q"; cases "in_flight s")
      (auto simp: slot_inv_def control_abort_def finish_abort_def split: if_splits)
next
  case (completion es s q r s')
  then show ?case
    by (auto simp: slot_inv_def slot_complete_def split: if_splits)
next
  case (unplug es s)
  then show ?case by (simp add: slot_inv_def disconnect_def slot_new_def)
qed

section \<open>Decoding\<close>

text \<open>The messages that encode a command: the power class of a power-on is free, all else is fixed.\<close>

definition message :: "byte \<Rightarrow> byte \<Rightarrow> bytes \<Rightarrow> bytes \<Rightarrow> bytes" where
  "message kind q ps data = kind # le_bytes 4 (length data) @ [0, q] @ ps @ data"

definition encodes :: "ccid_command \<Rightarrow> bytes \<Rightarrow> bool" where
  "encodes c input \<longleftrightarrow>
     (case c of
        PowerOn q \<Rightarrow> (\<exists>v \<le> POWER_SELECT_1V8. input = message PC_TO_RDR_ICC_POWER_ON q [v, 0, 0] [])
      | PowerOff q \<Rightarrow> input = message PC_TO_RDR_ICC_POWER_OFF q [0, 0, 0] []
      | GetSlotStatus q \<Rightarrow> input = message PC_TO_RDR_GET_SLOT_STATUS q [0, 0, 0] []
      | TransferBlock q d \<Rightarrow> length d \<le> MAX_SHORT_COMMAND_BYTES \<and> input = message PC_TO_RDR_XFR_BLOCK q [0, 0, 0] d
      | Abort q \<Rightarrow> input = message PC_TO_RDR_ABORT q [0, 0, 0] [])"

lemma message_parts:
  assumes "length ps = 3" and "length data < 2 ^ 32"
  shows "parse_header (message kind q ps data) = Ok \<lparr>message_type = kind, data_length = length data, ch_slot = 0,
      ch_sequence = q, parameters = ps\<rparr>"
    and "drop CCID_HEADER_BYTES (message kind q ps data) = data" and "length (message kind q ps data) = 10 + length data"
proof -
  have v: "le_value (le_bytes 4 (length data)) = length data" "length (le_bytes 4 (length data)) = 4"
    using assms(2) by simp_all
  obtain x y z where ps: "ps = [x, y, z]"
    using assms(1) by (auto simp: numeral_eq_Suc length_Suc_conv)
  have slices: "slice_of (kind # bs @ [0, q] @ [x, y, z] @ data) 1 5 = bs"
    "slice_of (kind # bs @ [0, q] @ [x, y, z] @ data) 7 10 = [x, y, z]"
    "(kind # bs @ [0, q] @ [x, y, z] @ data) ! 5 = 0" "(kind # bs @ [0, q] @ [x, y, z] @ data) ! 6 = q"
    "drop 10 (kind # bs @ [0, q] @ [x, y, z] @ data) = data" if "length bs = 4" for bs
    using that by (simp_all add: slice_of_def nth_append)
  note s = slices [OF v(2)]
  show "parse_header (message kind q ps data) = Ok \<lparr>message_type = kind, data_length = length data, ch_slot = 0,
      ch_sequence = q, parameters = ps\<rparr>"
    using v(2) unfolding parse_header_def message_def ps s v(1) CCID_HEADER_BYTES_def by simp
  show "drop CCID_HEADER_BYTES (message kind q ps data) = data" "length (message kind q ps data) = 10 + length data"
    using s(5) v(2) by (simp_all add: message_def ps CCID_HEADER_BYTES_def)
qed

lemma message_of_header:
  assumes "parse_header input = Ok h" and "data_length h = length input - 10" and "ch_slot h = 0"
  shows "input = message (message_type h) (ch_sequence h) (parameters h) (drop 10 input)" and "length (parameters h) = 3"
proof -
  have len: "10 \<le> length input" and h: "h = \<lparr>message_type = input ! 0, data_length = le_value (slice_of input 1 5), ch_slot = input ! 5,
               ch_sequence = input ! 6, parameters = slice_of input 7 10\<rparr>"
    using assms(1) by (simp_all add: parse_header_def CCID_HEADER_BYTES_def split: if_splits)
  then show "length (parameters h) = 3" by simp
  have l4: "length (slice_of input 1 5) = 4"
    using len by simp
  have dl: "le_bytes 4 (length input - 10) = slice_of input 1 5"
    using le_bytes_le_value [of "slice_of input 1 5"] l4 assms(2) unfolding h ccid_header.simps by metis
  obtain x0 x1 x2 x3 x4 x5 x6 x7 x8 x9 rest where "input = x0 # x1 # x2 # x3 # x4 # x5 # x6 # x7 # x8 # x9 # rest"
    using len by (auto simp: numeral_eq_Suc Suc_le_length_iff)
  then show "input = message (message_type h) (ch_sequence h) (parameters h) (drop 10 input)"
    using dl assms(3) by (simp add: h message_def slice_of_def)
qed

lemma decode_message:
  assumes "length ps = 3" and "length data \<le> MAX_SHORT_COMMAND_BYTES"
  shows "ccid_decode (message kind q ps data)
    = decode_kind \<lparr>message_type = kind, data_length = length data, ch_slot = 0, ch_sequence = q, parameters = ps\<rparr> data"
proof -
  have n: "length data < 2 ^ 32"
    using assms(2) by (simp add: MAX_SHORT_COMMAND_BYTES_def)
  show ?thesis
    using assms(2) message_parts [OF assms(1) n, of kind q]
    by (simp add: ccid_decode_def MAX_COMMAND_MESSAGE_BYTES_def CCID_HEADER_BYTES_def)
qed

lemma decode_kind_encodes:
  assumes "decode_kind h data = Ok c" and "length (parameters h) = 3" and "length data \<le> MAX_SHORT_COMMAND_BYTES"
  shows "encodes c (message (message_type h) (ch_sequence h) (parameters h) data)"
proof -
  obtain v w x where "parameters h = [v, w, x]"
    using assms(2) by (auto simp: numeral_eq_Suc length_Suc_conv)
  then show ?thesis
    using assms(1,3) by (auto simp: decode_kind_def Let_def encodes_def split: if_splits)
qed

lemma encodes_decode:
  assumes "encodes c input"
  shows "ccid_decode input = Ok c"
  using assms
  by (cases c) (auto simp: encodes_def decode_message decode_kind_def Let_def message_types MAX_SHORT_COMMAND_BYTES_def)

lemma decode_encodes:
  assumes "ccid_decode input = Ok c"
  shows "encodes c input"
proof -
  obtain h where h: "parse_header input = Ok h" "data_length h = length input - 10" "data_length h \<le> MAX_SHORT_COMMAND_BYTES"
    "ch_slot h = 0" "decode_kind h (drop 10 input) = Ok c"
    using assms by (auto simp: ccid_decode_def rbind_eq_Ok CCID_HEADER_BYTES_def split: if_splits)
  note m = message_of_header [OF h(1,2,4)]
  have "encodes c (message (message_type h) (ch_sequence h) (parameters h) (drop 10 input))"
    using decode_kind_encodes [OF h(5) m(2)] h(2,3) by simp
  then show ?thesis
    using m(1) by simp
qed

section \<open>Properties\<close>

text \<open>
  C21 (ccid_one_command). In every interleaving of bulk commands, control-pipe aborts, completions and
  disconnects, the events seen by the host are lawful: a command is dispatched only when the card is
  powered and no earlier command is outstanding, a completion reports exactly the outstanding
  command and only if no abort of it was announced, an abort handshake ends only a command that was
  in flight, and the slot remembers a command exactly while one is outstanding.
\<close>

theorem ccid_one_command:
  assumes "slot_run es s"
  shows "lawful es \<and> in_flight s = outstanding es \<and> powered s = switched_on es"
  using run_inv [OF assms] by (simp add: slot_inv_def)

theorem ccid_one_command_witness:
  "\<exists>s. slot_run [Completed 2 (Ok ()), Accepted (TransferBlock 2 [9]) (Dispatch 2 [9]), Accepted (PowerOn 1) (DataBlock 1 ATR)] s
     \<and> lawful [Completed 2 (Ok ()), Accepted (TransferBlock 2 [9]) (Dispatch 2 [9]), Accepted (PowerOn 1) (DataBlock 1 ATR)]
     \<and> in_flight s = None \<and> powered s"
proof -
  let ?es = "[Completed 2 (Ok ()), Accepted (TransferBlock 2 [9]) (Dispatch 2 [9]), Accepted (PowerOn 1) (DataBlock 1 ATR)]"
  let ?on = "slot_new\<lparr>powered := True\<rparr>"
  have "slot_run [Accepted (PowerOn 1) (DataBlock 1 ATR)] ?on"
    by (rule bulk [OF start]) (simp add: accept_def accept_idle_def slot_new_def)
  then have "slot_run [Accepted (TransferBlock 2 [9]) (Dispatch 2 [9]), Accepted (PowerOn 1) (DataBlock 1 ATR)] (?on\<lparr>in_flight := Some 2\<rparr>)"
    by (rule bulk) (simp add: accept_def accept_idle_def slot_new_def)
  then have "slot_run ?es ?on"
    by (rule completion) (simp add: slot_complete_def slot_new_def)
  from ccid_one_command [OF this] this show ?thesis
    by (intro exI [of _ ?on] conjI) simp_all
qed

text \<open>
  C34 (ccid_abort_handshake). The two halves of an abort arrive on different pipes. In either order,
  for a command in flight with no abort pending, the first half leaves the command in place but
  makes its completion fail, the second half answers the slot status, and both orders end in the
  same idle, still powered slot.
\<close>

theorem ccid_abort_handshake:
  assumes "in_flight s = Some q" and "control_abort_half s = None" and "bulk_abort s = None"
  shows "\<exists>s1 s2 idle. control_abort 0 a s = (Ok None, s1) \<and> accept (Abort a) s = (AwaitAbortPair a, s2)
    \<and> slot_complete q s1 = (Err Missing, s1) \<and> slot_complete q s2 = (Err Missing, s2)
    \<and> accept (Abort a) s1 = (SlotStatus a, idle) \<and> control_abort 0 a s2 = (Ok (Some (SlotStatus a)), idle)
    \<and> in_flight idle = None \<and> control_abort_half idle = None \<and> bulk_abort idle = None \<and> powered idle = powered s"
  using assms
  by (simp add: control_abort_def accept_def slot_complete_def finish_abort_def MAX_SLOT_INDEX_def)

theorem ccid_abort_handshake_witness:
  "\<exists>s1 s2 idle. control_abort 0 9 \<lparr>powered = True, in_flight = Some 2, control_abort_half = None, bulk_abort = None\<rparr> = (Ok None, s1)
    \<and> accept (Abort 9) \<lparr>powered = True, in_flight = Some 2, control_abort_half = None, bulk_abort = None\<rparr> = (AwaitAbortPair 9, s2)
    \<and> accept (Abort 9) s1 = (SlotStatus 9, idle) \<and> control_abort 0 9 s2 = (Ok (Some (SlotStatus 9)), idle) \<and> in_flight idle = None"
  using ccid_abort_handshake [of "\<lparr>powered = True, in_flight = Some 2, control_abort_half = None, bulk_abort = None\<rparr>" 2 9]
  by fastforce

text \<open>
  C22 (ccid_decode_exact). The bulk decoder accepts exactly the well-formed messages of the profile: it
  returns a command precisely when the bytes are the message of that command, with declared and
  actual length equal and within the short APDU limit, slot zero and all reserved bytes zero.
\<close>

theorem ccid_decode_exact: "(ccid_decode input = Ok c) = encodes c input"
  using encodes_decode decode_encodes by blast

end
