(* ===== verification/Storage_Patch.thy ===== *)
theory Storage_Patch
  imports Cbor
begin

text \<open>
  State changes inside journal frames (\<open>src/crates/microcard-core/src/jcvm_storage/patch.rs\<close>, and
  \<open>snapshot_size\<close> of \<open>jcvm_storage.rs\<close>): the record that lists changed spans of the heap and of the
  static fields, its validation, and its replay into a snapshot buffer in place. The functions that
  read a live view of the engine are not here; the writer of one record takes the contents of a
  range from a callback, as in the code. Pointer differences inside the snapshot are positions.
\<close>

section \<open>Records of spans\<close>

definition MAX_SPANS :: nat where "MAX_SPANS = 64"

definition span_end :: "nat \<Rightarrow> bytes \<Rightarrow> nat \<Rightarrow> nat \<Rightarrow> nat res" where
  "span_end offset bs n previous_end =
     rbind (ok_or (checked_add offset (length bs)) Format) (\<lambda>fin.
     if bs = [] \<or> fin > n \<or> offset < previous_end then Err Format else Ok fin)"

fun range_sizes :: "nat \<Rightarrow> nat \<Rightarrow> (nat \<times> nat) list \<Rightarrow> nat \<Rightarrow> nat res" where
  "range_sizes after previous_end [] acc = Ok acc"
| "range_sizes after previous_end ((a, b) # rest) acc =
     (if a \<ge> b \<or> b > after \<or> a < previous_end then Err Bounds
      else
        rbind (ok_or (checked_add acc (argument_size 2)) Quota) (\<lambda>acc.
        rbind (ok_or (checked_add acc (argument_size a)) Quota) (\<lambda>acc.
        rbind (ok_or (checked_add acc (argument_size (b - a))) Quota) (\<lambda>acc.
        rbind (ok_or (checked_add acc (b - a)) Quota) (\<lambda>acc.
        range_sizes after b rest acc)))))"

definition record_size :: "(nat \<times> nat) list \<Rightarrow> nat \<Rightarrow> nat \<Rightarrow> nat \<Rightarrow> nat res" where
  "record_size changes before after generation =
     (if length changes > MAX_SPANS then Err Quota
      else range_sizes after 0 changes
        (sum_list (map argument_size [5, 1, generation, before, after, length changes])))"

type_synonym range_contents = "nat \<times> nat \<Rightarrow> bytes \<Rightarrow> unit res \<times> bytes"

fun write_ranges :: "range_contents \<Rightarrow> (nat \<times> nat) list \<Rightarrow> unit senc" where
  "write_ranges contents [] = sret ()"
| "write_ranges contents ((a, b) # rest) =
     sbind (senc_array 2) (\<lambda>_.
     sbind (senc_unsigned a) (\<lambda>_.
     sbind (senc_bytes_with (b - a) (contents (a, b))) (\<lambda>_.
     write_ranges contents rest)))"

definition write_record :: "bytes \<Rightarrow> (nat \<times> nat) list \<Rightarrow> nat \<Rightarrow> nat \<Rightarrow> nat \<Rightarrow> range_contents \<Rightarrow> unit res \<times> bytes" where
  "write_record output changes before after generation contents =
     (case sbind (senc_array 5) (\<lambda>_.
           sbind (senc_unsigned 1) (\<lambda>_.
           sbind (senc_unsigned generation) (\<lambda>_.
           sbind (senc_unsigned before) (\<lambda>_.
           sbind (senc_unsigned after) (\<lambda>_.
           sbind (senc_array (length changes)) (\<lambda>_.
           sbind (write_ranges contents changes) (\<lambda>_.
           sget senc_finish))))))) (senc_new output) of
        (r, e) \<Rightarrow> (r, sout e))"

section \<open>Validation and application\<close>

fun check_spans :: "nat \<Rightarrow> nat \<Rightarrow> nat \<Rightarrow> unit dec" where
  "check_spans n previous_end 0 = sret ()"
| "check_spans n previous_end (Suc count) =
     sbind (dec_record 2) (\<lambda>_.
     sbind (dec_number usize_max) (\<lambda>offset.
     sbind (dec_bytes n) (\<lambda>bs.
     sbind (slift (span_end offset bs n previous_end)) (\<lambda>fin.
     check_spans n fin count))))"

definition validate_dec :: "nat \<Rightarrow> nat \<Rightarrow> nat \<Rightarrow> nat dec" where
  "validate_dec generation used capacity =
     sbind (dec_record 5) (\<lambda>_.
     sbind dec_unsigned (\<lambda>version. if version \<noteq> 1 then sfail IncompatibleState else
     sbind dec_unsigned (\<lambda>g. if g \<noteq> generation then sfail IncompatibleState else
     sbind (dec_number usize_max) (\<lambda>u. if u \<noteq> used then sfail IncompatibleState else
     sbind (dec_number usize_max) (\<lambda>n. if n > capacity then sfail Quota else
     sbind (dec_array MAX_SPANS) (\<lambda>count.
     sbind (check_spans n 0 count) (\<lambda>_.
     sbind (sget dec_finish) (\<lambda>_.
     sret n))))))))"

definition validate_patch :: "bytes \<Rightarrow> nat \<Rightarrow> nat \<Rightarrow> nat \<Rightarrow> nat res" where
  "validate_patch encoded generation used capacity = fst (validate_dec generation used capacity encoded)"

text \<open>
  Applying reads from the record and writes the state: the action keeps both. A span that leaves
  the state would panic; \<open>validate\<close> has refused it before.
\<close>

definition reading :: "'a dec \<Rightarrow> (bytes \<times> bytes, error, 'a) act" where
  "reading d = (\<lambda>(input, state). case d input of (r, input') \<Rightarrow> (r, (input', state)))"

fun write_spans :: "nat \<Rightarrow> (bytes \<times> bytes, error, unit) act" where
  "write_spans 0 = sret ()"
| "write_spans (Suc count) =
     sbind (reading (dec_record 2)) (\<lambda>_.
     sbind (reading (dec_number usize_max)) (\<lambda>offset.
     sbind (\<lambda>s. reading (dec_bytes (length (snd s))) s) (\<lambda>bs.
     sbind (smodify (\<lambda>(input, state). (input, overwrite state offset bs))) (\<lambda>_.
     write_spans count))))"

definition apply_spans :: "bytes \<Rightarrow> bytes \<Rightarrow> unit res \<times> bytes" where
  "apply_spans encoded state =
     (case sbind (reading (dec_record 5)) (\<lambda>_.
           sbind (reading dec_unsigned) (\<lambda>_.
           sbind (reading dec_unsigned) (\<lambda>_.
           sbind (reading dec_unsigned) (\<lambda>_.
           sbind (reading dec_unsigned) (\<lambda>_.
           sbind (reading (dec_array MAX_SPANS)) (\<lambda>count.
           sbind (write_spans count) (\<lambda>_.
           reading (sget dec_finish)))))))) (encoded, state) of
        (r, (_, state')) \<Rightarrow> (r, state'))"

section \<open>Replay\<close>

definition snapshot_size :: "nat \<Rightarrow> nat \<Rightarrow> nat \<Rightarrow> nat res" where
  "snapshot_size inst heap statics =
     rbind (ok_or (checked_add 54 (argument_size inst)) Quota) (\<lambda>n.
     rbind (ok_or (checked_add n (argument_size heap)) Quota) (\<lambda>n.
     rbind (ok_or (checked_add n heap) Quota) (\<lambda>n.
     rbind (ok_or (checked_add n (argument_size statics)) Quota) (\<lambda>n.
     ok_or (checked_add n statics) Quota))))"

record snapshot_fields =
  sf_image :: bytes
  sf_installation :: bytes
  sf_instance :: nat
  sf_heap_at :: nat
  sf_heap :: bytes
  sf_static_at :: nat
  sf_statics :: bytes

text \<open>The position of a field just read is what was consumed before it.\<close>

definition field_at :: "bytes \<Rightarrow> bytes \<Rightarrow> nat dec" where
  "field_at whole field = sget (\<lambda>remaining. Ok (length whole - length remaining - length field))"

definition read_snapshot_dec :: "nat \<Rightarrow> bytes \<Rightarrow> snapshot_fields dec" where
  "read_snapshot_dec maximum snapshot =
     sbind (dec_record 7) (\<lambda>_.
     sbind dec_unsigned (\<lambda>version. if version \<noteq> 1 then sfail IncompatibleState else
     sbind dec_unsigned (\<lambda>engine. if engine \<noteq> 1 then sfail IncompatibleState else
     sbind (dec_fixed 32) (\<lambda>image.
     sbind (dec_fixed 16) (\<lambda>installation.
     sbind dec_unsigned (\<lambda>inst.
     sbind (dec_bytes maximum) (\<lambda>heap.
     sbind (field_at snapshot heap) (\<lambda>heap_at.
     sbind (dec_bytes maximum) (\<lambda>statics.
     sbind (field_at snapshot statics) (\<lambda>static_at.
     sbind (sget dec_finish) (\<lambda>_.
     sret \<lparr>sf_image = image, sf_installation = installation, sf_instance = inst, sf_heap_at = heap_at,
           sf_heap = heap, sf_static_at = static_at, sf_statics = statics\<rparr>)))))))))))"

definition read_snapshot :: "nat \<Rightarrow> bytes \<Rightarrow> snapshot_fields res" where
  "read_snapshot maximum snapshot = fst (read_snapshot_dec maximum snapshot snapshot)"

definition read_delta_dec :: "nat \<Rightarrow> nat \<Rightarrow> (bytes \<times> bytes) dec" where
  "read_delta_dec maximum inst =
     sbind (dec_record 4) (\<lambda>_.
     sbind dec_unsigned (\<lambda>version. if version \<noteq> 1 then sfail IncompatibleState else
     sbind dec_unsigned (\<lambda>i. if i \<noteq> inst then sfail KeyMismatch else
     sbind (dec_bytes maximum) (\<lambda>heap_patch.
     sbind (dec_bytes maximum) (\<lambda>static_patch.
     sbind (sget dec_finish) (\<lambda>_.
     sret (heap_patch, static_patch)))))))"

definition read_delta :: "nat \<Rightarrow> nat \<Rightarrow> bytes \<Rightarrow> (bytes \<times> bytes) res" where
  "read_delta maximum inst delta = fst (read_delta_dec maximum inst delta)"

definition new_prefix :: "alloc \<Rightarrow> snapshot_fields \<Rightarrow> nat \<Rightarrow> bytes res" where
  "new_prefix alloc s heap_length =
     (case sbind (enc_array alloc 7) (\<lambda>_.
           sbind (enc_unsigned alloc 1) (\<lambda>_.
           sbind (enc_unsigned alloc 1) (\<lambda>_.
           sbind (enc_bytes alloc (sf_image s)) (\<lambda>_.
           sbind (enc_bytes alloc (sf_installation s)) (\<lambda>_.
           sbind (enc_unsigned alloc (sf_instance s)) (\<lambda>_.
           enc_bytes_header alloc heap_length)))))) (enc_new 96) of
        (Ok _, e) \<Rightarrow> Ok (enc_finish e) | (Err x, _) \<Rightarrow> Err x)"

definition new_static_header :: "alloc \<Rightarrow> nat \<Rightarrow> bytes res" where
  "new_static_header alloc n =
     (case enc_bytes_header alloc n (enc_new 9) of (Ok _, e) \<Rightarrow> Ok (enc_finish e) | (Err x, _) \<Rightarrow> Err x)"

text \<open>\<open>copy_within(a..a + n, at)\<close> and \<open>buf[a..b].fill(0)\<close>.\<close>

definition move_within :: "nat \<Rightarrow> nat \<Rightarrow> nat \<Rightarrow> bytes \<Rightarrow> bytes" where
  "move_within a n at buf = overwrite buf at (slice_of buf a (a + n))"

definition fill_zero :: "nat \<Rightarrow> nat \<Rightarrow> bytes \<Rightarrow> bytes" where
  "fill_zero a b buf = overwrite buf a (replicate (b - a) 0)"

text \<open>Applying a record to a part of the buffer.\<close>

definition apply_at :: "bytes \<Rightarrow> nat \<Rightarrow> nat \<Rightarrow> (bytes, error, unit) act" where
  "apply_at patch a n buf = (case apply_spans patch (slice_of buf a (a + n)) of (r, field) \<Rightarrow> (r, overwrite buf a field))"

text \<open>The moves and writes inside the buffer, once everything has been checked.\<close>

definition rebuild :: "snapshot_fields \<Rightarrow> bytes \<Rightarrow> bytes \<Rightarrow> nat \<Rightarrow> nat \<Rightarrow> nat \<Rightarrow> bytes \<Rightarrow> bytes" where
  "rebuild s prefix static_header heap_length static_length new_total buf =
     (let new_heap_at = length prefix;
          new_static_at = new_heap_at + heap_length + length static_header;
          common_heap = min (length (sf_heap s)) heap_length;
          common_static = min (length (sf_statics s)) static_length;
          buf = (if new_total > length buf then buf @ replicate (new_total - length buf) 0 else buf);
          buf = (if new_static_at > sf_static_at s then move_within (sf_static_at s) common_static new_static_at buf else buf);
          buf = move_within (sf_heap_at s) common_heap new_heap_at buf;
          buf = (if new_static_at \<le> sf_static_at s then move_within (sf_static_at s) common_static new_static_at buf else buf);
          buf = fill_zero (new_heap_at + common_heap) (new_heap_at + heap_length) buf;
          buf = fill_zero (new_static_at + common_static) (new_static_at + static_length) buf;
          buf = overwrite buf 0 prefix in
      overwrite buf (new_static_at - length static_header) static_header)"

definition replay_snapshot :: "alloc \<Rightarrow> nat \<Rightarrow> bytes \<Rightarrow> nat \<Rightarrow> (bytes, error, unit) act" where
  "replay_snapshot alloc generation delta maximum = (\<lambda>snapshot.
     sbind (slift (read_snapshot maximum snapshot)) (\<lambda>s.
     sbind (slift (read_delta maximum (sf_instance s) delta)) (\<lambda>(heap_patch, static_patch).
     sbind (slift (validate_patch heap_patch generation (length (sf_heap s)) maximum)) (\<lambda>heap_length.
     sbind (slift (validate_patch static_patch generation (length (sf_statics s)) maximum)) (\<lambda>static_length.
     sbind (slift (snapshot_size (sf_instance s) heap_length static_length)) (\<lambda>new_total.
     if new_total > maximum then sfail Quota else
     sbind (slift (new_prefix alloc s heap_length)) (\<lambda>prefix.
     sbind (slift (new_static_header alloc static_length)) (\<lambda>static_header.
     let new_heap_at = length prefix; new_static_at = new_heap_at + heap_length + length static_header in
     if checked_add new_static_at static_length \<noteq> Some new_total then sfail Format else
     sbind (slift (try_reserve alloc (new_total - length snapshot))) (\<lambda>_.
     sbind (smodify (rebuild s prefix static_header heap_length static_length new_total)) (\<lambda>_.
     sbind (apply_at heap_patch new_heap_at heap_length) (\<lambda>_.
     sbind (apply_at static_patch new_static_at static_length) (\<lambda>_.
     smodify (\<lambda>buf. if new_total < length snapshot then take new_total buf else buf)))))))))))) snapshot)"

section \<open>The wire form of a record\<close>

definition span_wire :: "nat \<times> bytes \<Rightarrow> bytes" where
  "span_wire sp = head 4 2 @ head 0 (fst sp) @ string_wire 2 (snd sp)"

definition patch_wire :: "nat \<Rightarrow> nat \<Rightarrow> nat \<Rightarrow> (nat \<times> bytes) list \<Rightarrow> bytes" where
  "patch_wire generation before after spans =
     head 4 5 @ head 0 1 @ head 0 generation @ head 0 before @ head 0 after @ head 4 (length spans) @ concat (map span_wire spans)"

text \<open>Spans in order, not empty, not overlapping and inside the state.\<close>

fun spans_ok :: "nat \<Rightarrow> nat \<Rightarrow> (nat \<times> bytes) list \<Rightarrow> bool" where
  "spans_ok n previous_end [] = True"
| "spans_ok n previous_end ((a, bs) # rest) \<longleftrightarrow>
     bs \<noteq> [] \<and> previous_end \<le> a \<and> a + length bs \<le> n \<and> spans_ok n (a + length bs) rest"

definition patch_ok :: "nat \<Rightarrow> nat \<Rightarrow> nat \<Rightarrow> (nat \<times> bytes) list \<Rightarrow> bool" where
  "patch_ok generation before after spans \<longleftrightarrow> generation \<le> u64_max \<and> before \<le> usize_max \<and> after \<le> usize_max
     \<and> length spans \<le> MAX_SPANS \<and> spans_ok after 0 spans"

definition put_spans :: "(nat \<times> bytes) list \<Rightarrow> bytes \<Rightarrow> bytes" where
  "put_spans spans state = fold (\<lambda>(a, bs) s. overwrite s a bs) spans state"

text \<open>The state a record describes: the old bytes cut or zero-extended, with the spans written.\<close>

definition patched :: "nat \<Rightarrow> (nat \<times> bytes) list \<Rightarrow> bytes \<Rightarrow> bytes" where
  "patched n spans state = put_spans spans (take n state @ replicate (n - length state) 0)"

lemma small_u64: "(1::nat) \<le> u64_max" "n \<le> usize_max \<Longrightarrow> n \<le> min usize_max u64_max"
  by (simp_all add: u64_max_def usize_max_def)

lemma dec_record_iff: "dec_record n bs = (Ok u, r) \<longleftrightarrow> n \<le> usize_max \<and> bs = head 4 n @ r"
  unfolding dec_record_def c_array.dec_sbind_iff by (auto simp: length_dom_def split: if_splits)

lemma dec_record_wire: "n \<le> usize_max \<Longrightarrow> dec_record n (head 4 n @ r) = (Ok (), r)"
  by (simp add: dec_record_iff)

lemma dec_fixed_iff: "dec_fixed n bs = (Ok b, r) \<longleftrightarrow> length b = n \<and> n \<le> usize_max \<and> bs = string_wire 2 b @ r"
  unfolding dec_fixed_def c_bytes.dec_sbind_iff by (auto simp: string_dom_def length_dom_def split: if_splits)

lemma record_const [simp]: "(2::nat) \<le> usize_max" "(4::nat) \<le> usize_max" "(5::nat) \<le> usize_max" "(7::nat) \<le> usize_max"
  by (simp_all add: usize_max_def)

lemma span_end_iff:
  assumes "n \<le> usize_max"
  shows "span_end a bs n previous_end = Ok fin \<longleftrightarrow> bs \<noteq> [] \<and> previous_end \<le> a \<and> a + length bs \<le> n \<and> fin = a + length bs"
  using assms by (auto simp: span_end_def rbind_eq_Ok split: if_splits)

lemma span_dom:
  assumes "n \<le> usize_max" and "a + length bs \<le> n"
  shows "a \<le> min usize_max u64_max" and "string_dom n bs"
  using assms by (auto simp: string_dom_def length_dom_def u64_max_def usize_max_def)

lemma check_spans_iff:
  assumes "n \<le> usize_max"
  shows "check_spans n previous_end count bs = (Ok u, r) \<longleftrightarrow>
    (\<exists>spans. length spans = count \<and> spans_ok n previous_end spans \<and> bs = concat (map span_wire spans) @ r)"
proof (induction count arbitrary: previous_end bs)
  case (Suc count)
  have "check_spans n previous_end (Suc count) bs = (Ok u, r) \<longleftrightarrow>
      (\<exists>a b t spans. b \<noteq> [] \<and> previous_end \<le> a \<and> a + length b \<le> n \<and> length spans = count \<and> spans_ok n (a + length b) spans
        \<and> bs = span_wire (a, b) @ concat (map span_wire spans) @ r \<and> t = ())" (is "_ = ?R")
  proof
    assume "check_spans n previous_end (Suc count) bs = (Ok u, r)"
    then obtain a b t where "b \<noteq> [] \<and> previous_end \<le> a \<and> a + length b \<le> n" "check_spans n (a + length b) count t = (Ok u, r)"
        "bs = span_wire (a, b) @ t"
      by (auto simp: sbind_eq_Ok dec_record_iff c_number.dec_iff c_bytes.dec_iff span_end_iff [OF assms] span_wire_def)
    then show ?R
      unfolding Suc.IH by blast
  next
    assume ?R
    then obtain a b spans where *: "b \<noteq> []" "previous_end \<le> a" "a + length b \<le> n" "length spans = count" "spans_ok n (a + length b) spans"
        "bs = span_wire (a, b) @ concat (map span_wire spans) @ r"
      by blast
    have "check_spans n (a + length b) count (concat (map span_wire spans) @ r) = (Ok u, r)"
      unfolding Suc.IH using * by blast
    moreover have "span_end a b n previous_end = Ok (a + length b)"
      using * by (simp add: span_end_iff [OF assms])
    ultimately show "check_spans n previous_end (Suc count) bs = (Ok u, r)"
      using span_dom [OF assms *(3)]
      by (simp add: *(6) span_wire_def dec_record_wire c_number.dec_sbind_wire c_bytes.dec_sbind_wire)
  qed
  also have "?R \<longleftrightarrow> (\<exists>spans. length spans = Suc count \<and> spans_ok n previous_end spans \<and> bs = concat (map span_wire spans) @ r)"
    by (fastforce simp: length_Suc_conv)
  finally show ?case .
qed auto

lemma validate_patch_iff:
  "validate_patch encoded generation used capacity = Ok n \<longleftrightarrow>
    (\<exists>spans. encoded = patch_wire generation used n spans \<and> patch_ok generation used n spans \<and> n \<le> capacity)"
proof
  assume "validate_patch encoded generation used capacity = Ok n"
  then obtain r where "validate_dec generation used capacity encoded = (Ok n, r)"
    unfolding validate_patch_def by (metis prod.collapse)
  then obtain count t where n: "n \<le> usize_max" "used \<le> usize_max" "generation \<le> u64_max" "n \<le> capacity"
    and c: "count \<le> MAX_SPANS" "check_spans n 0 count t = (Ok (), [])"
    and e: "encoded = head 4 5 @ head 0 1 @ head 0 generation @ head 0 used @ head 0 n @ head 4 count @ t"
    unfolding validate_dec_def
    by (auto simp: sbind_eq_Ok dec_record_iff c_unsigned.dec_iff c_number.dec_iff c_array.dec_iff argument_dom_def length_dom_def
        dec_finish_def split: if_splits)
  then show "\<exists>spans. encoded = patch_wire generation used n spans \<and> patch_ok generation used n spans \<and> n \<le> capacity"
    unfolding check_spans_iff [OF n(1)] by (auto simp: patch_wire_def patch_ok_def)
next
  assume "\<exists>spans. encoded = patch_wire generation used n spans \<and> patch_ok generation used n spans \<and> n \<le> capacity"
  then obtain spans where e: "encoded = patch_wire generation used n spans" and ok: "patch_ok generation used n spans" and cap: "n \<le> capacity"
    by blast
  have c: "check_spans n 0 (length spans) (concat (map span_wire spans)) = (Ok (), [])"
    using ok check_spans_iff [of n 0 "length spans" "concat (map span_wire spans)" "()" "[]"] by (auto simp: patch_ok_def)
  have d: "argument_dom 1" "argument_dom generation" "used \<le> min usize_max u64_max" "n \<le> min usize_max u64_max" "length_dom MAX_SPANS (length spans)"
    using ok small_u64 by (auto simp: patch_ok_def argument_dom_def length_dom_def MAX_SPANS_def usize_max_def)
  show "validate_patch encoded generation used capacity = Ok n"
    using d cap c
    by (simp add: validate_patch_def validate_dec_def e patch_wire_def dec_record_wire c_unsigned.dec_sbind_wire c_number.dec_sbind_wire
        c_array.dec_sbind_wire dec_finish_def)
qed

section \<open>Applying a record\<close>

lemma reading_step: "d input = (Ok x, input') \<Longrightarrow> sbind (reading d) f (input, state) = f x (input', state)"
  by (simp add: sbind_def reading_def)

lemma reading_bytes:
  "string_dom (length state) b \<Longrightarrow>
    sbind (\<lambda>s. reading (dec_bytes (length (snd s))) s) f (string_wire 2 b @ r, state) = f b (r, state)"
  by (simp add: sbind_def reading_def c_bytes.dec_wire)

lemma put_spans_simps [simp]: "put_spans [] s = s" "put_spans ((a, bs) # rest) s = put_spans rest (overwrite s a bs)"
  by (simp_all add: put_spans_def)

lemma length_put_spans: "spans_ok n p spans \<Longrightarrow> length s = n \<Longrightarrow> length (put_spans spans s) = n"
proof (induction spans arbitrary: p s)
  case (Cons sp rest)
  then show ?case by (cases sp) auto
qed simp

lemma write_spans_wire:
  assumes "n \<le> usize_max"
  shows "spans_ok n p spans \<Longrightarrow> length state = n \<Longrightarrow>
    write_spans (length spans) (concat (map span_wire spans) @ r, state) = (Ok (), (r, put_spans spans state))"
proof (induction spans arbitrary: p state)
  case (Cons sp rest)
  obtain a b where sp: "sp = (a, b)" by (cases sp)
  have ok: "a + length b \<le> n" "spans_ok n (a + length b) rest"
    using Cons.prems(1) by (simp_all add: sp)
  note dom = span_dom [OF assms ok(1)]
  have "length (overwrite state a b) = n"
    using ok(1) Cons.prems(2) by simp
  from Cons.IH [OF ok(2) this] show ?case
    using dom Cons.prems(2)
    by (simp add: sp span_wire_def reading_step reading_bytes dec_record_wire c_number.dec_wire)
qed simp

lemma apply_spans_wire:
  assumes "patch_ok generation before n spans" and "length state = n"
  shows "apply_spans (patch_wire generation before n spans) state = (Ok (), put_spans spans state)"
proof -
  have d: "argument_dom 1" "argument_dom generation" "argument_dom before" "argument_dom n" "length_dom MAX_SPANS (length spans)" "n \<le> usize_max"
    using assms(1) small_u64 by (auto simp: patch_ok_def argument_dom_def length_dom_def MAX_SPANS_def usize_max_def u64_max_def)
  have w: "write_spans (length spans) (concat (map span_wire spans) @ [], state) = (Ok (), ([], put_spans spans state))"
    using assms by (intro write_spans_wire [OF d(6)]) (auto simp: patch_ok_def)
  show ?thesis
    using d w
    by (simp add: apply_spans_def patch_wire_def reading_step dec_record_wire c_unsigned.dec_wire c_array.dec_wire)
      (simp add: reading_def dec_finish_def)
qed

section \<open>Rebuilding the buffer\<close>

text \<open>A buffer known on consecutive ranges is their concatenation.\<close>

lemma slice_of_append: "slice_of xs 0 a = ys \<Longrightarrow> slice_of xs a b = zs \<Longrightarrow> a \<le> b \<Longrightarrow> slice_of xs 0 b = ys @ zs"
  by (simp add: slice_of_def) (metis add_diff_inverse_nat linorder_not_less take_add)

lemma slice_move_within:
  assumes "at + n \<le> length buf" and "a + n \<le> length buf"
  shows "slice_of (move_within a n at buf) at (at + n) = slice_of buf a (a + n)"
    and "length (move_within a n at buf) = length buf"
    and "i \<le> j \<Longrightarrow> j \<le> length buf \<Longrightarrow> j \<le> at \<or> at + n \<le> i \<Longrightarrow> slice_of (move_within a n at buf) i j = slice_of buf i j"
  using assms slice_of_overwrite [of "at" "slice_of buf a (a + n)" buf]
    slice_of_overwrite_disjoint [of "at" "slice_of buf a (a + n)" buf j i]
  by (simp_all add: move_within_def)

lemma slice_fill_zero:
  assumes "a \<le> b" and "b \<le> length buf"
  shows "slice_of (fill_zero a b buf) a b = replicate (b - a) 0" and "length (fill_zero a b buf) = length buf"
    and "j \<le> length buf \<Longrightarrow> j \<le> a \<or> b \<le> i \<Longrightarrow> slice_of (fill_zero a b buf) i j = slice_of buf i j"
  using assms slice_of_overwrite [of a "replicate (b - a) 0" buf]
    slice_of_overwrite_disjoint [of a "replicate (b - a) 0" buf j i]
  by (simp_all add: fill_zero_def)

lemma slice_prefix: "n \<le> length xs \<Longrightarrow> slice_of buf a (a + length xs) = xs \<Longrightarrow> slice_of buf a (a + n) = take n xs"
  by (simp add: slice_of_def) (metis min.absorb1 take_take)

text \<open>The two moves: whichever runs first, neither destroys what the other still has to read.\<close>

lemma moves:
  assumes layout: "ha + length heap \<le> sa" "sa + length statics \<le> length buf" "nha + hl \<le> nsa" "nsa + sl \<le> length buf"
    and old: "slice_of buf ha (ha + length heap) = heap" "slice_of buf sa (sa + length statics) = statics"
  defines "ch \<equiv> min (length heap) hl" and "cs \<equiv> min (length statics) sl"
  defines "b1 \<equiv> (if nsa > sa then move_within sa cs nsa buf else buf)"
  defines "b2 \<equiv> move_within ha ch nha b1"
  defines "b3 \<equiv> (if nsa \<le> sa then move_within sa cs nsa b2 else b2)"
  shows "length b3 = length buf" and "slice_of b3 nha (nha + ch) = take hl heap" and "slice_of b3 nsa (nsa + cs) = take sl statics"
proof -
  have ch: "ch \<le> length heap" "ch \<le> hl" "take ch heap = take hl heap" and cs: "cs \<le> length statics" "cs \<le> sl" "take cs statics = take sl statics"
    by (simp_all add: ch_def cs_def min_def)
  have src: "slice_of buf ha (ha + ch) = take hl heap" "slice_of buf sa (sa + cs) = take sl statics"
    using slice_prefix [OF ch(1) old(1)] slice_prefix [OF cs(1) old(2)] ch(3) cs(3) by simp_all
  have fit: "ha + ch \<le> length buf" "nha + ch \<le> length buf" "sa + cs \<le> length buf" "nsa + cs \<le> length buf" "ha + ch \<le> sa" "nha + ch \<le> nsa"
    using layout ch cs by linarith+
  have l1: "length b1 = length buf"
    using slice_move_within(2) [of nsa cs buf sa] fit by (simp add: b1_def)
  have l2: "length b2 = length buf"
    using slice_move_within(2) [of nha ch b1 ha] fit l1 by (simp add: b2_def)
  show "length b3 = length buf"
    using slice_move_within(2) [of nsa cs b2 sa] fit l2 by (simp add: b3_def)
  have h2: "slice_of b2 nha (nha + ch) = take hl heap"
  proof -
    have "slice_of b1 ha (ha + ch) = slice_of buf ha (ha + ch)"
      using slice_move_within(3) [of nsa cs buf sa ha "ha + ch"] fit by (simp add: b1_def)
    then show ?thesis
      using slice_move_within(1) [of nha ch b1 ha] fit l1 src(1) by (simp add: b2_def)
  qed
  show "slice_of b3 nha (nha + ch) = take hl heap"
    using slice_move_within(3) [of nsa cs b2 sa nha "nha + ch"] fit l2 h2 by (simp add: b3_def)
  show "slice_of b3 nsa (nsa + cs) = take sl statics"
  proof (cases "nsa > sa")
    case True
    then have "slice_of b1 nsa (nsa + cs) = take sl statics"
      using slice_move_within(1) [of nsa cs buf sa] fit src(2) by (simp add: b1_def)
    then show ?thesis
      using True slice_move_within(3) [of nha ch b1 ha nsa "nsa + cs"] fit l1 by (simp add: b3_def b2_def)
  next
    case False
    then have "slice_of b2 sa (sa + cs) = take sl statics"
      using slice_move_within(3) [of nha ch buf ha sa "sa + cs"] fit src(2) by (simp add: b2_def b1_def)
    then show ?thesis
      using False slice_move_within(1) [of nsa cs b2 sa] fit l2 by (simp add: b3_def)
  qed
qed

text \<open>The rebuilt buffer, before the spans are written.\<close>

lemma finish_layout:
  assumes b3: "length b3 \<ge> nsa + sl" "slice_of b3 nha (nha + ch) = H" "slice_of b3 nsa (nsa + cs) = S"
    and lens: "length prefix = nha" "nsa = nha + hl + length hdr" "ch \<le> hl" "cs \<le> sl"
  defines "b4 \<equiv> fill_zero (nha + ch) (nha + hl) b3"
  defines "b5 \<equiv> fill_zero (nsa + cs) (nsa + sl) b4"
  defines "b7 \<equiv> overwrite (overwrite b5 0 prefix) (nsa - length hdr) hdr"
  shows "length b7 = length b3"
    and "slice_of b7 0 (nsa + sl) = prefix @ (H @ replicate (hl - ch) 0) @ hdr @ (S @ replicate (sl - cs) 0)"
proof -
  have l4: "length b4 = length b3" and l5: "length b5 = length b3"
    using b3(1) lens by (simp_all add: b4_def b5_def slice_fill_zero(2))
  have at: "nsa - length hdr = nha + hl" "nha + hl \<le> nsa" "nsa \<le> length b3"
    using lens b3(1) by simp_all
  show l7: "length b7 = length b3"
    using l5 lens b3(1) at by (simp add: b7_def)
  have keep4: "slice_of b4 i j = slice_of b3 i j" if "j \<le> length b3" "j \<le> nha + ch \<or> nha + hl \<le> i" for i j
    using slice_fill_zero(3) [of "nha + ch" "nha + hl" b3 j i] that lens at b3(1) by (simp add: b4_def)
  have keep5: "slice_of b5 i j = slice_of b4 i j" if "j \<le> length b3" "j \<le> nsa + cs \<or> nsa + sl \<le> i" for i j
    using slice_fill_zero(3) [of "nsa + cs" "nsa + sl" b4 j i] that lens l4 b3(1) by (simp add: b5_def)
  have keep7: "slice_of b7 i j = slice_of b5 i j" if "j \<le> length b3" "nha \<le> i" "j \<le> nha + hl \<or> nsa \<le> i" for i j
    using that lens at l5
      slice_of_overwrite_disjoint [of "nsa - length hdr" hdr "overwrite b5 0 prefix" j i] slice_of_overwrite_disjoint [of 0 prefix b5 j i]
    by (simp add: b7_def)
  have p1: "slice_of b7 0 nha = prefix"
    using lens at l5 slice_of_overwrite [of 0 prefix b5] slice_of_overwrite_disjoint [of "nsa - length hdr" hdr "overwrite b5 0 prefix" nha 0]
    by (simp add: b7_def)
  have p2: "slice_of b7 nha (nha + ch) = H" "slice_of b7 (nha + ch) (nha + hl) = replicate (hl - ch) 0"
    using keep7 keep5 keep4 [of "nha + ch" nha] slice_fill_zero(1) [of "nha + ch" "nha + hl" b3] lens at b3 by (simp_all add: b4_def)
  have p3: "slice_of b7 (nha + hl) nsa = hdr"
    using lens at l5 slice_of_overwrite [of "nsa - length hdr" hdr "overwrite b5 0 prefix"] by (simp add: b7_def)
  have p4: "slice_of b7 nsa (nsa + cs) = S" "slice_of b7 (nsa + cs) (nsa + sl) = replicate (sl - cs) 0"
    using keep7 keep5 [of "nsa + cs" nsa] keep4 [of "nsa + cs" nsa] slice_fill_zero(1) [of "nsa + cs" "nsa + sl" b4] lens at b3 l4
    by (simp_all add: b5_def)
  note q1 = slice_of_append [OF p1 p2(1)]
  note q2 = slice_of_append [OF q1 p2(2)]
  note q3 = slice_of_append [OF q2 p3]
  note q4 = slice_of_append [OF q3 p4(1)]
  from slice_of_append [OF q4 p4(2)] show "slice_of b7 0 (nsa + sl) = prefix @ (H @ replicate (hl - ch) 0) @ hdr @ (S @ replicate (sl - cs) 0)"
    using lens at by simp
qed

lemma rebuild_layout:
  assumes layout: "sf_heap_at s + length (sf_heap s) \<le> sf_static_at s" "sf_static_at s + length (sf_statics s) = length buf"
    and old: "slice_of buf (sf_heap_at s) (sf_heap_at s + length (sf_heap s)) = sf_heap s"
      "slice_of buf (sf_static_at s) (sf_static_at s + length (sf_statics s)) = sf_statics s"
    and tot: "new_total = length prefix + hl + length hdr + sl"
  defines "out \<equiv> rebuild s prefix hdr hl sl new_total buf"
  shows "length out = max (length buf) new_total"
    and "slice_of out 0 new_total = prefix @ (take hl (sf_heap s) @ replicate (hl - length (sf_heap s)) 0)
      @ hdr @ (take sl (sf_statics s) @ replicate (sl - length (sf_statics s)) 0)"
proof -
  define b0 where "b0 = (if new_total > length buf then buf @ replicate (new_total - length buf) 0 else buf)"
  have l0: "length b0 = max (length buf) new_total"
    by (simp add: b0_def)
  have pre: "slice_of b0 i j = slice_of buf i j" if "j \<le> length buf" for i j
    using that by (simp add: b0_def slice_of_def)
  have old0: "slice_of b0 (sf_heap_at s) (sf_heap_at s + length (sf_heap s)) = sf_heap s"
    "slice_of b0 (sf_static_at s) (sf_static_at s + length (sf_statics s)) = sf_statics s"
    using pre old layout by simp_all
  let ?nsa = "length prefix + hl + length hdr"
  have lay0: "sf_static_at s + length (sf_statics s) \<le> length b0" "length prefix + hl \<le> ?nsa" "?nsa + sl \<le> length b0"
    using layout tot l0 by simp_all
  note m = moves [OF layout(1) lay0 old0]
  have nt: "?nsa + sl = new_total"
    using tot by simp
  have fits: "?nsa + sl \<le> length b0"
    using lay0(3) .
  note f = finish_layout [OF fits [folded m(1)] m(2,3) refl refl min.cobounded2 min.cobounded2]
  have cut: "hl - min n hl = hl - n" "sl - min n sl = sl - n" for n
    by simp_all
  show "length out = max (length buf) new_total"
    using f(1) m(1) lay0(3) l0 unfolding out_def rebuild_def Let_def b0_def [symmetric] by simp
  show "slice_of out 0 new_total = prefix @ (take hl (sf_heap s) @ replicate (hl - length (sf_heap s)) 0)
      @ hdr @ (take sl (sf_statics s) @ replicate (sl - length (sf_statics s)) 0)"
    using f(2) m(1) lay0(3) unfolding out_def rebuild_def Let_def b0_def [symmetric] nt cut by simp
qed


section \<open>The wire form of snapshots and deltas\<close>

definition prefix_wire :: "bytes \<Rightarrow> bytes \<Rightarrow> nat \<Rightarrow> nat \<Rightarrow> bytes" where
  "prefix_wire img installation inst heap_length =
     head 4 7 @ head 0 1 @ head 0 1 @ string_wire 2 img @ string_wire 2 installation @ head 0 inst @ head 2 heap_length"

definition snapshot_wire :: "bytes \<Rightarrow> bytes \<Rightarrow> nat \<Rightarrow> bytes \<Rightarrow> bytes \<Rightarrow> bytes" where
  "snapshot_wire img installation inst heap statics =
     prefix_wire img installation inst (length heap) @ heap @ head 2 (length statics) @ statics"

definition delta_wire :: "nat \<Rightarrow> bytes \<Rightarrow> bytes \<Rightarrow> bytes" where
  "delta_wire inst heap_patch static_patch =
     head 4 4 @ head 0 1 @ head 0 inst @ string_wire 2 heap_patch @ string_wire 2 static_patch"

lemma length_prefix_wire:
  assumes "length img = 32" and "length installation = 16"
  shows "length (prefix_wire img installation inst n) = 54 + argument_size inst + argument_size n"
  using assms by (simp add: prefix_wire_def string_wire_def length_head) (simp add: argument_size_def)

lemma argument_size_le: "argument_size n \<le> 9"
  by (simp add: argument_size_def)

definition located :: "bytes \<Rightarrow> bytes \<Rightarrow> nat \<Rightarrow> bytes \<Rightarrow> bytes \<Rightarrow> snapshot_fields" where
  "located img installation inst heap statics =
     (let heap_at = length (prefix_wire img installation inst (length heap)) in
      \<lparr>sf_image = img, sf_installation = installation, sf_instance = inst, sf_heap_at = heap_at, sf_heap = heap,
       sf_static_at = heap_at + length heap + argument_size (length statics), sf_statics = statics\<rparr>)"

lemma read_snapshot_iff:
  "read_snapshot maximum snapshot = Ok s \<longleftrightarrow>
    (\<exists>img installation inst heap statics. length img = 32 \<and> length installation = 16 \<and> argument_dom inst
      \<and> string_dom maximum heap \<and> string_dom maximum statics
      \<and> snapshot = snapshot_wire img installation inst heap statics \<and> s = located img installation inst heap statics)"
proof
  assume "read_snapshot maximum snapshot = Ok s"
  then obtain r where "read_snapshot_dec maximum snapshot snapshot = (Ok s, r)"
    unfolding read_snapshot_def by (metis prod.collapse)
  then obtain img installation inst heap statics where f: "length img = 32" "length installation = 16" "argument_dom inst"
      "string_dom maximum heap" "string_dom maximum statics"
    and w: "snapshot = head 4 7 @ head 0 1 @ head 0 1 @ string_wire 2 img @ string_wire 2 installation @ head 0 inst
        @ string_wire 2 heap @ string_wire 2 statics"
    and s: "s = \<lparr>sf_image = img, sf_installation = installation, sf_instance = inst,
          sf_heap_at = length snapshot - length (string_wire 2 statics) - length heap, sf_heap = heap,
          sf_static_at = length snapshot - length statics, sf_statics = statics\<rparr>"
    unfolding read_snapshot_dec_def field_at_def
    by (auto simp: sbind_eq_Ok dec_record_iff c_unsigned.dec_iff dec_fixed_iff c_bytes.dec_iff dec_finish_def split: if_splits)
  have "snapshot = snapshot_wire img installation inst heap statics"
    by (simp add: w snapshot_wire_def prefix_wire_def string_wire_def)
  moreover have "s = located img installation inst heap statics"
    by (simp add: s w located_def Let_def prefix_wire_def string_wire_def length_head)
  ultimately show "\<exists>img installation inst heap statics. length img = 32 \<and> length installation = 16 \<and> argument_dom inst
      \<and> string_dom maximum heap \<and> string_dom maximum statics
      \<and> snapshot = snapshot_wire img installation inst heap statics \<and> s = located img installation inst heap statics"
    using f by blast
next
  assume "\<exists>img installation inst heap statics. length img = 32 \<and> length installation = 16 \<and> argument_dom inst
      \<and> string_dom maximum heap \<and> string_dom maximum statics
      \<and> snapshot = snapshot_wire img installation inst heap statics \<and> s = located img installation inst heap statics"
  then obtain img installation inst heap statics where f: "length img = 32" "length installation = 16" "argument_dom inst"
      "string_dom maximum heap" "string_dom maximum statics"
    and s: "s = located img installation inst heap statics"
    and w: "snapshot = head 4 7 @ head 0 1 @ head 0 1 @ string_wire 2 img @ string_wire 2 installation @ head 0 inst
        @ string_wire 2 heap @ string_wire 2 statics @ []"
    by (auto simp: snapshot_wire_def prefix_wire_def string_wire_def)
  have one: "argument_dom 1" "(32::nat) \<le> usize_max" "(16::nat) \<le> usize_max"
    by (simp_all add: argument_dom_def u64_max_def usize_max_def)
  have fixed: "dec_fixed 32 (string_wire 2 img @ x) = (Ok img, x)" "dec_fixed 16 (string_wire 2 installation @ y) = (Ok installation, y)" for x y
    using f one by (simp_all add: dec_fixed_iff)
  have "read_snapshot_dec maximum snapshot (head 4 7 @ head 0 1 @ head 0 1 @ string_wire 2 img @ string_wire 2 installation @ head 0 inst
        @ string_wire 2 heap @ string_wire 2 statics @ []) =
      (Ok \<lparr>sf_image = img, sf_installation = installation, sf_instance = inst,
          sf_heap_at = length snapshot - length (string_wire 2 statics) - length heap, sf_heap = heap,
          sf_static_at = length snapshot - length statics, sf_statics = statics\<rparr>, [])"
    using f one unfolding read_snapshot_dec_def
    by (simp add: dec_record_wire fixed c_unsigned.dec_sbind_wire c_bytes.dec_sbind_wire dec_finish_def field_at_def del: append_Nil2)
  then show "read_snapshot maximum snapshot = Ok s"
    unfolding read_snapshot_def by (simp add: w [symmetric] s)
      (simp add: located_def Let_def w prefix_wire_def string_wire_def length_head)
qed

lemma read_delta_iff:
  assumes "argument_dom inst"
  shows "read_delta maximum inst delta = Ok (hp, sp) \<longleftrightarrow>
    string_dom maximum hp \<and> string_dom maximum sp \<and> delta = delta_wire inst hp sp"
proof
  assume "read_delta maximum inst delta = Ok (hp, sp)"
  then obtain r where "read_delta_dec maximum inst delta = (Ok (hp, sp), r)"
    unfolding read_delta_def by (metis prod.collapse)
  then show "string_dom maximum hp \<and> string_dom maximum sp \<and> delta = delta_wire inst hp sp"
    unfolding read_delta_dec_def
    by (auto simp: sbind_eq_Ok dec_record_iff c_unsigned.dec_iff c_bytes.dec_iff dec_finish_def delta_wire_def split: if_splits)
next
  assume *: "string_dom maximum hp \<and> string_dom maximum sp \<and> delta = delta_wire inst hp sp"
  have "argument_dom 1"
    by (simp add: argument_dom_def u64_max_def)
  moreover have "delta = head 4 4 @ head 0 1 @ head 0 inst @ string_wire 2 hp @ string_wire 2 sp @ []"
    using * by (simp add: delta_wire_def)
  ultimately show "read_delta maximum inst delta = Ok (hp, sp)"
    using * assms
    by (simp add: read_delta_def read_delta_dec_def dec_record_wire c_unsigned.dec_sbind_wire c_bytes.dec_sbind_wire dec_finish_def del: append_Nil2)
qed

text \<open>The two headers the replay writes are writers of the encoder's contract, run on an empty buffer.\<close>

lemma writer_header: "writer (head 2) enc_bytes_header"
  unfolding enc_bytes_header_def by (rule writer_argument)

lemma writer_prefix:
  "writer (\<lambda>n. prefix_wire (sf_image s) (sf_installation s) (sf_instance s) n)
    (\<lambda>alloc n. sbind (enc_array alloc 7) (\<lambda>_. sbind (enc_unsigned alloc 1) (\<lambda>_. sbind (enc_unsigned alloc 1) (\<lambda>_.
      sbind (enc_bytes alloc (sf_image s)) (\<lambda>_. sbind (enc_bytes alloc (sf_installation s)) (\<lambda>_.
      sbind (enc_unsigned alloc (sf_instance s)) (\<lambda>_. enc_bytes_header alloc n)))))))"
  unfolding prefix_wire_def
  by (intro writer_seq [where f = "\<lambda>_. 7" and g = "\<lambda>n. n"] writer_seq [where f = "\<lambda>_. 1" and g = "\<lambda>n. n"]
      writer_seq [where f = "\<lambda>_. sf_image s" and g = "\<lambda>n. n"] writer_seq [where f = "\<lambda>_. sf_installation s" and g = "\<lambda>n. n"]
      writer_seq [where f = "\<lambda>_. sf_instance s" and g = "\<lambda>n. n"]
      w_array.writer_axioms w_unsigned.writer_axioms w_bytes.writer_axioms writer_header)

lemma written_alone:
  assumes "writer wire put"
  shows "put alloc x (enc_new maximum) = (Ok u, e) \<Longrightarrow> enc_finish e = wire x"
    and "length (wire x) \<le> maximum \<Longrightarrow> \<exists>e. put (\<lambda>_. True) x (enc_new maximum) = (Ok (), e)"
  using writer.put_ok [OF assms, of alloc x "enc_new maximum" u e] writer.put_total [OF assms, of "enc_new maximum" x]
  by (auto simp: enc_new_def enc_finish_def)

lemma new_prefix_Ok:
  "new_prefix alloc s n = Ok p \<Longrightarrow> p = prefix_wire (sf_image s) (sf_installation s) (sf_instance s) n"
  unfolding new_prefix_def using written_alone(1) [OF writer_prefix] by (auto split: prod.splits result.splits)

lemma new_prefix_total:
  assumes "length (sf_image s) = 32" and "length (sf_installation s) = 16"
  shows "new_prefix (\<lambda>_. True) s n = Ok (prefix_wire (sf_image s) (sf_installation s) (sf_instance s) n)"
proof -
  have "length (prefix_wire (sf_image s) (sf_installation s) (sf_instance s) n) \<le> 96"
    using length_prefix_wire [OF assms, of "sf_instance s" n] argument_size_le [of n] argument_size_le [of "sf_instance s"] by simp
  from written_alone(2) [OF writer_prefix, OF this] obtain p where "new_prefix (\<lambda>_. True) s n = Ok p"
    unfolding new_prefix_def by auto
  then show ?thesis
    using new_prefix_Ok by metis
qed

lemma new_static_header_Ok: "new_static_header alloc n = Ok h \<Longrightarrow> h = head 2 n"
  unfolding new_static_header_def using written_alone(1) [OF writer_header] by (auto split: prod.splits result.splits)

lemma new_static_header_total: "new_static_header (\<lambda>_. True) n = Ok (head 2 n)"
proof -
  have "length (head 2 n) \<le> 9"
    by (simp add: length_head argument_size_le)
  from written_alone(2) [OF writer_header, OF this] obtain h where "new_static_header (\<lambda>_. True) n = Ok h"
    unfolding new_static_header_def by auto
  then show ?thesis
    using new_static_header_Ok by metis
qed

lemma snapshot_size_iff:
  "snapshot_size inst heap statics = Ok n \<longleftrightarrow>
    n = 54 + argument_size inst + argument_size heap + heap + argument_size statics + statics \<and> n \<le> usize_max"
  by (auto simp: snapshot_size_def rbind_eq_Ok)

section \<open>Replay is exact and atomic\<close>

lemma length_patched: "patch_ok g b n spans \<Longrightarrow> length (patched n spans state) = n"
  unfolding patched_def patch_ok_def by (intro length_put_spans) auto

text \<open>Applying a record to one field of a buffer known piece by piece.\<close>

lemma apply_at_piece:
  assumes "patch_ok g b n spans" and "length f = n" and "length p = a"
  shows "apply_at (patch_wire g b n spans) a n (p @ f @ rest) = (Ok (), p @ put_spans spans f @ rest)"
proof -
  have "length (put_spans spans f) = n"
    using assms by (intro length_put_spans) (auto simp: patch_ok_def)
  then show ?thesis
    using assms apply_spans_wire [OF assms(1,2)] by (simp add: apply_at_def slice_of_def overwrite_def)
qed

text \<open>Everything after the checks: the moves, the headers and both records.\<close>

lemma replay_writes:
  assumes hp: "patch_ok g (length heap) hl hs" and sp: "patch_ok g (length statics) sl ss"
    and new_total: "new_total = length prefix + hl + length hdr + sl"
    and s: "s = located img installation inst heap statics"
    and buf: "buf = snapshot_wire img installation inst heap statics"
  defines "sa \<equiv> length prefix + hl + length hdr"
  shows "sbind (smodify (rebuild s prefix hdr hl sl new_total)) (\<lambda>_.
     sbind (apply_at (patch_wire g (length heap) hl hs) (length prefix) hl) (\<lambda>_.
     sbind (apply_at (patch_wire g (length statics) sl ss) sa sl) (\<lambda>_.
     smodify (\<lambda>b. if new_total < length buf then take new_total b else b)))) buf
    = (Ok (), prefix @ patched hl hs heap @ hdr @ patched sl ss statics)"
proof -
  define H where "H = take hl heap @ replicate (hl - length heap) (0::byte)"
  define S where "S = take sl statics @ replicate (sl - length statics) (0::byte)"
  have len: "length H = hl" "length S = sl"
    by (simp_all add: H_def S_def)
  define out where "out = rebuild s prefix hdr hl sl new_total buf"
  have layout: "sf_heap_at s + length (sf_heap s) \<le> sf_static_at s" "sf_static_at s + length (sf_statics s) = length buf"
      "slice_of buf (sf_heap_at s) (sf_heap_at s + length (sf_heap s)) = sf_heap s"
      "slice_of buf (sf_static_at s) (sf_static_at s + length (sf_statics s)) = sf_statics s"
    by (simp_all add: s buf located_def Let_def snapshot_wire_def length_head slice_of_def)
  note r = rebuild_layout [OF layout new_total, folded out_def]
  have fields: "sf_heap s = heap" "sf_statics s = statics"
    by (simp_all add: s located_def Let_def)
  obtain rest where out: "out = prefix @ H @ hdr @ S @ rest" and rest: "length buf \<le> new_total \<Longrightarrow> rest = []"
  proof
    have "take new_total out = prefix @ H @ hdr @ S"
      using r(2) by (simp add: slice_of_def fields H_def S_def)
    then show "out = prefix @ H @ hdr @ S @ drop new_total out"
      by (metis append.assoc append_take_drop_id)
    show "drop new_total out = []" if "length buf \<le> new_total"
      using that r(1) by simp
  qed
  have 1: "apply_at (patch_wire g (length heap) hl hs) (length prefix) hl out = (Ok (), prefix @ patched hl hs heap @ hdr @ S @ rest)"
    using apply_at_piece [OF hp len(1) refl, of prefix "hdr @ S @ rest"] by (simp add: out patched_def H_def)
  have "apply_at (patch_wire g (length statics) sl ss) sa sl ((prefix @ patched hl hs heap @ hdr) @ S @ rest)
      = (Ok (), (prefix @ patched hl hs heap @ hdr) @ patched sl ss statics @ rest)"
    using apply_at_piece [OF sp len(2), of "prefix @ patched hl hs heap @ hdr" sa rest] length_patched [OF hp]
    by (simp add: sa_def patched_def S_def)
  then have 2: "apply_at (patch_wire g (length statics) sl ss) sa sl (prefix @ patched hl hs heap @ hdr @ S @ rest)
      = (Ok (), prefix @ patched hl hs heap @ hdr @ patched sl ss statics @ rest)"
    by simp
  have 3: "(if new_total < length buf then take new_total b else b) = prefix @ patched hl hs heap @ hdr @ patched sl ss statics"
    if "b = prefix @ patched hl hs heap @ hdr @ patched sl ss statics @ rest" for b
    using that rest length_patched [OF hp] length_patched [OF sp] new_total by auto
  show ?thesis
    using 1 2 3 [OF refl] by (simp add: out_def smodify_def sbind_def)
qed

lemma located_simps [simp]:
  "sf_image (located i n inst h st) = i" "sf_installation (located i n inst h st) = n" "sf_instance (located i n inst h st) = inst"
  "sf_heap (located i n inst h st) = h" "sf_statics (located i n inst h st) = st"
  by (simp_all add: located_def Let_def)

text \<open>
  What a replay is asked to do: the fields of the old snapshot, and for the heap and the static
  fields their new length and the spans to write.
\<close>

record replay_job =
  rj_image :: bytes
  rj_installation :: bytes
  rj_instance :: nat
  rj_heap :: bytes
  rj_statics :: bytes
  rj_heap_length :: nat
  rj_heap_spans :: "(nat \<times> bytes) list"
  rj_static_length :: nat
  rj_static_spans :: "(nat \<times> bytes) list"

definition before_wire :: "replay_job \<Rightarrow> bytes" where
  "before_wire j = snapshot_wire (rj_image j) (rj_installation j) (rj_instance j) (rj_heap j) (rj_statics j)"

definition after_wire :: "replay_job \<Rightarrow> bytes" where
  "after_wire j = snapshot_wire (rj_image j) (rj_installation j) (rj_instance j)
     (patched (rj_heap_length j) (rj_heap_spans j) (rj_heap j)) (patched (rj_static_length j) (rj_static_spans j) (rj_statics j))"

definition heap_record :: "nat \<Rightarrow> replay_job \<Rightarrow> bytes" where
  "heap_record generation j = patch_wire generation (length (rj_heap j)) (rj_heap_length j) (rj_heap_spans j)"

definition static_record :: "nat \<Rightarrow> replay_job \<Rightarrow> bytes" where
  "static_record generation j = patch_wire generation (length (rj_statics j)) (rj_static_length j) (rj_static_spans j)"

definition job_delta :: "nat \<Rightarrow> replay_job \<Rightarrow> bytes" where
  "job_delta generation j = delta_wire (rj_instance j) (heap_record generation j) (static_record generation j)"

definition job_ok :: "nat \<Rightarrow> nat \<Rightarrow> replay_job \<Rightarrow> bool" where
  "job_ok generation maximum j \<longleftrightarrow> length (rj_image j) = 32 \<and> length (rj_installation j) = 16 \<and> argument_dom (rj_instance j)
     \<and> string_dom maximum (rj_heap j) \<and> string_dom maximum (rj_statics j)
     \<and> string_dom maximum (heap_record generation j) \<and> string_dom maximum (static_record generation j)
     \<and> patch_ok generation (length (rj_heap j)) (rj_heap_length j) (rj_heap_spans j)
     \<and> patch_ok generation (length (rj_statics j)) (rj_static_length j) (rj_static_spans j)
     \<and> length (after_wire j) \<le> min maximum usize_max"

lemma length_after_wire:
  assumes "length (rj_image j) = 32" "length (rj_installation j) = 16"
    and "patch_ok g b (rj_heap_length j) (rj_heap_spans j)" "patch_ok g c (rj_static_length j) (rj_static_spans j)"
  shows "length (after_wire j) = 54 + argument_size (rj_instance j) + argument_size (rj_heap_length j) + rj_heap_length j
    + argument_size (rj_static_length j) + rj_static_length j"
  using assms by (simp add: after_wire_def snapshot_wire_def length_prefix_wire length_patched length_head)

lemma job_lengths_le: "job_ok generation maximum j \<Longrightarrow> rj_heap_length j \<le> maximum \<and> rj_static_length j \<le> maximum"
  unfolding job_ok_def using length_after_wire by fastforce

text \<open>A replay that does not fail did a job, whatever the allocator answered on the way.\<close>

lemma replay_Ok_job:
  assumes "replay_snapshot alloc generation delta maximum snapshot = (Ok u, out)"
  shows "\<exists>j. job_ok generation maximum j \<and> snapshot = before_wire j \<and> delta = job_delta generation j \<and> out = after_wire j"
proof -
  obtain s hp sp hl sl new_total prefix hdr where
    s: "read_snapshot maximum snapshot = Ok s" and d: "read_delta maximum (sf_instance s) delta = Ok (hp, sp)"
    and v: "validate_patch hp generation (length (sf_heap s)) maximum = Ok hl" "validate_patch sp generation (length (sf_statics s)) maximum = Ok sl"
    and t: "snapshot_size (sf_instance s) hl sl = Ok new_total" "new_total \<le> maximum"
    and h: "new_prefix alloc s hl = Ok prefix" "new_static_header alloc sl = Ok hdr"
    and w: "sbind (smodify (rebuild s prefix hdr hl sl new_total)) (\<lambda>_. sbind (apply_at hp (length prefix) hl) (\<lambda>_.
        sbind (apply_at sp (length prefix + hl + length hdr) sl) (\<lambda>_.
        smodify (\<lambda>buf. if new_total < length snapshot then take new_total buf else buf)))) snapshot = (Ok u, out)"
    using assms unfolding replay_snapshot_def Let_def
    by (auto simp: sbind_eq_Ok simp del: sbind_simps split: if_splits)
  from s obtain img installation inst heap statics where f: "length img = 32" "length installation = 16" "argument_dom inst"
      "string_dom maximum heap" "string_dom maximum statics"
    and snap: "snapshot = snapshot_wire img installation inst heap statics" and loc: "s = located img installation inst heap statics"
    unfolding read_snapshot_iff by blast
  from v obtain hs ss where p: "hp = patch_wire generation (length heap) hl hs" "patch_ok generation (length heap) hl hs"
      "sp = patch_wire generation (length statics) sl ss" "patch_ok generation (length statics) sl ss"
    unfolding validate_patch_iff loc located_simps by blast
  define j where "j = \<lparr>rj_image = img, rj_installation = installation, rj_instance = inst, rj_heap = heap, rj_statics = statics,
      rj_heap_length = hl, rj_heap_spans = hs, rj_static_length = sl, rj_static_spans = ss\<rparr>"
  have pre: "prefix = prefix_wire img installation inst hl" and hdr: "hdr = head 2 sl"
    using new_prefix_Ok [OF h(1)] new_static_header_Ok [OF h(2)] by (simp_all add: loc)
  have tot: "new_total = length prefix + hl + length hdr + sl" and lim: "new_total \<le> usize_max"
    using t(1) f by (simp_all add: snapshot_size_iff loc pre hdr length_prefix_wire length_head)
  have out: "out = after_wire j"
    using w replay_writes [OF p(2,4) tot loc snap] length_patched [OF p(2)] length_patched [OF p(4)]
    by (simp add: p(1,3) pre hdr after_wire_def j_def snapshot_wire_def)
  have "delta = job_delta generation j \<and> string_dom maximum hp \<and> string_dom maximum sp"
    using d f(3) by (simp add: loc read_delta_iff job_delta_def heap_record_def static_record_def j_def p)
  moreover have "length (after_wire j) = new_total"
    using length_after_wire [of j] f p tot by (simp add: j_def pre hdr length_prefix_wire length_head)
  ultimately have "job_ok generation maximum j"
    using f p t(2) lim by (simp add: job_ok_def heap_record_def static_record_def j_def)
  moreover have "snapshot = before_wire j"
    by (simp add: snap before_wire_def j_def)
  ultimately show ?thesis
    using out \<open>delta = job_delta generation j \<and> _\<close> by blast
qed

lemma replay_checked:
  assumes "read_snapshot maximum snapshot = Ok s" "read_delta maximum (sf_instance s) delta = Ok (hp, sp)"
    and "validate_patch hp generation (length (sf_heap s)) maximum = Ok hl" "validate_patch sp generation (length (sf_statics s)) maximum = Ok sl"
    and "snapshot_size (sf_instance s) hl sl = Ok new_total" "new_total \<le> maximum"
    and "new_prefix (\<lambda>_. True) s hl = Ok prefix" "new_static_header (\<lambda>_. True) sl = Ok hdr"
    and "new_total = length prefix + hl + length hdr + sl" "new_total \<le> usize_max"
  shows "replay_snapshot (\<lambda>_. True) generation delta maximum snapshot =
    sbind (smodify (rebuild s prefix hdr hl sl new_total)) (\<lambda>_. sbind (apply_at hp (length prefix) hl) (\<lambda>_.
        sbind (apply_at sp (length prefix + hl + length hdr) sl) (\<lambda>_.
        smodify (\<lambda>buf. if new_total < length snapshot then take new_total buf else buf)))) snapshot"
proof -
  have "try_reserve (\<lambda>_. True) n = Ok ()" for n
    by simp
  then show ?thesis
    using assms(1-8,10) unfolding assms(9) replay_snapshot_def Let_def by simp
qed

lemma replay_job_runs:
  assumes "job_ok generation maximum j"
  shows "replay_snapshot (\<lambda>_. True) generation (job_delta generation j) maximum (before_wire j) = (Ok (), after_wire j)"
proof -
  let ?s = "located (rj_image j) (rj_installation j) (rj_instance j) (rj_heap j) (rj_statics j)"
  let ?hl = "rj_heap_length j" and ?sl = "rj_static_length j"
  let ?p = "prefix_wire (rj_image j) (rj_installation j) (rj_instance j) ?hl"
  have f: "length (rj_image j) = 32" "length (rj_installation j) = 16" "argument_dom (rj_instance j)"
      "string_dom maximum (rj_heap j)" "string_dom maximum (rj_statics j)"
    and d: "string_dom maximum (heap_record generation j)" "string_dom maximum (static_record generation j)"
    and ok: "patch_ok generation (length (rj_heap j)) ?hl (rj_heap_spans j)" "patch_ok generation (length (rj_statics j)) ?sl (rj_static_spans j)"
    and lim: "length (after_wire j) \<le> maximum" "length (after_wire j) \<le> usize_max"
    using assms by (auto simp: job_ok_def)
  note len = length_after_wire [OF f(1,2) ok]
  have s: "read_snapshot maximum (before_wire j) = Ok ?s"
    unfolding read_snapshot_iff before_wire_def using f by blast
  have r: "read_delta maximum (sf_instance ?s) (job_delta generation j) = Ok (heap_record generation j, static_record generation j)"
    using f(3) d by (simp add: read_delta_iff job_delta_def)
  have v: "validate_patch (heap_record generation j) generation (length (sf_heap ?s)) maximum = Ok ?hl"
      "validate_patch (static_record generation j) generation (length (sf_statics ?s)) maximum = Ok ?sl"
    unfolding located_simps validate_patch_iff heap_record_def static_record_def using ok job_lengths_le [OF assms] by blast+
  have t: "snapshot_size (sf_instance ?s) ?hl ?sl = Ok (length (after_wire j))"
    using lim(2) len by (simp add: snapshot_size_iff)
  have tot: "length (after_wire j) = length ?p + ?hl + length (head 2 ?sl) + ?sl"
    using len f by (simp add: length_prefix_wire length_head)
  have p: "new_prefix (\<lambda>_. True) ?s ?hl = Ok ?p"
    using new_prefix_total [of ?s ?hl] f by simp
  have out: "after_wire j = ?p @ patched ?hl (rj_heap_spans j) (rj_heap j) @ head 2 ?sl @ patched ?sl (rj_static_spans j) (rj_statics j)"
    using length_patched [OF ok(1)] length_patched [OF ok(2)] by (simp add: after_wire_def snapshot_wire_def)
  note w = replay_writes [OF ok tot refl before_wire_def, folded heap_record_def static_record_def out]
  show ?thesis
    by (rule trans [OF replay_checked [OF s r v t lim(1) p new_static_header_total tot lim(2)] w])
qed

text \<open>All the checks come first: a replay that fails has not touched the snapshot.\<close>

lemma replay_Err_keeps:
  assumes "replay_snapshot alloc generation delta maximum snapshot = (Err c, out)"
  shows "out = snapshot"
proof (rule ccontr)
  assume changed: "out \<noteq> snapshot"
  obtain s hp sp hl sl new_total prefix hdr where
    s: "read_snapshot maximum snapshot = Ok s" and d: "read_delta maximum (sf_instance s) delta = Ok (hp, sp)"
    and v: "validate_patch hp generation (length (sf_heap s)) maximum = Ok hl" "validate_patch sp generation (length (sf_statics s)) maximum = Ok sl"
    and t: "snapshot_size (sf_instance s) hl sl = Ok new_total" "checked_add (length prefix + hl + length hdr) sl = Some new_total"
    and w: "sbind (smodify (rebuild s prefix hdr hl sl new_total)) (\<lambda>_. sbind (apply_at hp (length prefix) hl) (\<lambda>_.
        sbind (apply_at sp (length prefix + hl + length hdr) sl) (\<lambda>_.
        smodify (\<lambda>buf. if new_total < length snapshot then take new_total buf else buf)))) snapshot = (Err c, out)"
    using assms changed unfolding replay_snapshot_def Let_def
    by (auto simp: sbind_eq simp del: sbind_simps split: if_splits)
  from s obtain img installation inst heap statics where
    snap: "snapshot = snapshot_wire img installation inst heap statics" and loc: "s = located img installation inst heap statics"
    unfolding read_snapshot_iff by blast
  from v obtain hs ss where p: "hp = patch_wire generation (length heap) hl hs" "patch_ok generation (length heap) hl hs"
      "sp = patch_wire generation (length statics) sl ss" "patch_ok generation (length statics) sl ss"
    unfolding validate_patch_iff loc located_simps by blast
  have tot: "new_total = length prefix + hl + length hdr + sl"
    using t(2) by (simp add: checked_add_def split: if_splits)
  show False
    using w replay_writes [OF p(2,4) tot loc snap] by (simp add: p(1,3))
qed

section \<open>Writing a record\<close>

text \<open>A slice encoder that has written \<open>p\<close> and has room for the rest.\<close>

definition room :: "bytes \<Rightarrow> nat \<Rightarrow> slice_encoder \<Rightarrow> bool" where
  "room p n e \<longleftrightarrow> sat e = length p \<and> take (length p) (sout e) = p \<and> length (sout e) = length p + n \<and> length p + n \<le> usize_max"

lemma senc_append_room:
  assumes "room p n e" and "length bs \<le> n"
  shows "\<exists>e'. senc_append bs e = (Ok (), e') \<and> room (p @ bs) (n - length bs) e'"
proof -
  have "sat e + length bs \<le> usize_max" "sat e + length bs \<le> length (sout e)"
    using assms by (simp_all add: room_def)
  then show ?thesis
    using assms by (auto simp: senc_append_def checked_add_def room_def overwrite_def)
qed

lemma senc_bytes_with_room:
  assumes "room p n e" and "argument_size (length bs) + length bs \<le> n" and "fill = (\<lambda>_. (Ok (), bs))"
  shows "\<exists>e'. senc_bytes_with (length bs) fill e = (Ok (), e') \<and> room (p @ string_wire 2 bs) (n - length (string_wire 2 bs)) e'"
proof -
  have fits: "checked_add (sat e) (argument_size (length bs)) = Some (sat e + argument_size (length bs))"
      "checked_add (sat e + argument_size (length bs)) (length bs) = Some (sat e + argument_size (length bs) + length bs)"
      "sat e + argument_size (length bs) + length bs \<le> length (sout e)"
    using assms(1,2) by (simp_all add: room_def checked_add_def)
  obtain e' where e': "senc_append (head 2 (length bs)) e = (Ok (), e')" "room (p @ head 2 (length bs)) (n - argument_size (length bs)) e'"
    using senc_append_room [OF assms(1), of "head 2 (length bs)"] assms(2) by (auto simp: length_head)
  then show ?thesis
    using fits(3) assms(2,3)
    by (simp add: senc_bytes_with_def fits(1,2) Let_def senc_argument_def room_def overwrite_def string_wire_def length_head)
qed

lemma senc_step:
  assumes "room p n e" and "length (head m v) \<le> n"
    and "\<And>e'. room (p @ head m v) (n - length (head m v)) e' \<Longrightarrow> Q (f () e')"
  shows "Q (sbind (senc_argument m v) f e)"
  using senc_append_room [OF assms(1,2)] assms(3) by (auto simp: senc_argument_def)

lemma senc_bytes_step:
  assumes "room p n e" and "length (string_wire 2 bs) \<le> n" and "fill = (\<lambda>_. (Ok (), bs))" and "length bs = k"
    and "\<And>e'. room (p @ string_wire 2 bs) (n - length (string_wire 2 bs)) e' \<Longrightarrow> Q (f () e')"
  shows "Q (sbind (senc_bytes_with k fill) f e)"
proof -
  have "argument_size (length bs) + length bs \<le> n"
    using assms(2) by (simp add: string_wire_def length_head)
  from senc_bytes_with_room [OF assms(1) this assms(3)] show ?thesis
    using assms(5) unfolding assms(4) [symmetric] by auto
qed

text \<open>The spans of a list of ranges, with their contents taken from the new state.\<close>

definition spans_of :: "bytes \<Rightarrow> (nat \<times> nat) list \<Rightarrow> (nat \<times> bytes) list" where
  "spans_of state changes = map (\<lambda>(a, b). (a, slice_of state a b)) changes"

definition contents_of :: "bytes \<Rightarrow> range_contents" where
  "contents_of state = (\<lambda>(a, b) field. (Ok (), slice_of state a b))"

lemma range_sizes_Ok:
  "range_sizes (length state) previous_end changes acc = Ok n \<Longrightarrow>
    spans_ok (length state) previous_end (spans_of state changes)
    \<and> n = acc + length (concat (map span_wire (spans_of state changes))) \<and> n \<le> max acc usize_max
    \<and> (\<forall>(a, b) \<in> set changes. a < b \<and> b \<le> length state)"
proof (induction changes arbitrary: previous_end acc)
  case (Cons ab rest)
  obtain a b where ab: "ab = (a, b)" by (cases ab)
  from Cons.prems have r: "previous_end \<le> a" "a < b" "b \<le> length state"
    and s: "range_sizes (length state) b rest (acc + argument_size 2 + argument_size a + argument_size (b - a) + (b - a)) = Ok n"
    and m: "acc + argument_size 2 + argument_size a + argument_size (b - a) + (b - a) \<le> usize_max"
    by (auto simp: ab rbind_eq_Ok split: if_splits)
  have len: "length (slice_of state a b) = b - a"
    using r by (simp add: slice_of_def)
  then have "slice_of state a b \<noteq> []"
    using r by (metis list.size(3) zero_less_diff less_irrefl)
  then show ?case
    using Cons.IH [OF s] r m len by (auto simp: ab spans_of_def span_wire_def string_wire_def length_head)
qed (simp add: spans_of_def)

lemma write_ranges_room:
  assumes "\<forall>(a, b) \<in> set changes. a < b \<and> b \<le> length state"
    and "room p n e" and "length (concat (map span_wire (spans_of state changes))) \<le> n"
  shows "\<exists>e'. write_ranges (contents_of state) changes e = (Ok (), e')
    \<and> room (p @ concat (map span_wire (spans_of state changes))) (n - length (concat (map span_wire (spans_of state changes)))) e'"
  using assms
proof (induction changes arbitrary: p n e)
  case (Cons ab rest)
  obtain a b where ab: "ab = (a, b)" by (cases ab)
  let ?bs = "slice_of state a b" and ?rest = "concat (map span_wire (spans_of state rest))"
  have len: "length ?bs = b - a"
    using Cons.prems(1) by (auto simp: ab slice_of_def)
  have split: "concat (map span_wire (spans_of state (ab # rest))) = head 4 2 @ head 0 a @ string_wire 2 ?bs @ ?rest"
    by (simp add: ab spans_of_def span_wire_def)
  note fit = Cons.prems(3) [unfolded split]
  have ok: "\<forall>(a, b) \<in> set rest. a < b \<and> b \<le> length state"
    using Cons.prems(1) by simp
  show ?case
    unfolding ab write_ranges.simps senc_array_def senc_unsigned_def
  proof (rule senc_step [OF Cons.prems(2)])
    show "length (head 4 2) \<le> n" using fit by simp
  next
    fix e1 assume e1: "room (p @ head 4 2) (n - length (head 4 2)) e1"
    show "\<exists>e'. sbind (senc_argument 0 a) (\<lambda>_. sbind (senc_bytes_with (b - a) (contents_of state (a, b))) (\<lambda>_. write_ranges (contents_of state) rest)) e1 = (Ok (), e')
        \<and> room (p @ concat (map span_wire (spans_of state ((a, b) # rest)))) (n - length (concat (map span_wire (spans_of state ((a, b) # rest))))) e'"
    proof (rule senc_step [OF e1])
      show "length (head 0 a) \<le> n - length (head 4 2)" using fit by simp
    next
      fix e2 assume e2: "room ((p @ head 4 2) @ head 0 a) (n - length (head 4 2) - length (head 0 a)) e2"
      show "\<exists>e'. sbind (senc_bytes_with (b - a) (contents_of state (a, b))) (\<lambda>_. write_ranges (contents_of state) rest) e2 = (Ok (), e')
          \<and> room (p @ concat (map span_wire (spans_of state ((a, b) # rest)))) (n - length (concat (map span_wire (spans_of state ((a, b) # rest))))) e'"
      proof (rule senc_bytes_step [OF e2 _ _ len])
        show "length (string_wire 2 ?bs) \<le> n - length (head 4 2) - length (head 0 a)" using fit by simp
        show "contents_of state (a, b) = (\<lambda>_. (Ok (), ?bs))" by (simp add: contents_of_def)
      next
        fix e3 assume e3: "room (((p @ head 4 2) @ head 0 a) @ string_wire 2 ?bs)
          (n - length (head 4 2) - length (head 0 a) - length (string_wire 2 ?bs)) e3"
        show "\<exists>e'. write_ranges (contents_of state) rest e3 = (Ok (), e')
          \<and> room (p @ concat (map span_wire (spans_of state ((a, b) # rest)))) (n - length (concat (map span_wire (spans_of state ((a, b) # rest))))) e'"
          using Cons.IH [OF ok e3] fit by (simp add: split [unfolded ab] diff_diff_add add.assoc)
      qed
    qed
  qed
qed (simp add: spans_of_def)

lemma write_ranges_finish:
  assumes "\<forall>(a, b) \<in> set changes. a < b \<and> b \<le> length state" and "room p n e"
    and "n = length (concat (map span_wire (spans_of state changes)))"
  shows "\<exists>e'. sbind (write_ranges (contents_of state) changes) (\<lambda>_. sget senc_finish) e = (Ok (), e')
    \<and> sout e' = p @ concat (map span_wire (spans_of state changes))"
  using write_ranges_room [OF assms(1,2)] assms(3) by (auto simp: room_def senc_finish_def)

lemma write_record_wire:
  assumes "record_size changes before (length state) generation = Ok n" and "length output = n" and "n \<le> usize_max"
  shows "write_record output changes before (length state) generation (contents_of state)
      = (Ok (), patch_wire generation before (length state) (spans_of state changes))"
    and "spans_ok (length state) 0 (spans_of state changes)" and "length changes \<le> MAX_SPANS"
proof -
  let ?w = "concat (map span_wire (spans_of state changes))"
  let ?h = "head 4 5 @ head 0 1 @ head 0 generation @ head 0 before @ head 0 (length state) @ head 4 (length changes)"
  have c: "length changes \<le> MAX_SPANS"
    and r: "range_sizes (length state) 0 changes (length ?h) = Ok n"
    using assms(1) by (auto simp: record_size_def length_head add.assoc split: if_splits)
  note ok = range_sizes_Ok [OF r]
  show "spans_ok (length state) 0 (spans_of state changes)" "length changes \<le> MAX_SPANS"
    using ok c by simp_all
  have n: "n = length (head 4 5) + length (head 0 1) + length (head 0 generation) + length (head 0 before)
      + length (head 0 (length state)) + length (head 4 (length changes)) + length ?w"
    using ok by simp
  have ranges: "\<forall>(a, b) \<in> set changes. a < b \<and> b \<le> length state"
    using ok by simp
  have start: "room [] n (senc_new output)"
    using assms(2,3) by (simp add: room_def senc_new_def)
  have "\<exists>e. sbind (senc_array 5) (\<lambda>_. sbind (senc_unsigned 1) (\<lambda>_. sbind (senc_unsigned generation) (\<lambda>_.
      sbind (senc_unsigned before) (\<lambda>_. sbind (senc_unsigned (length state)) (\<lambda>_. sbind (senc_array (length changes)) (\<lambda>_.
      sbind (write_ranges (contents_of state) changes) (\<lambda>_. sget senc_finish))))))) (senc_new output) = (Ok (), e)
      \<and> sout e = ?h @ ?w"
    unfolding senc_array_def senc_unsigned_def
    apply (rule senc_step [OF start], simp add: n)
    apply (erule senc_step, simp add: n)
    apply (erule senc_step, simp add: n)
    apply (erule senc_step, simp add: n)
    apply (erule senc_step, simp add: n)
    apply (erule senc_step, simp add: n)
    apply (drule write_ranges_finish [OF ranges]; simp add: n sget_def)
    done
  then show "write_record output changes before (length state) generation (contents_of state)
      = (Ok (), patch_wire generation before (length state) (spans_of state changes))"
    by (auto simp: write_record_def patch_wire_def spans_of_def)
qed

lemma write_record_size:
  "record_size changes before (length state) generation = Ok n \<Longrightarrow>
    length (patch_wire generation before (length state) (spans_of state changes)) = n"
  by (auto simp: record_size_def patch_wire_def length_head split: if_splits dest!: range_sizes_Ok) (simp add: spans_of_def)

text \<open>The spans put back the bytes of the ranges.\<close>

lemma find_span_before:
  "spans_ok n q spans \<Longrightarrow> i < q \<Longrightarrow> find (\<lambda>(a, bs). a \<le> i \<and> i < a + length bs) spans = None"
  by (induction n q spans rule: spans_ok.induct) auto

lemma nth_put_spans:
  assumes "spans_ok n p spans" and "length s = n" and "i < n"
  shows "put_spans spans s ! i = (case find (\<lambda>(a, bs). a \<le> i \<and> i < a + length bs) spans of Some (a, bs) \<Rightarrow> bs ! (i - a) | None \<Rightarrow> s ! i)"
  using assms
proof (induction spans arbitrary: p s)
  case (Cons sp rest)
  obtain a bs where sp: "sp = (a, bs)" by (cases sp)
  show ?case
    using Cons.IH [of "a + length bs" "overwrite s a bs"] Cons.prems find_span_before [of n "a + length bs" rest i]
    by (auto simp: sp nth_overwrite split: option.splits)
qed simp

text \<open>The ranges cover every byte that does not already have its new value after the cut or zero fill.\<close>

definition covers :: "(nat \<times> nat) list \<Rightarrow> bytes \<Rightarrow> bytes \<Rightarrow> bool" where
  "covers changes old new \<longleftrightarrow> (\<forall>i < length new. new ! i = (if i < length old then old ! i else 0)
     \<or> (\<exists>(a, b) \<in> set changes. a \<le> i \<and> i < b))"

lemma patched_covers:
  assumes ok: "spans_ok (length new) 0 (spans_of new changes)" and "covers changes old new"
  shows "patched (length new) (spans_of new changes) old = new"
proof (rule nth_equalityI)
  let ?s = "take (length new) old @ replicate (length new - length old) 0"
  have len: "length ?s = length new" by simp
  show "length (patched (length new) (spans_of new changes) old) = length new"
    unfolding patched_def by (rule length_put_spans [OF ok len])
  fix i assume "i < length (patched (length new) (spans_of new changes) old)"
  then have i: "i < length new"
    by (simp add: patched_def length_put_spans [OF ok len])
  have s: "?s ! i = (if i < length old then old ! i else 0)"
    using i by (simp add: nth_append)
  have inside: "(a, bs) \<in> set (spans_of new changes) \<Longrightarrow> bs = slice_of new a (a + length bs) \<and> a + length bs \<le> length new" for a bs
    using ok
  proof -
    assume in_set: "(a, bs) \<in> set (spans_of new changes)"
    have "a + length bs \<le> length new" if "spans_ok (length new) p spans" "(a, bs) \<in> set spans" for p spans
      using that by (induction "length new" p spans rule: spans_ok.induct) auto
    then have fit: "a + length bs \<le> length new" using ok in_set by blast
    moreover obtain b where "bs = slice_of new a b" using in_set by (auto simp: spans_of_def)
    ultimately show ?thesis by (auto simp: slice_of_def min_def)
  qed
  show "patched (length new) (spans_of new changes) old ! i = new ! i"
  proof (cases "find (\<lambda>(a, bs). a \<le> i \<and> i < a + length bs) (spans_of new changes)")
    case None
    then have "\<not> (\<exists>(a, b) \<in> set changes. a \<le> i \<and> i < b)"
      using i by (auto simp: find_None_iff spans_of_def slice_of_def)
    then show ?thesis
      using None assms(2) i s nth_put_spans [OF ok len i] by (auto simp: patched_def covers_def)
  next
    case (Some ab)
    then obtain a bs where ab: "ab = (a, bs)" "(a, bs) \<in> set (spans_of new changes)" "a \<le> i" "i < a + length bs"
      by (auto simp: find_Some_iff) (metis nth_mem)
    have "bs ! (i - a) = new ! i"
      using inside [OF ab(2)] ab(3,4) by (metis (no_types) add_diff_cancel_left' le_add_diff_inverse nth_slice_of nat_add_left_cancel_less)
    then show ?thesis
      using Some ab nth_put_spans [OF ok len i] by (simp add: patched_def)
  qed
qed

section \<open>Properties\<close>

text \<open>
  C23 (replay_snapshot_exact). Replaying a delta into a snapshot buffer succeeds exactly when the
  buffer is the canonical encoding of a snapshot, the delta is the canonical encoding of two
  records made for this base generation and these base lengths, with ordered, non-empty,
  non-overlapping spans inside the new lengths, and the new snapshot fits the maximum. The buffer
  then holds exactly the canonical encoding of the new snapshot: each field cut or zero-extended to
  its new length, with the spans written, whatever direction the fields had to move in. A replay
  that fails, for whatever reason and also for lack of memory, leaves the buffer as it was.
\<close>

theorem replay_snapshot_exact:
  "(replay_snapshot (\<lambda>_. True) generation delta maximum snapshot = (Ok (), out) \<longleftrightarrow>
     (\<exists>j. job_ok generation maximum j \<and> snapshot = before_wire j \<and> delta = job_delta generation j \<and> out = after_wire j))
   \<and> (\<forall>alloc c out. replay_snapshot alloc generation delta maximum snapshot = (Err c, out) \<longrightarrow> out = snapshot)"
  using replay_Ok_job replay_job_runs replay_Err_keeps by blast

definition sample_job :: replay_job where
  "sample_job = \<lparr>rj_image = replicate 32 2, rj_installation = replicate 16 3, rj_instance = 4, rj_heap = [1, 2, 3],
     rj_statics = [5, 6], rj_heap_length = 5, rj_heap_spans = [(0, [9]), (3, [8, 7])], rj_static_length = 1,
     rj_static_spans = [(0, [7])]\<rparr>"

lemma sample_job_ok: "job_ok 11 256 sample_job"
  by (simp add: job_ok_def sample_job_def argument_dom_def u64_max_def string_dom_def length_dom_def usize_max_def
      heap_record_def static_record_def patch_wire_def span_wire_def string_wire_def length_head patch_ok_def MAX_SPANS_def
      after_wire_def snapshot_wire_def prefix_wire_def patched_def overwrite_def argument_size_def)

lemma sample_job_result:
  "after_wire sample_job = snapshot_wire (replicate 32 2) (replicate 16 3) 4 [9, 2, 3, 8, 7] [7]"
  by (simp add: after_wire_def sample_job_def patched_def overwrite_def)

theorem replay_snapshot_exact_witness:
  "replay_snapshot (\<lambda>_. True) 11 (job_delta 11 sample_job) 256 (before_wire sample_job)
     = (Ok (), snapshot_wire (replicate 32 2) (replicate 16 3) 4 [9, 2, 3, 8, 7] [7])"
  using conjunct1 [OF replay_snapshot_exact, THEN iffD2, OF exI [of _ sample_job], of 11 256 "before_wire sample_job" "job_delta 11 sample_job" "after_wire sample_job"]
    sample_job_ok sample_job_result by simp

text \<open>
  C24 (patch_record_roundtrip). For ranges that cover every changed byte, the record written into a
  buffer of the computed size is accepted by the validation for the base it was made from, and
  applying it to the old state, cut or zero-extended to the new length, gives the new state.
\<close>

theorem patch_record_roundtrip:
  assumes "record_size changes (length old) (length new) generation = Ok n" and "length output = n" and "n \<le> usize_max"
    and "generation \<le> u64_max" and "length old \<le> usize_max" and "length new \<le> capacity" and "length new \<le> usize_max"
    and "covers changes old new"
  shows "\<exists>record. write_record output changes (length old) (length new) generation (contents_of new) = (Ok (), record)
    \<and> length record = n
    \<and> validate_patch record generation (length old) capacity = Ok (length new)
    \<and> apply_spans record (take (length new) old @ replicate (length new - length old) 0) = (Ok (), new)"
proof -
  note w = write_record_wire [OF assms(1-3)]
  have ok: "patch_ok generation (length old) (length new) (spans_of new changes)"
    using assms w(2,3) by (simp add: patch_ok_def spans_of_def)
  show ?thesis
    using w(1) write_record_size [OF assms(1)] apply_spans_wire [OF ok, of "take (length new) old @ replicate (length new - length old) 0"]
      patched_covers [OF w(2) assms(8)] ok assms(6)
    by (auto simp: validate_patch_iff patched_def)
qed

theorem patch_record_roundtrip_witness:
  "\<exists>record. write_record (replicate 15 0) [(1, 3), (5, 6)] (length [1, 2, 3, 4, 5, 6 :: byte]) (length [1, 9, 8, 4, 5, 7 :: byte]) 7
      (contents_of [1, 9, 8, 4, 5, 7]) = (Ok (), record)
    \<and> length record = 15
    \<and> validate_patch record 7 (length [1, 2, 3, 4, 5, 6 :: byte]) 6 = Ok (length [1, 9, 8, 4, 5, 7 :: byte])
    \<and> apply_spans record (take (length [1, 9, 8, 4, 5, 7 :: byte]) [1, 2, 3, 4, 5, 6] @ replicate (6 - 6) 0) = (Ok (), [1, 9, 8, 4, 5, 7])"
proof -
  have r: "record_size [(1, 3), (5, 6)] (length [1, 2, 3, 4, 5, 6 :: byte]) (length [1, 9, 8, 4, 5, 7 :: byte]) 7 = Ok 15"
    by (simp add: record_size_def MAX_SPANS_def argument_size_def checked_add_def usize_max_def ok_or_def)
  have c: "covers [(1, 3), (5, 6)] [1, 2, 3, 4, 5, 6] [1, 9, 8, 4, 5, 7 :: byte]"
    by (auto simp: covers_def nth_Cons split: nat.splits)
  show ?thesis
    using patch_record_roundtrip [OF r, of "replicate 15 0" 6] c by (simp add: usize_max_def u64_max_def)
qed
end
