(* ===== verification/Cap.thy ===== *)
theory Cap
  imports Engine_Error
begin

text \<open>
  The CAP container (\<open>src/crates/microcard-engine-jcvm/src/cap.rs\<close> and \<open>cap/\<close>): the Load File Data
  Block and the readers of its components. Borrowed slices are the byte lists they denote. Where
  the source builds an iterator that reads while it is consumed, the model has the list of its
  items; an iterator that would panic on a malformed table has an option.
\<close>

section \<open>Components\<close>

datatype cap_tag = Tag_Header | Tag_Directory | Tag_Applet | Tag_Import | Tag_ConstantPool | Tag_Class
  | Tag_Method | Tag_StaticField | Tag_RefLocation | Tag_Export | Tag_Descriptor | Tag_Debug

fun tag_number :: "cap_tag \<Rightarrow> nat" where
  "tag_number Tag_Header = 1"
| "tag_number Tag_Directory = 2"
| "tag_number Tag_Applet = 3"
| "tag_number Tag_Import = 4"
| "tag_number Tag_ConstantPool = 5"
| "tag_number Tag_Class = 6"
| "tag_number Tag_Method = 7"
| "tag_number Tag_StaticField = 8"
| "tag_number Tag_RefLocation = 9"
| "tag_number Tag_Export = 10"
| "tag_number Tag_Descriptor = 11"
| "tag_number Tag_Debug = 12"

definition tag_from_byte :: "byte \<Rightarrow> cap_tag jres" where
  "tag_from_byte v =
     (if v = 1 then Ok Tag_Header else if v = 2 then Ok Tag_Directory else if v = 3 then Ok Tag_Applet
      else if v = 4 then Ok Tag_Import else if v = 5 then Ok Tag_ConstantPool else if v = 6 then Ok Tag_Class
      else if v = 7 then Ok Tag_Method else if v = 8 then Ok Tag_StaticField else if v = 9 then Ok Tag_RefLocation
      else if v = 10 then Ok Tag_Export else if v = 11 then Ok Tag_Descriptor else if v = 12 then Ok Tag_Debug
      else Err JFormat)"

definition in_load_file :: "cap_tag \<Rightarrow> bool" where
  "in_load_file t \<longleftrightarrow> t \<noteq> Tag_Descriptor \<and> t \<noteq> Tag_Debug"

record cap_component =
  cc_tag :: cap_tag
  cc_info :: bytes

text \<open>\<open>split_at_checked\<close>.\<close>

definition split_at_checked :: "bytes \<Rightarrow> nat \<Rightarrow> (bytes \<times> bytes) option" where
  "split_at_checked bs n = (if n \<le> length bs then Some (take n bs, drop n bs) else None)"

definition component_split :: "bytes \<Rightarrow> (cap_component \<times> bytes) jres" where
  "component_split bs =
     rbind (ok_or (split_at_checked bs 3) JBounds) (\<lambda>(hd, rest).
     let n = unat (be16 (hd ! 1) (hd ! 2)) in
     rbind (ok_or (split_at_checked rest n) JBounds) (\<lambda>(data, rest).
     rbind (tag_from_byte (hd ! 0)) (\<lambda>t.
     Ok (\<lparr>cc_tag = t, cc_info = data\<rparr>, rest))))"

definition declared_size :: "cap_component \<Rightarrow> nat" where
  "declared_size c = length (cc_info c)"

lemma split_at_checked_eq [simp]:
  "split_at_checked bs n = Some (a, b) \<longleftrightarrow> n \<le> length bs \<and> a = take n bs \<and> b = drop n bs"
  by (auto simp: split_at_checked_def)

section \<open>Header\<close>

definition CAP_MAGIC :: bytes where "CAP_MAGIC = [0xde, 0xca, 0xff, 0xed]"

abbreviation (input) ACC_INT :: byte where "ACC_INT \<equiv> 0x01"
abbreviation (input) ACC_EXPORT :: byte where "ACC_EXPORT \<equiv> 0x02"
abbreviation (input) ACC_APPLET :: byte where "ACC_APPLET \<equiv> 0x04"
abbreviation (input) ACC_EXTENDED_PACKAGE :: byte where "ACC_EXTENDED_PACKAGE \<equiv> 0x08"

record cap_header =
  ch_major :: byte
  ch_minor :: byte
  ch_flags :: byte
  ch_package_major :: byte
  ch_package_minor :: byte
  ch_aid :: bytes

definition header_parse :: "bytes \<Rightarrow> cap_header jres" where
  "header_parse data =
     (if length data < 10 then Err JBounds
      else if take 4 data \<noteq> CAP_MAGIC then Err JFormat
      else
        let n = unat (data ! 9) in
        if \<not> (5 \<le> n \<and> n \<le> 16) \<or> length data \<noteq> 10 + n then Err JFormat
        else Ok \<lparr>ch_major = data ! 5, ch_minor = data ! 4, ch_flags = data ! 6, ch_package_major = data ! 8,
                 ch_package_minor = data ! 7, ch_aid = drop 10 data\<rparr>)"

definition header_int :: "cap_header \<Rightarrow> bool" where
  "header_int h \<longleftrightarrow> ch_flags h AND ACC_INT \<noteq> 0"

definition header_supported :: "cap_header \<Rightarrow> unit jres" where
  "header_supported h =
     (if \<not> (ch_major h = 2 \<and> ch_minor h = 1) then Err JUnsupported
      else if ch_flags h AND ACC_APPLET = 0 then Err JUnsupported
      else if ch_flags h AND (ACC_EXPORT OR ACC_EXTENDED_PACKAGE) \<noteq> 0 then Err JUnsupported
      else Ok ())"

section \<open>Directory\<close>

abbreviation (input) SIZED_COMPONENTS :: nat where "SIZED_COMPONENTS \<equiv> 11"

record cap_directory =
  cd_sizes :: bytes
  cd_image_size :: u16
  cd_array_init_count :: u16
  cd_array_init_size :: u16
  cd_import_count :: byte
  cd_applet_count :: byte
  cd_custom_count :: byte

definition directory_parse :: "bytes \<Rightarrow> cap_directory jres" where
  "directory_parse data =
     (let fixed = SIZED_COMPONENTS * 2; word = (\<lambda>at. be16 (data ! at) (data ! (at + 1))) in
      if length data < fixed + 9 then Err JBounds
      else
        let d = \<lparr>cd_sizes = take fixed data, cd_image_size = word fixed, cd_array_init_count = word (fixed + 2),
                 cd_array_init_size = word (fixed + 4), cd_import_count = data ! (fixed + 6),
                 cd_applet_count = data ! (fixed + 7), cd_custom_count = data ! (fixed + 8)\<rparr> in
        if cd_custom_count d \<noteq> 0 then Err JUnsupported
        else if length data \<noteq> fixed + 9 then Err JFormat
        else Ok d)"

definition directory_size :: "cap_directory \<Rightarrow> cap_tag \<Rightarrow> nat" where
  "directory_size d t =
     (let index = tag_number t - 1 in
      if index \<ge> SIZED_COMPONENTS then 0
      else unat (be16 (cd_sizes d ! (index * 2)) (cd_sizes d ! (index * 2 + 1))))"

section \<open>Tables of records with their own lengths\<close>

text \<open>
  Import and applet tables are walked record by record, once to check and again to read. The
  reader of one record returns it with the remaining bytes.
\<close>

fun walk_records :: "(bytes \<Rightarrow> ('a \<times> bytes) jres) \<Rightarrow> nat \<Rightarrow> bytes \<Rightarrow> bytes jres" where
  "walk_records read 0 rest = Ok rest"
| "walk_records read (Suc n) rest = rbind (read rest) (\<lambda>(_, rest). walk_records read n rest)"

fun iter_records :: "(bytes \<Rightarrow> ('a \<times> bytes) jres) \<Rightarrow> nat \<Rightarrow> bytes \<Rightarrow> 'a list option" where
  "iter_records read 0 rest = Some []"
| "iter_records read (Suc n) rest =
     (case read rest of Err _ \<Rightarrow> None | Ok (x, rest) \<Rightarrow> map_option ((#) x) (iter_records read n rest))"

section \<open>Imports\<close>

record package_ref =
  pr_major :: byte
  pr_minor :: byte
  pr_aid :: bytes

definition satisfied_by :: "package_ref \<Rightarrow> byte \<Rightarrow> byte \<Rightarrow> bool" where
  "satisfied_by p major minor \<longleftrightarrow> major = pr_major p \<and> minor \<ge> pr_minor p"

record cap_table =
  ct_count :: nat
  ct_entries :: bytes

definition read_package :: "bytes \<Rightarrow> (package_ref \<times> bytes) jres" where
  "read_package bs =
     rbind (ok_or (split_at_checked bs 3) JBounds) (\<lambda>(hd, rest).
     let n = unat (hd ! 2) in
     if \<not> (5 \<le> n \<and> n \<le> 16) then Err JFormat
     else rbind (ok_or (split_at_checked rest n) JBounds) (\<lambda>(aid, rest).
       Ok (\<lparr>pr_major = hd ! 1, pr_minor = hd ! 0, pr_aid = aid\<rparr>, rest)))"

definition import_parse :: "bytes \<Rightarrow> cap_table jres" where
  "import_parse data =
     (case data of [] \<Rightarrow> Err JBounds
      | count # rest \<Rightarrow>
          rbind (walk_records read_package (unat count) rest) (\<lambda>left.
          if left \<noteq> [] then Err JFormat else Ok \<lparr>ct_count = unat count, ct_entries = rest\<rparr>))"

definition import_iter :: "cap_table \<Rightarrow> package_ref list option" where
  "import_iter t = iter_records read_package (ct_count t) (ct_entries t)"

text \<open>\<open>expect\<close> in the iterator: a table that \<open>parse\<close> has not accepted would panic, here \<open>None\<close>.\<close>

definition import_get :: "cap_table \<Rightarrow> byte \<Rightarrow> package_ref jres option" where
  "import_get t index = map_option (\<lambda>ps. ok_or (get_at ps (unat index)) JBounds) (import_iter t)"

section \<open>Applets\<close>

record applet_ref =
  ar_aid :: bytes
  ar_install :: u16

definition read_applet :: "bytes \<Rightarrow> (applet_ref \<times> bytes) jres" where
  "read_applet bs =
     (case bs of [] \<Rightarrow> Err JBounds
      | n # rest \<Rightarrow>
          if \<not> (5 \<le> n \<and> n \<le> 16) then Err JFormat
          else rbind (ok_or (split_at_checked rest (unat n)) JBounds) (\<lambda>(aid, rest).
            rbind (ok_or (split_at_checked rest 2) JBounds) (\<lambda>(offset, rest).
            Ok (\<lparr>ar_aid = aid, ar_install = be16 (offset ! 0) (offset ! 1)\<rparr>, rest))))"

definition applet_parse :: "bytes \<Rightarrow> cap_table jres" where
  "applet_parse data =
     (case data of [] \<Rightarrow> Err JBounds
      | count # rest \<Rightarrow>
          if count = 0 then Err JFormat
          else rbind (walk_records read_applet (unat count) rest) (\<lambda>left.
            if left \<noteq> [] then Err JFormat else Ok \<lparr>ct_count = unat count, ct_entries = rest\<rparr>))"

definition applet_iter :: "cap_table \<Rightarrow> applet_ref list option" where
  "applet_iter t = iter_records read_applet (ct_count t) (ct_entries t)"

definition applet_find :: "cap_table \<Rightarrow> bytes \<Rightarrow> applet_ref option option" where
  "applet_find t aid = map_option (find (\<lambda>a. ar_aid a = aid)) (applet_iter t)"

section \<open>Constant pool\<close>

abbreviation (input) CONSTANT_CLASSREF :: byte where "CONSTANT_CLASSREF \<equiv> 1"
abbreviation (input) CONSTANT_INSTANCE_FIELDREF :: byte where "CONSTANT_INSTANCE_FIELDREF \<equiv> 2"
abbreviation (input) CONSTANT_VIRTUAL_METHODREF :: byte where "CONSTANT_VIRTUAL_METHODREF \<equiv> 3"
abbreviation (input) CONSTANT_SUPER_METHODREF :: byte where "CONSTANT_SUPER_METHODREF \<equiv> 4"
abbreviation (input) CONSTANT_STATIC_FIELDREF :: byte where "CONSTANT_STATIC_FIELDREF \<equiv> 5"
abbreviation (input) CONSTANT_STATIC_METHODREF :: byte where "CONSTANT_STATIC_METHODREF \<equiv> 6"

record cap_entry =
  ce_tag :: byte
  ce_info :: "byte \<times> byte \<times> byte"

definition entry_high :: "cap_entry \<Rightarrow> u16" where
  "entry_high e = (case ce_info e of (a, b, _) \<Rightarrow> be16 a b)"

definition internal_static_method :: "cap_entry \<Rightarrow> u16 option" where
  "internal_static_method e = (case ce_info e of (a, b, c) \<Rightarrow>
     if ce_tag e \<noteq> CONSTANT_STATIC_METHODREF \<or> a AND 0x80 \<noteq> 0 then None else Some (be16 b c))"

definition internal_class :: "cap_entry \<Rightarrow> u16 option" where
  "internal_class e =
     (if ce_tag e \<noteq> CONSTANT_CLASSREF then None
      else let v = entry_high e in if v AND 0x8000 = 0 then Some v else None)"

record constant_pool =
  cp_entries :: bytes
  cp_count :: u16

definition entry_of :: "bytes \<Rightarrow> cap_entry" where
  "entry_of bs = \<lparr>ce_tag = bs ! 0, ce_info = (bs ! 1, bs ! 2, bs ! 3)\<rparr>"

fun chunks_exact :: "nat \<Rightarrow> 'a list \<Rightarrow> nat \<Rightarrow> 'a list list" where
  "chunks_exact n bs 0 = []"
| "chunks_exact n bs (Suc k) = take n bs # chunks_exact n (drop n bs) k"

definition constants_parse :: "bytes \<Rightarrow> constant_pool jres" where
  "constants_parse data =
     rbind (ok_or (get_range data 0 2) JBounds) (\<lambda>hd.
     let count = be16 (hd ! 0) (hd ! 1) in
     rbind (ok_or (get_range data 2 (length data)) JBounds) (\<lambda>entries.
     if length entries \<noteq> unat count * 4 then Err JFormat
     else if list_all (\<lambda>e. CONSTANT_CLASSREF \<le> e ! 0 \<and> e ! 0 \<le> CONSTANT_STATIC_METHODREF) (chunks_exact 4 entries (length entries div 4))
     then Ok \<lparr>cp_entries = entries, cp_count = count\<rparr>
     else Err JFormat))"

definition constants_get :: "constant_pool \<Rightarrow> u16 \<Rightarrow> cap_entry jres" where
  "constants_get p index =
     (let at = unat index * 4 in
      rbind (ok_or (get_range (cp_entries p) at (at + 4)) JBounds) (\<lambda>bs. Ok (entry_of bs)))"

definition constants_iter :: "constant_pool \<Rightarrow> cap_entry list" where
  "constants_iter p = map entry_of (chunks_exact 4 (cp_entries p) (length (cp_entries p) div 4))"

section \<open>Classes\<close>

abbreviation (input) ACC_INTERFACE :: byte where "ACC_INTERFACE \<equiv> 0x8"
abbreviation (input) ACC_REMOTE :: byte where "ACC_REMOTE \<equiv> 0x2"

datatype class_ref = Internal u16 | External byte byte | No_Class

definition class_ref_decode :: "u16 \<Rightarrow> class_ref" where
  "class_ref_decode v =
     (if v = 0xffff then No_Class
      else if v AND 0x8000 \<noteq> 0 then External (ucast (drop_bit 8 v) AND 0x7f) (ucast v)
      else Internal v)"

record class_info =
  ci_offset :: u16
  ci_flags :: byte
  ci_super :: class_ref
  ci_declared :: byte
  ci_first_reference :: byte
  ci_reference_count :: byte
  ci_public_base :: byte
  ci_package_base :: byte
  ci_public :: bytes
  ci_package :: bytes
  ci_interfaces :: bytes
  ci_interface_count :: nat
  ci_length :: nat

text \<open>
  The iterator over implemented interfaces: a record that does not fit is skipped and the rest of
  the table stays where it is.
\<close>

fun interface_records :: "nat \<Rightarrow> bytes \<Rightarrow> (class_ref \<times> bytes) list" where
  "interface_records 0 rest = []"
| "interface_records (Suc n) rest =
     (case get_range rest 0 3 of None \<Rightarrow> interface_records n rest
      | Some h \<Rightarrow>
          let count = unat (h ! 2) in
          (case get_range rest 3 (3 + count) of None \<Rightarrow> interface_records n rest
           | Some tokens \<Rightarrow>
               (class_ref_decode (be16 (h ! 0) (h ! 1)), tokens) # interface_records n (drop (3 + count) rest)))"

definition class_interfaces :: "class_info \<Rightarrow> (class_ref \<times> bytes) list" where
  "class_interfaces c = interface_records (ci_interface_count c) (ci_interfaces c)"

definition is_interface :: "class_info \<Rightarrow> bool" where
  "is_interface c \<longleftrightarrow> ci_flags c AND ACC_INTERFACE \<noteq> 0"

definition method_table :: "bytes \<Rightarrow> u16 list" where
  "method_table table =
     filter (\<lambda>offset. offset \<noteq> 0xffff) (map (\<lambda>e. be16 (e ! 0) (e ! 1)) (chunks_exact 2 table (length table div 2)))"

definition class_method_offsets :: "class_info \<Rightarrow> u16 list" where
  "class_method_offsets c = method_table (ci_public c) @ method_table (ci_package c)"

record class_component =
  kc_info :: bytes
  kc_entries :: nat

fun interfaces_end :: "bytes \<Rightarrow> nat \<Rightarrow> nat \<Rightarrow> nat jres" where
  "interfaces_end data 0 fin = Ok fin"
| "interfaces_end data (Suc n) fin =
     rbind (ok_or (get_at data (fin + 2)) JBounds) (\<lambda>count. interfaces_end data n (fin + (3 + unat count)))"

definition interface_entry :: "bytes \<Rightarrow> nat \<Rightarrow> byte \<Rightarrow> nat \<Rightarrow> class_info jres" where
  "interface_entry data at flags count =
     (let fin = at + 1 + count * 2 in
      rbind (if flags AND ACC_REMOTE \<noteq> 0
             then rbind (ok_or (get_at data fin) JBounds) (\<lambda>n. Ok (fin + (1 + unat n)))
             else Ok fin) (\<lambda>fin.
      if fin > length data then Err JBounds
      else Ok \<lparr>ci_offset = word_of_nat at, ci_flags = flags, ci_super = No_Class, ci_declared = 0,
               ci_first_reference = 0, ci_reference_count = 0, ci_public_base = 0, ci_package_base = 0,
               ci_public = [], ci_package = [], ci_interfaces = [], ci_interface_count = 0, ci_length = fin - at\<rparr>))"

definition class_entry :: "bytes \<Rightarrow> nat \<Rightarrow> class_info jres" where
  "class_entry data at =
     rbind (ok_or (get_at data at) JBounds) (\<lambda>first.
     let flags = drop_bit 4 first; interface_count = unat (first AND 0x0f) in
     if flags AND ACC_INTERFACE \<noteq> 0 then interface_entry data at flags interface_count
     else
       rbind (ok_or (get_range data at (at + 10)) JBounds) (\<lambda>fixed.
       let public_start = at + 10;
           package_start = public_start + unat (fixed ! 7) * 2;
           interfaces_start = package_start + unat (fixed ! 9) * 2 in
       rbind (ok_or (get_range data public_start package_start) JBounds) (\<lambda>public.
       rbind (ok_or (get_range data package_start interfaces_start) JBounds) (\<lambda>package.
       rbind (interfaces_end data interface_count interfaces_start) (\<lambda>fin.
       if fin > length data then Err JBounds
       else rbind (ok_or (get_range data interfaces_start fin) JBounds) (\<lambda>interfaces.
         Ok \<lparr>ci_offset = word_of_nat at, ci_flags = flags, ci_super = class_ref_decode (be16 (fixed ! 1) (fixed ! 2)),
             ci_declared = fixed ! 3, ci_first_reference = fixed ! 4, ci_reference_count = fixed ! 5,
             ci_public_base = fixed ! 6, ci_package_base = fixed ! 8, ci_public = public, ci_package = package,
             ci_interfaces = interfaces, ci_interface_count = interface_count, ci_length = fin - at\<rparr>))))))"

lemma interfaces_end_mono: "interfaces_end data n a = Ok b \<Longrightarrow> a \<le> b"
  by (induction n arbitrary: a) (fastforce simp: rbind_eq_Ok)+

lemma class_entry_length:
  assumes "class_entry data at = Ok c"
  shows "0 < ci_length c \<and> at + ci_length c \<le> length data"
  using assms
  by (auto simp: class_entry_def interface_entry_def Let_def rbind_eq_Ok dest: interfaces_end_mono split: if_splits)

text \<open>The walk of \<open>Class::parse\<close> over the entries, and the same walk as an iterator.\<close>

function walk_classes :: "bytes \<Rightarrow> nat \<Rightarrow> class_info list jres" where
  "walk_classes data at =
     (if at < length data then
        rbind (class_entry data at) (\<lambda>c. rbind (walk_classes data (at + ci_length c)) (\<lambda>cs. Ok (c # cs)))
      else Ok [])"
  by pat_completeness auto
termination
  by (relation "measure (\<lambda>(data, at). length data - at)") (auto dest: class_entry_length)

declare walk_classes.simps [simp del]

definition class_parse :: "bytes \<Rightarrow> cap_header \<Rightarrow> class_component jres" where
  "class_parse data h =
     rbind (if ch_major h > 2 \<or> ch_major h = 2 \<and> ch_minor h \<ge> 2
            then rbind (ok_or (get_range data 0 2) JBounds) (\<lambda>bs. Ok (2 + unat (be16 (bs ! 0) (bs ! 1))))
            else Ok 0) (\<lambda>entries.
     if entries > length data then Err JBounds
     else rbind (walk_classes data entries) (\<lambda>_. Ok \<lparr>kc_info = data, kc_entries = entries\<rparr>))"

definition class_at :: "class_component \<Rightarrow> u16 \<Rightarrow> class_info jres" where
  "class_at k offset = (if unat offset < kc_entries k then Err JBounds else class_entry (kc_info k) (unat offset))"

text \<open>\<open>iter\<close> expects every entry to parse again; a failure would panic, here \<open>None\<close>.\<close>

definition class_iter :: "class_component \<Rightarrow> class_info list option" where
  "class_iter k = (case walk_classes (kc_info k) (kc_entries k) of Ok cs \<Rightarrow> Some cs | Err _ \<Rightarrow> None)"

section \<open>Methods\<close>

abbreviation (input) ACC_EXTENDED :: byte where "ACC_EXTENDED \<equiv> 0x8"
abbreviation (input) ACC_ABSTRACT :: byte where "ACC_ABSTRACT \<equiv> 0x4"

record handler =
  hd_start :: u16
  hd_active :: u16
  hd_offset :: u16
  hd_catch :: u16
  hd_stop :: bool

definition handler_covers :: "handler \<Rightarrow> u16 \<Rightarrow> bool" where
  "handler_covers h offset \<longleftrightarrow> offset \<ge> hd_start h \<and> unat offset < unat (hd_start h) + unat (hd_active h)"

record method_header =
  mh_flags :: byte
  mh_max_stack :: byte
  mh_nargs :: byte
  mh_max_locals :: byte
  mh_length :: nat

definition abstract_method :: "method_header \<Rightarrow> bool" where
  "abstract_method h \<longleftrightarrow> mh_flags h AND ACC_ABSTRACT \<noteq> 0"

definition frame_words :: "method_header \<Rightarrow> u16" where
  "frame_words h = ucast (mh_nargs h) + ucast (mh_max_locals h)"

definition method_header_parse :: "bytes \<Rightarrow> nat \<Rightarrow> method_header jres" where
  "method_header_parse code at =
     rbind (ok_or (get_at code at) JBounds) (\<lambda>first.
     let flags = drop_bit 4 first in
     if flags AND NOT (ACC_EXTENDED OR ACC_ABSTRACT) \<noteq> 0 then Err JFormat
     else if flags AND ACC_EXTENDED \<noteq> 0 then
       rbind (ok_or (get_range code at (at + 4)) JBounds) (\<lambda>bs.
       if bs ! 0 AND 0x0f \<noteq> 0 then Err JFormat
       else Ok \<lparr>mh_flags = flags, mh_max_stack = bs ! 1, mh_nargs = bs ! 2, mh_max_locals = bs ! 3, mh_length = 4\<rparr>)
     else
       rbind (ok_or (get_range code at (at + 2)) JBounds) (\<lambda>bs.
       Ok \<lparr>mh_flags = flags, mh_max_stack = bs ! 0 AND 0x0f, mh_nargs = drop_bit 4 (bs ! 1),
           mh_max_locals = bs ! 1 AND 0x0f, mh_length = 2\<rparr>))"

record method_component =
  mc_info :: bytes
  mc_handler_count :: nat

definition handler_at :: "bytes \<Rightarrow> nat \<Rightarrow> handler" where
  "handler_at data index =
     (let at = 1 + index * 8; word = (\<lambda>offset. be16 (data ! (at + offset)) (data ! (at + offset + 1)));
          bitfield = word 2 in
      \<lparr>hd_start = word 0, hd_active = bitfield AND 0x7fff, hd_offset = word 4, hd_catch = word 6,
       hd_stop = (bitfield AND 0x8000 \<noteq> 0)\<rparr>)"

definition method_handlers :: "method_component \<Rightarrow> handler list" where
  "method_handlers m = map (handler_at (mc_info m)) [0..<mc_handler_count m]"

definition methods_start :: "method_component \<Rightarrow> nat" where
  "methods_start m = 1 + mc_handler_count m * 8"

definition methods_parse :: "bytes \<Rightarrow> method_component jres" where
  "methods_parse data =
     (case data of [] \<Rightarrow> Err JBounds
      | handler_count # _ \<Rightarrow>
          let m = \<lparr>mc_info = data, mc_handler_count = unat handler_count\<rparr> in
          if length data < methods_start m then Err JBounds
          else if list_ex (\<lambda>h. unat (hd_start h) + unat (hd_active h) > length data
                                \<or> unat (hd_offset h) \<ge> length data) (method_handlers m)
          then Err JBounds else Ok m)"

definition method_region :: "method_component \<Rightarrow> nat \<Rightarrow> nat \<Rightarrow> (method_header \<times> bytes) jres" where
  "method_region m at fin =
     (if at < methods_start m \<or> fin > length (mc_info m) \<or> at \<ge> fin then Err JBounds
      else rbind (method_header_parse (mc_info m) at) (\<lambda>h.
        rbind (ok_or (get_range (mc_info m) (at + mh_length h) fin) JBounds) (\<lambda>code.
        if abstract_method h \<and> code \<noteq> [] then Err JFormat else Ok (h, code))))"

section \<open>Static fields\<close>

abbreviation (input) TYPE_BOOLEAN :: byte where "TYPE_BOOLEAN \<equiv> 2"
abbreviation (input) TYPE_BYTE :: byte where "TYPE_BYTE \<equiv> 3"
abbreviation (input) TYPE_SHORT :: byte where "TYPE_SHORT \<equiv> 4"
abbreviation (input) TYPE_INT :: byte where "TYPE_INT \<equiv> 5"

record array_init =
  ai_type :: byte
  ai_values :: bytes

definition init_element_size :: "array_init \<Rightarrow> nat" where
  "init_element_size a =
     (if ai_type a = TYPE_BOOLEAN \<or> ai_type a = TYPE_BYTE then 1 else if ai_type a = TYPE_SHORT then 2 else 4)"

definition init_length :: "array_init \<Rightarrow> nat" where
  "init_length a = length (ai_values a) div init_element_size a"

record static_field =
  sf_image_size :: u16
  sf_reference_count :: u16
  sf_array_init_count :: u16
  sf_array_inits :: bytes
  sf_default_count :: u16
  sf_values :: bytes

text \<open>The first walk over the initialisers: where they end.\<close>

fun array_inits_end :: "bytes \<Rightarrow> nat \<Rightarrow> nat \<Rightarrow> nat jres" where
  "array_inits_end data 0 at = Ok at"
| "array_inits_end data (Suc n) at =
     rbind (ok_or (get_range data at (at + 3)) JBounds) (\<lambda>e.
     if \<not> (TYPE_BOOLEAN \<le> e ! 0 \<and> e ! 0 \<le> TYPE_INT) then Err JFormat
     else rbind (ok_or (checked_add at (3 + unat (be16 (e ! 1) (e ! 2)))) JBounds) (\<lambda>at.
       if at > length data then Err JBounds else array_inits_end data n at))"

text \<open>The iterator over them, which stops at the first record that does not fit.\<close>

function array_init_records :: "bytes \<Rightarrow> array_init list" where
  "array_init_records rest =
     (case get_range rest 0 3 of None \<Rightarrow> []
      | Some e \<Rightarrow>
          let count = unat (be16 (e ! 1) (e ! 2)) in
          (case get_range rest 3 (3 + count) of None \<Rightarrow> []
           | Some values \<Rightarrow> \<lparr>ai_type = e ! 0, ai_values = values\<rparr> # array_init_records (drop (3 + count) rest)))"
  by pat_completeness auto
termination
  by (relation "measure length") auto

declare array_init_records.simps [simp del]

definition array_init_ok :: "array_init \<Rightarrow> bool" where
  "array_init_ok a \<longleftrightarrow> \<not> (\<not> init_element_size a dvd length (ai_values a) \<or> init_length a > 32767
     \<or> ai_type a = TYPE_BOOLEAN \<and> list_ex (\<lambda>b. b > 1) (ai_values a))"

definition static_field_parse :: "bytes \<Rightarrow> static_field jres" where
  "static_field_parse data =
     rbind (ok_or (get_range data 0 6) JBounds) (\<lambda>h.
     let array_init_count = be16 (h ! 4) (h ! 5) in
     rbind (array_inits_end data (unat array_init_count) 6) (\<lambda>at.
     let array_inits = slice_of data 6 at in
     rbind (ok_or (get_range data at (at + 4)) JBounds) (\<lambda>t.
     let default_value_count = be16 (t ! 0) (t ! 1); n = unat (be16 (t ! 2) (t ! 3)) in
     rbind (ok_or (get_range data (at + 4) (at + 4 + n)) JBounds) (\<lambda>values.
     if at + 4 + n \<noteq> length data then Err JFormat
     else
       let f = \<lparr>sf_image_size = be16 (h ! 0) (h ! 1), sf_reference_count = be16 (h ! 2) (h ! 3),
                sf_array_init_count = array_init_count, sf_array_inits = array_inits,
                sf_default_count = default_value_count, sf_values = values\<rparr> in
       if unat (sf_reference_count f) * 2 + unat default_value_count + n \<noteq> unat (sf_image_size f)
          \<or> array_init_count > sf_reference_count f then Err JInconsistent
       else if list_all array_init_ok (array_init_records (sf_array_inits f)) then Ok f else Err JFormat))))"

definition static_array_inits :: "static_field \<Rightarrow> array_init list" where
  "static_array_inits f = array_init_records (sf_array_inits f)"

section \<open>Reference locations\<close>

fun jump_distance :: "nat \<Rightarrow> bytes \<Rightarrow> (nat \<times> bytes) option" where
  "jump_distance distance [] = None"
| "jump_distance distance (jump # rest) =
     (if jump \<noteq> 255 then Some (distance + unat jump, rest) else jump_distance (distance + unat jump) rest)"

lemma jump_distance_shorter: "jump_distance d bs = Some (e, rest) \<Longrightarrow> length rest < length bs"
  by (induction d bs rule: jump_distance.induct) (auto split: if_splits)

function jump_offsets :: "nat \<Rightarrow> bytes \<Rightarrow> nat jres list" where
  "jump_offsets at jumps =
     (case jump_distance 0 jumps of None \<Rightarrow> []
      | Some (distance, rest) \<Rightarrow>
          (case checked_add at distance of
             Some v \<Rightarrow> Ok v # jump_offsets v rest
           | None \<Rightarrow> Err JBounds # jump_offsets at rest))"
  by pat_completeness auto
termination
  by (relation "measure (length \<circ> snd)") (auto dest: jump_distance_shorter)

declare jump_offsets.simps [simp del]

definition ref_lists :: "bytes \<Rightarrow> (bytes \<times> bytes) jres" where
  "ref_lists data =
     rbind (ok_or (get_range data 0 2) JBounds) (\<lambda>h.
     rbind (ok_or (checked_add 2 (unat (be16 (h ! 0) (h ! 1)))) JBounds) (\<lambda>one_end.
     rbind (ok_or (get_range data 2 one_end) JBounds) (\<lambda>one_byte.
     rbind (ok_or (get_range data one_end (one_end + 2)) JBounds) (\<lambda>t.
     let two_start = one_end + 2 in
     rbind (ok_or (checked_add two_start (unat (be16 (t ! 0) (t ! 1)))) JBounds) (\<lambda>two_end.
     rbind (ok_or (get_range data two_start two_end) JBounds) (\<lambda>two_byte.
     if two_end \<noteq> length data then Err JFormat else Ok (one_byte, two_byte)))))))"

fun check_offsets :: "nat \<Rightarrow> nat \<Rightarrow> nat option \<Rightarrow> nat jres list \<Rightarrow> unit jres" where
  "check_offsets method_size width previous [] = Ok ()"
| "check_offsets method_size width previous (offset # rest) =
     rbind offset (\<lambda>offset.
     if (case previous of None \<Rightarrow> False | Some p \<Rightarrow> p \<ge> offset) then Err JFormat
     else if (case checked_add offset width of None \<Rightarrow> True | Some fin \<Rightarrow> fin > method_size) then Err JBounds
     else check_offsets method_size width (Some offset) rest)"

definition validate_offsets :: "bytes \<Rightarrow> nat \<Rightarrow> nat \<Rightarrow> unit jres" where
  "validate_offsets jumps method_size width =
     (if jumps \<noteq> [] \<and> List.last jumps = 255 then Err JFormat
      else check_offsets method_size width None (jump_offsets 0 jumps))"

definition ref_location_validate :: "bytes \<Rightarrow> nat \<Rightarrow> unit jres" where
  "ref_location_validate data method_size =
     rbind (ref_lists data) (\<lambda>(one_byte, two_byte).
     rbind (validate_offsets one_byte method_size 1) (\<lambda>_. validate_offsets two_byte method_size 2))"

section \<open>The Load File Data Block\<close>

record load_file =
  lf_header :: "cap_component option"
  lf_directory :: "cap_component option"
  lf_components :: "cap_component option list"

definition empty_file :: load_file where
  "empty_file = \<lparr>lf_header = None, lf_directory = None, lf_components = replicate 12 None\<rparr>"

definition file_component :: "load_file \<Rightarrow> cap_tag \<Rightarrow> cap_component option" where
  "file_component f t = lf_components f ! (tag_number t - 1)"

lemma component_split_shorter:
  "component_split bs = Ok (c, rest) \<Longrightarrow> length rest < length bs"
  by (auto simp: component_split_def Let_def rbind_eq_Ok)

function parse_components :: "cap_tag option \<Rightarrow> bytes \<Rightarrow> cap_component option list \<Rightarrow> cap_component option list jres" where
  "parse_components previous rest components =
     (if rest = [] then Ok components
      else rbind (component_split rest) (\<lambda>(c, rest).
        if \<not> in_load_file (cc_tag c) then Err JFormat
        else if (case previous of None \<Rightarrow> False | Some p \<Rightarrow> tag_number p \<ge> tag_number (cc_tag c)) then Err JFormat
        else parse_components (Some (cc_tag c)) rest (components[tag_number (cc_tag c) - 1 := Some c])))"
  by pat_completeness auto
termination
  by (relation "measure (\<lambda>(_, rest, _). length rest)") (auto dest: component_split_shorter)

declare parse_components.simps [simp del]

definition component_size :: "load_file \<Rightarrow> cap_tag \<Rightarrow> nat" where
  "component_size f t = (case file_component f t of None \<Rightarrow> 0 | Some c \<Rightarrow> declared_size c)"

fun check_sizes :: "load_file \<Rightarrow> cap_directory \<Rightarrow> byte list \<Rightarrow> unit jres" where
  "check_sizes f d [] = Ok ()"
| "check_sizes f d (t # ts) =
     rbind (tag_from_byte t) (\<lambda>t.
     if directory_size d t \<noteq> component_size f t then Err JInconsistent else check_sizes f d ts)"

definition file_directory :: "load_file \<Rightarrow> cap_directory jres" where
  "file_directory f = rbind (ok_or (lf_directory f) JFormat) (\<lambda>c. directory_parse (cc_info c))"

definition load_file_parse :: "bytes \<Rightarrow> load_file jres" where
  "load_file_parse bs =
     rbind (parse_components None bs (lf_components empty_file)) (\<lambda>components.
     let f = \<lparr>lf_header = components ! 0, lf_directory = components ! 1, lf_components = components\<rparr> in
     if lf_header f = None \<or> lf_directory f = None then Err JFormat
     else rbind (file_directory f) (\<lambda>d.
       rbind (check_sizes f d (map word_of_nat [1..<11])) (\<lambda>_.
       case file_component f Tag_Method of
         None \<Rightarrow> Err JFormat
       | Some m \<Rightarrow>
           (case file_component f Tag_RefLocation of
              None \<Rightarrow> Ok f
            | Some r \<Rightarrow>
                rbind (ref_location_validate (cc_info r) (length (cc_info m))) (\<lambda>_.
                Ok (f\<lparr>lf_components := components[tag_number Tag_RefLocation - 1 := None]\<rparr>))))))"

definition file_header :: "load_file \<Rightarrow> cap_header jres" where
  "file_header f = rbind (ok_or (lf_header f) JFormat) (\<lambda>c. header_parse (cc_info c))"

definition file_applets :: "load_file \<Rightarrow> cap_table jres" where
  "file_applets f = rbind (ok_or (file_component f Tag_Applet) JFormat) (\<lambda>c. applet_parse (cc_info c))"

definition file_classes :: "load_file \<Rightarrow> class_component jres" where
  "file_classes f = rbind (ok_or (file_component f Tag_Class) JFormat) (\<lambda>c.
     rbind (file_header f) (class_parse (cc_info c)))"

definition file_static_fields :: "load_file \<Rightarrow> static_field jres" where
  "file_static_fields f = rbind (ok_or (file_component f Tag_StaticField) JFormat) (\<lambda>c. static_field_parse (cc_info c))"

definition file_constants :: "load_file \<Rightarrow> constant_pool jres" where
  "file_constants f = (case file_component f Tag_ConstantPool of
     Some c \<Rightarrow> constants_parse (cc_info c) | None \<Rightarrow> constants_parse [0, 0])"

definition file_methods :: "load_file \<Rightarrow> method_component jres" where
  "file_methods f = rbind (ok_or (file_component f Tag_Method) JFormat) (\<lambda>c. methods_parse (cc_info c))"

definition file_imports :: "load_file \<Rightarrow> cap_table jres" where
  "file_imports f = (case file_component f Tag_Import of
     Some c \<Rightarrow> import_parse (cc_info c) | None \<Rightarrow> import_parse [0])"

end
