(* ===== verification/Cap_Format.thy ===== *)
theory Cap_Format
  imports Cap
begin

text \<open>
  What the CAP readers accept: a Load File Data Block is exactly a sequence of components in
  ascending tag order whose directory agrees with it, and the iterators over checked tables never
  meet a record that does not parse.
\<close>

section \<open>One component\<close>

lemma unat_be16: "unat (be16 a b) = be_value [a, b]"
proof -
  have "be_value [a, b] < 256 ^ length [a, b]"
    by (rule be_value_less)
  then show ?thesis
    by (simp add: be16_def unat_word_of_nat_u16)
qed

definition component_wire :: "cap_component \<Rightarrow> bytes" where
  "component_wire c = word_of_nat (tag_number (cc_tag c)) # be_bytes 2 (length (cc_info c)) @ cc_info c"

lemma tag_from_byte_iff: "tag_from_byte v = Ok t \<longleftrightarrow> v = word_of_nat (tag_number t)"
  by (cases t) (auto simp: tag_from_byte_def)

lemma tag_number_bounds: "1 \<le> tag_number t \<and> tag_number t \<le> 12"
  by (cases t) simp_all

lemma tag_number_inj [simp]: "tag_number s = tag_number t \<longleftrightarrow> s = t"
  by (cases s; cases t) simp_all

lemma be_bytes_2_iff:
  assumes "n < 65536"
  shows "be_bytes 2 n = [a, b] \<longleftrightarrow> n = be_value [a, b]"
proof
  have "n < 256 ^ 2"
    using assms by simp
  then show "be_bytes 2 n = [a, b] \<Longrightarrow> n = be_value [a, b]"
    using be_value_be_bytes by metis
  show "n = be_value [a, b] \<Longrightarrow> be_bytes 2 n = [a, b]"
    using be_bytes_be_value [of "[a, b]"] by (simp add: numeral_2_eq_2)
qed

lemma component_split_iff:
  "component_split bs = Ok (c, rest) \<longleftrightarrow> length (cc_info c) < 65536 \<and> bs = component_wire c @ rest"
proof
  assume "component_split bs = Ok (c, rest)"
  then obtain t where len: "3 \<le> length bs" "be_value [bs ! 1, bs ! 2] \<le> length bs - 3" and t: "tag_from_byte (bs ! 0) = Ok t"
    and c: "c = \<lparr>cc_tag = t, cc_info = take (be_value [bs ! 1, bs ! 2]) (drop 3 bs)\<rparr>"
    and rest: "rest = drop (be_value [bs ! 1, bs ! 2]) (drop 3 bs)"
    by (auto simp: component_split_def Let_def rbind_eq_Ok unat_be16)
  have small: "be_value [bs ! 1, bs ! 2] < 65536"
    using be_value_less [of "[bs ! 1, bs ! 2]"] by simp
  have head: "bs = [bs ! 0, bs ! 1, bs ! 2] @ drop 3 bs"
    using len(1) by (cases bs rule: list.exhaust; simp) (metis One_nat_def Suc_1 Suc_le_length_iff drop0 drop_Suc_Cons nth_Cons_0 nth_Cons_Suc numeral_3_eq_3)
  have "be_bytes 2 (length (cc_info c)) = [bs ! 1, bs ! 2]"
    using small len(2) by (simp add: c be_bytes_2_iff)
  then have "component_wire c @ rest = [bs ! 0, bs ! 1, bs ! 2] @ drop 3 bs"
    using t by (simp add: component_wire_def c rest tag_from_byte_iff del: drop_drop)
  with small len(2) head show "length (cc_info c) < 65536 \<and> bs = component_wire c @ rest"
    by (simp add: c)
next
  assume *: "length (cc_info c) < 65536 \<and> bs = component_wire c @ rest"
  obtain a b where ab: "be_bytes 2 (length (cc_info c)) = [a, b]"
    using length_be_bytes [of 2 "length (cc_info c)"] unfolding numeral_2_eq_2 by (auto simp only: length_Suc_conv length_0_conv)
  have "tag_from_byte (word_of_nat (tag_number (cc_tag c))) = Ok (cc_tag c)"
    by (simp add: tag_from_byte_iff)
  moreover have "length (cc_info c) = be_value [a, b]"
    using * ab by (simp add: be_bytes_2_iff)
  moreover have "bs = word_of_nat (tag_number (cc_tag c)) # a # b # cc_info c @ rest"
    using * ab by (simp add: component_wire_def)
  ultimately show "component_split bs = Ok (c, rest)"
    by (simp add: component_split_def Let_def split_at_checked_def unat_be16 numeral_3_eq_3)
qed

section \<open>The whole block\<close>

text \<open>The table of components after placing each of a list under its tag.\<close>

definition place :: "cap_component list \<Rightarrow> cap_component option list \<Rightarrow> cap_component option list" where
  "place cs table = fold (\<lambda>c table. table[tag_number (cc_tag c) - 1 := Some c]) cs table"

fun ascending :: "nat \<Rightarrow> cap_component list \<Rightarrow> bool" where
  "ascending below [] = True"
| "ascending below (c # cs) \<longleftrightarrow> below < tag_number (cc_tag c) \<and> in_load_file (cc_tag c) \<and> length (cc_info c) < 65536
     \<and> ascending (tag_number (cc_tag c)) cs"

definition below_of :: "cap_tag option \<Rightarrow> nat" where
  "below_of previous = (case previous of None \<Rightarrow> 0 | Some p \<Rightarrow> tag_number p)"

lemma parse_components_iff:
  "parse_components previous bs table = Ok out \<longleftrightarrow>
    (\<exists>cs. ascending (below_of previous) cs \<and> bs = concat (map component_wire cs) \<and> out = place cs table)"
proof (induction previous bs table rule: parse_components.induct)
  case (1 previous bs table)
  have order: "(case previous of None \<Rightarrow> False | Some p \<Rightarrow> tag_number p \<ge> tag_number t) \<longleftrightarrow> \<not> below_of previous < tag_number t" for t
    using tag_number_bounds [of t] by (auto simp: below_of_def split: option.splits)
  show ?case
  proof (cases "bs = []")
    case True
    have "cs = []" if "concat (map component_wire cs) = []" for cs
      using that by (cases cs) (auto simp: component_wire_def)
    then have "(\<exists>cs. ascending (below_of previous) cs \<and> [] = concat (map component_wire cs) \<and> out = place cs table) \<longleftrightarrow> out = table"
      by (intro iffI; (elim exE conjE)?) (fastforce simp: place_def, intro exI [of _ "[]"], simp add: place_def)
    then show ?thesis
      using True by (auto simp: parse_components.simps)
  next
    case False
    have "parse_components previous bs table = Ok out \<longleftrightarrow>
        (\<exists>c rest. component_split bs = Ok (c, rest) \<and> in_load_file (cc_tag c) \<and> below_of previous < tag_number (cc_tag c)
          \<and> parse_components (Some (cc_tag c)) rest (table[tag_number (cc_tag c) - 1 := Some c]) = Ok out)"
      using False by (subst parse_components.simps) (auto simp: rbind_eq_Ok order split: if_splits)
    also have "\<dots> \<longleftrightarrow> (\<exists>c cs. ascending (below_of previous) (c # cs) \<and> bs = concat (map component_wire (c # cs)) \<and> out = place (c # cs) table)"
    proof -
      have "(component_split bs = Ok (c, rest) \<and> in_load_file (cc_tag c) \<and> below_of previous < tag_number (cc_tag c)
            \<and> parse_components (Some (cc_tag c)) rest (table[tag_number (cc_tag c) - 1 := Some c]) = Ok out) \<longleftrightarrow>
          (\<exists>cs. ascending (below_of previous) (c # cs) \<and> bs = component_wire c @ rest \<and> rest = concat (map component_wire cs)
            \<and> out = place (c # cs) table)" for c rest
      proof (cases "component_split bs = Ok (c, rest) \<and> in_load_file (cc_tag c) \<and> below_of previous < tag_number (cc_tag c)")
        case True
        have "parse_components (Some (cc_tag c)) rest (table[tag_number (cc_tag c) - 1 := Some c]) = Ok out \<longleftrightarrow>
            (\<exists>cs. ascending (tag_number (cc_tag c)) cs \<and> rest = concat (map component_wire cs)
              \<and> out = place cs (table[tag_number (cc_tag c) - 1 := Some c]))"
          using 1 [of "(c, rest)" c rest] False True order by (auto simp: below_of_def)
        then show ?thesis
          using True component_split_iff [of bs c rest] by (auto simp: place_def)
      next
        case False
        then show ?thesis
          using component_split_iff [of bs c rest] by auto
      qed
      then show ?thesis by auto
    qed
    also have "\<dots> \<longleftrightarrow> (\<exists>cs. ascending (below_of previous) cs \<and> bs = concat (map component_wire cs) \<and> out = place cs table)"
      using False by (metis concat.simps(1) list.exhaust list.simps(8))
    finally show ?thesis .
  qed
qed

definition part :: "cap_component list \<Rightarrow> cap_tag \<Rightarrow> cap_component option" where
  "part cs t = find (\<lambda>c. cc_tag c = t) cs"

definition part_size :: "cap_component list \<Rightarrow> cap_tag \<Rightarrow> nat" where
  "part_size cs t = (case part cs t of None \<Rightarrow> 0 | Some c \<Rightarrow> length (cc_info c))"

lemma length_place [simp]: "length (place cs table) = length table"
  unfolding place_def by (induction cs arbitrary: table) simp_all

lemma part_below: "ascending n cs \<Longrightarrow> tag_number t \<le> n \<Longrightarrow> part cs t = None"
  by (induction n cs rule: ascending.induct) (auto simp: part_def)

lemma place_lookup:
  assumes "ascending n cs" and "length table = 12"
  shows "place cs table ! (tag_number t - 1) = (case part cs t of None \<Rightarrow> table ! (tag_number t - 1) | Some c \<Rightarrow> Some c)"
  using assms
proof (induction n cs arbitrary: table rule: ascending.induct)
  case (2 n c cs)
  have "tag_number (cc_tag c) - 1 < length table" "tag_number t - 1 < length table"
    using tag_number_bounds [of t] tag_number_bounds [of "cc_tag c"] 2(3) by linarith+
  moreover have "tag_number t - 1 = tag_number (cc_tag c) - 1 \<longleftrightarrow> t = cc_tag c"
    using tag_number_bounds [of t] tag_number_bounds [of "cc_tag c"]
    by (metis add_diff_inverse_nat le_less_trans less_one linorder_not_less tag_number_inj)
  ultimately show ?case
    using 2(1) [of "table[tag_number (cc_tag c) - 1 := Some c]"] 2(2,3) part_below [of "tag_number (cc_tag c)" cs t]
    by (auto simp: place_def part_def nth_list_update split: option.splits)
qed (simp add: place_def part_def)

definition all_tags :: "cap_tag list" where
  "all_tags = [Tag_Header, Tag_Directory, Tag_Applet, Tag_Import, Tag_ConstantPool, Tag_Class, Tag_Method,
     Tag_StaticField, Tag_RefLocation, Tag_Export, Tag_Descriptor, Tag_Debug]"

lemma all_tags_nth: "all_tags ! (tag_number t - 1) = t"
  by (cases t) (simp_all add: all_tags_def)

lemma all_tags_number: "i < 12 \<Longrightarrow> tag_number (all_tags ! i) - 1 = i"
  unfolding all_tags_def by (auto simp: less_Suc_eq numeral_eq_Suc)

lemma place_all:
  assumes "ascending 0 cs"
  shows "place cs (lf_components empty_file) = map (part cs) all_tags"
proof (rule nth_equalityI)
  show "length (place cs (lf_components empty_file)) = length (map (part cs) all_tags)"
    by (simp add: empty_file_def all_tags_def)
  fix i assume "i < length (place cs (lf_components empty_file))"
  then have i: "i < 12" "i < length all_tags" by (simp_all add: empty_file_def all_tags_def)
  have "place cs (lf_components empty_file) ! (tag_number (all_tags ! i) - 1) = part cs (all_tags ! i)"
    using place_lookup [OF assms, of "lf_components empty_file" "all_tags ! i"] i all_tags_number [OF i(1)]
    by (simp add: empty_file_def split: option.splits)
  then show "place cs (lf_components empty_file) ! i = map (part cs) all_tags ! i"
    using i all_tags_number [OF i(1)] by simp
qed

lemma check_sizes_iff:
  "check_sizes f d (map word_of_nat [1..<11]) = Ok () \<longleftrightarrow> (\<forall>t. in_load_file t \<longrightarrow> directory_size d t = component_size f t)"
proof -
  have "check_sizes f d (map (\<lambda>t. word_of_nat (tag_number t)) ts) = Ok () \<longleftrightarrow> (\<forall>t \<in> set ts. directory_size d t = component_size f t)" for ts
    by (induction ts) (auto simp: tag_from_byte_iff [THEN iffD2])
  moreover have "map (word_of_nat :: nat \<Rightarrow> byte) [1..<11] = map (\<lambda>t. word_of_nat (tag_number t)) (take 10 all_tags)"
    by (simp add: all_tags_def upt_conv_Cons)
  moreover have "in_load_file t \<longleftrightarrow> t \<in> set (take 10 all_tags)" for t
    by (cases t) (simp_all add: in_load_file_def all_tags_def)
  ultimately show ?thesis
    by (simp only: Ball_def)
qed

text \<open>The reference locations are validated and dropped.\<close>

definition kept :: "cap_component list \<Rightarrow> cap_tag \<Rightarrow> cap_component option" where
  "kept cs t = (if t = Tag_RefLocation then None else part cs t)"

definition file_of :: "cap_component list \<Rightarrow> load_file" where
  "file_of cs = \<lparr>lf_header = part cs Tag_Header, lf_directory = part cs Tag_Directory, lf_components = map (kept cs) all_tags\<rparr>"

definition references_ok :: "cap_component list \<Rightarrow> bool" where
  "references_ok cs = (case (part cs Tag_RefLocation, part cs Tag_Method) of
     (Some r, Some m) \<Rightarrow> ref_location_validate (cc_info r) (length (cc_info m)) = Ok () | _ \<Rightarrow> True)"

lemma load_file_parse_of:
  assumes "ascending 0 cs" and "bs = concat (map component_wire cs)"
  shows "load_file_parse bs = Ok f \<longleftrightarrow> part cs Tag_Header \<noteq> None \<and> part cs Tag_Method \<noteq> None \<and> references_ok cs \<and> f = file_of cs
    \<and> (\<exists>c d. part cs Tag_Directory = Some c \<and> directory_parse (cc_info c) = Ok d
        \<and> (\<forall>t. in_load_file t \<longrightarrow> directory_size d t = part_size cs t))"
proof -
  have p: "parse_components None bs (lf_components empty_file) = Ok (map (part cs) all_tags)"
    unfolding parse_components_iff using assms place_all by (auto simp: below_of_def)
  define g where "g = \<lparr>lf_header = part cs Tag_Header, lf_directory = part cs Tag_Directory, lf_components = map (part cs) all_tags\<rparr>"
  have comp: "file_component g t = part cs t" for t
    by (cases t) (simp_all add: g_def file_component_def all_tags_def)
  have g0: "\<lparr>lf_header = map (part cs) all_tags ! 0, lf_directory = map (part cs) all_tags ! 1, lf_components = map (part cs) all_tags\<rparr> = g"
    by (simp add: g_def all_tags_def)
  have sizes: "component_size g t = part_size cs t" for t
    by (simp add: component_size_def comp part_size_def declared_size_def split: option.splits)
  have keep: "map (part cs) all_tags = map (kept cs) all_tags" if "part cs Tag_RefLocation = None"
    using that by (simp add: kept_def)
  have drop: "(map (part cs) all_tags)[8 := None] = map (kept cs) all_tags"
    by (simp add: all_tags_def kept_def numeral_eq_Suc)
  have fields: "lf_header g = part cs Tag_Header" "lf_directory g = part cs Tag_Directory" "lf_components g = map (part cs) all_tags"
    by (simp_all add: g_def)
  have same: "g = f \<longleftrightarrow> f = file_of cs" if "part cs Tag_RefLocation = None"
    using keep [OF that] by (auto simp: g_def file_of_def)
  have upd: "g\<lparr>lf_components := map (kept cs) all_tags\<rparr> = file_of cs"
    by (simp add: g_def file_of_def)
  show ?thesis
    unfolding load_file_parse_def p rbind_simps Let_def g0
    by (cases "part cs Tag_RefLocation"; cases "part cs Tag_Method")
      (auto simp: comp fields rbind_eq_Ok check_sizes_iff [unfolded One_nat_def] sizes file_directory_def references_ok_def same drop upd
        simp del: map_map)
qed

section \<open>Iterators over checked tables\<close>

lemma walk_iter: "walk_records read n bs = Ok rest \<Longrightarrow> \<exists>xs. iter_records read n bs = Some xs \<and> length xs = n"
  by (induction n arbitrary: bs) (fastforce simp: rbind_eq_Ok split: prod.splits)+

lemma interface_records_full:
  "interfaces_end data n a = Ok b \<Longrightarrow> b \<le> length data \<Longrightarrow> length (interface_records n (slice_of data a b)) = n"
proof (induction n arbitrary: a)
  case (Suc n)
  then obtain count where c: "a + 2 < length data" "count = data ! (a + 2)" "interfaces_end data n (a + (3 + unat count)) = Ok b"
    by (auto simp: rbind_eq_Ok)
  have le: "a + (3 + unat count) \<le> b"
    using interfaces_end_mono [OF c(3)] .
  have "drop (3 + unat count) (slice_of data a b) = slice_of data (a + (3 + unat count)) b"
    by (simp add: slice_of_def drop_take add.commute add.left_commute)
  moreover have "slice_of data a b ! 2 = count"
    using c le Suc.prems(2) by simp
  moreover have "3 + unat count \<le> length (slice_of data a b)"
    using le Suc.prems(2) by simp
  ultimately show ?case
    using Suc.IH [OF c(3) Suc.prems(2)] by (auto simp: Let_def get_range_def slice_of_def [of _ 0] nth_take split: if_splits)
qed simp

lemma class_entry_interfaces:
  assumes "class_entry data at = Ok c"
  shows "length (class_interfaces c) = ci_interface_count c"
  using assms
  by (auto simp: class_entry_def interface_entry_def class_interfaces_def Let_def rbind_eq_Ok interface_records_full split: if_splits)

lemma walk_classes_interfaces:
  "walk_classes data at = Ok cs \<Longrightarrow> \<forall>c \<in> set cs. length (class_interfaces c) = ci_interface_count c"
proof (induction data at arbitrary: cs rule: walk_classes.induct)
  case (1 data at)
  then show ?case
    by (subst (asm) (2) walk_classes.simps) (fastforce simp: rbind_eq_Ok class_entry_interfaces split: if_splits)
qed

lemma static_inits_walk:
  "array_inits_end data n a = Ok b \<Longrightarrow> b \<le> length data \<Longrightarrow>
    a \<le> b \<and> length (array_init_records (slice_of data a b)) = n"
proof (induction n arbitrary: a)
  case 0
  then show ?case
    by (simp add: array_init_records.simps get_range_def)
next
  case (Suc n)
  define k where "k = 3 + unat (be16 (data ! (a + 1)) (data ! (a + 2)))"
  from Suc.prems have c: "a + 3 \<le> length data" "array_inits_end data n (a + k) = Ok b"
    by (auto simp: rbind_eq_Ok k_def Let_def split: if_splits)
  note ih = Suc.IH [OF c(2) Suc.prems(2)]
  have k: "3 \<le> k" "3 + unat (be16 (data ! Suc a) (data ! Suc (Suc a))) = k" by (simp_all add: k_def)
  have sl: "slice_of data a b ! 1 = data ! (a + 1)" "slice_of data a b ! 2 = data ! (a + 2)" "k \<le> length (slice_of data a b)"
    using conjunct1 [OF ih] k Suc.prems(2) by (simp_all add: slice_of_def)
  have dr: "drop k (slice_of data a b) = slice_of data (a + k) b"
    by (simp add: slice_of_def drop_take add.commute)
  show ?case
    using ih sl dr k
    by (subst array_init_records.simps)
      (auto simp: Let_def get_range_def slice_of_def [of _ 0] nth_take split: if_splits)
qed

section \<open>Properties\<close>

text \<open>
  C26 (load_file_exact). A Load File Data Block is accepted exactly when it is the concatenation of
  components with strictly ascending tags, none of them Descriptor or Debug, with a Header, a
  Directory that parses and records for every component the size it has in the block (zero when
  absent), and a Method component, and with valid reference locations if it has that component. The
  parsed file then holds each component under its tag, without the reference locations.
\<close>

theorem load_file_exact:
  "load_file_parse bs = Ok f \<longleftrightarrow>
    (\<exists>cs c d. ascending 0 cs \<and> bs = concat (map component_wire cs)
      \<and> part cs Tag_Header \<noteq> None \<and> part cs Tag_Method \<noteq> None \<and> part cs Tag_Directory = Some c
      \<and> directory_parse (cc_info c) = Ok d \<and> (\<forall>t. in_load_file t \<longrightarrow> directory_size d t = part_size cs t)
      \<and> references_ok cs \<and> f = file_of cs)"
proof
  assume ok: "load_file_parse bs = Ok f"
  then obtain cs where cs: "ascending 0 cs" "bs = concat (map component_wire cs)"
    unfolding load_file_parse_def rbind_eq_Ok parse_components_iff by (auto simp: below_of_def)
  show "\<exists>cs c d. ascending 0 cs \<and> bs = concat (map component_wire cs)
      \<and> part cs Tag_Header \<noteq> None \<and> part cs Tag_Method \<noteq> None \<and> part cs Tag_Directory = Some c
      \<and> directory_parse (cc_info c) = Ok d \<and> (\<forall>t. in_load_file t \<longrightarrow> directory_size d t = part_size cs t)
      \<and> references_ok cs \<and> f = file_of cs"
    using cs ok unfolding load_file_parse_of [OF cs] by blast
qed (use load_file_parse_of in blast)

definition sample_package :: "cap_component list" where
  "sample_package =
     [\<lparr>cc_tag = Tag_Header, cc_info = CAP_MAGIC @ [1, 2, 4, 0, 1, 5, 0xa0, 0, 0, 0, 1]\<rparr>,
      \<lparr>cc_tag = Tag_Directory, cc_info = [0, 15, 0, 31, 0, 0, 0, 0, 0, 0, 0, 0, 0, 1] @ replicate 17 0\<rparr>,
      \<lparr>cc_tag = Tag_Method, cc_info = [0]\<rparr>]"

theorem load_file_exact_witness:
  "load_file_parse (concat (map component_wire sample_package)) = Ok (file_of sample_package)"
proof -
  let ?d = "the (part sample_package Tag_Directory)"
  have dir: "directory_parse (cc_info ?d) = Ok (the_Ok (directory_parse (cc_info ?d)))"
    by (simp add: sample_package_def part_def directory_parse_def Let_def eval_nat_numeral be16_def be_value_def)
  have "\<forall>t. in_load_file t \<longrightarrow> directory_size (the_Ok (directory_parse (cc_info ?d))) t = part_size sample_package t"
  proof
    fix t show "in_load_file t \<longrightarrow> directory_size (the_Ok (directory_parse (cc_info ?d))) t = part_size sample_package t"
      by (cases t) (simp_all add: sample_package_def part_def part_size_def directory_parse_def directory_size_def CAP_MAGIC_def
          in_load_file_def Let_def nth_append be16_def be_value_def)
  qed
  moreover have "ascending 0 sample_package" "part sample_package Tag_Header \<noteq> None" "part sample_package Tag_Method \<noteq> None"
      "part sample_package Tag_Directory = Some ?d" "references_ok sample_package"
    by (simp_all add: sample_package_def part_def in_load_file_def references_ok_def CAP_MAGIC_def)
  ultimately show ?thesis
    using dir load_file_exact [THEN iffD2] by blast
qed

text \<open>
  Tables that their parser accepted can be read again without a failure:
  the iterators over imports, applets, classes, implemented interfaces and array initialisers yield
  exactly as many records as the table announces, so the \<open>expect\<close> in them cannot panic and no
  record is silently skipped; and every handler range and handler entry lies in the Method
  component.
\<close>

theorem cap_iterators_total:
  "(import_parse data = Ok t \<longrightarrow> (\<exists>ps. import_iter t = Some ps \<and> length ps = ct_count t))
   \<and> (applet_parse data = Ok t \<longrightarrow> (\<exists>ps. applet_iter t = Some ps \<and> length ps = ct_count t))
   \<and> (class_parse data h = Ok k \<longrightarrow> (\<exists>cs. class_iter k = Some cs \<and> (\<forall>c \<in> set cs. length (class_interfaces c) = ci_interface_count c)))
   \<and> (static_field_parse data = Ok f \<longrightarrow> length (static_array_inits f) = unat (sf_array_init_count f))
   \<and> (methods_parse data = Ok m \<longrightarrow> length (method_handlers m) = mc_handler_count m \<and> (\<forall>hd \<in> set (method_handlers m).
        unat (hd_start hd) + unat (hd_active hd) \<le> length (mc_info m) \<and> unat (hd_offset hd) < length (mc_info m)))"
proof (intro conjI impI)
  show "\<exists>ps. import_iter t = Some ps \<and> length ps = ct_count t" if "import_parse data = Ok t"
    using that walk_iter by (fastforce simp: import_parse_def import_iter_def rbind_eq_Ok split: list.splits if_splits)
  show "\<exists>ps. applet_iter t = Some ps \<and> length ps = ct_count t" if "applet_parse data = Ok t"
    using that walk_iter by (fastforce simp: applet_parse_def applet_iter_def rbind_eq_Ok split: list.splits if_splits)
  show "\<exists>cs. class_iter k = Some cs \<and> (\<forall>c \<in> set cs. length (class_interfaces c) = ci_interface_count c)" if "class_parse data h = Ok k"
    using that walk_classes_interfaces by (fastforce simp: class_parse_def class_iter_def rbind_eq_Ok split: if_splits)
  show "length (static_array_inits f) = unat (sf_array_init_count f)" if "static_field_parse data = Ok f"
  proof -
    from that obtain at t where "array_inits_end data (unat (sf_array_init_count f)) 6 = Ok at" "get_range data at (at + 4) = Some t"
        "sf_array_inits f = slice_of data 6 at"
      by (auto simp: static_field_parse_def Let_def rbind_eq_Ok simp del: get_range_eq_Some split: if_splits)
    then show ?thesis
      using static_inits_walk by (simp add: static_array_inits_def)
  qed
  show "length (method_handlers m) = mc_handler_count m" if "methods_parse data = Ok m"
    by (simp add: method_handlers_def)
  show "\<forall>hd \<in> set (method_handlers m). unat (hd_start hd) + unat (hd_active hd) \<le> length (mc_info m) \<and> unat (hd_offset hd) < length (mc_info m)"
    if "methods_parse data = Ok m"
    using that by (auto simp: methods_parse_def Let_def list_ex_iff not_less split: list.splits if_splits) 
qed

definition sample_tables :: "bytes" where
  "sample_tables = [1, 1, 1, 5, 0xa0, 0, 0, 0, 1]"

theorem cap_iterators_total_witness:
  "import_parse sample_tables = Ok \<lparr>ct_count = 1, ct_entries = [1, 1, 5, 0xa0, 0, 0, 0, 1]\<rparr>
    \<and> (\<exists>ps. import_iter \<lparr>ct_count = 1, ct_entries = [1, 1, 5, 0xa0, 0, 0, 0, 1]\<rparr> = Some ps \<and> length ps = 1)"
proof -
  have p: "import_parse sample_tables = Ok \<lparr>ct_count = 1, ct_entries = [1, 1, 5, 0xa0, 0, 0, 0, 1]\<rparr>"
    by (simp add: import_parse_def sample_tables_def read_package_def split_at_checked_def Let_def)
  then show ?thesis
    using cap_iterators_total [THEN conjunct1, THEN mp, OF p] by simp
qed

end
