(* ===== verification/Package_Verifier.thy ===== *)
theory Package_Verifier
  imports Cap_Format Method_Verifier
begin

text \<open>
  Structural verification of a package (\<open>verify\<close> and \<open>method_offsets\<close> of
  \<open>src/crates/microcard-engine-jcvm/src/verify.rs\<close>), on top of the verification of one method.
  Growing the list of offsets may fail, as \<open>alloc\<close> decides. The iterators over classes and applets
  cannot fail after their parsers have accepted the tables; a failure shows as an error here.
\<close>

section \<open>Methods a package names\<close>

fun push_offsets :: "(nat \<Rightarrow> bool) \<Rightarrow> nat list \<Rightarrow> nat list \<Rightarrow> nat list jres" where
  "push_offsets alloc offsets [] = Ok offsets"
| "push_offsets alloc offsets (x # xs) =
     rbind (reserve alloc (length offsets + 1)) (\<lambda>_. push_offsets alloc (offsets @ [x]) xs)"

definition class_names :: "class_info list \<Rightarrow> nat list" where
  "class_names cs = concat (map (\<lambda>c. map unat (class_method_offsets c)) cs)"

definition constant_names :: "constant_pool \<Rightarrow> nat list" where
  "constant_names p = map unat (List.map_filter internal_static_method (constants_iter p))"

definition method_offsets :: "(nat \<Rightarrow> bool) \<Rightarrow> load_file \<Rightarrow> nat list jres" where
  "method_offsets alloc f =
     rbind (file_classes f) (\<lambda>k.
     rbind (ok_or (class_iter k) JFormat) (\<lambda>cs.
     rbind (push_offsets alloc [] (class_names cs)) (\<lambda>offsets.
     rbind (file_constants f) (\<lambda>p.
     rbind (push_offsets alloc offsets (constant_names p)) (\<lambda>offsets.
     rbind (file_applets f) (\<lambda>t.
     rbind (ok_or (applet_iter t) JFormat) (\<lambda>as.
     rbind (push_offsets alloc offsets (map (\<lambda>a. unat (ar_install a)) as)) (\<lambda>offsets.
     Ok (remdups_adj (sort offsets))))))))))"

section \<open>The package\<close>

record report =
  rp_methods :: nat
  rp_static_image_bytes :: u16
  rp_max_frame_words :: u16
  rp_max_stack_words :: byte

text \<open>The bounded walk up the superclasses of one class.\<close>

fun super_walk :: "class_component \<Rightarrow> nat \<Rightarrow> class_ref \<Rightarrow> class_ref jres" where
  "super_walk k 0 r = Ok r"
| "super_walk k (Suc n) r =
     (case r of Internal offset \<Rightarrow> rbind (class_at k offset) (\<lambda>c. super_walk k n (ci_super c)) | _ \<Rightarrow> Ok r)"

fun check_chains :: "class_component \<Rightarrow> nat \<Rightarrow> class_info list \<Rightarrow> unit jres" where
  "check_chains k count [] = Ok ()"
| "check_chains k count (c # cs) =
     rbind (super_walk k (count + 1) (ci_super c)) (\<lambda>r.
     case r of Internal _ \<Rightarrow> Err JFormat | _ \<Rightarrow> check_chains k count cs)"

text \<open>The loop over the offsets; a method ends where the next named one begins.\<close>

fun verify_regions :: "(nat \<Rightarrow> bool) \<Rightarrow> method_component \<Rightarrow> nat \<Rightarrow> limits \<Rightarrow> constant_pool \<Rightarrow> nat list \<Rightarrow> report \<Rightarrow> report jres" where
  "verify_regions alloc m scratch_len l p [] rep = Ok rep"
| "verify_regions alloc m scratch_len l p (offset # offsets) rep =
     (let fin = (case offsets of [] \<Rightarrow> length (mc_info m) | x # _ \<Rightarrow> x) in
      rbind (method_region m offset fin) (\<lambda>(h, code).
      if abstract_method h then verify_regions alloc m scratch_len l p offsets rep
      else
        let rep = rep\<lparr>rp_max_frame_words := max (rp_max_frame_words rep) (frame_words h),
                      rp_max_stack_words := max (rp_max_stack_words rep) (mh_max_stack h)\<rparr> in
        rbind (verify_method alloc (map hd_offset (method_handlers m)) code (offset + mh_length h, fin)
                 (frame_words h) scratch_len l (unat (cp_count p))) (\<lambda>_.
        verify_regions alloc m scratch_len l p offsets (rep\<lparr>rp_methods := rp_methods rep + 1\<rparr>))))"

definition verify :: "(nat \<Rightarrow> bool) \<Rightarrow> load_file \<Rightarrow> nat \<Rightarrow> report jres" where
  "verify alloc f scratch_len =
     rbind (file_header f) (\<lambda>h.
     rbind (header_supported h) (\<lambda>_.
     rbind (file_directory f) (\<lambda>d.
     rbind (file_constants f) (\<lambda>p.
     rbind (file_methods f) (\<lambda>m.
     rbind (file_applets f) (\<lambda>t.
     rbind (file_classes f) (\<lambda>k.
     rbind (file_static_fields f) (\<lambda>s.
     if sf_image_size s \<noteq> cd_image_size d \<or> unat (sf_array_init_count s) \<noteq> unat (cd_array_init_count d) then Err JInconsistent
     else if ct_count t \<noteq> unat (cd_applet_count d) then Err JInconsistent
     else rbind (file_imports f) (\<lambda>i.
       if ct_count i \<noteq> unat (cd_import_count d) then Err JInconsistent
       else if list_ex (\<lambda>hn. hd_catch hn \<noteq> 0 \<and> unat (hd_catch hn) \<ge> unat (cp_count p)) (method_handlers m) then Err JBounds
       else rbind (ok_or (class_iter k) JFormat) (\<lambda>cs.
         rbind (check_chains k (length cs) cs) (\<lambda>_.
         rbind (method_offsets alloc f) (\<lambda>offsets.
         rbind (verify_regions alloc m scratch_len (IMPLEMENTED\<lparr>allow_int := header_int h\<rparr>) p offsets
                  \<lparr>rp_methods = 0, rp_static_image_bytes = sf_image_size s, rp_max_frame_words = 0, rp_max_stack_words = 0\<rparr>) (\<lambda>rep.
         if rp_methods rep = 0 \<or> file_component f Tag_Method = None then Err JFormat else Ok rep)))))))))))))"

section \<open>Superclass chains end\<close>

inductive chain_ends :: "class_component \<Rightarrow> class_ref \<Rightarrow> bool" for k where
  no_class: "chain_ends k No_Class"
| external: "chain_ends k (External package c)"
| internal: "class_at k offset = Ok i \<Longrightarrow> chain_ends k (ci_super i) \<Longrightarrow> chain_ends k (Internal offset)"

lemma super_walk_ends: "super_walk k n r = Ok s \<Longrightarrow> (\<forall>offset. s \<noteq> Internal offset) \<Longrightarrow> chain_ends k r"
proof (induction n arbitrary: r)
  case 0
  then show ?case by (cases r) (auto intro: chain_ends.intros)
next
  case (Suc n)
  then show ?case by (cases r) (auto simp: rbind_eq_Ok intro: chain_ends.intros)
qed

lemma check_chains_ends: "check_chains k count cs = Ok () \<Longrightarrow> \<forall>c \<in> set cs. chain_ends k (ci_super c)"
proof (induction cs)
  case (Cons c cs)
  then obtain r where r: "super_walk k (count + 1) (ci_super c) = Ok r"
      "(case r of Internal _ \<Rightarrow> Err JFormat | _ \<Rightarrow> check_chains k count cs) = Ok ()"
    by (auto simp: rbind_eq_Ok simp del: super_walk.simps)
  then show ?case
    using Cons.IH super_walk_ends [OF r(1)] by (cases r) auto
qed simp

section \<open>Every named method is verified\<close>

text \<open>The end of the region that starts at an offset: the next named offset, or the component's end.\<close>

definition region_end :: "method_component \<Rightarrow> nat list \<Rightarrow> nat \<Rightarrow> nat" where
  "region_end m offsets offset =
     (case filter (\<lambda>x. offset < x) offsets of [] \<Rightarrow> length (mc_info m) | x # _ \<Rightarrow> x)"

definition method_ok :: "(nat \<Rightarrow> bool) \<Rightarrow> method_component \<Rightarrow> nat \<Rightarrow> limits \<Rightarrow> constant_pool \<Rightarrow> nat \<Rightarrow> nat \<Rightarrow> bool" where
  "method_ok alloc m scratch_len l p offset fin \<longleftrightarrow> (\<exists>h code. method_region m offset fin = Ok (h, code)
     \<and> (abstract_method h \<or> verify_method alloc (map hd_offset (method_handlers m)) code (offset + mh_length h, fin)
          (frame_words h) scratch_len l (unat (cp_count p)) = Ok ()))"

lemma verify_regions_ok:
  assumes "verify_regions alloc m scratch_len l p offsets rep = Ok rep'" and "sorted_wrt (<) offsets"
  shows "\<forall>offset \<in> set offsets. method_ok alloc m scratch_len l p offset (region_end m offsets offset)"
  using assms
proof (induction offsets arbitrary: rep)
  case (Cons a offsets)
  let ?fin = "case offsets of [] \<Rightarrow> length (mc_info m) | x # _ \<Rightarrow> x"
  obtain rep1 where here: "method_ok alloc m scratch_len l p a ?fin" and rest: "verify_regions alloc m scratch_len l p offsets rep1 = Ok rep'"
    using Cons.prems(1) by (auto simp: rbind_eq_Ok Let_def method_ok_def split: if_splits)
  have sorted: "\<forall>x \<in> set offsets. a < x" "sorted_wrt (<) offsets"
    using Cons.prems(2) by simp_all
  have fa: "region_end m (a # offsets) a = ?fin"
    using sorted(1) by (simp add: region_end_def filter_True)
  have "region_end m (a # offsets) x = region_end m offsets x" if "x \<in> set offsets" for x
    using sorted(1) that by (auto simp: region_end_def)
  then show ?case
    using Cons.IH [OF rest sorted(2)] here fa by auto
qed simp

lemma push_offsets_eq: "push_offsets alloc offsets xs = Ok ys \<Longrightarrow> ys = offsets @ xs"
  by (induction xs arbitrary: offsets) (fastforce simp: rbind_eq_Ok)+

lemma sorted_wrt_remdups_adj: "sorted xs \<Longrightarrow> sorted_wrt (<) (remdups_adj (xs :: nat list))"
  by (induction xs rule: remdups_adj.induct) (auto simp: less_le_trans)

definition named_methods :: "load_file \<Rightarrow> nat set" where
  "named_methods f = {offset. (\<exists>k cs c. file_classes f = Ok k \<and> class_iter k = Some cs \<and> c \<in> set cs \<and> offset \<in> unat ` set (class_method_offsets c))
     \<or> (\<exists>p. file_constants f = Ok p \<and> offset \<in> set (constant_names p))
     \<or> (\<exists>t as a. file_applets f = Ok t \<and> applet_iter t = Some as \<and> a \<in> set as \<and> offset = unat (ar_install a))}"

lemma method_offsets_named:
  assumes "method_offsets alloc f = Ok offsets"
  shows "set offsets = named_methods f" and "sorted_wrt (<) offsets"
proof -
  obtain k cs p t as where parts: "file_classes f = Ok k" "class_iter k = Some cs" "file_constants f = Ok p" "file_applets f = Ok t"
      "applet_iter t = Some as"
    and o: "offsets = remdups_adj (sort ((class_names cs @ constant_names p) @ map (\<lambda>a. unat (ar_install a)) as))"
    using assms by (auto simp: method_offsets_def rbind_eq_Ok dest!: push_offsets_eq)
  show "set offsets = named_methods f"
    using parts by (auto simp: o named_methods_def class_names_def)
  show "sorted_wrt (<) offsets"
    unfolding o by (rule sorted_wrt_remdups_adj) simp
qed

section \<open>Properties\<close>

text \<open>
  C25 (package_verified). When a package verifies, every offset that a class table, a static method
  reference or an applet entry names is the start of a region of its own, ending at the next named
  offset or at the end of the Method component; the region has a method header, and unless the
  method is abstract and empty its bytecode passed the verification of one method with the frame
  and the constant pool it will run with. Every superclass chain ends, every handler catches
  everything or a constant of the pool, and the package is of the supported version and carries code.
\<close>

theorem package_verified:
  assumes "verify alloc f scratch_len = Ok rep"
  shows "\<exists>h m p k cs. file_header f = Ok h \<and> file_methods f = Ok m \<and> file_constants f = Ok p \<and> file_classes f = Ok k \<and> class_iter k = Some cs
    \<and> ch_major h = 2 \<and> ch_minor h = 1
    \<and> (\<exists>offsets. set offsets = named_methods f \<and> sorted_wrt (<) offsets \<and> (\<forall>offset \<in> named_methods f.
          method_ok alloc m scratch_len (IMPLEMENTED\<lparr>allow_int := header_int h\<rparr>) p offset (region_end m offsets offset)))
    \<and> (\<forall>c \<in> set cs. chain_ends k (ci_super c))
    \<and> (\<forall>hn \<in> set (method_handlers m). hd_catch hn = 0 \<or> unat (hd_catch hn) < unat (cp_count p))
    \<and> 0 < rp_methods rep"
proof -
  obtain h m p k cs offsets s where parts: "file_header f = Ok h" "header_supported h = Ok ()" "file_methods f = Ok m" "file_constants f = Ok p"
      "file_classes f = Ok k" "class_iter k = Some cs"
    and catch_ok: "\<not> list_ex (\<lambda>hn. hd_catch hn \<noteq> 0 \<and> unat (hd_catch hn) \<ge> unat (cp_count p)) (method_handlers m)"
    and chains: "check_chains k (length cs) cs = Ok ()" and offs: "method_offsets alloc f = Ok offsets"
    and regions: "verify_regions alloc m scratch_len (IMPLEMENTED\<lparr>allow_int := header_int h\<rparr>) p offsets s = Ok rep" and pos: "0 < rp_methods rep"
    using assms unfolding verify_def by (auto simp: rbind_eq_Ok split: if_splits)
  note named = method_offsets_named [OF offs]
  have "\<forall>offset \<in> named_methods f. method_ok alloc m scratch_len (IMPLEMENTED\<lparr>allow_int := header_int h\<rparr>) p offset (region_end m offsets offset)"
    using verify_regions_ok [OF regions named(2)] named(1) by simp
  moreover have "ch_major h = 2 \<and> ch_minor h = 1"
    using parts(2) by (auto simp: header_supported_def split: if_splits)
  moreover have "\<forall>hn \<in> set (method_handlers m). hd_catch hn = 0 \<or> unat (hd_catch hn) < unat (cp_count p)"
    using catch_ok by (auto simp: list_ex_iff)
  ultimately show ?thesis
    using parts named check_chains_ends [OF chains] pos by blast
qed

definition sample_applet :: "cap_component list" where
  "sample_applet =
     [\<lparr>cc_tag = Tag_Header, cc_info = CAP_MAGIC @ [1, 2, 4, 0, 1, 5, 0xa0, 0, 0, 0, 1]\<rparr>,
      \<lparr>cc_tag = Tag_Directory, cc_info = replicate 29 0 @ [1, 0]\<rparr>,
      \<lparr>cc_tag = Tag_Applet, cc_info = [1, 5, 0xa0, 0, 0, 0, 1, 0, 1]\<rparr>,
      \<lparr>cc_tag = Tag_Class, cc_info = []\<rparr>,
      \<lparr>cc_tag = Tag_Method, cc_info = [0, 1, 0, 122]\<rparr>,
      \<lparr>cc_tag = Tag_StaticField, cc_info = replicate 10 0\<rparr>]"

theorem package_verified_witness:
  "\<exists>rep. verify (\<lambda>_. True) (file_of sample_applet) 16 = Ok rep \<and> (\<exists>h. file_header (file_of sample_applet) = Ok h \<and> ch_major h = 2) \<and> 0 < rp_methods rep"
proof -
  have "verify (\<lambda>_. True) (file_of sample_applet) 16
      = Ok \<lparr>rp_methods = 1, rp_static_image_bytes = 0, rp_max_frame_words = 0, rp_max_stack_words = 1\<rparr>"
    by code_simp
  then show ?thesis
    using package_verified [of "\<lambda>_. True" "file_of sample_applet" 16] by blast
qed

end
