(* ===== verification/Runtime_Objects.thy ===== *)
theory Runtime_Objects
  imports Heap_Transactions Frame
begin

text \<open>
  The objects the runtime environment itself keeps on the heap
  (\<open>src/crates/microcard-engine-jcvm/src/natives.rs\<close>, the record types of \<open>jcvm_api.rs\<close> and the
  release of one-shot digests of \<open>natives/security/digest.rs\<close>): classes the card provides, runtime
  exceptions and the state of one command. The generated table of API packages is a parameter of
  every definition that reads it.
\<close>

section \<open>The API table\<close>

text \<open>Identities are the discriminants of the generated enumerations.\<close>

type_synonym class_id = byte
type_synonym method_id = byte
type_synonym package_id = byte

abbreviation (input) ArithmeticException :: class_id where "ArithmeticException \<equiv> 0"
abbreviation (input) ArrayIndexOutOfBoundsException :: class_id where "ArrayIndexOutOfBoundsException \<equiv> 1"
abbreviation (input) ArrayStoreException :: class_id where "ArrayStoreException \<equiv> 2"
abbreviation (input) ClassCastException :: class_id where "ClassCastException \<equiv> 3"
abbreviation (input) NegativeArraySizeException :: class_id where "NegativeArraySizeException \<equiv> 6"
abbreviation (input) NullPointerException :: class_id where "NullPointerException \<equiv> 7"
abbreviation (input) Object_Id :: class_id where "Object_Id \<equiv> 8"
abbreviation (input) SecurityException :: class_id where "SecurityException \<equiv> 10"
abbreviation (input) Throwable :: class_id where "Throwable \<equiv> 11"
abbreviation (input) APDU_Id :: class_id where "APDU_Id \<equiv> 13"
abbreviation (input) CardException :: class_id where "CardException \<equiv> 17"
abbreviation (input) CardRuntimeException :: class_id where "CardRuntimeException \<equiv> 18"
abbreviation (input) SystemException :: class_id where "SystemException \<equiv> 31"
abbreviation (input) TransactionException :: class_id where "TransactionException \<equiv> 32"
abbreviation (input) MessageDigest_OneShot :: class_id where "MessageDigest_OneShot \<equiv> 57"

abbreviation (input) Constructor :: method_id where "Constructor \<equiv> 0"
abbreviation (input) getReason :: method_id where "getReason \<equiv> 78"
abbreviation (input) setReason :: method_id where "setReason \<equiv> 175"
abbreviation (input) throwIt :: method_id where "throwIt \<equiv> 190"

abbreviation (input) java_lang :: package_id where "java_lang \<equiv> 0"
abbreviation (input) javacard_framework :: package_id where "javacard_framework \<equiv> 1"

record api_method =
  am_token :: byte
  am_id :: method_id
  am_signature :: byte
  am_static :: bool
  am_static_token :: bool

record api_class =
  ac_token :: byte
  ac_id :: class_id
  ac_interface :: bool
  ac_supers :: "class_id list"
  ac_methods :: "api_method list"

record api_package =
  ap_aid :: bytes
  ap_id :: package_id
  ap_major :: byte
  ap_minor :: byte
  ap_classes :: "api_class list"

section \<open>Native classes\<close>

definition native_class :: "nat \<Rightarrow> byte \<Rightarrow> u16" where
  "native_class package c = 0x8000 OR push_bit 8 (word_of_nat package) OR ucast c"

definition is_native_class :: "u16 \<Rightarrow> bool" where
  "is_native_class c \<longleftrightarrow> c AND 0x8000 \<noteq> 0"

definition api_class_of :: "api_package list \<Rightarrow> u16 \<Rightarrow> api_class option" where
  "api_class_of packages c =
     (if \<not> is_native_class c then None
      else Option.bind (get_at packages (unat (drop_bit 8 c AND 0x7f))) (\<lambda>p.
        find (\<lambda>e. ac_token e = ucast c) (ap_classes p)))"

definition native_is_a :: "api_package list \<Rightarrow> u16 \<Rightarrow> u16 \<Rightarrow> bool" where
  "native_is_a packages thrown caught =
     (if thrown = caught then True
      else case (api_class_of packages thrown, api_class_of packages caught) of
        (Some t, Some c) \<Rightarrow> List.member (ac_supers t) (ac_id c) | _ \<Rightarrow> False)"

abbreviation (input) REASON_FIELD :: nat where "REASON_FIELD \<equiv> 0"
abbreviation (input) STATE_WORDS :: u16 where "STATE_WORDS \<equiv> 6"
abbreviation (input) SIZE_WORD :: nat where "SIZE_WORD \<equiv> 1"
abbreviation (input) READY_WORD :: nat where "READY_WORD \<equiv> 3"

definition is_exception_class :: "api_class \<Rightarrow> bool" where
  "is_exception_class c \<longleftrightarrow> ac_id c = Throwable \<or> List.member (ac_supers c) Throwable"

definition is_temporary_native :: "api_package list \<Rightarrow> u16 \<Rightarrow> u16 \<Rightarrow> bool" where
  "is_temporary_native packages c n =
     (case api_class_of packages c of None \<Rightarrow> False
      | Some a \<Rightarrow> n = 1 \<and> (ac_id a = APDU_Id \<or> is_exception_class a)
                \<or> n = STATE_WORDS \<and> ac_id a = MessageDigest_OneShot)"

definition is_one_shot :: "api_package list \<Rightarrow> info \<Rightarrow> bool" where
  "is_one_shot packages i \<longleftrightarrow> inf_kind i = KIND_OBJECT \<and> inf_length i = STATE_WORDS
     \<and> (case api_class_of packages (inf_class i) of None \<Rightarrow> False | Some a \<Rightarrow> ac_id a = MessageDigest_OneShot)"

definition release_one_shot_digests :: "api_package list \<Rightarrow> unit hact" where
  "release_one_shot_digests packages = visit_objects (\<lambda>_ i payload. (Ok (),
     if is_one_shot packages i
     then (overwrite payload (READY_WORD * 2) [0, 0])[SIZE_WORD * 2 + 1 := 1] else payload))"

definition release_temporary_natives :: "api_package list \<Rightarrow> unit hact" where
  "release_temporary_natives packages = release_one_shot_digests packages"

section \<open>The state of a command\<close>

record jcre =
  jc_apdu :: reference
  jc_buffer :: reference
  jc_instance :: "reference option"
  jc_installing :: bool
  jc_incoming :: u16
  jc_outgoing :: u16
  jc_response :: bytes
  jc_expected :: u16
  jc_incoming_started :: bool
  jc_outgoing_started :: bool
  jc_outgoing_combined :: bool
  jc_outgoing_length :: "u16 option"
  jc_data_offset :: u16
  jc_selecting :: bool
  jc_reselecting :: bool
  jc_transaction_exception :: "reference option"
  jc_aid :: bytes
  jc_aid_length :: byte

definition jcre_new :: "reference \<Rightarrow> reference \<Rightarrow> jcre" where
  "jcre_new apdu buffer =
     \<lparr>jc_apdu = apdu, jc_buffer = buffer, jc_instance = None, jc_installing = False, jc_incoming = 0, jc_outgoing = 0,
      jc_response = replicate 256 0, jc_expected = 256, jc_incoming_started = False, jc_outgoing_started = False,
      jc_outgoing_combined = False, jc_outgoing_length = None, jc_data_offset = 5, jc_selecting = False,
      jc_reselecting = False, jc_transaction_exception = None, jc_aid = replicate 16 0, jc_aid_length = 0\<rparr>"

definition response_data :: "jcre \<Rightarrow> bytes jres" where
  "response_data j =
     (if (case jc_outgoing_length j of None \<Rightarrow> False | Some declared \<Rightarrow> declared \<noteq> jc_outgoing j) then Err JBounds
      else ok_or (get_range (jc_response j) 0 (unat (jc_outgoing j))) JBounds)"

datatype native = Returned | Threw reference | Unimplemented

section \<open>Allocating runtime objects\<close>

definition word_field :: "heap \<Rightarrow> reference \<Rightarrow> nat \<Rightarrow> u16 jres" where
  "word_field h ob index = rbind (heap_info h ob) (\<lambda>i.
     if \<not> is_native_class (inf_class i) then Err JType else get_word ob index h)"

text \<open>\<open>iter().position(..)\<close>.\<close>

fun index_where :: "('a \<Rightarrow> bool) \<Rightarrow> 'a list \<Rightarrow> nat option" where
  "index_where P [] = None"
| "index_where P (x # xs) = (if P x then Some 0 else map_option Suc (index_where P xs))"

definition new_api_object :: "api_package list \<Rightarrow> api_class \<Rightarrow> jcontext \<Rightarrow> reference hact" where
  "new_api_object packages c ctx =
     sbind (slift (ok_or (index_where (\<lambda>p. List.member (ap_classes p) c) packages) JMissing)) (\<lambda>index.
     new_object (native_class index (ac_token c)) STATE_WORDS ctx)"

text \<open>The first class with an identity, with the position of its package.\<close>

fun find_class :: "class_id \<Rightarrow> nat \<Rightarrow> api_package list \<Rightarrow> (nat \<times> api_class) option" where
  "find_class name index [] = None"
| "find_class name index (p # ps) =
     (case find (\<lambda>e. ac_id e = name) (ap_classes p) of
        Some c \<Rightarrow> Some (index, c) | None \<Rightarrow> find_class name (index + 1) ps)"

definition new_native :: "api_package list \<Rightarrow> class_id \<Rightarrow> u16 \<Rightarrow> jcontext \<Rightarrow> reference hact" where
  "new_native packages name n ctx =
     (case find_class name 0 packages of
        Some (index, c) \<Rightarrow> new_object (native_class index (ac_token c)) n ctx
      | None \<Rightarrow> sfail JMissing)"

text \<open>The scan for a runtime exception that is already on the heap.\<close>

function find_runtime :: "u16 \<Rightarrow> jcontext \<Rightarrow> nat \<Rightarrow> heap \<Rightarrow> reference option jres" where
  "find_runtime c ctx at h =
     (if at < hp_next h then
        rbind (heap_info h (word_of_nat at)) (\<lambda>i.
        if inf_class i = c \<and> inf_owner i = ctx \<and> inf_length i = 1 then Ok (Some (word_of_nat at))
        else find_runtime c ctx (next_even (at + HEADER + unat (inf_length i) * element_size i)) h)
      else Ok None)"
  by pat_completeness auto
termination
  by (relation "measure (\<lambda>(_, _, at, h). hp_next h - at)") (auto simp: next_even_def)

declare find_runtime.simps [simp del]

definition new_exception :: "api_package list \<Rightarrow> class_id \<Rightarrow> jcontext \<Rightarrow> reference hact" where
  "new_exception packages name ctx =
     (case find_class name 0 packages of
        None \<Rightarrow> sfail JMissing
      | Some (index, c) \<Rightarrow>
          let nc = native_class index (ac_token c) in
          sbind (sget (find_runtime nc ctx 2)) (\<lambda>found.
          case found of Some ref \<Rightarrow> sret ref | None \<Rightarrow> new_object nc 1 ctx))"

definition runtime_exception_classes :: "api_package list \<Rightarrow> class_id list" where
  "runtime_exception_classes packages =
     [ArithmeticException, ArrayIndexOutOfBoundsException, ClassCastException, NegativeArraySizeException,
      NullPointerException, SecurityException]
     @ map ac_id (filter (\<lambda>c. is_exception_class c \<and> list_ex (\<lambda>m. am_id m = throwIt) (ac_methods c))
         (concat (map ap_classes packages)))"

fun reserve_exceptions :: "api_package list \<Rightarrow> jcontext \<Rightarrow> class_id list \<Rightarrow> unit hact" where
  "reserve_exceptions packages ctx [] = sret ()"
| "reserve_exceptions packages ctx (c # cs) =
     sbind (new_exception packages c ctx) (\<lambda>_. reserve_exceptions packages ctx cs)"

definition reserve_runtime_exceptions :: "api_package list \<Rightarrow> jcontext \<Rightarrow> unit hact" where
  "reserve_runtime_exceptions packages ctx = reserve_exceptions packages ctx (runtime_exception_classes packages)"

text \<open>The reserved exception of a transaction is remembered in the state of the command.\<close>

definition transaction_exception :: "api_package list \<Rightarrow> jcontext \<Rightarrow> u16 \<Rightarrow> (heap \<times> jcre, native) jact" where
  "transaction_exception packages ctx reason = (\<lambda>(h, j).
     case (case jc_transaction_exception j of
             Some ref \<Rightarrow> (Ok ref, h, j)
           | None \<Rightarrow> (case new_exception packages TransactionException ctx h of
               (Err e, h) \<Rightarrow> (Err e, h, j)
             | (Ok ref, h) \<Rightarrow> (Ok ref, h, j\<lparr>jc_transaction_exception := Some ref\<rparr>))) of
       (Err e, h, j) \<Rightarrow> (Err e, (h, j))
     | (Ok ex, h, j) \<Rightarrow>
         (case put_word_unconditional ex REASON_FIELD reason h of
            (Err e, h) \<Rightarrow> (Err e, (h, j)) | (Ok _, h) \<Rightarrow> (Ok (Threw ex), (h, j))))"

end
