(* ===== verification/Link.thy ===== *)
theory Link
  imports Cap_Format Runtime_Objects
begin

text \<open>
  Resolution of constant pool entries (\<open>src/crates/microcard-engine-jcvm/src/link.rs\<close>). Nothing is
  cached: every function reads the components again. A walk up the superclass chain visits at most
  256 classes, as in the source; the generated API table is the parameter \<open>packages\<close>. The panic of an
  import iterator on a table its parser has refused cannot happen after \<open>parse\<close>, and is shown as an
  error here.
\<close>

abbreviation (input) PRIVATE_TOKEN :: byte where "PRIVATE_TOKEN \<equiv> 0x80"
abbreviation (input) CHAIN :: nat where "CHAIN \<equiv> 256"

record api_target =
  at_package :: api_package
  at_class :: api_class
  at_method :: api_method

record linked =
  lk_file :: load_file
  lk_classes :: class_component

definition link_new :: "load_file \<Rightarrow> linked jres" where
  "link_new f = rbind (file_classes f) (\<lambda>k. Ok \<lparr>lk_file = f, lk_classes = k\<rparr>)"

definition link_constants :: "linked \<Rightarrow> constant_pool jres" where
  "link_constants l = file_constants (lk_file l)"

section \<open>Fields\<close>

text \<open>\<open>u16::checked_add\<close>.\<close>

definition checked_add_u16 :: "u16 \<Rightarrow> u16 \<Rightarrow> u16 option" where
  "checked_add_u16 a b = (if unat a + unat b \<le> 65535 then Some (a + b) else None)"

definition checked_sub_u16 :: "u16 \<Rightarrow> u16 \<Rightarrow> u16 option" where
  "checked_sub_u16 a b = (if b \<le> a then Some (a - b) else None)"

fun sum_words :: "class_component \<Rightarrow> nat \<Rightarrow> class_ref \<Rightarrow> u16 \<Rightarrow> u16 jres" where
  "sum_words k 0 r acc = Err JFormat"
| "sum_words k (Suc n) r acc =
     (case r of Internal offset \<Rightarrow>
        rbind (class_at k offset) (\<lambda>c.
        rbind (ok_or (checked_add_u16 acc (ucast (ci_declared c))) JQuota) (\<lambda>acc.
        sum_words k n (ci_super c) acc))
      | _ \<Rightarrow> Ok acc)"

definition instance_words :: "linked \<Rightarrow> u16 \<Rightarrow> u16 jres" where
  "instance_words l c = sum_words (lk_classes l) CHAIN (Internal c) 0"

fun visit_tokens :: "(nat \<Rightarrow> ('s, unit) jact) \<Rightarrow> nat \<Rightarrow> nat \<Rightarrow> nat \<Rightarrow> nat \<Rightarrow> ('s, unit) jact" where
  "visit_tokens visit payload_len base from 0 = sret ()"
| "visit_tokens visit payload_len base from (Suc n) =
     (let at = (base + from) * 2 in
      if at + 2 > payload_len then sfail JBounds
      else sbind (visit at) (\<lambda>_. visit_tokens visit payload_len base (from + 1) n))"

fun visit_references :: "class_component \<Rightarrow> (nat \<Rightarrow> ('s, unit) jact) \<Rightarrow> nat \<Rightarrow> nat \<Rightarrow> class_ref \<Rightarrow> u16 \<Rightarrow> ('s, unit) jact" where
  "visit_references k visit payload_len 0 r total_words = sfail JFormat"
| "visit_references k visit payload_len (Suc n) r total_words =
     (case r of Internal offset \<Rightarrow>
        sbind (slift (class_at k offset)) (\<lambda>c.
        if is_interface c then sfail JFormat
        else sbind (slift (ok_or (checked_sub_u16 total_words (ucast (ci_declared c))) JFormat)) (\<lambda>inherited.
          sbind (visit_tokens visit payload_len (unat inherited + unat (ci_first_reference c)) 0 (unat (ci_reference_count c))) (\<lambda>_.
          visit_references k visit payload_len n (ci_super c) inherited)))
      | _ \<Rightarrow> sret ())"

definition visit_instance_reference_offsets :: "linked \<Rightarrow> u16 \<Rightarrow> nat \<Rightarrow> (nat \<Rightarrow> ('s, unit) jact) \<Rightarrow> ('s, unit) jact" where
  "visit_instance_reference_offsets l c payload_len visit =
     sbind (slift (instance_words l c)) (\<lambda>total_words.
     if payload_len \<noteq> unat total_words * 2 then sfail JFormat
     else visit_references (lk_classes l) visit payload_len CHAIN (Internal c) total_words)"

definition inherited_words :: "linked \<Rightarrow> u16 \<Rightarrow> u16 jres" where
  "inherited_words l c = rbind (class_at (lk_classes l) c) (\<lambda>i.
     case ci_super i of Internal offset \<Rightarrow> instance_words l offset | _ \<Rightarrow> Ok 0)"

definition link_entry :: "linked \<Rightarrow> u16 \<Rightarrow> byte \<Rightarrow> (byte \<times> byte \<times> byte) jres" where
  "link_entry l index t =
     rbind (link_constants l) (\<lambda>p. rbind (constants_get p index) (\<lambda>e.
     if ce_tag e \<noteq> t then Err JType else Ok (ce_info e)))"

definition instance_field :: "linked \<Rightarrow> u16 \<Rightarrow> u16 jres" where
  "instance_field l index =
     rbind (link_entry l index CONSTANT_INSTANCE_FIELDREF) (\<lambda>(a, b, token).
     case class_ref_decode (be16 a b) of
       Internal c \<Rightarrow> rbind (inherited_words l c) (\<lambda>n.
         ok_or (checked_add_u16 n (ucast (token AND NOT PRIVATE_TOKEN))) JBounds)
     | _ \<Rightarrow> Err JUnsupported)"

definition link_static_field :: "linked \<Rightarrow> u16 \<Rightarrow> u16 jres" where
  "link_static_field l index =
     rbind (link_entry l index CONSTANT_STATIC_FIELDREF) (\<lambda>(a, b, c).
     if a AND 0x80 \<noteq> 0 then Err JUnsupported else if a \<noteq> 0 then Err JFormat else Ok (be16 b c))"

section \<open>Methods\<close>

definition external_static_method :: "linked \<Rightarrow> u16 \<Rightarrow> (byte \<times> byte \<times> byte) option jres" where
  "external_static_method l index =
     rbind (link_entry l index CONSTANT_STATIC_METHODREF) (\<lambda>(a, b, c).
     if a AND 0x80 = 0 then Ok None else Ok (Some (a AND 0x7f, b, c)))"

definition external_class_method :: "linked \<Rightarrow> u16 \<Rightarrow> (byte \<times> byte \<times> byte) option jres" where
  "external_class_method l index =
     rbind (link_constants l) (\<lambda>p. rbind (constants_get p index) (\<lambda>e.
     case class_ref_decode (entry_high e) of
       External package c \<Rightarrow> Ok (Some (package, c, snd (snd (ce_info e)))) | _ \<Rightarrow> Ok None))"

definition static_method :: "linked \<Rightarrow> u16 \<Rightarrow> u16 jres" where
  "static_method l index =
     rbind (link_entry l index CONSTANT_STATIC_METHODREF) (\<lambda>(a, b, c).
     if a AND 0x80 \<noteq> 0 then Err JUnsupported else if a \<noteq> 0 then Err JUnsupported else Ok (be16 b c))"

definition import_aid :: "linked \<Rightarrow> byte \<Rightarrow> bytes jres" where
  "import_aid l token = rbind (file_imports (lk_file l)) (\<lambda>t.
     case import_get t token of None \<Rightarrow> Err JBounds | Some r \<Rightarrow> rbind r (\<lambda>p. Ok (pr_aid p)))"

definition api_package_of :: "api_package list \<Rightarrow> linked \<Rightarrow> byte \<Rightarrow> api_package jres" where
  "api_package_of packages l token =
     rbind (import_aid l token) (\<lambda>aid. ok_or (find (\<lambda>p. ap_aid p = aid) packages) JUnsupported)"

definition link_api_class :: "api_package list \<Rightarrow> linked \<Rightarrow> byte \<Rightarrow> byte \<Rightarrow> api_class jres" where
  "link_api_class packages l token c =
     rbind (api_package_of packages l token) (\<lambda>p. ok_or (find (\<lambda>e. ac_token e = c) (ap_classes p)) JMissing)"

definition link_api_method :: "api_package list \<Rightarrow> linked \<Rightarrow> byte \<Rightarrow> byte \<Rightarrow> byte \<Rightarrow> bool \<Rightarrow> api_target jres" where
  "link_api_method packages l token c m static_token =
     rbind (api_package_of packages l token) (\<lambda>p.
     rbind (ok_or (find (\<lambda>e. ac_token e = c) (ap_classes p)) JMissing) (\<lambda>k.
     rbind (ok_or (find (\<lambda>e. am_token e = m \<and> am_static_token e = static_token) (ac_methods k)) JMissing) (\<lambda>m.
     Ok \<lparr>at_package = p, at_class = k, at_method = m\<rparr>)))"

fun satisfied_imports :: "api_package list \<Rightarrow> package_ref list \<Rightarrow> unit jres" where
  "satisfied_imports packages [] = Ok ()"
| "satisfied_imports packages (i # is) =
     rbind (ok_or (find (\<lambda>p. ap_aid p = pr_aid i) packages) JUnsupported) (\<lambda>p.
     if \<not> satisfied_by i (ap_major p) (ap_minor p) then Err JUnsupported else satisfied_imports packages is)"

definition imports_resolve :: "api_package list \<Rightarrow> linked \<Rightarrow> unit jres" where
  "imports_resolve packages l = rbind (file_imports (lk_file l)) (\<lambda>t.
     case import_iter t of None \<Rightarrow> Err JBounds | Some is \<Rightarrow> satisfied_imports packages is)"

definition link_class_ref :: "linked \<Rightarrow> u16 \<Rightarrow> u16 jres" where
  "link_class_ref l index = rbind (link_constants l) (\<lambda>p. rbind (constants_get p index) (\<lambda>e.
     ok_or (internal_class e) JUnsupported))"

section \<open>Assignment compatibility\<close>

fun class_chain_matches :: "class_component \<Rightarrow> class_ref \<Rightarrow> nat \<Rightarrow> class_ref \<Rightarrow> bool jres" where
  "class_chain_matches k target 0 r = Ok False"
| "class_chain_matches k target (Suc n) r =
     (case r of Internal offset \<Rightarrow>
        if target = Internal offset then Ok True
        else rbind (class_at k offset) (\<lambda>c.
          if list_ex (\<lambda>(implemented, _). implemented = target) (class_interfaces c) then Ok True
          else class_chain_matches k target n (ci_super c))
      | _ \<Rightarrow> Ok (r = target))"

definition class_matches_target :: "api_package list \<Rightarrow> linked \<Rightarrow> u16 \<Rightarrow> class_ref \<Rightarrow> bool jres" where
  "class_matches_target packages l c target =
     (if target = No_Class then Err JFormat
      else if is_native_class c then
        (case target of External package token \<Rightarrow>
           rbind (link_api_class packages l package token) (\<lambda>wanted.
           rbind (ok_or (index_where (\<lambda>p. List.member (ap_classes p) wanted) packages) JMissing) (\<lambda>at.
           Ok (native_is_a packages c (native_class at (ac_token wanted)))))
         | _ \<Rightarrow> Ok False)
      else class_chain_matches (lk_classes l) target CHAIN (Internal c))"

definition link_class_matches :: "api_package list \<Rightarrow> linked \<Rightarrow> u16 \<Rightarrow> u16 \<Rightarrow> bool jres" where
  "link_class_matches packages l c index =
     rbind (link_constants l) (\<lambda>p. rbind (constants_get p index) (\<lambda>e.
     if ce_tag e \<noteq> CONSTANT_CLASSREF then Err JFormat
     else class_matches_target packages l c (class_ref_decode (entry_high e))))"

definition class_reference_is_object :: "api_package list \<Rightarrow> linked \<Rightarrow> class_ref \<Rightarrow> bool jres" where
  "class_reference_is_object packages l target =
     (case target of No_Class \<Rightarrow> Ok True
      | External package c \<Rightarrow> rbind (link_api_class packages l package c) (\<lambda>a. Ok (ac_id a = Object_Id))
      | Internal _ \<Rightarrow> Ok False)"

section \<open>Dispatch\<close>

definition table_entry :: "class_info \<Rightarrow> byte \<Rightarrow> bool \<Rightarrow> u16 option" where
  "table_entry c token private =
     (let base = (if private then ci_package_base c else ci_public_base c);
          table = (if private then ci_package c else ci_public c) in
      if token < base then None
      else let index = unat (token - base) in
        map_option (\<lambda>e. be16 (e ! 0) (e ! 1)) (get_range table (index * 2) (index * 2 + 2)))"

fun lookup_from :: "class_component \<Rightarrow> byte \<Rightarrow> bool \<Rightarrow> nat \<Rightarrow> class_ref \<Rightarrow> u16 jres" where
  "lookup_from k token private 0 r = Err JFormat"
| "lookup_from k token private (Suc n) r =
     (case r of Internal offset \<Rightarrow>
        rbind (class_at k offset) (\<lambda>c.
        case table_entry c token private of
          Some m \<Rightarrow> if m \<noteq> 0xffff then Ok m else lookup_from k token private n (ci_super c)
        | None \<Rightarrow> lookup_from k token private n (ci_super c))
      | _ \<Rightarrow> Err JMissing)"

definition link_lookup :: "linked \<Rightarrow> u16 \<Rightarrow> byte \<Rightarrow> u16 jres" where
  "link_lookup l c token =
     lookup_from (lk_classes l) (token AND NOT PRIVATE_TOKEN) (token AND PRIVATE_TOKEN \<noteq> 0) CHAIN (Internal c)"

definition virtual_ref :: "linked \<Rightarrow> u16 \<Rightarrow> (u16 \<times> byte) jres" where
  "virtual_ref l index =
     rbind (link_constants l) (\<lambda>p. rbind (constants_get p index) (\<lambda>e.
     let t = ce_tag e in
     if t \<noteq> CONSTANT_VIRTUAL_METHODREF \<and> t \<noteq> CONSTANT_SUPER_METHODREF then Err JType
     else rbind (link_entry l index t) (\<lambda>(a, b, token).
       case class_ref_decode (be16 a b) of Internal c \<Rightarrow> Ok (c, token) | _ \<Rightarrow> Err JUnsupported)))"

definition super_of :: "linked \<Rightarrow> u16 \<Rightarrow> u16 jres" where
  "super_of l c = rbind (class_at (lk_classes l) c) (\<lambda>i.
     case ci_super i of Internal offset \<Rightarrow> Ok offset | _ \<Rightarrow> Err JUnsupported)"

definition virtual_method :: "linked \<Rightarrow> u16 \<Rightarrow> u16 \<Rightarrow> u16 jres" where
  "virtual_method l index c =
     rbind (link_constants l) (\<lambda>p. rbind (constants_get p index) (\<lambda>e.
     let t = ce_tag e in
     if t \<noteq> CONSTANT_VIRTUAL_METHODREF \<and> t \<noteq> CONSTANT_SUPER_METHODREF then Err JType
     else rbind (link_entry l index t) (\<lambda>(a, b, token).
       rbind (if t = CONSTANT_SUPER_METHODREF then
                (case class_ref_decode (be16 a b) of Internal offset \<Rightarrow> super_of l offset | _ \<Rightarrow> Err JUnsupported)
              else Ok c) (\<lambda>start.
       link_lookup l start token))))"

fun interface_from :: "linked \<Rightarrow> class_ref \<Rightarrow> byte \<Rightarrow> u16 \<Rightarrow> nat \<Rightarrow> class_ref \<Rightarrow> u16 jres" where
  "interface_from l interface token c 0 r = Err JMissing"
| "interface_from l interface token c (Suc n) r =
     (case r of Internal offset \<Rightarrow>
        rbind (class_at (lk_classes l) offset) (\<lambda>i.
        case find (\<lambda>(implemented, _). implemented = interface) (class_interfaces i) of
          Some (_, tokens) \<Rightarrow>
            rbind (ok_or (get_at tokens (unat token)) JBounds) (\<lambda>virtual_token. link_lookup l c virtual_token)
        | None \<Rightarrow> interface_from l interface token c n (ci_super i))
      | _ \<Rightarrow> Err JMissing)"

definition interface_method :: "linked \<Rightarrow> class_ref \<Rightarrow> byte \<Rightarrow> u16 \<Rightarrow> u16 jres" where
  "interface_method l interface token c = interface_from l interface token c CHAIN (Internal c)"

section \<open>Layout of instances\<close>

text \<open>One step up the superclass chain inside the package.\<close>

definition extends :: "class_component \<Rightarrow> u16 \<Rightarrow> u16 \<Rightarrow> bool" where
  "extends k c d \<longleftrightarrow> (\<exists>i. class_at k c = Ok i \<and> ci_super i = Internal d)"

lemma checked_add_u16_eq: "checked_add_u16 a b = Some c \<longleftrightarrow> unat c = unat a + unat b \<and> unat a + unat b \<le> 65535"
proof -
  have "unat (a + b) = unat a + unat b" if "unat a + unat b \<le> 65535"
    using that by (simp add: unat_word_ariths)
  then show ?thesis
    by (auto simp: checked_add_u16_def word_unat_eq_iff)
qed

lemma sum_words_more: "sum_words k n r acc = Ok w \<Longrightarrow> n \<le> m \<Longrightarrow> sum_words k m r acc = Ok w"
proof (induction n arbitrary: m r acc)
  case (Suc n)
  then obtain m' where "m = Suc m'" "n \<le> m'"
    by (metis Suc_le_D Suc_le_mono)
  then show ?case
    using Suc by (auto simp: rbind_eq_Ok split: class_ref.splits)
qed simp

lemma sum_words_mono: "sum_words k n r acc = Ok w \<Longrightarrow> unat acc \<le> unat w"
  by (induction n arbitrary: r acc) (fastforce simp: rbind_eq_Ok checked_add_u16_eq split: class_ref.splits)+

text \<open>Starting the sum elsewhere shifts it, as long as the result stays a word count.\<close>

lemma sum_words_from:
  "sum_words k n r acc = Ok w \<Longrightarrow> unat acc + d \<le> unat acc' + d' \<Longrightarrow> unat acc' + d' \<le> unat acc + d
    \<Longrightarrow> unat w + d - d' \<le> 65535 \<Longrightarrow> d' \<le> unat w + d \<Longrightarrow> \<exists>w'. sum_words k n r acc' = Ok w' \<and> unat w' + d' = unat w + d"
proof (induction n arbitrary: r acc acc')
  case (Suc n)
  show ?case
  proof (cases r)
    case (Internal offset)
    with Suc.prems obtain c next_acc where c: "class_at k offset = Ok c" and a: "unat next_acc = unat acc + unat (ci_declared c)"
      and s: "sum_words k n (ci_super c) next_acc = Ok w"
      by (auto simp: rbind_eq_Ok checked_add_u16_eq)
    have mono: "unat next_acc \<le> unat w"
      using sum_words_mono [OF s] .
    define b where "b = acc' + ucast (ci_declared c)"
    have small: "unat acc' + unat (ci_declared c) \<le> 65535"
      using a mono Suc.prems by linarith
    then have b: "unat b = unat acc' + unat (ci_declared c)" "checked_add_u16 acc' (ucast (ci_declared c)) = Some b"
      by (simp_all add: b_def checked_add_u16_def unat_word_ariths)
    show ?thesis
      using Suc.IH [OF s, of b] Suc.prems a b c by (simp add: Internal)
  qed (use Suc.prems in auto)
qed simp

lemma sum_words_zero:
  assumes "sum_words k n r acc = Ok w"
  shows "\<exists>v. sum_words k n r 0 = Ok v \<and> unat w = unat acc + unat v"
proof -
  have "unat w - unat acc \<le> 65535"
    using unat_u16_less [of w] by linarith
  then obtain v where "sum_words k n r 0 = Ok v" "unat v + unat acc = unat w"
    using sum_words_from [OF assms, of 0 0 "unat acc"] sum_words_mono [OF assms] by auto
  then show ?thesis by auto
qed

text \<open>The words of a class are those of its superclass and its own.\<close>

lemma instance_words_step:
  assumes "instance_words l c = Ok w"
  shows "\<exists>i base. class_at (lk_classes l) c = Ok i \<and> inherited_words l c = Ok base \<and> unat w = unat base + unat (ci_declared i)"
proof -
  have "sum_words (lk_classes l) (Suc 255) (Internal c) 0 = Ok w"
    using assms by (simp add: instance_words_def)
  then obtain i where i: "class_at (lk_classes l) c = Ok i" "sum_words (lk_classes l) 255 (ci_super i) (ucast (ci_declared i)) = Ok w"
    unfolding sum_words.simps by (auto simp: rbind_eq_Ok checked_add_u16_def split: if_splits)
  obtain base where base: "sum_words (lk_classes l) 255 (ci_super i) 0 = Ok base" "unat w = unat (ci_declared i) + unat base"
    using sum_words_zero [OF i(2)] by auto
  have "inherited_words l c = Ok base"
  proof (cases "ci_super i")
    case (Internal d)
    then show ?thesis
      using i(1) sum_words_more [OF base(1), of CHAIN] by (simp add: inherited_words_def instance_words_def)
  qed (use i(1) base(1) in \<open>simp_all add: inherited_words_def eval_nat_numeral\<close>)
  then show ?thesis
    using i(1) base(2) by auto
qed

lemma extends_words:
  assumes "instance_words l c = Ok w" and "(extends (lk_classes l))\<^sup>*\<^sup>* c d"
  shows "\<exists>v. instance_words l d = Ok v \<and> unat v \<le> unat w"
  using assms(2)
proof (induction rule: rtranclp_induct)
  case (step d e)
  then obtain v where v: "instance_words l d = Ok v" "unat v \<le> unat w" by blast
  obtain i base where i: "class_at (lk_classes l) d = Ok i" "inherited_words l d = Ok base" "unat v = unat base + unat (ci_declared i)"
    using instance_words_step [OF v(1)] by blast
  then show ?case
    using step(2) v(2) by (auto simp: extends_def inherited_words_def)
qed (use assms(1) in auto)

section \<open>Dispatch finds the nearest body\<close>

fun superclass_path :: "class_component \<Rightarrow> u16 list \<Rightarrow> bool" where
  "superclass_path k (c # d # path) \<longleftrightarrow> extends k c d \<and> superclass_path k (d # path)"
| "superclass_path k path = True"

definition own_entry :: "class_component \<Rightarrow> byte \<Rightarrow> bool \<Rightarrow> u16 \<Rightarrow> u16 option jres" where
  "own_entry k token private c = rbind (class_at k c) (\<lambda>i. Ok (table_entry i token private))"

definition defines_method :: "class_component \<Rightarrow> byte \<Rightarrow> u16 \<Rightarrow> u16 \<Rightarrow> bool" where
  "defines_method k token c m \<longleftrightarrow> m \<noteq> 0xffff \<and> own_entry k (token AND NOT PRIVATE_TOKEN) (token AND PRIVATE_TOKEN \<noteq> 0) c = Ok (Some m)"

definition inherits_method :: "class_component \<Rightarrow> byte \<Rightarrow> u16 \<Rightarrow> bool" where
  "inherits_method k token c \<longleftrightarrow> own_entry k (token AND NOT PRIVATE_TOKEN) (token AND PRIVATE_TOKEN \<noteq> 0) c \<in> {Ok None, Ok (Some 0xffff)}"

lemma lookup_from_path:
  "lookup_from k token private n (Internal c) = Ok m \<longleftrightarrow>
    (\<exists>path. path \<noteq> [] \<and> length path \<le> n \<and> hd path = c \<and> superclass_path k path
      \<and> m \<noteq> 0xffff \<and> own_entry k token private (List.last path) = Ok (Some m)
      \<and> list_all (\<lambda>d. own_entry k token private d \<in> {Ok None, Ok (Some 0xffff)}) (butlast path))"
proof (induction n arbitrary: c)
  case 0
  then show ?case by simp
next
  case (Suc n)
  let ?ok = "\<lambda>n c path. path \<noteq> [] \<and> length path \<le> n \<and> hd path = c \<and> superclass_path k path
      \<and> m \<noteq> 0xffff \<and> own_entry k token private (List.last path) = Ok (Some m)
      \<and> list_all (\<lambda>d. own_entry k token private d \<in> {Ok None, Ok (Some 0xffff)}) (butlast path)"
  have "lookup_from k token private (Suc n) (Internal c) = Ok m \<longleftrightarrow>
      m \<noteq> 0xffff \<and> own_entry k token private c = Ok (Some m)
      \<or> own_entry k token private c \<in> {Ok None, Ok (Some 0xffff)} \<and> (\<exists>d. extends k c d \<and> lookup_from k token private n (Internal d) = Ok m)"
  proof (cases "class_at k c")
    case (Ok i)
    have "lookup_from k token private n (ci_super i) = Ok m \<longleftrightarrow> (\<exists>d. extends k c d \<and> lookup_from k token private n (Internal d) = Ok m)"
      using Ok by (cases "ci_super i"; cases n) (auto simp: extends_def)
    then show ?thesis
      using Ok by (auto simp: own_entry_def split: option.splits)
  qed (simp add: own_entry_def)
  also have "\<dots> \<longleftrightarrow> (\<exists>path. ?ok (Suc n) c path)"
  proof
    assume "m \<noteq> 0xffff \<and> own_entry k token private c = Ok (Some m)
      \<or> own_entry k token private c \<in> {Ok None, Ok (Some 0xffff)} \<and> (\<exists>d. extends k c d \<and> lookup_from k token private n (Internal d) = Ok m)"
    then show "\<exists>path. ?ok (Suc n) c path"
    proof
      assume "m \<noteq> 0xffff \<and> own_entry k token private c = Ok (Some m)"
      then show ?thesis by (intro exI [of _ "[c]"]) simp
    next
      assume own: "own_entry k token private c \<in> {Ok None, Ok (Some 0xffff)} \<and> (\<exists>d. extends k c d \<and> lookup_from k token private n (Internal d) = Ok m)"
      then obtain d path where d: "extends k c d" "?ok n d path" unfolding Suc.IH by blast
      then have "?ok (Suc n) c (c # path)"
        using own by (cases path) auto
      then show ?thesis by blast
    qed
  next
    assume "\<exists>path. ?ok (Suc n) c path"
    then obtain path where path: "?ok (Suc n) c path" by blast
    then obtain rest where rest: "path = c # rest" by (cases path) auto
    show "m \<noteq> 0xffff \<and> own_entry k token private c = Ok (Some m)
      \<or> own_entry k token private c \<in> {Ok None, Ok (Some 0xffff)} \<and> (\<exists>d. extends k c d \<and> lookup_from k token private n (Internal d) = Ok m)"
    proof (cases rest)
      case Nil
      then show ?thesis using path by (simp add: rest)
    next
      case (Cons d more_path)
      then have "?ok n d rest" "extends k c d" using path by (simp_all add: rest)
      then show ?thesis
        unfolding Suc.IH using path by (intro disjI2 conjI exI [of _ d]) (auto simp: rest Cons)
    qed
  qed
  finally show ?case .
qed

section \<open>Properties\<close>


definition sample_linked :: linked where
  "sample_linked = \<lparr>lk_file = empty_file, lk_classes = \<lparr>kc_info =
     [0, 0xff, 0xff, 2, 0, 0, 0, 0, 0, 0,
      0, 0, 0, 1, 0, 1, 0, 0, 0, 0], kc_entries = 0\<rparr>\<rparr>"

lemma sample_classes:
  "class_at (lk_classes sample_linked) 10 = Ok \<lparr>ci_offset = 10, ci_flags = 0, ci_super = Internal 0, ci_declared = 1,
     ci_first_reference = 0, ci_reference_count = 1, ci_public_base = 0, ci_package_base = 0, ci_public = [], ci_package = [],
     ci_interfaces = [], ci_interface_count = 0, ci_length = 10\<rparr>"
  "class_at (lk_classes sample_linked) 0 = Ok \<lparr>ci_offset = 0, ci_flags = 0, ci_super = No_Class, ci_declared = 2,
     ci_first_reference = 0, ci_reference_count = 0, ci_public_base = 0, ci_package_base = 0, ci_public = [], ci_package = [],
     ci_interfaces = [], ci_interface_count = 0, ci_length = 10\<rparr>"
  by (simp_all add: class_at_def sample_linked_def class_entry_def Let_def get_at_def get_range_def slice_of_def
      class_ref_decode_def be16_def be_value_def)


text \<open>
  C27 (virtual_dispatch_nearest). Virtual dispatch on a class finds the body of the nearest class on
  the superclass chain that defines one: the entry comes from the method table of a class reached by
  superclass steps, it is a real offset, and every class on the way up to it has no entry for the
  token or the inherited mark. Conversely the nearest entry is what dispatch returns, whenever it
  is reached within the 256 classes the walk visits.
\<close>

theorem virtual_dispatch_nearest:
  "link_lookup l c token = Ok m \<longleftrightarrow>
    (\<exists>path. path \<noteq> [] \<and> length path \<le> 256 \<and> hd path = c \<and> superclass_path (lk_classes l) path
      \<and> defines_method (lk_classes l) token (List.last path) m
      \<and> list_all (inherits_method (lk_classes l) token) (butlast path))"
  unfolding link_lookup_def using lookup_from_path [of "lk_classes l" "token AND NOT PRIVATE_TOKEN" "token AND PRIVATE_TOKEN \<noteq> 0" CHAIN c m]
  by (simp add: defines_method_def inherits_method_def [abs_def])

end
