(* ===== verification/Interpreter.thy ===== *)
theory Interpreter
  imports Link Method_Verifier "HOL-Library.Signed_Division"
begin

text \<open>
  The instruction dispatch loop of the Java Card engine
  (\<open>src/crates/microcard-engine-jcvm/src/vm/exec.rs\<close>) and the dispatch of native calls
  (\<open>call_with_budget\<close> of \<open>natives.rs\<close>). The state \<open>vm\<close> holds what the code mutates: the parts of the
  machine, the frame of the running method, the rest of the arena and the instruction budget. The
  environment \<open>env\<close> holds what stays fixed during a command. The framework and security natives
  that \<open>call_with_budget\<close> forwards to are parameters of the environment, as is the cancellation
  callback, of which only the sequence of answers matters. Arithmetic wraps as in the release build.

  One match dispatches all opcodes; here each group of its arms is a definition, and \<open>Continue\<close>,
  \<open>Jump\<close> and \<open>Finish\<close> tell where control goes. A method body runs in a loop and calls run inside it,
  so the loop takes fuel; running out of fuel is a stop of its own, told apart from every error.
\<close>

section \<open>State\<close>

datatype outcome = Void | Short i16 | Int_Outcome i32 | Ref_Outcome reference | Thrown reference

definition MAX_DEPTH :: nat where "MAX_DEPTH = 16"

record 'h native_context =
  nc_heap :: heap
  nc_host :: 'h
  nc_frame :: frame
  nc_jcre :: jcre
  nc_budget :: nat
  nc_statics :: bytes

type_synonym ('h, 'a) nact = "('h native_context, 'a) jact"

record 'h vm =
  vm_heap :: heap
  vm_host :: 'h
  vm_statics :: bytes
  vm_jcre :: jcre
  vm_depth :: nat
  vm_polls :: nat
  vm_budget :: nat
  vm_frame :: frame
  vm_words :: "u16 list"
  vm_tags :: bytes

record 'h env =
  ev_packages :: "api_package list"
  ev_linked :: linked
  ev_methods :: method_component
  ev_context :: jcontext
  ev_limits :: limits
  ev_cancel :: "(nat \<Rightarrow> bool) option"
  ev_framework :: "api_target \<Rightarrow> jcontext \<Rightarrow> ('h, native) nact"
  ev_security :: "class_id \<Rightarrow> method_id \<Rightarrow> byte \<Rightarrow> jcontext \<Rightarrow> ('h, native) nact"

datatype flow = Continue | Jump nat | Finish outcome

type_synonym ('h, 'a) vact = "('h vm, 'a) jact"

definition on_frame :: "'a fact \<Rightarrow> ('h, 'a) vact" where
  "on_frame m s = (case m (vm_frame s) of (r, f) \<Rightarrow> (r, s\<lparr>vm_frame := f\<rparr>))"

definition on_heap :: "'a hact \<Rightarrow> ('h, 'a) vact" where
  "on_heap m s = (case m (vm_heap s) of (r, h) \<Rightarrow> (r, s\<lparr>vm_heap := h\<rparr>))"

definition of_frame :: "(frame \<Rightarrow> 'a jres) \<Rightarrow> ('h, 'a) vact" where
  "of_frame g = sget (\<lambda>s. g (vm_frame s))"

definition of_heap :: "(heap \<Rightarrow> 'a jres) \<Rightarrow> ('h, 'a) vact" where
  "of_heap g = sget (\<lambda>s. g (vm_heap s))"

definition continuing :: "('h, unit) vact \<Rightarrow> ('h, flow) vact" where
  "continuing m = sbind m (\<lambda>_. sret Continue)"

definition throwing :: "('h, reference) vact \<Rightarrow> ('h, flow) vact" where
  "throwing m = sbind m (\<lambda>ex. sret (Finish (Thrown ex)))"

definition vm_exception :: "'h env \<Rightarrow> class_id \<Rightarrow> ('h, reference) vact" where
  "vm_exception ev name = on_heap (new_exception (ev_packages ev) name (ev_context ev))"

definition abort_unfinished_transaction :: "('h, bool) vact" where
  "abort_unfinished_transaction s =
     (if transaction_remaining (vm_heap s) = None then (Ok False, s)
      else case abort_transaction (vm_statics s) (vm_heap s) of
        (Err e, h, statics) \<Rightarrow> (Err e, s\<lparr>vm_heap := h, vm_statics := statics\<rparr>)
      | (Ok _, h, statics) \<Rightarrow> (Ok True, s\<lparr>vm_heap := h, vm_statics := statics\<rparr>))"

section \<open>Operands\<close>

definition compares :: "byte \<Rightarrow> int \<Rightarrow> int \<Rightarrow> bool" where
  "compares index left right =
     (if index = 0 then left = right else if index = 1 then left \<noteq> right else if index = 2 then left < right
      else if index = 3 then left \<ge> right else if index = 4 then left > right else left \<le> right)"

definition code_byte :: "bytes \<Rightarrow> nat \<Rightarrow> byte jres" where
  "code_byte code at = ok_or (get_at code at) JBounds"

definition jump_target :: "nat \<Rightarrow> int \<Rightarrow> nat \<Rightarrow> nat jres" where
  "jump_target pc offset n =
     (let target = int pc + offset in if target < 0 \<or> target \<ge> int n then Err JBounds else Ok (nat target))"

definition branch :: "bytes \<Rightarrow> nat \<Rightarrow> bool \<Rightarrow> nat jres" where
  "branch code pc wide =
     rbind (if wide then rbind (code_word code (pc + 1)) (\<lambda>w. Ok (sint w))
            else rbind (code_byte code (pc + 1)) (\<lambda>b. Ok (sint b))) (\<lambda>offset.
     jump_target pc offset (length code))"

definition bounded_index :: "i16 \<Rightarrow> u16 \<Rightarrow> nat jres" where
  "bounded_index index n = (if sint index < 0 \<or> index \<ge> n then Err JArrayBounds else Ok (unat index))"

definition array_kind :: "byte \<Rightarrow> byte jres" where
  "array_kind atype =
     (if atype = 10 then Ok KIND_BOOLEAN else if atype = 11 then Ok KIND_BYTE
      else if atype = 12 then Ok KIND_SHORT else if atype = 13 then Ok KIND_INT else Err JFormat)"

definition pool_index :: "bytes \<Rightarrow> nat \<Rightarrow> u16 jres" where
  "pool_index code pc = rbind (constant_pool_index code pc) (\<lambda>named.
     rbind (ok_or named JFormat) (\<lambda>(_, index). Ok index))"

definition pool_entry :: "'h env \<Rightarrow> u16 \<Rightarrow> cap_entry jres" where
  "pool_entry ev index = rbind (link_constants (ev_linked ev)) (\<lambda>p. constants_get p index)"

section \<open>Constants, locals and the stack\<close>

definition exec_push :: "bytes \<Rightarrow> nat \<Rightarrow> byte \<Rightarrow> ('h, flow) vact" where
  "exec_push code pc opc =
     (if opc = 0 then sret Continue
      else if opc = 1 then continuing (on_frame (push_reference 0))
      else if 2 \<le> opc \<and> opc \<le> 8 then continuing (on_frame (push_short (ucast opc - 2 - 1)))
      else if 9 \<le> opc \<and> opc \<le> 15 then continuing (on_frame (push_int (ucast opc - 9 - 1)))
      else if opc = 16 \<or> opc = 18 then
        sbind (slift (code_byte code (pc + 1))) (\<lambda>b.
        continuing (on_frame (if opc = 16 then push_short (scast b) else push_int (scast b))))
      else if opc = 17 \<or> opc = 19 then
        sbind (slift (code_word code (pc + 1))) (\<lambda>w.
        continuing (on_frame (if opc = 17 then push_short w else push_int (scast w))))
      else sbind (slift (code_long code (pc + 1))) (\<lambda>v. continuing (on_frame (push_int v))))"

definition load_push_reference :: "nat \<Rightarrow> ('h, flow) vact" where
  "load_push_reference index = sbind (of_frame (load_reference index)) (\<lambda>v. continuing (on_frame (push_reference v)))"

definition load_push_short :: "nat \<Rightarrow> ('h, flow) vact" where
  "load_push_short index = sbind (of_frame (load_short index)) (\<lambda>v. continuing (on_frame (push_short v)))"

definition load_push_int :: "nat \<Rightarrow> ('h, flow) vact" where
  "load_push_int index = sbind (of_frame (load_int index)) (\<lambda>v. continuing (on_frame (push_int v)))"

definition exec_load :: "bytes \<Rightarrow> nat \<Rightarrow> byte \<Rightarrow> ('h, flow) vact" where
  "exec_load code pc opc =
     (let operand = (\<lambda>k. sbind (slift (code_byte code (pc + 1))) (\<lambda>b. k (unat b))) in
      if opc = 21 then operand load_push_reference
      else if opc = 22 then operand load_push_short
      else if opc = 23 then operand load_push_int
      else if opc \<le> 27 then load_push_reference (unat (opc - 24))
      else if opc \<le> 31 then load_push_short (unat (opc - 28))
      else load_push_int (unat (opc - 32)))"

text \<open>A store takes its value before it reads the operand.\<close>

definition exec_store :: "bytes \<Rightarrow> nat \<Rightarrow> byte \<Rightarrow> ('h, flow) vact" where
  "exec_store code pc opc =
     (let operand = (\<lambda>k. sbind (slift (code_byte code (pc + 1))) (\<lambda>b. continuing (on_frame (k (unat b))))) in
      if opc = 40 then sbind (on_frame pop_reference) (\<lambda>v. operand (\<lambda>i. store_reference i v))
      else if opc = 41 then sbind (on_frame pop_short) (\<lambda>v. operand (\<lambda>i. store_short i v))
      else if opc = 42 then sbind (on_frame pop_int) (\<lambda>v. operand (\<lambda>i. store_int i v))
      else if opc \<le> 46 then sbind (on_frame pop_reference) (\<lambda>v. continuing (on_frame (store_reference (unat (opc - 43)) v)))
      else if opc \<le> 50 then sbind (on_frame pop_short) (\<lambda>v. continuing (on_frame (store_short (unat (opc - 47)) v)))
      else sbind (on_frame pop_int) (\<lambda>v. continuing (on_frame (store_int (unat (opc - 51)) v))))"

definition exec_stack :: "bytes \<Rightarrow> nat \<Rightarrow> byte \<Rightarrow> ('h, flow) vact" where
  "exec_stack code pc opc =
     (let operand = (\<lambda>k. sbind (slift (code_byte code (pc + 1))) (\<lambda>mn.
            continuing (on_frame (k (unat (drop_bit 4 mn)) (unat (mn AND 0x0f)))))) in
      if opc = 59 then continuing (on_frame (pop_words 1))
      else if opc = 60 then continuing (on_frame (pop_words 2))
      else if opc = 61 then continuing (on_frame (duplicate 1 0))
      else if opc = 62 then continuing (on_frame (duplicate 2 0))
      else if opc = 63 then operand duplicate
      else operand swap)"

section \<open>Arithmetic\<close>

text \<open>
  \<open>wrapping_div\<close> and \<open>wrapping_rem\<close> round toward zero and wrap the one overflowing quotient; shifts by
  a distance below the width.
\<close>

definition wrapping_div :: "'w::len word \<Rightarrow> 'w word \<Rightarrow> 'w word" where
  "wrapping_div a b = word_of_int (sint a sdiv sint b)"

definition wrapping_rem :: "'w::len word \<Rightarrow> 'w word \<Rightarrow> 'w word" where
  "wrapping_rem a b = word_of_int (sint a smod sint b)"

definition binary_result :: "nat \<Rightarrow> 'w::len word \<Rightarrow> 'w word \<Rightarrow> 'w word" where
  "binary_result which left right =
     (if which = 0 then left + right else if which = 1 then left - right else if which = 2 then left * right
      else if which = 3 then left AND right else if which = 4 then left OR right else left XOR right)"

definition shift_result :: "nat \<Rightarrow> 'w::len word \<Rightarrow> nat \<Rightarrow> 'w word" where
  "shift_result which v distance =
     (if which = 0 then push_bit distance v else if which = 1 then signed_drop_bit distance v else drop_bit distance v)"

text \<open>Which of the six binary operations an opcode of the short or int family names.\<close>

definition binary_kind :: "byte \<Rightarrow> nat" where
  "binary_kind opc =
     (if opc = 65 \<or> opc = 66 then 0 else if opc = 67 \<or> opc = 68 then 1 else if opc = 69 \<or> opc = 70 then 2
      else if opc = 83 \<or> opc = 84 then 3 else if opc = 85 \<or> opc = 86 then 4 else 5)"

definition exec_short :: "byte \<Rightarrow> ('h, flow) vact" where
  "exec_short opc =
     (if opc = 71 \<or> opc = 73 then
        sbind (on_frame pop_short) (\<lambda>right. sbind (on_frame pop_short) (\<lambda>left.
        if right = 0 then sfail JArithmetic
        else continuing (on_frame (push_short (if opc = 71 then wrapping_div left right else wrapping_rem left right)))))
      else if opc = 75 then sbind (on_frame pop_short) (\<lambda>v. continuing (on_frame (push_short (- v))))
      else if opc = 77 \<or> opc = 79 \<or> opc = 81 then
        sbind (on_frame pop_short) (\<lambda>d. sbind (on_frame pop_short) (\<lambda>v.
        continuing (on_frame (push_short (shift_result (if opc = 77 then 0 else if opc = 79 then 1 else 2) v (unat (d AND 0x0f)))))))
      else
        sbind (on_frame pop_short) (\<lambda>right. sbind (on_frame pop_short) (\<lambda>left.
        continuing (on_frame (push_short (binary_result (binary_kind opc) left right))))))"

definition exec_int :: "byte \<Rightarrow> ('h, flow) vact" where
  "exec_int opc =
     (if opc = 72 \<or> opc = 74 then
        sbind (on_frame pop_int) (\<lambda>right. sbind (on_frame pop_int) (\<lambda>left.
        if right = 0 then sfail JArithmetic
        else continuing (on_frame (push_int (if opc = 72 then wrapping_div left right else wrapping_rem left right)))))
      else if opc = 76 then sbind (on_frame pop_int) (\<lambda>v. continuing (on_frame (push_int (- v))))
      else if opc = 78 \<or> opc = 80 \<or> opc = 82 then
        sbind (on_frame pop_short) (\<lambda>d. sbind (on_frame pop_int) (\<lambda>v.
        continuing (on_frame (push_int (shift_result (if opc = 78 then 0 else if opc = 80 then 1 else 2) v (unat (d AND 0x1f)))))))
      else
        sbind (on_frame pop_int) (\<lambda>right. sbind (on_frame pop_int) (\<lambda>left.
        continuing (on_frame (push_int (binary_result (binary_kind opc) left right))))))"

definition exec_increment :: "bytes \<Rightarrow> nat \<Rightarrow> byte \<Rightarrow> ('h, flow) vact" where
  "exec_increment code pc opc =
     sbind (slift (code_byte code (pc + 1))) (\<lambda>index.
     if opc = 89 \<or> opc = 150 then
       sbind (slift (if opc = 89 then rbind (code_byte code (pc + 2)) (\<lambda>b. Ok (scast b)) else code_word code (pc + 2))) (\<lambda>by_value.
       sbind (of_frame (load_short (unat index))) (\<lambda>v.
       continuing (on_frame (store_short (unat index) (v + by_value)))))
     else
       sbind (slift (if opc = 90 then rbind (code_byte code (pc + 2)) (\<lambda>b. Ok (scast b))
                     else rbind (code_word code (pc + 2)) (\<lambda>w. Ok (scast w)))) (\<lambda>by_value.
       sbind (of_frame (load_int (unat index))) (\<lambda>v.
       continuing (on_frame (store_int (unat index) (v + by_value))))))"

definition exec_convert :: "byte \<Rightarrow> ('h, flow) vact" where
  "exec_convert opc =
     (if opc = 91 then sbind (on_frame pop_short) (\<lambda>v. continuing (on_frame (push_short (scast (ucast v :: byte)))))
      else if opc = 92 then sbind (on_frame pop_short) (\<lambda>v. continuing (on_frame (push_int (scast v))))
      else if opc = 93 then sbind (on_frame pop_int) (\<lambda>v. continuing (on_frame (push_short (scast (ucast v :: byte)))))
      else if opc = 94 then sbind (on_frame pop_int) (\<lambda>v. continuing (on_frame (push_short (ucast v))))
      else sbind (on_frame pop_int) (\<lambda>right. sbind (on_frame pop_int) (\<lambda>left.
        continuing (on_frame (push_short (if sint left < sint right then - 1 else if left = right then 0 else 1))))))"

section \<open>Branches and switches\<close>

definition branch_when :: "bytes \<Rightarrow> nat \<Rightarrow> bool \<Rightarrow> bool \<Rightarrow> ('h, flow) vact" where
  "branch_when code pc wide b = (if b then sbind (slift (branch code pc wide)) (\<lambda>t. sret (Jump t)) else sret Continue)"

definition exec_branch :: "bytes \<Rightarrow> nat \<Rightarrow> byte \<Rightarrow> ('h, flow) vact" where
  "exec_branch code pc opc =
     (if 96 \<le> opc \<and> opc \<le> 101 \<or> 152 \<le> opc \<and> opc \<le> 157 then
        let wide = (opc \<ge> 152); index = opc - (if wide then 152 else 96) in
        sbind (on_frame pop_short) (\<lambda>v. branch_when code pc wide (compares index (sint v) 0))
      else if opc = 102 \<or> opc = 103 \<or> opc = 158 \<or> opc = 159 then
        sbind (on_frame pop_reference) (\<lambda>v. branch_when code pc (opc \<ge> 158) ((v = 0) = (opc = 102 \<or> opc = 158)))
      else if opc = 104 \<or> opc = 105 \<or> opc = 160 \<or> opc = 161 then
        sbind (on_frame pop_reference) (\<lambda>right. sbind (on_frame pop_reference) (\<lambda>left.
        branch_when code pc (opc \<ge> 160) ((left = right) = (opc = 104 \<or> opc = 160))))
      else if 106 \<le> opc \<and> opc \<le> 111 \<or> 162 \<le> opc \<and> opc \<le> 167 then
        let wide = (opc \<ge> 162); index = opc - (if wide then 162 else 106) in
        sbind (on_frame pop_short) (\<lambda>right. sbind (on_frame pop_short) (\<lambda>left.
        branch_when code pc wide (compares index (sint left) (sint right))))
      else branch_when code pc (opc = 168) True)"

definition pop_key :: "bool \<Rightarrow> ('h, int) vact" where
  "pop_key wide = (if wide then sbind (on_frame pop_int) (\<lambda>v. sret (sint v)) else sbind (on_frame pop_short) (\<lambda>v. sret (sint v)))"

definition exec_table_switch :: "bytes \<Rightarrow> nat \<Rightarrow> bool \<Rightarrow> ('h, flow) vact" where
  "exec_table_switch code pc wide =
     sbind (pop_key wide) (\<lambda>index.
     sbind (slift (switch_range code pc wide)) (\<lambda>(low, high).
     sbind (slift (if index < low \<or> index > high then code_word code (pc + 1)
                   else code_word code (usize_wrap (pc + switch_header wide + nat (index - low) * 2)))) (\<lambda>offset.
     sbind (slift (jump_target pc (sint offset) (length code))) (\<lambda>t. sret (Jump t)))))"

text \<open>The search through the pairs of a lookup switch, which ends at the first match.\<close>

fun lookup_pair :: "bytes \<Rightarrow> nat \<Rightarrow> bool \<Rightarrow> int \<Rightarrow> nat \<Rightarrow> i16 \<Rightarrow> i16 jres" where
  "lookup_pair code at wide key 0 dflt = Ok dflt"
| "lookup_pair code at wide key (Suc n) dflt =
     rbind (if wide then rbind (code_long code at) (\<lambda>v. Ok (sint v)) else rbind (code_word code at) (\<lambda>v. Ok (sint v))) (\<lambda>candidate.
     let width = (if wide then 4 else 2) in
     if candidate = key then code_word code (at + width)
     else lookup_pair code (at + (width + 2)) wide key n dflt)"

definition exec_lookup_switch :: "bytes \<Rightarrow> nat \<Rightarrow> bool \<Rightarrow> ('h, flow) vact" where
  "exec_lookup_switch code pc wide =
     sbind (pop_key wide) (\<lambda>key.
     sbind (slift (code_word code (pc + 3))) (\<lambda>pairs.
     sbind (slift (code_word code (pc + 1))) (\<lambda>dflt.
     sbind (slift (lookup_pair code (pc + 5) wide key (unat pairs) dflt)) (\<lambda>offset.
     sbind (slift (jump_target pc (sint offset) (length code))) (\<lambda>t. sret (Jump t))))))"

definition exec_switch :: "bytes \<Rightarrow> nat \<Rightarrow> byte \<Rightarrow> ('h, flow) vact" where
  "exec_switch code pc opc =
     (if opc = STABLESWITCH \<or> opc = ITABLESWITCH then exec_table_switch code pc (opc = ITABLESWITCH)
      else exec_lookup_switch code pc (opc = ILOOKUPSWITCH))"

section \<open>Objects and arrays\<close>

definition vm_check_access :: "'h env \<Rightarrow> reference \<Rightarrow> ('h, info) vact" where
  "vm_check_access ev ref = of_heap (check_access ref (ev_context ev))"

definition assignable :: "'h env \<Rightarrow> reference \<Rightarrow> byte \<Rightarrow> (nat \<times> u16) option \<Rightarrow> heap \<Rightarrow> bool jres" where
  "assignable ev ob atype named h = rbind (heap_info h ob) (\<lambda>i.
     if 10 \<le> atype \<and> atype \<le> 13 then rbind (array_kind atype) (\<lambda>kind. Ok (is_array i \<and> inf_kind i = kind))
     else case named of None \<Rightarrow> Err JFormat
       | Some (_, index) \<Rightarrow>
           if atype = 14 then Ok (is_array i \<and> inf_kind i = KIND_REFERENCE)
           else if is_array i then Ok False
           else link_class_matches (ev_packages ev) (ev_linked ev) (inf_class i) index)"

definition reference_array_accepts :: "'h env \<Rightarrow> info \<Rightarrow> reference \<Rightarrow> heap \<Rightarrow> bool jres" where
  "reference_array_accepts ev array v h =
     (if v = 0 \<or> inf_class array = ANY_REFERENCE_CLASS then Ok True
      else
        let component = class_ref_decode (inf_class array) in
        if component = No_Class then Err JFormat
        else rbind (heap_info h v) (\<lambda>i.
          if \<not> is_array i then class_matches_target (ev_packages ev) (ev_linked ev) (inf_class i) component
          else class_reference_is_object (ev_packages ev) (ev_linked ev) component))"

definition check_reference_store :: "'h env \<Rightarrow> reference \<Rightarrow> ('h, unit) vact" where
  "check_reference_store ev ref = sget (\<lambda>s.
     if ref = 0 then Ok ()
     else rbind (heap_info (vm_heap s) ref) (\<lambda>i.
       if inf_owner i \<noteq> ev_context ev \<or> ref = jc_buffer (vm_jcre s) \<or> is_temporary_native (ev_packages ev) (inf_class i) (inf_length i)
       then Err JFirewall else Ok ()))"

definition exec_cast :: "'h env \<Rightarrow> bytes \<Rightarrow> nat \<Rightarrow> byte \<Rightarrow> ('h, flow) vact" where
  "exec_cast ev code pc opc =
     sbind (on_frame pop_reference) (\<lambda>ob.
     sbind (if ob = 0 then sret (opc = CHECKCAST)
            else sbind (slift (code_byte code (pc + 1))) (\<lambda>atype.
              sbind (slift (constant_pool_index code pc)) (\<lambda>named. of_heap (assignable ev ob atype named)))) (\<lambda>answer.
     if opc = INSTANCEOF then continuing (on_frame (push_short (of_bool (answer \<and> ob \<noteq> 0))))
     else if answer then continuing (on_frame (push_reference ob))
     else throwing (vm_exception ev ClassCastException)))"

definition exec_new_array :: "'h env \<Rightarrow> bytes \<Rightarrow> nat \<Rightarrow> byte \<Rightarrow> ('h, flow) vact" where
  "exec_new_array ev code pc opc =
     sbind (if opc = 145 then
              sbind (slift (pool_index code pc)) (\<lambda>index.
              sbind (slift (pool_entry ev index)) (\<lambda>e.
              if ce_tag e \<noteq> CONSTANT_CLASSREF then sfail JFormat
              else if class_ref_decode (entry_high e) = No_Class then sfail JFormat
              else sret (new_reference_array (entry_high e))))
            else sbind (slift (code_byte code (pc + 1))) (\<lambda>b. sbind (slift (array_kind b)) (\<lambda>kind. sret (new_array kind)))) (\<lambda>make.
     sbind (on_frame pop_short) (\<lambda>n.
     if sint n < 0 then throwing (vm_exception ev NegativeArraySizeException)
     else sbind (on_heap (make n (ev_context ev))) (\<lambda>array. continuing (on_frame (push_reference array)))))"

definition element_matches :: "byte \<Rightarrow> byte \<Rightarrow> info \<Rightarrow> bool" where
  "element_matches byte_op opc i \<longleftrightarrow>
     (if opc = byte_op then inf_kind i = KIND_BOOLEAN \<or> inf_kind i = KIND_BYTE
      else if opc = byte_op + 1 then inf_kind i = KIND_SHORT else inf_kind i = KIND_REFERENCE)"

definition exec_array_load :: "'h env \<Rightarrow> byte \<Rightarrow> ('h, flow) vact" where
  "exec_array_load ev opc =
     sbind (on_frame pop_short) (\<lambda>index. sbind (on_frame pop_reference) (\<lambda>array.
     sbind (vm_check_access ev array) (\<lambda>i.
     if opc = 39 then
       if inf_kind i \<noteq> KIND_INT then sfail JType
       else sbind (slift (bounded_index index (inf_length i))) (\<lambda>at.
         sbind (of_heap (array_get_int array at)) (\<lambda>v. continuing (on_frame (push_int v))))
     else if \<not> element_matches 37 opc i then sfail JType
     else sbind (slift (bounded_index index (inf_length i))) (\<lambda>at.
       sbind (of_heap (array_get array at)) (\<lambda>v.
       continuing (on_frame (if opc = 36 then push_reference v else push_short v)))))))"

definition exec_array_store :: "'h env \<Rightarrow> byte \<Rightarrow> ('h, flow) vact" where
  "exec_array_store ev opc =
     sbind (on_frame (if opc = 55 then pop_reference else pop_short)) (\<lambda>v.
     sbind (on_frame pop_short) (\<lambda>index. sbind (on_frame pop_reference) (\<lambda>array.
     sbind (vm_check_access ev array) (\<lambda>i.
     if \<not> element_matches 56 opc i then sfail JType
     else if opc = 55 then
       sbind (check_reference_store ev v) (\<lambda>_.
       sbind (of_heap (reference_array_accepts ev i v)) (\<lambda>accepted.
       if \<not> accepted then throwing (vm_exception ev ArrayStoreException)
       else sbind (slift (bounded_index index (inf_length i))) (\<lambda>at. continuing (on_heap (array_put_reference array at v)))))
     else sbind (slift (bounded_index index (inf_length i))) (\<lambda>at. continuing (on_heap (array_put array at v)))))))"

definition exec_int_store :: "'h env \<Rightarrow> ('h, flow) vact" where
  "exec_int_store ev =
     sbind (on_frame pop_int) (\<lambda>v.
     sbind (on_frame pop_short) (\<lambda>index. sbind (on_frame pop_reference) (\<lambda>array.
     sbind (vm_check_access ev array) (\<lambda>i.
     if inf_kind i \<noteq> KIND_INT then sfail JType
     else sbind (slift (bounded_index index (inf_length i))) (\<lambda>at. continuing (on_heap (array_put_int array at v)))))))"

definition exec_array_length :: "'h env \<Rightarrow> ('h, flow) vact" where
  "exec_array_length ev =
     sbind (on_frame pop_reference) (\<lambda>array. sbind (vm_check_access ev array) (\<lambda>i.
     if \<not> is_array i then sfail JType else continuing (on_frame (push_short (inf_length i)))))"

definition exec_new :: "'h env \<Rightarrow> bytes \<Rightarrow> nat \<Rightarrow> ('h, flow) vact" where
  "exec_new ev code pc =
     sbind (slift (pool_index code pc)) (\<lambda>index.
     sbind (slift (pool_entry ev index)) (\<lambda>e.
     sbind (case class_ref_decode (entry_high e) of
              Internal c \<Rightarrow> sbind (slift (instance_words (ev_linked ev) c)) (\<lambda>n. on_heap (new_object c n (ev_context ev)))
            | External package c \<Rightarrow>
                sbind (slift (link_api_class (ev_packages ev) (ev_linked ev) package c)) (\<lambda>wanted.
                on_heap (new_api_object (ev_packages ev) wanted (ev_context ev)))
            | No_Class \<Rightarrow> sfail JFormat) (\<lambda>ob.
     continuing (on_frame (push_reference ob)))))"

section \<open>Fields\<close>

text \<open>The four field types by their position in an instruction family: reference, byte, short, int.\<close>

definition read_field :: "'h env \<Rightarrow> reference \<Rightarrow> u16 \<Rightarrow> byte \<Rightarrow> ('h, unit) vact" where
  "read_field ev ob index kind =
     sbind (vm_check_access ev ob) (\<lambda>_.
     sbind (of_heap (get_word ob (unat index))) (\<lambda>w.
     if kind = 0 then on_frame (push_reference w)
     else if kind = 1 then on_frame (push_short (scast (ucast w :: byte)))
     else if kind = 2 then on_frame (push_short w)
     else sbind (of_heap (get_word ob (unat index + 1))) (\<lambda>low. on_frame (push_int (join_words w low)))))"

definition take_field_value :: "byte \<Rightarrow> ('h, i32) vact" where
  "take_field_value kind =
     (if kind = 0 then sbind (on_frame pop_reference) (\<lambda>v. sret (ucast v))
      else if kind = 1 \<or> kind = 2 then sbind (on_frame pop_short) (\<lambda>v. sret (scast v))
      else on_frame pop_int)"

definition put_field_value :: "'h env \<Rightarrow> reference \<Rightarrow> u16 \<Rightarrow> byte \<Rightarrow> i32 \<Rightarrow> ('h, unit) vact" where
  "put_field_value ev ob index kind v =
     sbind (vm_check_access ev ob) (\<lambda>_.
     sbind (if kind = 0 then check_reference_store ev (ucast v) else sret ()) (\<lambda>_.
     if kind = 1 then on_heap (put_word ob (unat index) (scast (ucast v :: byte)))
     else if kind = 0 \<or> kind = 2 then on_heap (put_word ob (unat index) (ucast v))
     else on_heap (put_int ob (unat index) v)))"

definition static_width :: "byte \<Rightarrow> nat" where
  "static_width kind = (if kind = 1 then 1 else if kind = 3 then 4 else 2)"

definition static_bytes :: "byte \<Rightarrow> i32 \<Rightarrow> bytes" where
  "static_bytes kind v =
     (if kind = 1 then [ucast v] else if kind = 0 \<or> kind = 2 then be16_bytes (ucast v) else be32_bytes v)"

definition write_static :: "'h env \<Rightarrow> nat \<Rightarrow> byte \<Rightarrow> i32 \<Rightarrow> ('h, unit) vact" where
  "write_static ev at kind v =
     sbind (if kind = 0 then check_reference_store ev (ucast v) else sret ()) (\<lambda>_.
     sbind (sget (\<lambda>s. ok_or (get_range (vm_statics s) at (at + static_width kind)) JBounds)) (\<lambda>old.
     if old = static_bytes kind v then sret ()
     else sbind (on_heap (remember_static at old)) (\<lambda>_.
       smodify (\<lambda>s. s\<lparr>vm_statics := overwrite (vm_statics s) at (static_bytes kind v)\<rparr>))))"

definition read_static :: "nat \<Rightarrow> byte \<Rightarrow> ('h, unit) vact" where
  "read_static at kind =
     sbind (sget (\<lambda>s. ok_or (get_range (vm_statics s) at (at + static_width kind)) JBounds)) (\<lambda>bs.
     if kind = 0 then on_frame (push_reference (be16 (bs ! 0) (bs ! 1)))
     else if kind = 1 then on_frame (push_short (scast (bs ! 0)))
     else if kind = 2 then on_frame (push_short (be16 (bs ! 0) (bs ! 1)))
     else on_frame (push_int (be32 bs)))"

definition exec_static :: "'h env \<Rightarrow> bytes \<Rightarrow> nat \<Rightarrow> byte \<Rightarrow> ('h, flow) vact" where
  "exec_static ev code pc opc =
     sbind (slift (pool_index code pc)) (\<lambda>index.
     sbind (slift (link_static_field (ev_linked ev) index)) (\<lambda>at.
     if opc \<le> 126 then continuing (read_static (unat at) (opc - 123))
     else sbind (take_field_value (opc - 127)) (\<lambda>v. continuing (write_static ev (unat at) (opc - 127) v))))"

definition field_index :: "'h env \<Rightarrow> bytes \<Rightarrow> nat \<Rightarrow> u16 jres" where
  "field_index ev code pc = rbind (pool_index code pc) (instance_field (ev_linked ev))"

definition exec_field :: "'h env \<Rightarrow> bytes \<Rightarrow> nat \<Rightarrow> byte \<Rightarrow> ('h, flow) vact" where
  "exec_field ev code pc opc =
     (let put_to = (\<lambda>receiver base. sbind (slift (field_index ev code pc)) (\<lambda>index.
            sbind (take_field_value (opc - base)) (\<lambda>v. sbind receiver (\<lambda>ob.
            continuing (put_field_value ev ob index (opc - base) v)))));
          get_from = (\<lambda>receiver base. sbind (slift (field_index ev code pc)) (\<lambda>index. sbind receiver (\<lambda>ob.
            continuing (read_field ev ob index (opc - base)))));
          this = of_frame (load_reference 0) in
      if opc \<le> 134 then get_from (on_frame pop_reference) 131
      else if opc \<le> 138 then put_to (on_frame pop_reference) 135
      else if opc \<le> 172 then get_from (on_frame pop_reference) 169
      else if opc \<le> 176 then get_from this 173
      else if opc \<le> 180 then put_to (on_frame pop_reference) 177
      else put_to this 181)"

section \<open>Native calls\<close>

definition nc_on_frame :: "'a fact \<Rightarrow> ('h, 'a) nact" where
  "nc_on_frame m s = (case m (nc_frame s) of (r, f) \<Rightarrow> (r, s\<lparr>nc_frame := f\<rparr>))"

definition nc_on_heap :: "'a hact \<Rightarrow> ('h, 'a) nact" where
  "nc_on_heap m s = (case m (nc_heap s) of (r, h) \<Rightarrow> (r, s\<lparr>nc_heap := h\<rparr>))"

definition card_exception :: "api_class \<Rightarrow> bool" where
  "card_exception c \<longleftrightarrow> ac_id c = CardException \<or> ac_id c = CardRuntimeException
     \<or> list_ex (\<lambda>base. base = CardException \<or> base = CardRuntimeException) (ac_supers c)"

definition exception_call :: "'h env \<Rightarrow> class_id \<Rightarrow> method_id \<Rightarrow> ('h, native) nact" where
  "exception_call ev c m =
     sbind (if m = getReason then sret None else sbind (nc_on_frame pop_short) (\<lambda>v. sret (Some v))) (\<lambda>reason.
     sbind (if m = throwIt then nc_on_heap (new_exception (ev_packages ev) c (ev_context ev)) else nc_on_frame pop_reference) (\<lambda>ex.
     sbind (nc_on_heap (sget (check_access ex (ev_context ev)))) (\<lambda>_.
     sbind (case reason of
              Some v \<Rightarrow> nc_on_heap (put_word_unconditional ex REASON_FIELD v)
            | None \<Rightarrow> sbind (nc_on_heap (sget (get_word ex REASON_FIELD))) (\<lambda>w. nc_on_frame (push_short w))) (\<lambda>_.
     sret (if m = throwIt then Threw ex else Returned)))))"

definition call_with_budget :: "'h env \<Rightarrow> api_target \<Rightarrow> ('h, native) nact" where
  "call_with_budget ev target =
     (let package = ap_id (at_package target); c = ac_id (at_class target); m = am_id (at_method target) in
      if (m = Constructor \<or> m = throwIt \<or> m = getReason \<or> m = setReason) \<and> card_exception (at_class target)
      then exception_call ev c m
      else if package = java_lang \<and> m = Constructor then sbind (nc_on_frame pop_reference) (\<lambda>_. sret Returned)
      else if package = javacard_framework then ev_framework ev target (ev_context ev)
      else ev_security ev c m (am_signature (at_method target)) (ev_context ev))"

definition call_native :: "'h env \<Rightarrow> api_target \<Rightarrow> ('h, native) vact" where
  "call_native ev target s =
     (case call_with_budget ev target \<lparr>nc_heap = vm_heap s, nc_host = vm_host s, nc_frame = vm_frame s, nc_jcre = vm_jcre s,
             nc_budget = vm_budget s, nc_statics = vm_statics s\<rparr> of
        (r, n) \<Rightarrow> (r, s\<lparr>vm_heap := nc_heap n, vm_host := nc_host n, vm_frame := nc_frame n, vm_jcre := nc_jcre n,
                       vm_budget := nc_budget n, vm_statics := nc_statics n\<rparr>))"

definition native_flow :: "native \<Rightarrow> ('h, flow) vact" where
  "native_flow n = (case n of Returned \<Rightarrow> sret Continue | Unimplemented \<Rightarrow> sfail JUnsupported | Threw ex \<Rightarrow> sret (Finish (Thrown ex)))"

definition exec_native :: "'h env \<Rightarrow> byte \<Rightarrow> byte \<Rightarrow> byte \<Rightarrow> bool \<Rightarrow> ('h, flow) vact" where
  "exec_native ev package c m static_token =
     sbind (slift (link_api_method (ev_packages ev) (ev_linked ev) package c m static_token)) (\<lambda>target.
     sbind (call_native ev target) native_flow)"

section \<open>Handlers\<close>

definition catches :: "'h env \<Rightarrow> u16 \<Rightarrow> u16 \<Rightarrow> bool jres" where
  "catches ev catch_type thrown =
     (if catch_type = 0 then Ok True else link_class_matches (ev_packages ev) (ev_linked ev) thrown catch_type)"

fun search_handlers :: "'h env \<Rightarrow> nat \<Rightarrow> nat \<Rightarrow> u16 \<Rightarrow> u16 \<Rightarrow> handler list \<Rightarrow> nat option jres" where
  "search_handlers ev body code_len at c [] = Ok None"
| "search_handlers ev body code_len at c (h # hs) =
     (if handler_covers h at then
        rbind (catches ev (hd_catch h) c) (\<lambda>caught.
        if caught then
          let target = unat (hd_offset h) in
          if target < body \<or> target - body \<ge> code_len then Err JBounds else Ok (Some (target - body))
        else if hd_stop h then Ok None
        else search_handlers ev body code_len at c hs)
      else search_handlers ev body code_len at c hs)"

definition find_handler :: "'h env \<Rightarrow> nat \<Rightarrow> nat \<Rightarrow> nat \<Rightarrow> reference \<Rightarrow> heap \<Rightarrow> nat option jres" where
  "find_handler ev body code_len pc ex h =
     rbind (heap_info h ex) (\<lambda>i.
     search_handlers ev body code_len (word_of_nat (body + pc)) (inf_class i) (method_handlers (ev_methods ev)))"

definition enter_handler :: "reference \<Rightarrow> ('h, unit) vact" where
  "enter_handler ex = sbind (on_frame (smodify clear_stack)) (\<lambda>_. on_frame (push_reference ex))"

section \<open>Calls\<close>

datatype stop = Fault jerror | Out_of_fuel

type_synonym ('h, 'a) xact = "('h vm, stop, 'a) act"

definition lifted :: "('h, 'a) vact \<Rightarrow> ('h, 'a) xact" where
  "lifted m s = (case m s of (Err e, t) \<Rightarrow> (Err (Fault e), t) | (Ok x, t) \<Rightarrow> (Ok x, t))"

type_synonym 'h body = "bytes \<Rightarrow> nat \<Rightarrow> nat \<Rightarrow> ('h, outcome) xact"

text \<open>Arguments move from the caller's stack to the callee's locals, last one first.\<close>

fun pass_args :: "nat \<Rightarrow> frame \<Rightarrow> frame \<Rightarrow> unit jres \<times> frame \<times> frame" where
  "pass_args 0 caller callee = (Ok (), caller, callee)"
| "pass_args (Suc index) caller callee =
     (case pop_raw caller of
        (Err e, caller) \<Rightarrow> (Err e, caller, callee)
      | (Ok v, caller) \<Rightarrow>
          (case store_raw index v callee of
             (Err e, callee) \<Rightarrow> (Err e, caller, callee)
           | (Ok _, callee) \<Rightarrow> pass_args index caller callee))"

text \<open>The callee's frame lives at the front of the arena; the rest is the arena of what it calls.\<close>

definition call_body :: "'h body \<Rightarrow> bytes \<Rightarrow> nat \<Rightarrow> frame \<Rightarrow> u16 list \<Rightarrow> bytes \<Rightarrow> ('h, outcome) xact" where
  "call_body run code body callee rest_words rest_tags s =
     (case run code body 0 (s\<lparr>vm_depth := vm_depth s + 1, vm_frame := callee, vm_words := rest_words, vm_tags := rest_tags\<rparr>) of
        (r, t) \<Rightarrow> (r, t\<lparr>vm_depth := vm_depth t - 1, vm_frame := vm_frame s,
                       vm_words := words (vm_frame t) @ vm_words t, vm_tags := tags (vm_frame t) @ vm_tags t\<rparr>))"

definition release_at_top :: "'h env \<Rightarrow> ('h, unit) vact" where
  "release_at_top ev s =
     (if vm_depth s = 0 \<and> transaction_remaining (vm_heap s) = None
      then on_heap (release_temporary_natives (ev_packages ev)) s else (Ok (), s))"

definition push_result :: "outcome \<Rightarrow> ('h, reference option) vact" where
  "push_result r = (case r of
       Void \<Rightarrow> sret None
     | Short v \<Rightarrow> sbind (on_frame (push_short v)) (\<lambda>_. sret None)
     | Int_Outcome v \<Rightarrow> sbind (on_frame (push_int v)) (\<lambda>_. sret None)
     | Ref_Outcome v \<Rightarrow> sbind (on_frame (push_reference v)) (\<lambda>_. sret None)
     | Thrown ex \<Rightarrow> sret (Some ex))"

text \<open>The end of a call: the release comes before the outcome is looked at, as the code orders it.\<close>

definition finish_call :: "'h env \<Rightarrow> (stop, outcome) result \<Rightarrow> ('h, reference option) xact" where
  "finish_call ev r = (case r of Err Out_of_fuel \<Rightarrow> (\<lambda>s. (Err Out_of_fuel, s))
     | _ \<Rightarrow> sbind (lifted (release_at_top ev)) (\<lambda>_. sbind (slift r) (\<lambda>out. lifted (push_result out))))"

text \<open>What comes before the body of a call runs: the checks, the frame and the arguments.\<close>

definition enter_call :: "'h env \<Rightarrow> u16 \<Rightarrow> ('h, nat \<times> frame \<times> u16 list \<times> bytes) vact" where
  "enter_call ev m s =
     (if vm_depth s \<ge> MAX_DEPTH then (Err JQuota, s)
      else
        let data = mc_info (ev_methods ev); at = unat m in
        if at < methods_start (ev_methods ev) then (Err JBounds, s)
        else case method_header_parse data at of Err e \<Rightarrow> (Err e, s)
        | Ok h \<Rightarrow>
            if abstract_method h then (Err JMissing, s)
            else
              let locs = unat (frame_words h); stack = unat (mh_max_stack h);
                  nw = words_for locs stack; nt = tag_bytes_for locs stack in
              if length (vm_words s) < nw \<or> length (vm_tags s) < nt then (Err JQuota, s)
              else case new_frame (take nw (vm_words s)) (take nt (vm_tags s)) locs stack of Err e \<Rightarrow> (Err e, s)
              | Ok callee \<Rightarrow>
                  case pass_args (unat (mh_nargs h)) (vm_frame s) callee of (r, caller, callee) \<Rightarrow>
                  let rest_words = drop nw (vm_words s); rest_tags = drop nt (vm_tags s);
                      s = s\<lparr>vm_frame := caller, vm_words := words callee @ rest_words, vm_tags := tags callee @ rest_tags\<rparr>;
                      body = at + mh_length h in
                  case r of Err e \<Rightarrow> (Err e, s)
                  | Ok _ \<Rightarrow> (if body > length data then Err JBounds else Ok (body, callee, rest_words, rest_tags), s))"

definition invoke :: "'h body \<Rightarrow> 'h env \<Rightarrow> u16 \<Rightarrow> ('h, reference option) xact" where
  "invoke run ev m =
     sbind (lifted (enter_call ev m)) (\<lambda>(body, callee, rest_words, rest_tags) s.
     case call_body run (drop body (mc_info (ev_methods ev))) body callee rest_words rest_tags s of
       (out, t) \<Rightarrow> finish_call ev out t)"

definition thrown_flow :: "reference option \<Rightarrow> flow" where
  "thrown_flow r = (case r of None \<Rightarrow> Continue | Some ex \<Rightarrow> Finish (Thrown ex))"

definition invoke_flow :: "'h body \<Rightarrow> 'h env \<Rightarrow> u16 \<Rightarrow> ('h, flow) xact" where
  "invoke_flow run ev m = sbind (invoke run ev m) (\<lambda>r. sret (thrown_flow r))"

text \<open>An external reference is tried first; any failure to read one means an internal call.\<close>

definition exec_invoke_static :: "'h body \<Rightarrow> 'h env \<Rightarrow> bytes \<Rightarrow> nat \<Rightarrow> byte \<Rightarrow> ('h, flow) xact" where
  "exec_invoke_static run ev code pc opc =
     sbind (lifted (slift (pool_index code pc))) (\<lambda>index.
     case external_static_method (ev_linked ev) index of
       Ok (Some (package, c, m)) \<Rightarrow> lifted (exec_native ev package c m True)
     | _ \<Rightarrow>
         (case static_method (ev_linked ev) index of
            Ok m \<Rightarrow> invoke_flow run ev m
          | Err e \<Rightarrow>
              if e = JType \<and> opc = 140 then
                (case virtual_method (ev_linked ev) index 0 of Ok m \<Rightarrow> invoke_flow run ev m | Err e \<Rightarrow> sfail (Fault e))
              else sfail (Fault e)))"

text \<open>The class of the receiver, which sits under the arguments.\<close>

definition receiver_class :: "'h env \<Rightarrow> nat \<Rightarrow> ('h, u16) vact" where
  "receiver_class ev nargs =
     sbind (slift (ok_or (checked_sub nargs 1) JType)) (\<lambda>below.
     sbind (of_frame (peek_reference below)) (\<lambda>receiver.
     sbind (vm_check_access ev receiver) (\<lambda>i. sret (inf_class i))))"

definition virtual_target :: "'h env \<Rightarrow> u16 \<Rightarrow> ('h, u16) vact" where
  "virtual_target ev index =
     sbind (slift (virtual_ref (ev_linked ev) index)) (\<lambda>(declared, token).
     sbind (slift (link_lookup (ev_linked ev) declared token)) (\<lambda>signature.
     sbind (slift (method_header_parse (mc_info (ev_methods ev)) (unat signature))) (\<lambda>h.
     sbind (receiver_class ev (unat (mh_nargs h))) (\<lambda>c.
     slift (link_lookup (ev_linked ev) c token)))))"

definition exec_invoke_virtual :: "'h body \<Rightarrow> 'h env \<Rightarrow> bytes \<Rightarrow> nat \<Rightarrow> ('h, flow) xact" where
  "exec_invoke_virtual run ev code pc =
     sbind (lifted (slift (pool_index code pc))) (\<lambda>index.
     sbind (lifted (slift (external_class_method (ev_linked ev) index))) (\<lambda>ext.
     case ext of
       Some (package, c, m) \<Rightarrow> lifted (exec_native ev package c m False)
     | None \<Rightarrow> sbind (lifted (virtual_target ev index)) (\<lambda>m. invoke_flow run ev m)))"

definition exec_invoke_interface :: "'h body \<Rightarrow> 'h env \<Rightarrow> bytes \<Rightarrow> nat \<Rightarrow> ('h, flow) xact" where
  "exec_invoke_interface run ev code pc =
     sbind (lifted (slift (code_byte code (pc + 1)))) (\<lambda>nargs.
     sbind (lifted (slift (pool_index code pc))) (\<lambda>index.
     sbind (lifted (slift (code_byte code (pc + 4)))) (\<lambda>token.
     sbind (lifted (slift (pool_entry ev index))) (\<lambda>e.
     let interface = class_ref_decode (entry_high e) in
     sbind (lifted (receiver_class ev (unat nargs))) (\<lambda>c.
     if is_native_class c then
       (case interface of
          External package k \<Rightarrow> lifted (exec_native ev package k token False)
        | _ \<Rightarrow> sfail (Fault JType))
     else sbind (lifted (slift (interface_method (ev_linked ev) interface token c))) (\<lambda>m. invoke_flow run ev m))))))"

section \<open>The dispatch loop\<close>

definition exec_throw :: "('h, flow) vact" where
  "exec_throw = sbind (on_frame pop_reference) (\<lambda>ex. sbind (of_heap (\<lambda>h. heap_info h ex)) (\<lambda>_. sret (Finish (Thrown ex))))"

definition exec_return :: "byte \<Rightarrow> ('h, flow) vact" where
  "exec_return opc =
     (if opc = 122 then sret (Finish Void)
      else if opc = 120 then sbind (on_frame pop_short) (\<lambda>v. sret (Finish (Short v)))
      else if opc = 121 then sbind (on_frame pop_int) (\<lambda>v. sret (Finish (Int_Outcome v)))
      else sbind (on_frame pop_reference) (\<lambda>v. sret (Finish (Ref_Outcome v))))"

text \<open>The instructions that do not call a method of the package.\<close>

definition exec_plain :: "'h env \<Rightarrow> bytes \<Rightarrow> nat \<Rightarrow> byte \<Rightarrow> ('h, flow) vact" where
  "exec_plain ev code pc opc =
     (if opc \<le> 20 then exec_push code pc opc
      else if opc \<le> 35 then exec_load code pc opc
      else if opc \<le> 39 then exec_array_load ev opc
      else if opc \<le> 54 then exec_store code pc opc
      else if opc \<le> 57 then exec_array_store ev opc
      else if opc = 58 then exec_int_store ev
      else if opc \<le> 64 then exec_stack code pc opc
      else if opc \<le> 88 then (if odd (unat opc) then exec_short opc else exec_int opc)
      else if opc \<le> 90 \<or> opc = 150 \<or> opc = 151 then exec_increment code pc opc
      else if opc \<le> 95 then exec_convert opc
      else if opc \<le> 112 \<or> 152 \<le> opc \<and> opc \<le> 168 then exec_branch code pc opc
      else if opc = JSR \<or> opc = RET then sfail JUnsupported
      else if opc \<le> 118 then exec_switch code pc opc
      else if opc \<le> 122 then exec_return opc
      else if opc \<le> 130 then exec_static ev code pc opc
      else if opc \<le> 138 then exec_field ev code pc opc
      else if opc = 143 then exec_new ev code pc
      else if opc = 144 \<or> opc = 145 then exec_new_array ev code pc opc
      else if opc = 146 then exec_array_length ev
      else if opc = 147 then exec_throw
      else if opc = CHECKCAST \<or> opc = INSTANCEOF then exec_cast ev code pc opc
      else if 169 \<le> opc \<and> opc \<le> 184 then exec_field ev code pc opc
      else sfail JUnsupported)"

definition exec_op :: "'h body \<Rightarrow> 'h env \<Rightarrow> bytes \<Rightarrow> nat \<Rightarrow> byte \<Rightarrow> ('h, flow) xact" where
  "exec_op run ev code pc opc =
     (if opc = 139 then exec_invoke_virtual run ev code pc
      else if opc = 140 \<or> opc = 141 then exec_invoke_static run ev code pc opc
      else if opc = 142 then exec_invoke_interface run ev code pc
      else lifted (exec_plain ev code pc opc))"

text \<open>Engine errors that Java code can catch become exceptions at the failing instruction.\<close>

definition exception_class :: "jerror \<Rightarrow> class_id option" where
  "exception_class e =
     (if e = JNull then Some NullPointerException else if e = JArithmetic then Some ArithmeticException
      else if e = JArrayBounds then Some ArrayIndexOutOfBoundsException
      else if e = JFirewall then Some SecurityException else None)"

definition vm_transaction_exception :: "'h env \<Rightarrow> u16 \<Rightarrow> ('h, reference) vact" where
  "vm_transaction_exception ev reason s =
     (case transaction_exception (ev_packages ev) (ev_context ev) reason (vm_heap s, vm_jcre s) of
        (r, h, j) \<Rightarrow> (case r of Err e \<Rightarrow> Err e | Ok (Threw ex) \<Rightarrow> Ok ex | Ok _ \<Rightarrow> Err JInconsistent,
                     s\<lparr>vm_heap := h, vm_jcre := j\<rparr>))"

definition exhausted :: "'h env \<Rightarrow> ('h, reference) vact" where
  "exhausted ev = sbind (vm_exception ev SystemException) (\<lambda>ex.
     sbind (on_heap (put_word_unconditional ex REASON_FIELD 5)) (\<lambda>_. sret ex))"

definition convert_error :: "'h env \<Rightarrow> byte \<Rightarrow> jerror \<Rightarrow> ('h, flow) vact" where
  "convert_error ev opc e =
     (case exception_class e of
        Some c \<Rightarrow> throwing (vm_exception ev c)
      | None \<Rightarrow>
          if e = JQuota \<and> (opc = 143 \<or> opc = 144 \<or> opc = 145) then throwing (exhausted ev)
          else if e = JTransactionFull then throwing (vm_transaction_exception ev 3)
          else sfail e)"

definition guarded_op :: "'h body \<Rightarrow> 'h env \<Rightarrow> bytes \<Rightarrow> nat \<Rightarrow> byte \<Rightarrow> ('h, flow) xact" where
  "guarded_op run ev code pc opc s =
     (case exec_op run ev code pc opc s of
        (Err (Fault e), t) \<Rightarrow> lifted (convert_error ev opc e) t
      | r \<Rightarrow> r)"

text \<open>A thrown object looks for a handler in this method before it leaves it.\<close>

definition catch_thrown :: "'h env \<Rightarrow> nat \<Rightarrow> nat \<Rightarrow> nat \<Rightarrow> flow \<Rightarrow> ('h, flow) vact" where
  "catch_thrown ev body code_len pc fl =
     (case fl of
        Finish (Thrown ex) \<Rightarrow>
          sbind (of_heap (find_handler ev body code_len pc ex)) (\<lambda>found.
          case found of
            Some t \<Rightarrow> sbind (enter_handler ex) (\<lambda>_. sret (Jump t))
          | None \<Rightarrow> sret fl)
      | _ \<Rightarrow> sret fl)"

definition poll_cancel :: "'h env \<Rightarrow> ('h, unit) vact" where
  "poll_cancel ev s =
     (case ev_cancel ev of None \<Rightarrow> (Ok (), s)
      | Some answers \<Rightarrow> (if answers (vm_polls s) then Err JCancelled else Ok (), s\<lparr>vm_polls := vm_polls s + 1\<rparr>))"

definition charge :: "('h, unit) vact" where
  "charge s = (if vm_budget s = 0 then (Err JQuota, s) else (Ok (), s\<lparr>vm_budget := vm_budget s - 1\<rparr>))"

definition fetch :: "'h env \<Rightarrow> bytes \<Rightarrow> nat \<Rightarrow> ('h, byte \<times> nat) vact" where
  "fetch ev code pc =
     sbind (poll_cancel ev) (\<lambda>_. sbind charge (\<lambda>_.
     sbind (slift (code_byte code pc)) (\<lambda>opc.
     sbind (slift (allows (ev_limits ev) opc)) (\<lambda>_.
     sbind (slift (instruction_length code pc)) (\<lambda>n. sret (opc, n))))))"

text \<open>One turn of the loop: where control goes next, or the outcome of the method.\<close>

definition turn :: "'h body \<Rightarrow> 'h env \<Rightarrow> bytes \<Rightarrow> nat \<Rightarrow> nat \<Rightarrow> ('h, nat + outcome) xact" where
  "turn run ev code body pc =
     sbind (lifted (fetch ev code pc)) (\<lambda>(opc, n).
     sbind (guarded_op run ev code pc opc) (\<lambda>fl.
     sbind (lifted (catch_thrown ev body (length code) pc fl)) (\<lambda>fl.
     sret (case fl of Continue \<Rightarrow> Inl (pc + n) | Jump t \<Rightarrow> Inl t | Finish out \<Rightarrow> Inr out))))"

primrec run_body :: "nat \<Rightarrow> 'h env \<Rightarrow> 'h body" where
  "run_body 0 ev = (\<lambda>code body pc s. (Err Out_of_fuel, s))"
| "run_body (Suc fuel) ev = (\<lambda>code body pc.
     sbind (turn (run_body fuel ev) ev code body pc) (\<lambda>next_step.
     case next_step of Inl t \<Rightarrow> run_body fuel ev code body t | Inr out \<Rightarrow> sret out))"

lemma run_body_code [code]:
  "run_body 0 ev code body pc s = (Err Out_of_fuel, s)"
  "run_body (Suc fuel) ev code body pc s =
     (case turn (run_body fuel ev) ev code body pc s of
        (Err e, t) \<Rightarrow> (Err e, t)
      | (Ok next_step, t) \<Rightarrow> (case next_step of Inl pc' \<Rightarrow> run_body fuel ev code body pc' t | Inr out \<Rightarrow> (Ok out, t)))"
  by (auto simp: sbind_def split: prod.splits result.splits sum.splits)

definition run_with :: "nat \<Rightarrow> 'h env \<Rightarrow> bytes \<Rightarrow> ('h, outcome) xact" where
  "run_with fuel ev code s =
     (case run_body fuel ev code 0 0 s of
        (Err Out_of_fuel, t) \<Rightarrow> (Err Out_of_fuel, t)
      | (r, t) \<Rightarrow> sbind (lifted (release_at_top ev)) (\<lambda>_. slift r) t)"

definition run :: "nat \<Rightarrow> 'h env \<Rightarrow> bytes \<Rightarrow> ('h, outcome) xact" where
  "run fuel ev code s =
     (case run_with fuel ev code (s\<lparr>vm_words := [], vm_tags := []\<rparr>) of
        (r, t) \<Rightarrow> (r, t\<lparr>vm_words := vm_words s, vm_tags := vm_tags s\<rparr>))"

end
