(* ===== verification/Framework_Natives.thy ===== *)
theory Framework_Natives
  imports Interpreter
begin

text \<open>
  The \<open>javacard.framework\<close> methods that the runtime implements itself
  (\<open>src/crates/microcard-engine-jcvm/src/natives/framework\<close>): the array operations of \<open>Util\<close>
  (\<open>util.rs\<close>), the command buffer and response of \<open>APDU\<close> (\<open>apdu.rs\<close>), memory and transactions of
  \<open>JCSystem\<close> (\<open>jcsystem.rs\<close>), the registration of an \<open>Applet\<close> (\<open>applet.rs\<close>) and their dispatch
  (\<open>mod.rs\<close>). Each method is an action on the state visible to one native call. Arguments are popped
  in the order of the code, so an early error leaves the later ones on the stack. The checkpoint of
  the host and the security natives are parameters.
\<close>

section \<open>Identities\<close>

abbreviation (input) APDUException :: class_id where "APDUException \<equiv> 14"
abbreviation (input) Applet_Id :: class_id where "Applet_Id \<equiv> 15"
abbreviation (input) JCSystem_Id :: class_id where "JCSystem_Id \<equiv> 21"
abbreviation (input) Util_Id :: class_id where "Util_Id \<equiv> 34"

abbreviation (input) abortTransaction :: method_id where "abortTransaction \<equiv> 2"
abbreviation (input) arrayCompare :: method_id where "arrayCompare \<equiv> 3"
abbreviation (input) arrayCopy :: method_id where "arrayCopy \<equiv> 4"
abbreviation (input) arrayCopyNonAtomic :: method_id where "arrayCopyNonAtomic \<equiv> 5"
abbreviation (input) arrayFill :: method_id where "arrayFill \<equiv> 6"
abbreviation (input) arrayFillNonAtomic :: method_id where "arrayFillNonAtomic \<equiv> 7"
abbreviation (input) beginTransaction :: method_id where "beginTransaction \<equiv> 9"
abbreviation (input) commitTransaction :: method_id where "commitTransaction \<equiv> 19"
abbreviation (input) getAvailableMemory :: method_id where "getAvailableMemory \<equiv> 36"
abbreviation (input) getBuffer :: method_id where "getBuffer \<equiv> 38"
abbreviation (input) getInBlockSize :: method_id where "getInBlockSize \<equiv> 53"
abbreviation (input) getIncomingLength :: method_id where "getIncomingLength \<equiv> 54"
abbreviation (input) getMaxCommitCapacity :: method_id where "getMaxCommitCapacity \<equiv> 61"
abbreviation (input) getNAD :: method_id where "getNAD \<equiv> 64"
abbreviation (input) getOffsetCdata :: method_id where "getOffsetCdata \<equiv> 65"
abbreviation (input) getOutBlockSize :: method_id where "getOutBlockSize \<equiv> 66"
abbreviation (input) getProtocol :: method_id where "getProtocol \<equiv> 74"
abbreviation (input) getShort :: method_id where "getShort \<equiv> 86"
abbreviation (input) getTransactionDepth :: method_id where "getTransactionDepth \<equiv> 89"
abbreviation (input) getUnusedCommitCapacity :: method_id where "getUnusedCommitCapacity \<equiv> 93"
abbreviation (input) getVersion :: method_id where "getVersion \<equiv> 95"
abbreviation (input) isCommandChainingCLA :: method_id where "isCommandChainingCLA \<equiv> 106"
abbreviation (input) isObjectDeletionSupported :: method_id where "isObjectDeletionSupported \<equiv> 111"
abbreviation (input) isSecureMessagingCLA :: method_id where "isSecureMessagingCLA \<equiv> 113"
abbreviation (input) isTransient :: method_id where "isTransient \<equiv> 115"
abbreviation (input) makeShort :: method_id where "makeShort \<equiv> 123"
abbreviation (input) makeTransientBooleanArray :: method_id where "makeTransientBooleanArray \<equiv> 124"
abbreviation (input) makeTransientByteArray :: method_id where "makeTransientByteArray \<equiv> 125"
abbreviation (input) makeTransientObjectArray :: method_id where "makeTransientObjectArray \<equiv> 126"
abbreviation (input) makeTransientShortArray :: method_id where "makeTransientShortArray \<equiv> 127"
abbreviation (input) reSelectingApplet :: method_id where "reSelectingApplet \<equiv> 134"
abbreviation (input) receiveBytes :: method_id where "receiveBytes \<equiv> 135"
abbreviation (input) register :: method_id where "register \<equiv> 137"
abbreviation (input) requestObjectDeletion :: method_id where "requestObjectDeletion \<equiv> 140"
abbreviation (input) selectingApplet :: method_id where "selectingApplet \<equiv> 148"
abbreviation (input) sendBytes :: method_id where "sendBytes \<equiv> 149"
abbreviation (input) sendBytesLong :: method_id where "sendBytesLong \<equiv> 150"
abbreviation (input) setIncomingAndReceive :: method_id where "setIncomingAndReceive \<equiv> 161"
abbreviation (input) setOutgoing :: method_id where "setOutgoing \<equiv> 167"
abbreviation (input) setOutgoingAndSend :: method_id where "setOutgoingAndSend \<equiv> 168"
abbreviation (input) setOutgoingLength :: method_id where "setOutgoingLength \<equiv> 169"
abbreviation (input) setOutgoingNoChaining :: method_id where "setOutgoingNoChaining \<equiv> 170"
abbreviation (input) setShort :: method_id where "setShort \<equiv> 179"

abbreviation (input) TRANSACTION_CAPACITY :: nat where "TRANSACTION_CAPACITY \<equiv> 8192"

section \<open>Services\<close>

text \<open>What the host is shown at a checkpoint, and why.\<close>

datatype checkpoint_reason = Installation | ApduEnd | OwnerPin | TransactionCommit

record persistent_view =
  pv_heap :: bytes
  pv_statics :: bytes
  pv_instance :: reference
  pv_buffer :: reference
  pv_projection :: "heap option"

record 'h services =
  sv_packages :: "api_package list"
  sv_alloc :: "nat \<Rightarrow> bool"
  sv_checkpoint :: "persistent_view \<Rightarrow> checkpoint_reason \<Rightarrow> 'h \<Rightarrow> unit jres \<times> 'h"
  sv_security :: "class_id \<Rightarrow> method_id \<Rightarrow> byte \<Rightarrow> jcontext \<Rightarrow> ('h, native) nact"

definition heap_available :: "heap \<Rightarrow> nat" where
  "heap_available h = length (hp_bytes h) - hp_next h"

definition heap_image :: "heap \<Rightarrow> bytes" where
  "heap_image h = take (hp_next h) (hp_bytes h)"

definition nc_of_heap :: "(heap \<Rightarrow> 'a jres) \<Rightarrow> ('h, 'a) nact" where
  "nc_of_heap g = nc_on_heap (sget g)"

definition nc_command :: "(jcre \<Rightarrow> jcre) \<Rightarrow> ('h, unit) nact" where
  "nc_command f = smodify (\<lambda>s. s\<lparr>nc_jcre := f (nc_jcre s)\<rparr>)"

text \<open>\<open>*budget = budget.checked_sub(n).ok_or(Error::Quota)?\<close>.\<close>

definition nc_charge :: "nat \<Rightarrow> ('h, unit) nact" where
  "nc_charge n s = (if nc_budget s < n then (Err JQuota, s) else (Ok (), s\<lparr>nc_budget := nc_budget s - n\<rparr>))"

definition nc_throw :: "api_package list \<Rightarrow> class_id \<Rightarrow> jcontext \<Rightarrow> ('h, native) nact" where
  "nc_throw packages name ctx = sbind (nc_on_heap (new_exception packages name ctx)) (\<lambda>ex. sret (Threw ex))"

text \<open>An exception whose reason is set outside the transaction.\<close>

definition throw_reason :: "api_package list \<Rightarrow> class_id \<Rightarrow> u16 \<Rightarrow> jcontext \<Rightarrow> ('h, native) nact" where
  "throw_reason packages name reason ctx =
     sbind (nc_on_heap (new_exception packages name ctx)) (\<lambda>ex.
     sbind (nc_on_heap (put_word_unconditional ex REASON_FIELD reason)) (\<lambda>_. sret (Threw ex)))"

definition returning :: "('h, unit) nact \<Rightarrow> ('h, native) nact" where
  "returning m = sbind m (\<lambda>_. sret Returned)"

definition empty_parameters :: "byte \<Rightarrow> bool" where
  "empty_parameters signature \<longleftrightarrow> signature AND 1 \<noteq> 0"

section \<open>Util\<close>

definition util_index :: "i16 \<Rightarrow> nat jres" where
  "util_index v = (if sint v < 0 then Err JBounds else Ok (unat v))"

definition nc_index :: "i16 \<Rightarrow> ('h, nat) nact" where
  "nc_index v = slift (util_index v)"

definition util_makeShort :: "('h, native) nact" where
  "util_makeShort =
     sbind (nc_on_frame pop_short) (\<lambda>low.
     sbind (nc_on_frame pop_short) (\<lambda>high.
     returning (nc_on_frame (push_short (push_bit 8 high OR ucast (ucast low :: byte))))))"

definition util_getShort :: "jcontext \<Rightarrow> ('h, native) nact" where
  "util_getShort ctx =
     sbind (nc_on_frame pop_short) (\<lambda>offset.
     sbind (nc_on_frame pop_reference) (\<lambda>array.
     sbind (nc_of_heap (check_access array ctx)) (\<lambda>_.
     sbind (nc_index offset) (\<lambda>at.
     sbind (nc_of_heap (byte_slice array at 2)) (\<lambda>bs.
     returning (nc_on_frame (push_short (be16 (bs ! 0) (bs ! 1)))))))))"

definition util_setShort :: "jcontext \<Rightarrow> ('h, native) nact" where
  "util_setShort ctx =
     sbind (nc_on_frame pop_short) (\<lambda>value.
     sbind (nc_on_frame pop_short) (\<lambda>offset.
     sbind (nc_on_frame pop_reference) (\<lambda>array.
     sbind (nc_of_heap (check_access array ctx)) (\<lambda>_.
     sbind (nc_index offset) (\<lambda>at.
     sbind (nc_on_heap (write_slice array at (be16_bytes value))) (\<lambda>_.
     returning (nc_on_frame (push_short (offset + 2)))))))))"

definition util_arrayCopy :: "bool \<Rightarrow> jcontext \<Rightarrow> ('h, native) nact" where
  "util_arrayCopy atomic ctx =
     sbind (nc_on_frame pop_short) (\<lambda>len.
     sbind (nc_on_frame pop_short) (\<lambda>destination_offset.
     sbind (nc_on_frame pop_reference) (\<lambda>destination.
     sbind (nc_on_frame pop_short) (\<lambda>source_offset.
     sbind (nc_on_frame pop_reference) (\<lambda>source.
     sbind (nc_of_heap (check_access source ctx)) (\<lambda>_.
     sbind (nc_of_heap (check_access destination ctx)) (\<lambda>_.
     sbind (nc_index len) (\<lambda>n.
     sbind (nc_index source_offset) (\<lambda>src.
     sbind (nc_of_heap (byte_slice source src n)) (\<lambda>_.
     sbind (nc_index destination_offset) (\<lambda>dst.
     sbind (nc_of_heap (byte_slice destination dst n)) (\<lambda>_.
     sbind (nc_charge n) (\<lambda>_.
     sbind (nc_on_heap (if atomic then copy_bytes source src destination dst n
                        else copy_bytes_unconditional source src destination dst n)) (\<lambda>_.
     returning (nc_on_frame (push_short (destination_offset + word_of_nat n)))))))))))))))))"

definition util_arrayFill :: "bool \<Rightarrow> jcontext \<Rightarrow> ('h, native) nact" where
  "util_arrayFill atomic ctx =
     sbind (nc_on_frame pop_short) (\<lambda>value.
     sbind (nc_on_frame pop_short) (\<lambda>len.
     sbind (nc_index len) (\<lambda>n.
     sbind (nc_on_frame pop_short) (\<lambda>offset.
     sbind (nc_on_frame pop_reference) (\<lambda>array.
     sbind (nc_of_heap (check_access array ctx)) (\<lambda>_.
     sbind (nc_index offset) (\<lambda>start.
     sbind (nc_of_heap (byte_slice array start n)) (\<lambda>_.
     sbind (nc_charge n) (\<lambda>_.
     sbind (nc_on_heap (if atomic then write_slice array start (replicate n (ucast value))
                        else fill_bytes_unconditional array start n (ucast value))) (\<lambda>_.
     returning (nc_on_frame (push_short (offset + word_of_nat n)))))))))))))"

text \<open>The order of byte slices, as the result of \<open>arrayCompare\<close>.\<close>

fun compare_bytes :: "bytes \<Rightarrow> bytes \<Rightarrow> i16" where
  "compare_bytes [] [] = 0"
| "compare_bytes [] (_ # _) = - 1"
| "compare_bytes (_ # _) [] = 1"
| "compare_bytes (a # as) (b # bs) = (if a < b then - 1 else if b < a then 1 else compare_bytes as bs)"

definition util_arrayCompare :: "jcontext \<Rightarrow> ('h, native) nact" where
  "util_arrayCompare ctx =
     sbind (nc_on_frame pop_short) (\<lambda>len.
     sbind (nc_on_frame pop_short) (\<lambda>right_offset.
     sbind (nc_on_frame pop_reference) (\<lambda>right.
     sbind (nc_on_frame pop_short) (\<lambda>left_offset.
     sbind (nc_on_frame pop_reference) (\<lambda>left.
     sbind (nc_of_heap (check_access left ctx)) (\<lambda>_.
     sbind (nc_of_heap (check_access right ctx)) (\<lambda>_.
     sbind (nc_index len) (\<lambda>n.
     sbind (nc_index left_offset) (\<lambda>l.
     sbind (nc_of_heap (byte_slice left l n)) (\<lambda>ls.
     sbind (nc_index right_offset) (\<lambda>r.
     sbind (nc_of_heap (byte_slice right r n)) (\<lambda>rs.
     sbind (nc_charge n) (\<lambda>_.
     returning (nc_on_frame (push_short (compare_bytes ls rs))))))))))))))))"

definition util_call :: "method_id \<Rightarrow> jcontext \<Rightarrow> ('h, native) nact" where
  "util_call m ctx =
     (if m = makeShort then util_makeShort
      else if m = getShort then util_getShort ctx
      else if m = setShort then util_setShort ctx
      else if m = arrayCopy \<or> m = arrayCopyNonAtomic then util_arrayCopy (m = arrayCopy) ctx
      else if m = arrayFill \<or> m = arrayFillNonAtomic then util_arrayFill (m = arrayFill) ctx
      else if m = arrayCompare then util_arrayCompare ctx
      else sret Unimplemented)"

section \<open>APDU\<close>

definition apdu_exception :: "api_package list \<Rightarrow> u16 \<Rightarrow> jcontext \<Rightarrow> ('h, native) nact" where
  "apdu_exception packages reason ctx = throw_reason packages APDUException reason ctx"

text \<open>\<open>!jcre.incoming_started || jcre.outgoing_started\<close>: the command data may not be asked for.\<close>

definition not_receiving :: "jcre \<Rightarrow> bool" where
  "not_receiving j \<longleftrightarrow> \<not> jc_incoming_started j \<or> jc_outgoing_started j"

definition apdu_incoming :: "(jcre \<Rightarrow> u16) \<Rightarrow> api_package list \<Rightarrow> jcontext \<Rightarrow> ('h, native) nact" where
  "apdu_incoming answer packages ctx =
     sbind (nc_on_frame pop_reference) (\<lambda>_ s.
       if not_receiving (nc_jcre s) then apdu_exception packages 1 ctx s
       else returning (nc_on_frame (push_short (answer (nc_jcre s)))) s)"

definition apdu_setIncomingAndReceive :: "api_package list \<Rightarrow> jcontext \<Rightarrow> ('h, native) nact" where
  "apdu_setIncomingAndReceive packages ctx =
     sbind (nc_on_frame pop_reference) (\<lambda>_ s.
       if jc_incoming_started (nc_jcre s) \<or> jc_outgoing_started (nc_jcre s) then apdu_exception packages 1 ctx s
       else sbind (nc_command (\<lambda>j. j\<lparr>jc_incoming_started := True\<rparr>)) (\<lambda>_.
            returning (nc_on_frame (push_short (jc_incoming (nc_jcre s))))) s)"

definition apdu_receiveBytes :: "api_package list \<Rightarrow> jcontext \<Rightarrow> ('h, native) nact" where
  "apdu_receiveBytes packages ctx =
     sbind (nc_on_frame pop_short) (\<lambda>offset.
     sbind (nc_on_frame pop_reference) (\<lambda>_ s.
       if not_receiving (nc_jcre s) then apdu_exception packages 1 ctx s
       else if sint offset < 0 then apdu_exception packages 2 ctx s
       else sbind (nc_of_heap (\<lambda>h. heap_info h (jc_buffer (nc_jcre s)))) (\<lambda>i.
            if unat offset + 254 > unat (inf_length i) then apdu_exception packages 2 ctx
            else returning (nc_on_frame (push_short 0))) s))"

definition apdu_setOutgoing :: "api_package list \<Rightarrow> jcontext \<Rightarrow> ('h, native) nact" where
  "apdu_setOutgoing packages ctx =
     sbind (nc_on_frame pop_reference) (\<lambda>_ s.
       if jc_outgoing_started (nc_jcre s) then apdu_exception packages 1 ctx s
       else sbind (nc_command (\<lambda>j. j\<lparr>jc_outgoing_started := True\<rparr>)) (\<lambda>_.
            returning (nc_on_frame (push_short (jc_expected (nc_jcre s))))) s)"

definition apdu_setOutgoingLength :: "api_package list \<Rightarrow> jcontext \<Rightarrow> ('h, native) nact" where
  "apdu_setOutgoingLength packages ctx =
     sbind (nc_on_frame pop_short) (\<lambda>len.
     sbind (nc_on_frame pop_reference) (\<lambda>_ s.
       if \<not> jc_outgoing_started (nc_jcre s) \<or> jc_outgoing_length (nc_jcre s) \<noteq> None then apdu_exception packages 1 ctx s
       else if sint len < 0 \<or> unat len > length (jc_response (nc_jcre s)) then apdu_exception packages 3 ctx s
       else returning (nc_command (\<lambda>j. j\<lparr>jc_outgoing_length := Some len\<rparr>)) s))"

text \<open>The length a send may fill up to, or the reason of the refusal.\<close>

definition send_declared :: "bool \<Rightarrow> i16 \<Rightarrow> jcre \<Rightarrow> (u16, u16) result" where
  "send_declared combined len j =
     (if combined then
        if jc_outgoing_started j then Err 1
        else if sint len < 0 \<or> unat len > length (jc_response j) then Err 3
        else Ok len
      else if jc_outgoing_combined j then Err 1
      else case jc_outgoing_length j of None \<Rightarrow> Err 1 | Some declared \<Rightarrow> Ok declared)"

definition publish_output :: "bool \<Rightarrow> u16 \<Rightarrow> bytes \<Rightarrow> jcre \<Rightarrow> jcre" where
  "publish_output combined declared bs j =
     (let start = unat (jc_outgoing j);
          j = j\<lparr>jc_response := overwrite (jc_response j) start bs\<rparr>;
          j = (if combined then j\<lparr>jc_outgoing_started := True, jc_outgoing_combined := True, jc_outgoing_length := Some declared\<rparr>
               else j) in
      j\<lparr>jc_outgoing := word_of_nat (start + length bs)\<rparr>)"

definition admit_output :: "api_package list \<Rightarrow> jcontext \<Rightarrow> bool \<Rightarrow> u16 \<Rightarrow> reference \<Rightarrow> nat \<Rightarrow> nat \<Rightarrow> ('h, native) nact" where
  "admit_output packages ctx combined declared source offset n =
     sbind (nc_of_heap (check_access source ctx)) (\<lambda>_ s.
       case byte_slice source offset n (nc_heap s) of
         Ok bs \<Rightarrow> returning (nc_command (publish_output combined declared bs)) s
       | Err e \<Rightarrow> if e = JBounds then apdu_exception packages 2 ctx s else (Err e, s))"

definition apdu_send :: "bool \<Rightarrow> bool \<Rightarrow> api_package list \<Rightarrow> jcontext \<Rightarrow> ('h, native) nact" where
  "apdu_send combined from_array packages ctx =
     sbind (nc_on_frame pop_short) (\<lambda>len.
     sbind (nc_on_frame pop_short) (\<lambda>offset.
     sbind (if from_array then nc_on_frame pop_reference else sget (\<lambda>s. Ok (jc_buffer (nc_jcre s)))) (\<lambda>source.
     sbind (nc_on_frame pop_reference) (\<lambda>_ s.
       case send_declared combined len (nc_jcre s) of
         Err reason \<Rightarrow> apdu_exception packages reason ctx s
       | Ok declared \<Rightarrow>
           if sint offset < 0 \<or> sint len < 0 then apdu_exception packages 2 ctx s
           else if unat (jc_outgoing (nc_jcre s)) + unat len > unat declared then apdu_exception packages 1 ctx s
           else admit_output packages ctx combined declared source (unat offset) (unat len) s))))"

definition cla_bit :: "bool \<Rightarrow> byte \<Rightarrow> byte" where
  "cla_bit chaining cla = (if chaining then 0x10 else if cla AND 0x40 \<noteq> 0 then 0x20 else 0x0c)"

definition apdu_cla :: "bool \<Rightarrow> ('h, native) nact" where
  "apdu_cla chaining =
     sbind (nc_on_frame pop_reference) (\<lambda>_ s.
     sbind (nc_of_heap (byte_slice (jc_buffer (nc_jcre s)) 0 1)) (\<lambda>bs.
       let cla = bs ! 0; valid = (cla AND 0xe0 \<noteq> 0x20 \<and> cla \<noteq> 0xff) in
       returning (nc_on_frame (push_short (of_bool (valid \<and> cla AND cla_bit chaining cla \<noteq> 0))))) s)"

definition apdu_call :: "api_package list \<Rightarrow> method_id \<Rightarrow> jcontext \<Rightarrow> ('h, native) nact" where
  "apdu_call packages m ctx =
     (if m = getInBlockSize \<or> m = getOutBlockSize then returning (nc_on_frame (push_short 254))
      else if m = getBuffer then
        sbind (nc_on_frame pop_reference) (\<lambda>_ s. returning (nc_on_frame (push_reference (jc_buffer (nc_jcre s)))) s)
      else if m = getNAD then sbind (nc_on_frame pop_reference) (\<lambda>_. returning (nc_on_frame (push_short 0)))
      else if m = getIncomingLength then apdu_incoming jc_incoming packages ctx
      else if m = getOffsetCdata then apdu_incoming jc_data_offset packages ctx
      else if m = setIncomingAndReceive then apdu_setIncomingAndReceive packages ctx
      else if m = receiveBytes then apdu_receiveBytes packages ctx
      else if m = setOutgoing \<or> m = setOutgoingNoChaining then apdu_setOutgoing packages ctx
      else if m = setOutgoingLength then apdu_setOutgoingLength packages ctx
      else if m = setOutgoingAndSend \<or> m = sendBytes \<or> m = sendBytesLong then
        apdu_send (m = setOutgoingAndSend) (m = sendBytesLong) packages ctx
      else if m = isCommandChainingCLA \<or> m = isSecureMessagingCLA then apdu_cla (m = isCommandChainingCLA)
      else if m = getProtocol then returning (nc_on_frame (push_short 1))
      else sret Unimplemented)"

section \<open>JCSystem\<close>

definition transient_kind :: "method_id \<Rightarrow> byte" where
  "transient_kind m = (if m = makeTransientByteArray then KIND_BYTE else if m = makeTransientBooleanArray then KIND_BOOLEAN
     else if m = makeTransientShortArray then KIND_SHORT else KIND_REFERENCE)"

definition jcsystem_makeTransient :: "api_package list \<Rightarrow> byte \<Rightarrow> jcontext \<Rightarrow> ('h, native) nact" where
  "jcsystem_makeTransient packages kind ctx =
     sbind (nc_on_frame pop_short) (\<lambda>event.
     sbind (nc_on_frame pop_short) (\<lambda>len.
     if sint len < 0 then nc_throw packages NegativeArraySizeException ctx
     else if event \<noteq> 1 \<and> event \<noteq> 2 then throw_reason packages SystemException 1 ctx
     else (\<lambda>s. case nc_on_heap (new_transient_array kind len ctx (if event = 1 then CLEAR_ON_RESET else CLEAR_ON_DESELECT)) s of
         (Ok array, s) \<Rightarrow> returning (nc_on_frame (push_reference array)) s
       | (Err e, s) \<Rightarrow> if e = JQuota then throw_reason packages SystemException 2 ctx s else (Err e, s))))"

definition jcsystem_getAvailableMemory :: "api_package list \<Rightarrow> byte \<Rightarrow> jcontext \<Rightarrow> ('h, native) nact" where
  "jcsystem_getAvailableMemory packages token ctx =
     sbind (nc_on_frame pop_short) (\<lambda>memory_type.
     if \<not> (0 \<le> sint memory_type \<and> sint memory_type \<le> 2) then throw_reason packages SystemException 1 ctx
     else sbind (nc_of_heap (\<lambda>h. Ok (heap_available h))) (\<lambda>available.
     if token = 16 then returning (nc_on_frame (push_short (word_of_nat (min available 32767))))
     else if token = 22 then
       sbind (nc_on_frame pop_short) (\<lambda>offset.
       sbind (nc_on_frame pop_reference) (\<lambda>array.
       sbind (nc_of_heap (check_access array ctx)) (\<lambda>i.
       if inf_kind i \<noteq> KIND_SHORT then sfail JType
       else if sint offset < 0 \<or> unat offset + 2 > unat (inf_length i) then sfail JArrayBounds
       else
         sbind (nc_on_heap (array_put array (unat offset) (word_of_nat (available div 2 ^ 16)))) (\<lambda>_.
         returning (nc_on_heap (array_put array (unat offset + 1) (word_of_nat available)))))))
     else sfail JUnsupported))"

definition nc_transaction_exception :: "api_package list \<Rightarrow> u16 \<Rightarrow> jcontext \<Rightarrow> ('h, native) nact" where
  "nc_transaction_exception packages reason ctx s =
     (case transaction_exception packages ctx reason (nc_heap s, nc_jcre s) of
        (r, h, j) \<Rightarrow> (r, s\<lparr>nc_heap := h, nc_jcre := j\<rparr>))"

definition jcsystem_begin :: "'h services \<Rightarrow> jcontext \<Rightarrow> ('h, native) nact" where
  "jcsystem_begin sv ctx s =
     (if transaction_remaining (nc_heap s) \<noteq> None then nc_transaction_exception (sv_packages sv) 1 ctx s
      else sbind (if jc_transaction_exception (nc_jcre s) = None
                  then sbind (nc_on_heap (new_exception (sv_packages sv) TransactionException ctx)) (\<lambda>ex.
                       nc_command (\<lambda>j. j\<lparr>jc_transaction_exception := Some ex\<rparr>))
                  else sret ()) (\<lambda>_.
           returning (nc_on_heap (begin_transaction (sv_alloc sv) TRANSACTION_CAPACITY))) s)"

definition nc_checkpoint :: "'h services \<Rightarrow> ('h, unit) nact" where
  "nc_checkpoint sv s =
     (case jc_instance (nc_jcre s) of None \<Rightarrow> (Err JMissing, s)
      | Some object \<Rightarrow>
          (case sv_checkpoint sv \<lparr>pv_heap = heap_image (nc_heap s), pv_statics = nc_statics s, pv_instance = object,
                  pv_buffer = jc_buffer (nc_jcre s), pv_projection = None\<rparr> TransactionCommit (nc_host s) of
             (r, host) \<Rightarrow> (r, s\<lparr>nc_host := host\<rparr>)))"

definition jcsystem_commit :: "'h services \<Rightarrow> ('h, native) nact" where
  "jcsystem_commit sv s =
     (let installing = jc_installing (nc_jcre s) in
      sbind (if installing then sret () else nc_checkpoint sv) (\<lambda>_.
      sbind (nc_on_heap commit_transaction) (\<lambda>_.
      returning (nc_on_heap (if installing then sret () else smodify mark_checkpointed)))) s)"

definition jcsystem_abort :: "('h, native) nact" where
  "jcsystem_abort s =
     (case abort_transaction (nc_statics s) (nc_heap s) of
        (r, h, st) \<Rightarrow>
          (case r of Err e \<Rightarrow> Err e | Ok lost \<Rightarrow> if lost then Err JTransactionAborted else Ok Returned,
           s\<lparr>nc_heap := h, nc_statics := st\<rparr>))"

definition jcsystem_finish :: "'h services \<Rightarrow> bool \<Rightarrow> jcontext \<Rightarrow> ('h, native) nact" where
  "jcsystem_finish sv commit ctx s =
     (if transaction_remaining (nc_heap s) = None then nc_transaction_exception (sv_packages sv) 2 ctx s
      else if commit then jcsystem_commit sv s else jcsystem_abort s)"

definition jcsystem_call :: "'h services \<Rightarrow> method_id \<Rightarrow> byte \<Rightarrow> jcontext \<Rightarrow> ('h, native) nact" where
  "jcsystem_call sv m token ctx =
     (if m = makeTransientByteArray \<or> m = makeTransientBooleanArray \<or> m = makeTransientShortArray \<or> m = makeTransientObjectArray
      then jcsystem_makeTransient (sv_packages sv) (transient_kind m) ctx
      else if m = isTransient then
        sbind (nc_on_frame pop_reference) (\<lambda>ref.
        sbind (nc_of_heap (transient_event ref)) (\<lambda>event. returning (nc_on_frame (push_short (ucast event)))))
      else if m = isObjectDeletionSupported then returning (nc_on_frame (push_short 1))
      else if m = getVersion then returning (nc_on_frame (push_short 0x0305))
      else if m = requestObjectDeletion then returning (nc_on_heap request_object_deletion)
      else if m = getTransactionDepth then
        sbind (nc_of_heap (\<lambda>h. Ok (transaction_remaining h \<noteq> None))) (\<lambda>open_now. returning (nc_on_frame (push_short (of_bool open_now))))
      else if m = getMaxCommitCapacity then returning (nc_on_frame (push_short (word_of_nat TRANSACTION_CAPACITY)))
      else if m = getUnusedCommitCapacity then
        sbind (nc_of_heap (\<lambda>h. Ok (case transaction_remaining h of None \<Rightarrow> TRANSACTION_CAPACITY | Some n \<Rightarrow> n))) (\<lambda>n.
        returning (nc_on_frame (push_short (word_of_nat n))))
      else if m = getAvailableMemory then jcsystem_getAvailableMemory (sv_packages sv) token ctx
      else if m = beginTransaction then jcsystem_begin sv ctx
      else if m = commitTransaction \<or> m = abortTransaction then jcsystem_finish sv (m = commitTransaction) ctx
      else sret Unimplemented)"

section \<open>Applet\<close>

definition take_aid :: "jcontext \<Rightarrow> ('h, unit) nact" where
  "take_aid ctx =
     sbind (nc_on_frame pop_short) (\<lambda>len.
     sbind (nc_on_frame pop_short) (\<lambda>offset.
     sbind (nc_on_frame pop_reference) (\<lambda>array.
     sbind (nc_of_heap (check_access array ctx)) (\<lambda>_.
     if \<not> (5 \<le> sint len \<and> sint len \<le> 16) \<or> sint offset < 0 then sfail JBounds
     else
       sbind (nc_of_heap (byte_slice array (unat offset) (unat len))) (\<lambda>bs.
       nc_command (\<lambda>j. j\<lparr>jc_aid := overwrite (jc_aid j) 0 bs, jc_aid_length := ucast len\<rparr>))))))"

definition applet_register :: "byte \<Rightarrow> jcontext \<Rightarrow> ('h, native) nact" where
  "applet_register signature ctx s =
     (if jc_instance (nc_jcre s) \<noteq> None then (Err JUnauthorized, s)
      else sbind (if \<not> empty_parameters signature then take_aid ctx else sret ()) (\<lambda>_.
           sbind (nc_on_frame pop_reference) (\<lambda>object.
           sbind (nc_of_heap (check_access object ctx)) (\<lambda>_.
           returning (nc_command (\<lambda>j. j\<lparr>jc_instance := Some object\<rparr>))))) s)"

definition applet_call :: "method_id \<Rightarrow> byte \<Rightarrow> jcontext \<Rightarrow> ('h, native) nact" where
  "applet_call m signature ctx =
     (if m = register then applet_register signature ctx
      else if m = reSelectingApplet then (\<lambda>s. returning (nc_on_frame (push_short (of_bool (jc_reselecting (nc_jcre s))))) s)
      else if m = selectingApplet then
        sbind (nc_on_frame pop_reference) (\<lambda>_ s. returning (nc_on_frame (push_short (of_bool (jc_selecting (nc_jcre s))))) s)
      else if m = Constructor then returning (sbind (nc_on_frame pop_reference) (\<lambda>_. sret ()))
      else sret Unimplemented)"

section \<open>Dispatch\<close>

definition util_caught :: "api_package list \<Rightarrow> method_id \<Rightarrow> jcontext \<Rightarrow> ('h, native) nact" where
  "util_caught packages m ctx s =
     (case util_call m ctx s of
        (Err e, s) \<Rightarrow> if e = JBounds then nc_throw packages ArrayIndexOutOfBoundsException ctx s
                     else if e = JNull then nc_throw packages NullPointerException ctx s
                     else (Err e, s)
      | (Ok r, s) \<Rightarrow> (Ok r, s))"

definition framework_call :: "'h services \<Rightarrow> api_target \<Rightarrow> jcontext \<Rightarrow> ('h, native) nact" where
  "framework_call sv target ctx =
     (let c = ac_id (at_class target); m = am_id (at_method target); signature = am_signature (at_method target) in
      if c = Util_Id then util_caught (sv_packages sv) m ctx
      else if c = APDU_Id then apdu_call (sv_packages sv) m ctx
      else if c = JCSystem_Id then jcsystem_call sv m (am_token (at_method target)) ctx
      else if c = Applet_Id then applet_call m signature ctx
      else sv_security sv c m signature ctx)"

end
