(* ===== verification/Heap_Safety.thy ===== *)
theory Heap_Safety
  imports Runtime_Objects
begin

text \<open>
  What every heap operation keeps, inside and outside transactions: the heap invariant, the size of
  the slab, the objects that exist and the before-images of static fields. The heap and the static
  fields together form the persistent state of an applet; begin, commit and abort of transactions,
  the clearing of transient arrays and the runtime's own visits keep its invariant as well.
\<close>

section \<open>Operations\<close>

definition grown :: "heap \<Rightarrow> heap \<Rightarrow> bool" where
  "grown h h' \<longleftrightarrow> heap_inv h' \<and> hp_next h \<le> hp_next h' \<and> length (hp_bytes h') = length (hp_bytes h)
     \<and> map_option tx_frame (hp_tx h') = map_option tx_frame (hp_tx h)"

lemma grown_refl: "heap_inv h \<Longrightarrow> grown h h"
  by (simp add: grown_def)

lemma grown_shape: "heap_inv h' \<Longrightarrow> same_shape h h' \<Longrightarrow> grown h h'"
  by (simp add: grown_def same_shape_def)

lemma grown_tx_step: "tx_step loose view h h' \<Longrightarrow> grown h h'"
  by (simp add: tx_step_def grown_def)

lemma remembered_grows:
  assumes "heap_inv h" and "at + length v \<le> hp_next h"
  shows "grown h (snd (sbind (remember at (length v) i) (\<lambda>_. smodify (heap_poke at v)) h))"
proof -
  obtain r h1 where run: "remember at (length v) i h = (r, h1)" by fastforce
  show ?thesis
  proof (cases r)
    case (Err e)
    then show ?thesis
      using run remember_err [OF assms(1), of at "length v" i e h1] grown_refl [OF assms(1)] by (simp add: sbind_def)
  next
    case (Ok u)
    then have "heap_inv h1 \<and> same_shape h h1"
      using remember_ok(1) [OF assms, of i h1] run by simp
    then show ?thesis
      using assms run Ok heap_inv_poke [of h1 at v] same_shape_poke [of h1 at v h]
      by (auto simp: sbind_def same_shape_def intro: grown_shape)
  qed
qed

lemma write_conditional_grows:
  "heap_inv h \<Longrightarrow> at + length v \<le> hp_next h \<Longrightarrow> grown h (snd (write_conditional at v i h))"
  using remembered_grows [of h at v i] by (simp add: write_conditional_def grown_refl)

text \<open>The shape of a conditional operation: look a range up, then write it or refuse.\<close>

lemma lookup_grows:
  assumes "heap_inv h" and "\<And>at i. look h = Ok (at, i) \<Longrightarrow> grown h (snd (w at i h))"
  shows "grown h (snd (sbind (sget look) (\<lambda>(at, i). w at i) h))"
  using assms by (cases "look h") (auto simp: sbind_def grown_refl)

lemma put_grows:
  assumes "heap_inv h"
  shows "grown h (snd (put_word ref index v h))" and "grown h (snd (put_int ref index x h))"
proof -
  have two: "at + 2 \<le> hp_next h" if "heap_slot ref k False h = Ok (at, i)" for at i k
    using heap_slot_bounds [OF that] object_element_size [of h ref i] that by (simp add: heap_slot_eq_Ok)
  show "grown h (snd (put_word ref index v h))"
    unfolding put_word_def using assms two by (intro lookup_grows write_conditional_grows) simp_all
  show "grown h (snd (put_int ref index x h))"
    unfolding put_int_def
  proof (rule lookup_grows [OF assms])
    fix at i
    assume l: "heap_slot ref index False h = Ok (at, i)"
    show "grown h (snd (sbind (sget (heap_slot ref (index + 1) False)) (\<lambda>_. write_conditional at (be32_bytes x) i) h))"
    proof (cases "heap_slot ref (index + 1) False h")
      case (Ok y)
      then have "at + 4 \<le> hp_next h"
        using two [of "index + 1" "fst y" "snd y"] l object_element_size [of h ref i]
        by (cases y) (auto simp: heap_slot_eq_Ok)
      then show ?thesis
        using assms Ok write_conditional_grows by (simp add: sbind_def)
    qed (use assms in \<open>simp add: sbind_def grown_refl\<close>)
  qed
qed

lemma array_put_grows:
  assumes "heap_inv h" and "\<And>i. \<not> bad i \<Longrightarrow> length (bs i) = element_size i"
  shows "grown h (snd (sbind (sget (heap_slot ref index True)) (\<lambda>(at, i). if bad i then sfail JType else write_conditional at (bs i) i) h))"
  using assms heap_slot_bounds by (intro lookup_grows) (auto simp: grown_refl intro!: write_conditional_grows)

lemma copy_grows:
  assumes "heap_inv h"
  shows "grown h (snd (copy_bytes s so d ofs n h))"
proof -
  let ?at = "unat d + HEADER + ofs" and ?v = "bytes_at h (unat s + HEADER + so) n"
  consider e where "copy_bytes s so d ofs n h = (Err e, h)"
    | i where "unat s + HEADER + so + n \<le> hp_next h" "?at + n \<le> hp_next h"
      "copy_bytes s so d ofs n h = sbind (remember ?at n i) (\<lambda>_ h1. (Ok (), heap_poke ?at ?v h1)) h"
    using copy_inner_cases [OF assms, of s so d ofs n True] by (auto simp: copy_bytes_def Let_def)
  then show ?thesis
  proof cases
    case 2
    then have "length ?v = n"
      using copy_within_poke(2) [OF _ _ assms] by blast
    then show ?thesis
      using 2 remembered_grows [OF assms, of ?at ?v i] by (simp add: smodify_def)
  qed (use grown_refl [OF assms] in simp)
qed

lemma remember_object_grows:
  assumes "heap_inv h"
  shows "grown h (snd (remember_object ref h))"
proof (cases "heap_info h ref")
  case (Ok i)
  obtain r h1 where run: "remember (unat ref + HEADER) (unat (inf_length i) * element_size i) i h = (r, h1)" by fastforce
  show ?thesis
    using Ok run heap_info_bounds(1) [OF Ok] grown_refl [OF assms]
    by (cases r) (auto simp: remember_object_def dest: remember_err [OF assms] remember_ok(1) [OF assms] intro: grown_shape)
qed (use assms in \<open>simp add: remember_object_def grown_refl\<close>)

lemma allocate_grows:
  assumes "heap_inv h"
  shows "grown h (snd (allocate c n kind ctx ev h))"
proof (cases "in_tx h")
  case True
  then show ?thesis
    using allocate_step [OF assms, of c n kind ctx ev] grown_tx_step by (metis prod.collapse)
next
  case False
  then have tx: "hp_tx h = None"
    by (metis in_tx_def)
  show ?thesis
  proof (cases "hp_aborted h \<or> is_Err (heap_allocation_range (hp_next h) kind n h)")
    case True
    then show ?thesis
      using grown_refl [OF assms] by (cases "heap_allocation_range (hp_next h) kind n h") (auto simp: allocate_def)
  next
    case False
    then obtain at fin where range: "heap_allocation_range (hp_next h) kind n h = Ok (at, fin)"
      by (cases "heap_allocation_range (hp_next h) kind n h") auto
    note ar = heap_allocation_range_Ok [OF range]
    let ?hd = "be16_bytes c @ be16_bytes n @ [kind OR push_bit 4 ev, ctx]"
    let ?g = "(heap_poke at ?hd (heap_poke at (replicate (fin - at) 0) h))\<lparr>hp_next := fin\<rparr>"
    have run: "snd (allocate c n kind ctx ev h) = note_pending at (if ev = 0 then fin - at else HEADER) ?g"
      using False range tx by (simp add: allocate_def Let_def)
    have "hp_next h \<le> fin" "hp_next h + 6 \<le> fin" "even fin"
      using ar by auto
    then have "grown h ?g"
      using assms ar tx by (auto simp: grown_def heap_inv_def)
    then show ?thesis
      using run heap_inv_pending [of ?g] by (simp add: grown_def)
  qed
qed

lemma new_grows:
  assumes "heap_inv h"
  shows "grown h (snd (sbind (if a then sfail e1 else if b then sfail e2 else allocate c n kind ctx ev) (\<lambda>_. sret ()) h))"
  using allocate_grows [OF assms, of c n kind ctx ev] grown_refl [OF assms]
  by (auto simp: sbind_def split: prod.splits result.splits)

lemma hop_grows:
  assumes "heap_inv h"
  shows "grown h (snd (hop_step op h))"
proof (cases "in_tx h")
  case True
  then show ?thesis
    using hop_tx_step [OF assms] grown_tx_step by blast
next
  case False
  show ?thesis
  proof (cases op)
    case (Put_word_unconditional r i v)
    then show ?thesis
      using put_word_unconditional_step [OF assms, of r i v] grown_tx_step by (metis hop_step.simps prod.collapse)
  next
    case (Fill_bytes_unconditional r off n v)
    then show ?thesis
      using fill_bytes_unconditional_step [OF assms, of r off n v] grown_tx_step by (metis hop_step.simps prod.collapse)
  next
    case (Write_bytes_unconditional r off v)
    then show ?thesis
      using write_bytes_unconditional_step [OF assms, of r off v] grown_tx_step by (metis hop_step.simps prod.collapse)
  next
    case (Copy_bytes_unconditional s so d ofs n)
    then show ?thesis
      using copy_bytes_unconditional_step [OF assms, of s so d ofs n] grown_tx_step by (metis hop_step.simps prod.collapse)
  next
    case (Array_put r i v)
    then show ?thesis
      using array_put_grows [OF assms, of "\<lambda>i. inf_kind i = KIND_INT \<or> inf_kind i = KIND_REFERENCE" "\<lambda>i. element_bytes i v" r i]
      by (simp add: array_put_def element_bytes_def element_size_def)
  next
    case (Array_put_reference r i v)
    then show ?thesis
      using array_put_grows [OF assms, of "\<lambda>i. inf_kind i \<noteq> KIND_REFERENCE" "\<lambda>_. be16_bytes v" r i]
      by (simp add: array_put_reference_def element_size_def)
  next
    case (Array_put_int r i v)
    then show ?thesis
      using array_put_grows [OF assms, of "\<lambda>i. inf_kind i \<noteq> KIND_INT" "\<lambda>_. be32_bytes v" r i]
      by (simp add: array_put_int_def element_size_def)
  next
    case (Write_slice r off v)
    have "write_slice r off v h = sbind (sget (byte_array_range r off (length v)))
        (\<lambda>(at, i). sbind (remember at (length v) i) (\<lambda>_. smodify (heap_poke at v))) h"
      by (auto simp: write_slice_def byte_slice_mut_def sbind_def split: result.splits prod.splits)
    then show ?thesis
      using Write_slice byte_array_bounds by (auto intro!: lookup_grows [OF assms] remembered_grows [OF assms])
  next
    case (New_object c n ctx)
    then show ?thesis
      using new_grows [OF assms, of False JFormat False JFormat c n KIND_OBJECT ctx 0] by (simp add: new_object_def)
  next
    case (New_array k n ctx)
    then show ?thesis
      using new_grows [OF assms, of False JFormat "\<not> (KIND_BOOLEAN \<le> k \<and> k \<le> KIND_REFERENCE)" JFormat
          "if k = KIND_REFERENCE then ANY_REFERENCE_CLASS else 0" n k ctx 0] by (simp add: new_array_def)
  next
    case (New_reference_array c n ctx)
    then show ?thesis
      using new_grows [OF assms, of False JFormat "c = ANY_REFERENCE_CLASS" JFormat c n KIND_REFERENCE ctx 0]
      by (simp add: new_reference_array_def)
  next
    case (New_transient_array k n ctx e)
    then show ?thesis
      using new_grows [OF assms, of "\<not> (e = CLEAR_ON_RESET \<or> e = CLEAR_ON_DESELECT)" JFormat
          "\<not> (KIND_BOOLEAN \<le> k \<and> k \<le> KIND_REFERENCE)" JFormat
          "if k = KIND_REFERENCE then ANY_REFERENCE_CLASS else 0" n k ctx e] by (simp add: new_transient_array_def)
  qed (use assms put_grows copy_grows remember_object_grows in simp_all)
qed

section \<open>Visits\<close>

text \<open>A visitor that keeps the length of every payload keeps the heap, whatever it writes.\<close>

lemma visit_from_grows:
  assumes "heap_inv h" and "hp_tx h = None" and "\<And>ref i p. length p = payload_size i \<Longrightarrow> length (snd (visit ref i p)) = length p"
  shows "grown h (snd (visit_from visit at h)) \<and> hp_next (snd (visit_from visit at h)) = hp_next h"
  using assms
proof (induction visit at h rule: visit_from.induct)
  case (1 visit at h)
  note inv = "1.prems"(1) and bounds = heap_invD [OF "1.prems"(1)]
  show ?case
  proof (cases "at < hp_next h \<and> is_Ok (heap_info h (word_of_nat at))")
    case False
    then show ?thesis
      using grown_refl [OF inv] by (cases "heap_info h (word_of_nat at)") (auto simp: visit_from.simps [of visit at h])
  next
    case True
    then obtain i where i: "heap_info h (word_of_nat at) = Ok i"
      by (auto simp: is_Ok_def)
    have at: "unat (word_of_nat at :: u16) = at"
      using True bounds(3) by (simp add: unat_word_of_nat_u16 u16_max_def)
    let ?fin = "at + HEADER + unat (inf_length i) * element_size i"
    let ?p = "slice_of (hp_bytes h) (at + HEADER) ?fin"
    obtain r p where v: "visit (word_of_nat at) i ?p = (r, p)" by fastforce
    have fin: "?fin \<le> hp_next h"
      using heap_info_bounds(1) [OF i] at by simp
    have "length ?p = ?fin - (at + HEADER)"
      using fin bounds(2) by (intro length_slice_of) linarith
    then have room: "at + HEADER + length p \<le> hp_next h"
      using "1.prems"(3) [of ?p i "word_of_nat at"] v fin by (simp add: payload_size_def)
    let ?g = "heap_poke (at + HEADER) p h"
    have g: "heap_inv ?g" "grown h ?g" "hp_next ?g = hp_next h" "hp_tx ?g = None"
      using heap_inv_poke [OF inv room] room bounds(2) "1.prems"(2) by (simp_all add: grown_def)
    show ?thesis
    proof (cases r)
      case (Err e)
      then show ?thesis
        using True i v g by (simp add: visit_from.simps [of visit at h] Let_def)
    next
      case (Ok x)
      have "grown ?g (snd (visit_from visit (next_even ?fin) ?g)) \<and> hp_next (snd (visit_from visit (next_even ?fin) ?g)) = hp_next ?g"
        by (rule "1.IH" [OF _ i refl v [symmetric] Ok g(1,4) "1.prems"(3)]) (use True in simp)
      then show ?thesis
        using True i v Ok g(2,3) by (auto simp: visit_from.simps [of visit at h] Let_def grown_def)
    qed
  qed
qed

lemma visit_objects_grows:
  assumes "heap_inv h" and "\<And>ref i p. length p = payload_size i \<Longrightarrow> length (snd (visit ref i p)) = length p"
  shows "grown h (snd (visit_objects visit h))"
proof (cases "hp_tx h")
  case None
  then show ?thesis
    using visit_from_grows [OF assms(1) None, of visit 2] assms(2) by (simp add: visit_objects_def)
qed (simp add: visit_objects_def grown_refl [OF assms(1)])

lemma release_grows: "heap_inv h \<Longrightarrow> grown h (snd (release_temporary_natives packages h))"
  unfolding release_temporary_natives_def release_one_shot_digests_def
  by (rule visit_objects_grows) (auto simp: is_one_shot_def payload_size_def element_size_def)

section \<open>The persistent state\<close>

text \<open>
  The heap with the static fields: inside a transaction, every before-image of a static field lies
  inside the static area, which is what lets an abort put it back.
\<close>

definition card_state :: "heap \<Rightarrow> bytes \<Rightarrow> bool" where
  "card_state h st \<longleftrightarrow> heap_inv h \<and> (case hp_tx h of None \<Rightarrow> True
     | Some (_, u) \<Rightarrow> list_all (\<lambda>e. fst e - 65536 + length (snd e) \<le> length st) (static_images u))"

lemma card_state_tx: "tx_state (h, st) \<longleftrightarrow> card_state h st \<and> in_tx h"
  by (auto simp: tx_state_def card_state_def in_tx_def split: option.splits)

lemma card_state_grown: "card_state h st \<Longrightarrow> grown h h' \<Longrightarrow> card_state h' st"
  by (cases "hp_tx h"; cases "hp_tx h'") (auto simp: card_state_def grown_def)

lemma pending_statics_inv: "pending_inv p \<Longrightarrow> pending_inv (pending_statics at n p)"
  by (auto simp: pending_statics_def pending_inv_def active_def split: option.splits)

lemma remember_static_grows:
  assumes "card_state h st" and "at + n \<le> length st"
  shows "card_state (snd (remember_static at (slice_of st at (at + n)) h)) st"
    and "hp_next (snd (remember_static at (slice_of st at (at + n)) h)) = hp_next h"
proof -
  let ?old = "slice_of st at (at + n)"
  have inv: "heap_inv h"
    using assms(1) by (simp add: card_state_def)
  have "card_state (snd (remember_static at ?old h)) st \<and> hp_next (snd (remember_static at ?old h)) = hp_next h"
  proof (cases "hp_tx h")
    case None
    then show ?thesis
      using inv by (simp add: remember_static_def card_state_def heap_inv_def pending_statics_inv)
  next
    case (Some tx)
    obtain start u where tx: "hp_tx h = Some (start, u)"
      using Some by (cases tx) simp
    have len: "length (overwrite st at ?old) = length st" "length ?old = n"
      using assms(2) by simp_all
    let ?s = "tx_op_step (Put_static at ?old) (h, st)"
    have "tx_state (h, st)"
      using assms(1) tx by (auto simp: card_state_tx in_tx_def)
    then have "tx_state ?s \<and> hp_next (fst ?s) = hp_next h"
      using put_static_step [of h st at ?old "fst ?s" "snd ?s"] by simp
    moreover have "fst ?s = snd (remember_static at ?old h) \<and> length (snd ?s) = length st"
      using assms(2) len by (auto split: prod.splits result.splits)
    ultimately show ?thesis
      by (cases ?s) (auto simp: tx_state_def card_state_def split: option.splits)
  qed
  then show "card_state (snd (remember_static at ?old h)) st"
    "hp_next (snd (remember_static at ?old h)) = hp_next h"
    by simp_all
qed

end
