(* ===== verification/Interpreter_Steps.thy ===== *)
theory Interpreter_Steps
  imports Interpreter Heap_Safety
begin

text \<open>
  How the interpreter changes the machine. Every change is one of a few primitive steps: an
  operation on the running frame, an operation on the heap, a store to a static field, the exception
  object of the command, one unit of budget, one poll of the cancellation callback, the release of
  temporary objects, a call with its own frame, or a native method. A relation that holds for these
  steps holds from the start to the end of every run; the locale states the steps and proves this
  once, for each instruction and for the loop.
\<close>

section \<open>Sequences of operations\<close>

definition by_ops :: "('op \<Rightarrow> ('s, 'e, 'v) act) \<Rightarrow> ('s, 'f, 'a) act \<Rightarrow> bool" where
  "by_ops step m \<longleftrightarrow> (\<forall>s. \<exists>ops. snd (m s) = fold (\<lambda>op s. snd (step op s)) ops s)"

named_theorems op_intros \<open>actions made of operations\<close>

lemma by_ops_none: "(\<And>s. snd (m s) = s) \<Longrightarrow> by_ops step m"
  by (auto simp: by_ops_def intro: exI [of _ "[]"])

lemma by_ops_basic [simp, op_intros]:
  "by_ops step (sret x)" "by_ops step (sfail e)" "by_ops step (slift r)" "by_ops step (sget g)"
  by (simp_all add: by_ops_none)

lemma by_ops_sbind [op_intros]:
  assumes "by_ops step m" and "\<And>x. by_ops step (f x)"
  shows "by_ops step (sbind m f)"
  unfolding by_ops_def
proof
  fix s
  obtain r t where m: "m s = (r, t)" by fastforce
  obtain xs where xs: "t = fold (\<lambda>op s. snd (step op s)) xs s"
    using assms(1) m unfolding by_ops_def by (metis snd_conv)
  show "\<exists>ops. snd (sbind m f s) = fold (\<lambda>op s. snd (step op s)) ops s"
  proof (cases r)
    case (Err e)
    then show ?thesis
      using m xs by (auto simp: sbind_def)
  next
    case (Ok x)
    obtain ys where "snd (f x t) = fold (\<lambda>op s. snd (step op s)) ys t"
      using assms(2) [of x] unfolding by_ops_def by blast
    then show ?thesis
      using m Ok xs by (auto simp: sbind_def intro!: exI [of _ "xs @ ys"])
  qed
qed

lemma sbind_assoc: "sbind (sbind m f) g = sbind m (\<lambda>x. sbind (f x) g)"
  by (auto simp: sbind_def fun_eq_iff split: prod.splits result.splits)

lemma sbind_done: "sbind (sret x) f = f x" "sbind (sfail e) f = sfail e"
  by (auto simp: sbind_def sret_def sfail_def)

lemma sbind_if: "sbind (if b then m else n) f = (if b then sbind m f else sbind n f)"
  by simp

lemma by_ops_one: "(\<And>s. snd (m s) = snd (step op s)) \<Longrightarrow> by_ops step m"
  unfolding by_ops_def by (intro allI exI [of _ "[op]"]) simp

lemma snd_smap [simp]: "snd (smap g m s) = snd (m s)"
  by (auto simp: smap_def sbind_def split: prod.splits result.splits)

abbreviation frame_action :: "'a fact \<Rightarrow> bool" where "frame_action \<equiv> by_ops frame_step"

lemma frame_actions [op_intros]:
  "frame_action (push_short a)" "frame_action pop_short" "frame_action (push_reference r)" "frame_action pop_reference"
  "frame_action (push_int i)" "frame_action pop_int" "frame_action (push_raw c)" "frame_action pop_raw"
  "frame_action (duplicate m n)" "frame_action (swap m n)" "frame_action (pop_words n)"
  "frame_action (smodify clear_stack)" "frame_action (store_short k a)" "frame_action (store_reference k r)"
  "frame_action (store_int k i)" "frame_action (store_raw k c)"
  by (rule by_ops_one [where op = "Push_short a"] by_ops_one [where op = Pop_short]
      by_ops_one [where op = "Push_reference r"] by_ops_one [where op = Pop_reference]
      by_ops_one [where op = "Push_int i"] by_ops_one [where op = Pop_int]
      by_ops_one [where op = "Push_raw c"] by_ops_one [where op = Pop_raw]
      by_ops_one [where op = "Duplicate m n"] by_ops_one [where op = "Swap m n"]
      by_ops_one [where op = "Pop_words n"] by_ops_one [where op = Clear_stack]
      by_ops_one [where op = "Store_short k a"] by_ops_one [where op = "Store_reference k r"]
      by_ops_one [where op = "Store_int k i"] by_ops_one [where op = "Store_raw k c"], simp; fail)+

abbreviation heap_action :: "'a hact \<Rightarrow> bool" where "heap_action \<equiv> by_ops hop_step"

lemma snd_discard [simp]: "snd (sbind m (\<lambda>_. sret u) s) = snd (m s)"
  by (auto simp: sbind_def split: prod.splits result.splits)

lemma heap_actions [op_intros]:
  "heap_action (put_word r k a)" "heap_action (put_word_unconditional r k a)" "heap_action (put_int r k i)"
  "heap_action (array_put r k a)" "heap_action (array_put_reference r k b)" "heap_action (array_put_int r k i)"
  "heap_action (new_object c n ctx)" "heap_action (new_array kind n ctx)" "heap_action (new_reference_array c n ctx)"
  by (rule by_ops_one [where op = "Put_word r k a"] by_ops_one [where op = "Put_word_unconditional r k a"]
      by_ops_one [where op = "Put_int r k i"] by_ops_one [where op = "Array_put r k a"]
      by_ops_one [where op = "Array_put_reference r k b"] by_ops_one [where op = "Array_put_int r k i"]
      by_ops_one [where op = "New_object c n ctx"] by_ops_one [where op = "New_array kind n ctx"]
      by_ops_one [where op = "New_reference_array c n ctx"], simp; fail)+

lemma runtime_actions [op_intros]:
  "heap_action (new_api_object packages wanted ctx)" "heap_action (new_exception packages name ctx)"
  by (auto simp: new_api_object_def new_exception_def Let_def intro!: op_intros split: option.splits)

lemma transaction_exception_ops:
  assumes "transaction_exception packages ctx reason (h, j) = (r, h', j')"
  shows "\<exists>ops. h' = fold (\<lambda>op h. snd (hop_step op h)) ops h"
proof -
  have "\<exists>m :: unit hact. heap_action m \<and> h' = snd (m h)"
  proof (cases "jc_transaction_exception j")
    case None
    then have "h' = snd (sbind (new_exception packages TransactionException ctx) (\<lambda>ex. put_word_unconditional ex REASON_FIELD reason) h)"
      using assms by (auto simp: transaction_exception_def sbind_def split: prod.splits result.splits)
    moreover have "heap_action (sbind (new_exception packages TransactionException ctx) (\<lambda>ex. put_word_unconditional ex REASON_FIELD reason))"
      by (intro op_intros)
    ultimately show ?thesis
      by blast
  next
    case (Some ref)
    then have "h' = snd (put_word_unconditional ref REASON_FIELD reason h)"
      using assms by (auto simp: transaction_exception_def split: prod.splits result.splits)
    then show ?thesis
      using heap_actions(2) by blast
  qed
  then obtain m :: "unit hact" where "heap_action m" "h' = snd (m h)"
    by blast
  then show ?thesis
    unfolding by_ops_def by blast
qed

lemma transaction_exception_command:
  assumes "transaction_exception packages ctx reason (h, j) = (r, h', j')"
  shows "j' = j\<lparr>jc_transaction_exception := jc_transaction_exception j'\<rparr>"
  using assms by (auto simp: transaction_exception_def split: option.splits prod.splits result.splits)

section \<open>Relations kept by actions\<close>

definition follows :: "('s \<Rightarrow> 's \<Rightarrow> bool) \<Rightarrow> ('s, 'e, 'a) act \<Rightarrow> bool" where
  "follows R m \<longleftrightarrow> (\<forall>s. R s (snd (m s)))"

lemma followsI: "(\<And>s r t. m s = (r, t) \<Longrightarrow> R s t) \<Longrightarrow> follows R m"
  unfolding follows_def by (metis prod.collapse)

lemma followsD: "follows R m \<Longrightarrow> m s = (r, t) \<Longrightarrow> R s t"
  by (metis follows_def snd_conv)

lemma follows_none: "(\<And>s. R s s) \<Longrightarrow> (\<And>s. snd (m s) = s) \<Longrightarrow> follows R m"
  by (simp add: follows_def)

lemma follows_sbind:
  assumes trans: "\<And>s t u. R s t \<Longrightarrow> R t u \<Longrightarrow> R s u"
    and "follows R m" and "\<And>x. follows R (k x)"
  shows "follows R (sbind m k)"
proof (rule followsI)
  fix s r u
  assume run: "sbind m k s = (r, u)"
  obtain r1 t where m: "m s = (r1, t)" by fastforce
  show "R s u"
  proof (cases r1)
    case (Err e)
    then show ?thesis
      using run m followsD [OF assms(2) m] by (simp add: sbind_def)
  next
    case (Ok x)
    then have "k x t = (r, u)"
      using run m by (simp add: sbind_def)
    then show ?thesis
      using trans followsD [OF assms(2) m] followsD [OF assms(3)] by blast
  qed
qed

section \<open>Frames keep their room\<close>

definition room :: "frame \<Rightarrow> nat \<times> nat" where
  "room f = (length (words f), length (tags f))"

lemma room_simps [simp]:
  "room (set_word i w f) = room f" "room (set_tag i b f) = room f" "room (f\<lparr>depth := d\<rparr>) = room f"
  by (simp_all add: room_def set_word_def set_tag_def Let_def)

lemma room_fold: "(\<And>x f. room (g x f) = room f) \<Longrightarrow> room (fold g xs f) = room f"
  by (induction xs arbitrary: f) simp_all

abbreviation roomy :: "'a fact \<Rightarrow> bool" where
  "roomy \<equiv> follows (\<lambda>f f'. room f' = room f)"

lemma roomy_sbind: "roomy m \<Longrightarrow> (\<And>x. roomy (k x)) \<Longrightarrow> roomy (sbind m k)"
  by (rule follows_sbind) simp_all

lemma roomy_words:
  "roomy (push_word v r)" "roomy (pop_word r)" "roomy pop_raw" "roomy (pop_words n)" "roomy (smodify clear_stack)"
  "roomy (store_raw k c)" "roomy (store_short k a)" "roomy (store_reference k ref)"
  by (simp_all add: follows_def push_word_def pop_word_def pop_raw_def pop_words_def clear_stack_def store_raw_def
      store_short_def store_reference_def Let_def split: result.splits)

lemma roomy_copies: "roomy (duplicate m n)" "roomy (swap m n)"
  by (auto simp: follows_def duplicate_def swap_def Let_def room_fold split_beta)

lemma roomy_ints: "roomy (push_int i)" "roomy pop_int" "roomy (store_int k i)"
proof -
  show "roomy (push_int i)"
    unfolding push_int_def
    by (intro roomy_sbind roomy_words) (auto simp: follows_def dest: followsD [OF roomy_words(1)] split: prod.splits result.splits)
  show "roomy pop_int" "roomy (store_int k i)"
    unfolding pop_int_def store_int_def by (intro roomy_sbind roomy_words; simp add: follows_def)+
qed

lemma frame_step_room: "room (snd (frame_step op f)) = room f"
  using roomy_words roomy_copies roomy_ints
  by (cases op) (simp_all add: follows_def push_short_def push_reference_def pop_short_def pop_reference_def push_raw_def)

lemma frame_step_inv: "frame_inv f \<Longrightarrow> frame_inv (snd (frame_step op f))"
  using step_refines [of op] by (auto simp: refines_def dest: spec [of _ f]) (metis prod.collapse)

definition frame_kept :: "frame \<Rightarrow> frame \<Rightarrow> bool" where
  "frame_kept f f' \<longleftrightarrow> room f' = room f \<and> (frame_inv f \<longrightarrow> frame_inv f')"

lemma frame_kept_fold: "frame_kept f (fold (\<lambda>op f. snd (frame_step op f)) ops f)"
  by (induction ops arbitrary: f) (auto simp: frame_kept_def frame_step_room frame_step_inv)

text \<open>Passing arguments is a run of operations on the caller and keeps the callee's frame.\<close>

lemma frame_action_kept: "frame_action m \<Longrightarrow> frame_kept f (snd (m f))"
  using frame_kept_fold by (auto simp: by_ops_def dest!: spec [of _ f])

lemma pass_args_steps:
  assumes "pass_args n caller callee = (r, caller', callee')"
  shows "(\<exists>ops. caller' = fold (\<lambda>op f. snd (frame_step op f)) ops caller) \<and> frame_kept callee callee'"
  using assms
proof (induction n caller callee rule: pass_args.induct)
  case (1 caller callee)
  then show ?case
    by (auto simp: frame_kept_def intro: exI [of _ "[]"])
next
  case (2 index caller callee)
  obtain r1 f where pop: "pop_raw caller = (r1, f)" by fastforce
  have f: "f = snd (frame_step Pop_raw caller)"
    using pop by simp
  show ?case
  proof (cases r1)
    case (Err e)
    then have "caller' = fold (\<lambda>op f. snd (frame_step op f)) [Pop_raw] caller" "callee' = callee"
      using "2.prems" pop by simp_all
    then show ?thesis
      unfolding frame_kept_def by blast
  next
    case (Ok v)
    obtain r2 g where store: "store_raw index v callee = (r2, g)" by fastforce
    have g: "frame_kept callee g"
      using frame_action_kept [OF frame_actions(16), of callee index v] store by simp
    show ?thesis
    proof (cases r2)
      case (Err e)
      then have "caller' = fold (\<lambda>op f. snd (frame_step op f)) [Pop_raw] caller" "callee' = g"
        using "2.prems" pop Ok store by simp_all
      then show ?thesis
        using g by blast
    next
      case ok: (Ok u)
      then have run: "pass_args index f g = (r, caller', callee')"
        using "2.prems" pop Ok store by simp
      from "2.IH" [OF pop [symmetric] Ok store [symmetric] ok run]
      obtain ops where "caller' = fold (\<lambda>op f. snd (frame_step op f)) ops f" "frame_kept g callee'"
        by blast
      then have "caller' = fold (\<lambda>op f. snd (frame_step op f)) (Pop_raw # ops) caller" "frame_kept callee callee'"
        using f g by (simp_all add: frame_kept_def)
      then show ?thesis
        by blast
    qed
  qed
qed

section \<open>The steps of the machine\<close>

text \<open>The view a native method has of the machine.\<close>

definition as_native :: "'h vm \<Rightarrow> 'h native_context" where
  "as_native s = \<lparr>nc_heap = vm_heap s, nc_host = vm_host s, nc_frame = vm_frame s, nc_jcre = vm_jcre s,
     nc_budget = vm_budget s, nc_statics = vm_statics s\<rparr>"

definition from_native :: "'h vm \<Rightarrow> 'h native_context \<Rightarrow> 'h vm" where
  "from_native s n = s\<lparr>vm_heap := nc_heap n, vm_host := nc_host n, vm_frame := nc_frame n, vm_jcre := nc_jcre n,
     vm_budget := nc_budget n, vm_statics := nc_statics n\<rparr>"

definition native_follows :: "('h vm \<Rightarrow> 'h vm \<Rightarrow> bool) \<Rightarrow> ('h, 'a) nact \<Rightarrow> bool" where
  "native_follows R m \<longleftrightarrow> (\<forall>s. R s (from_native s (snd (m (as_native s)))))"

text \<open>What a relation asks of the natives that the environment supplies.\<close>

definition natives_follow :: "('h vm \<Rightarrow> 'h vm \<Rightarrow> bool) \<Rightarrow> 'h env \<Rightarrow> bool" where
  "natives_follow R ev \<longleftrightarrow> (\<forall>target. native_follows R (ev_framework ev target (ev_context ev)))
     \<and> (\<forall>c m signature. native_follows R (ev_security ev c m signature (ev_context ev)))"

definition callee_state :: "'h vm \<Rightarrow> frame \<Rightarrow> 'h vm" where
  "callee_state s callee = s\<lparr>vm_depth := vm_depth s + 1, vm_frame := callee,
     vm_words := drop (length (words callee)) (vm_words s), vm_tags := drop (length (tags callee)) (vm_tags s)\<rparr>"

definition back_in_caller :: "'h vm \<Rightarrow> 'h vm \<Rightarrow> 'h vm" where
  "back_in_caller s t = t\<lparr>vm_depth := vm_depth t - 1, vm_frame := vm_frame s,
     vm_words := words (vm_frame t) @ vm_words t, vm_tags := tags (vm_frame t) @ vm_tags t\<rparr>"

named_theorems step_intros \<open>actions that follow a relation on machines\<close>

locale vm_relation =
  fixes R :: "'h vm \<Rightarrow> 'h vm \<Rightarrow> bool"
  assumes refl: "R s s"
    and trans: "R s t \<Longrightarrow> R t u \<Longrightarrow> R s u"
    and frame_op: "R s (s\<lparr>vm_frame := snd (frame_step fop (vm_frame s))\<rparr>)"
    and heap_op: "R s (s\<lparr>vm_heap := snd (hop_step op (vm_heap s))\<rparr>)"
    and static_op: "tx_op_step (Put_static at v) (vm_heap s, vm_statics s) = (h, st)
      \<Longrightarrow> R s (s\<lparr>vm_heap := h, vm_statics := st\<rparr>)"
    and release: "hp_tx (vm_heap s) = None
      \<Longrightarrow> R s (s\<lparr>vm_heap := snd (release_temporary_natives packages (vm_heap s))\<rparr>)"
    and command: "R s (s\<lparr>vm_jcre := (vm_jcre s)\<lparr>jc_transaction_exception := x\<rparr>\<rparr>)"
    and polled: "R s (s\<lparr>vm_polls := vm_polls s + 1\<rparr>)"
    and spent: "R s (s\<lparr>vm_budget := vm_budget s - 1\<rparr>)"
    and arena: "length ws = length (vm_words s) \<Longrightarrow> length ts = length (vm_tags s)
      \<Longrightarrow> R s (s\<lparr>vm_words := ws, vm_tags := ts\<rparr>)"
    and call: "vm_depth s < MAX_DEPTH \<Longrightarrow> length (words callee) \<le> length (vm_words s)
      \<Longrightarrow> length (tags callee) \<le> length (vm_tags s) \<Longrightarrow> frame_inv callee
      \<Longrightarrow> R (callee_state s callee) t \<Longrightarrow> R s (back_in_caller s t)"
begin

lemma follows_basic [simp, step_intros]:
  "follows R (sret x)" "follows R (sfail e)" "follows R (slift r)" "follows R (sget g)"
  by (simp_all add: follows_def refl)

lemma bound [step_intros]: "follows R m \<Longrightarrow> (\<And>x. follows R (k x)) \<Longrightarrow> follows R (sbind m k)"
  using follows_sbind trans by blast

lemma frame_run: "R s (s\<lparr>vm_frame := fold (\<lambda>op f. snd (frame_step op f)) ops (vm_frame s)\<rparr>)"
proof (induction ops arbitrary: s)
  case Nil
  then show ?case by (simp add: refl)
next
  case (Cons op ops)
  show ?case
    using trans [OF frame_op [of s op] Cons.IH [of "s\<lparr>vm_frame := snd (frame_step op (vm_frame s))\<rparr>"]] by simp
qed

lemma heap_run: "R s (s\<lparr>vm_heap := fold (\<lambda>op h. snd (hop_step op h)) ops (vm_heap s)\<rparr>)"
proof (induction ops arbitrary: s)
  case Nil
  then show ?case by (simp add: refl)
next
  case (Cons op ops)
  show ?case
    using trans [OF heap_op [of s op] Cons.IH [of "s\<lparr>vm_heap := snd (hop_step op (vm_heap s))\<rparr>"]] by simp
qed

lemma on_frame_follows [step_intros]: "frame_action m \<Longrightarrow> follows R (on_frame m)"
  using frame_run by (auto simp: by_ops_def follows_def on_frame_def split: prod.splits) (metis snd_conv)

lemma on_heap_follows [step_intros]: "heap_action m \<Longrightarrow> follows R (on_heap m)"
  using heap_run by (auto simp: by_ops_def follows_def on_heap_def split: prod.splits) (metis snd_conv)

lemma reads_follow [step_intros]: "follows R (of_frame g)" "follows R (of_heap k)"
  by (simp_all add: of_frame_def of_heap_def)

lemma flow_follows [step_intros]: "follows R m \<Longrightarrow> follows R (continuing m)" "follows R k \<Longrightarrow> follows R (throwing k)"
  by (simp_all add: continuing_def throwing_def step_intros)

lemma push_follows [step_intros]: "follows R (exec_push code pc opc)"
  by (auto simp: exec_push_def intro!: step_intros op_intros)

lemma load_follows [step_intros]:
  "follows R (load_push_reference i)" "follows R (load_push_short i)" "follows R (load_push_int i)"
  "follows R (exec_load code pc opc)"
  by (auto simp: exec_load_def load_push_reference_def load_push_short_def load_push_int_def Let_def intro!: step_intros op_intros)

lemma store_follows [step_intros]: "follows R (exec_store code pc opc)"
  by (auto simp: exec_store_def Let_def intro!: step_intros op_intros)

lemma stack_follows [step_intros]: "follows R (exec_stack code pc opc)"
  by (auto simp: exec_stack_def Let_def intro!: step_intros op_intros)

lemma arithmetic_follows [step_intros]: "follows R (exec_short opc)" "follows R (exec_int opc)"
  by (auto simp: exec_short_def exec_int_def intro!: step_intros op_intros)

lemma increment_follows [step_intros]: "follows R (exec_increment code pc opc)"
  by (auto simp: exec_increment_def intro!: step_intros op_intros)

lemma convert_follows [step_intros]: "follows R (exec_convert opc)"
  by (auto simp: exec_convert_def intro!: step_intros op_intros)

lemma branch_follows [step_intros]: "follows R (branch_when code pc wide b)" "follows R (exec_branch code pc opc)"
  by (auto simp: branch_when_def exec_branch_def Let_def intro!: step_intros op_intros)

lemma switch_follows [step_intros]: "follows R (exec_switch code pc opc)"
  by (auto simp: exec_switch_def exec_table_switch_def exec_lookup_switch_def pop_key_def intro!: step_intros op_intros)

lemma checks_follow [step_intros]:
  "follows R (vm_check_access ev ref)" "follows R (check_reference_store ev ref)" "follows R (vm_exception ev name)"
  by (auto simp: vm_check_access_def check_reference_store_def vm_exception_def intro!: step_intros op_intros)

lemma objects_follow [step_intros]:
  "follows R (exec_cast ev code pc opc)" "follows R (exec_array_length ev)" "follows R (exec_throw)"
  "follows R (exec_return opc)"
  by (auto simp: exec_cast_def exec_array_length_def exec_throw_def exec_return_def intro!: step_intros op_intros)

lemma array_follows [step_intros]:
  "follows R (exec_array_load ev opc)" "follows R (exec_array_store ev opc)" "follows R (exec_int_store ev)"
  by (auto simp: exec_array_load_def exec_array_store_def exec_int_store_def intro!: step_intros op_intros)

lemma new_follows [step_intros]: "follows R (exec_new ev code pc)"
  by (auto simp: exec_new_def intro!: step_intros op_intros split: class_ref.splits)

lemma new_array_follows [step_intros]: "follows R (exec_new_array ev code pc opc)"
  unfolding exec_new_array_def sbind_if sbind_assoc sbind_done
  by (auto intro!: step_intros op_intros)

lemma field_follows [step_intros]:
  "follows R (read_field ev ob index kind)" "follows R (take_field_value kind)" "follows R (put_field_value ev ob index kind v)"
  by (auto simp: read_field_def take_field_value_def put_field_value_def intro!: step_intros op_intros)

lemma fields_follow [step_intros]: "follows R (exec_field ev code pc opc)"
  by (auto simp: exec_field_def Let_def intro!: step_intros op_intros)

lemma read_static_follows [step_intros]: "follows R (read_static at kind)"
  by (auto simp: read_static_def intro!: step_intros op_intros)

text \<open>A static store logs the old bytes and overwrites them, as one step.\<close>

lemma store_static_follows:
  assumes "length old = length v"
  shows "get_range (vm_statics s) at (at + length v) = Some old \<Longrightarrow>
    R s (snd (sbind (on_heap (remember_static at old)) (\<lambda>_. smodify (\<lambda>s. s\<lparr>vm_statics := overwrite (vm_statics s) at v\<rparr>)) s))"
proof -
  assume range: "get_range (vm_statics s) at (at + length v) = Some old"
  then have fit: "at + length v \<le> length (vm_statics s)" "old = slice_of (vm_statics s) at (at + length v)"
    by auto
  obtain r h where run: "remember_static at old (vm_heap s) = (r, h)" by fastforce
  have same: "s\<lparr>vm_heap := h, vm_statics := vm_statics s\<rparr> = s\<lparr>vm_heap := h\<rparr>"
    by simp
  show ?thesis
    using static_op [of at v s h "if is_Ok r then overwrite (vm_statics s) at v else vm_statics s"] fit run same
    by (cases r) (auto simp: sbind_def on_heap_def)
qed

lemma write_static_follows:
  assumes "kind \<le> 3"
  shows "follows R (write_static ev at kind v)"
proof -
  have "unat kind = 0 \<or> unat kind = 1 \<or> unat kind = 2 \<or> unat kind = 3"
    using assms unfolding word_le_nat_alt by (simp add: le_less_Suc_eq) linarith
  then have "kind \<in> {0, 1, 2, 3}"
    by (elim disjE) (simp_all add: word_unat_eq_iff)
  then have len: "static_width kind = length (static_bytes kind v)"
    by (auto simp: static_width_def static_bytes_def)
  have "follows R (sbind (sget (\<lambda>s. ok_or (get_range (vm_statics s) at (at + static_width kind)) JBounds)) (\<lambda>old.
     if old = static_bytes kind v then sret ()
     else sbind (on_heap (remember_static at old)) (\<lambda>_.
       smodify (\<lambda>s. s\<lparr>vm_statics := overwrite (vm_statics s) at (static_bytes kind v)\<rparr>))))"
    (is "follows R ?m")
    unfolding follows_def
  proof
    fix s
    show "R s (snd (?m s))"
    proof (cases "get_range (vm_statics s) at (at + length (static_bytes kind v))")
      case None
      then show ?thesis
        using len refl by (simp add: sbind_def)
    next
      case (Some old)
      have look: "sget (\<lambda>s. ok_or (get_range (vm_statics s) at (at + static_width kind)) JBounds) s = (Ok old, s)"
        unfolding len act_simps Some ok_or_simps by (rule HOL.refl)
      have "length old = length (static_bytes kind v)"
        using Some by auto
      from store_static_follows [OF this Some] show ?thesis
        unfolding sbind_simps(2) [of "sget _", OF look] using refl by simp
    qed
  qed
  then show ?thesis
    unfolding write_static_def by (rule bound [rotated]) (auto intro!: step_intros)
qed

lemma statics_follow:
  assumes "opc \<le> 130"
  shows "follows R (exec_static ev code pc opc)"
proof -
  have "opc - 127 \<le> 3" if "\<not> opc \<le> 126"
    using that assms by (simp add: word_le_nat_alt unat_sub)
  then show ?thesis
    by (auto simp: exec_static_def intro!: step_intros op_intros write_static_follows)
qed

lemma follows_if: "(b \<Longrightarrow> follows R m) \<Longrightarrow> (\<not> b \<Longrightarrow> follows R k) \<Longrightarrow> follows R (if b then m else k)"
  by simp

lemma plain_follows [step_intros]: "follows R (exec_plain ev code pc opc)"
  unfolding exec_plain_def by (intro follows_if step_intros statics_follow; assumption)

subsection \<open>Natives\<close>

lemma native_basic [simp]: "native_follows R (sret x)" "native_follows R (sfail e)" "native_follows R (slift r)"
  by (simp_all add: native_follows_def from_native_def as_native_def refl)

lemma native_bound:
  assumes "native_follows R m" and "\<And>x. native_follows R (k x)"
  shows "native_follows R (sbind m k)"
  unfolding native_follows_def
proof
  fix s
  obtain r n where m: "m (as_native s) = (r, n)" by fastforce
  have first: "R s (from_native s n)"
    using assms(1) m unfolding native_follows_def by (metis snd_conv)
  have again: "as_native (from_native s n) = n" "from_native (from_native s n) n' = from_native s n'" for n'
    by (simp_all add: as_native_def from_native_def)
  show "R s (from_native s (snd (sbind m k (as_native s))))"
  proof (cases r)
    case (Err e)
    then show ?thesis
      using m first by (simp add: sbind_def)
  next
    case (Ok x)
    have "R (from_native s n) (from_native s (snd (k x n)))"
      using assms(2) [of x] again unfolding native_follows_def by metis
    then show ?thesis
      using m Ok first trans by (simp add: sbind_def)
  qed
qed

lemma native_frame: "frame_action m \<Longrightarrow> native_follows R (nc_on_frame m)"
  using on_frame_follows [of m]
  by (auto simp: native_follows_def nc_on_frame_def on_frame_def as_native_def from_native_def split: prod.splits dest!: followsD)

lemma native_heap: "heap_action m \<Longrightarrow> native_follows R (nc_on_heap m)"
  using on_heap_follows [of m]
  by (auto simp: native_follows_def nc_on_heap_def on_heap_def as_native_def from_native_def split: prod.splits dest!: followsD)

lemma exception_call_follows: "native_follows R (exception_call ev c m)"
  unfolding exception_call_def
  by (auto intro!: native_bound native_frame native_heap op_intros split: option.splits)

lemma call_native_follows: "natives_follow R ev \<Longrightarrow> follows R (call_native ev target)"
proof -
  assume nat: "natives_follow R ev"
  have "native_follows R (call_with_budget ev target)"
    using nat by (auto simp: call_with_budget_def natives_follow_def Let_def
        intro!: exception_call_follows native_bound native_frame op_intros)
  moreover have "snd (call_native ev target s) = from_native s (snd (call_with_budget ev target (as_native s)))" for s
    by (simp add: call_native_def from_native_def as_native_def split: prod.splits)
  ultimately show ?thesis
    by (simp add: native_follows_def follows_def)
qed

lemma native_flow_follows [step_intros]: "follows R (native_flow n)"
  by (cases n) (simp_all add: native_flow_def)

lemma exec_native_follows: "natives_follow R ev \<Longrightarrow> follows R (exec_native ev package c m b)"
  by (auto simp: exec_native_def intro!: step_intros call_native_follows)

subsection \<open>Calls and the loop\<close>

lemma lifted_follows [step_intros]: "follows R m \<Longrightarrow> follows R (lifted m)"
  by (auto simp: follows_def lifted_def split: prod.splits result.splits) (metis snd_conv)+

lemma release_follows [step_intros]: "follows R (release_at_top ev)"
  using release refl
  by (auto simp: follows_def release_at_top_def on_heap_def transaction_remaining_def split: prod.splits) (metis snd_conv)

lemma push_result_follows [step_intros]: "follows R (push_result r)"
  by (cases r) (auto simp: push_result_def intro!: step_intros op_intros)

lemma finish_follows [step_intros]: "follows R (finish_call ev r)"
proof -
  have "follows R (\<lambda>s. (Err Out_of_fuel, s))"
    using refl by (simp add: follows_def)
  then show ?thesis
    by (auto simp: finish_call_def intro!: step_intros split: result.splits stop.splits)
qed

lemma call_body_follows:
  assumes "vm_depth s < MAX_DEPTH" and "length (words callee) \<le> length (vm_words s)"
    and "length (tags callee) \<le> length (vm_tags s)" and "frame_inv callee"
    and "rest_words = drop (length (words callee)) (vm_words s)" and "rest_tags = drop (length (tags callee)) (vm_tags s)"
    and "\<And>code body pc. follows R (go code body pc)"
    and "call_body go code body callee rest_words rest_tags s = (r, t)"
  shows "R s t"
proof -
  obtain r1 u where u: "go code body 0 (callee_state s callee) = (r1, u)" by fastforce
  then have "t = back_in_caller s u"
    using assms(5,6,8) by (simp add: call_body_def callee_state_def back_in_caller_def)
  then show ?thesis
    using call [OF assms(1-4) followsD [OF assms(7) u]] by simp
qed

lemma enter_follows:
  assumes ent: "enter_call ev m s = (r, t)"
  shows "R s t \<and> (\<forall>body callee ws ts. r = Ok (body, callee, ws, ts) \<longrightarrow> vm_depth t < MAX_DEPTH \<and> frame_inv callee
    \<and> length (words callee) \<le> length (vm_words t) \<and> length (tags callee) \<le> length (vm_tags t)
    \<and> ws = drop (length (words callee)) (vm_words t) \<and> ts = drop (length (tags callee)) (vm_tags t))"
proof (cases "s = t \<and> is_Err r")
  case False
  let ?data = "mc_info (ev_methods ev)" and ?at = "unat m"
  obtain h where h: "vm_depth s < MAX_DEPTH" "method_header_parse ?data ?at = Ok h"
    using ent False by (auto simp: enter_call_def Let_def split: if_splits result.splits)
  let ?locs = "unat (frame_words h)" and ?stack = "unat (mh_max_stack h)"
  let ?nw = "words_for ?locs ?stack" and ?nt = "tag_bytes_for ?locs ?stack"
  obtain callee where new: "new_frame (take ?nw (vm_words s)) (take ?nt (vm_tags s)) ?locs ?stack = Ok callee"
    and room: "?nw \<le> length (vm_words s)" "?nt \<le> length (vm_tags s)"
    using ent False h by (auto simp: enter_call_def Let_def split: if_splits result.splits)
  have ce: "frame_inv callee" "length (words callee) = ?nw" "length (tags callee) = ?nt"
    using new_frame_inv [OF new] new room by (auto simp: new_frame_def split: if_splits)
  obtain r1 caller callee' where pass: "pass_args (unat (mh_nargs h)) (vm_frame s) callee = (r1, caller, callee')"
    by (metis prod_cases3)
  obtain ops where ops: "caller = fold (\<lambda>op f. snd (frame_step op f)) ops (vm_frame s)" and kept: "frame_kept callee callee'"
    using pass_args_steps [OF pass] by blast
  have ce': "frame_inv callee'" "length (words callee') = ?nw" "length (tags callee') = ?nt"
    using kept ce by (auto simp: frame_kept_def room_def)
  have t: "t = s\<lparr>vm_frame := caller, vm_words := words callee' @ drop ?nw (vm_words s), vm_tags := tags callee' @ drop ?nt (vm_tags s)\<rparr>"
    and r: "is_Ok r \<Longrightarrow> r = Ok (?at + mh_length h, callee', drop ?nw (vm_words s), drop ?nt (vm_tags s))"
    using ent False h room new pass by (auto simp: enter_call_def Let_def split: if_splits result.splits)
  have "R s (s\<lparr>vm_frame := caller\<rparr>)"
    using frame_run ops by simp
  moreover have "R (s\<lparr>vm_frame := caller\<rparr>) t"
    using arena [of "words callee' @ drop ?nw (vm_words s)" "s\<lparr>vm_frame := caller\<rparr>" "tags callee' @ drop ?nt (vm_tags s)"]
      room ce' t by simp
  ultimately have "R s t"
    using trans by blast
  then show ?thesis
    using r t h(1) ce' room by auto
qed (auto simp: refl)

lemma invoke_follows:
  assumes go: "\<And>code body pc. follows R (go code body pc)"
  shows "follows R (invoke go ev m)"
proof (rule followsI)
  fix s r t
  assume inv: "invoke go ev m s = (r, t)"
  obtain r1 u where ent: "enter_call ev m s = (r1, u)" by fastforce
  show "R s t"
  proof (cases r1)
    case (Err e)
    then show ?thesis
      using inv ent enter_follows [OF ent] by (simp add: invoke_def lifted_def sbind_def)
  next
    case (Ok x)
    obtain body callee ws ts where x: "x = (body, callee, ws, ts)" by (metis prod_cases4)
    obtain out v where cb: "call_body go (drop body (mc_info (ev_methods ev))) body callee ws ts u = (out, v)" by fastforce
    have "R u v"
      by (rule call_body_follows [OF _ _ _ _ _ _ go cb]) (use enter_follows [OF ent] Ok x in auto)
    moreover have "finish_call ev out v = (r, t)"
      using inv ent Ok x cb by (simp add: invoke_def lifted_def sbind_def)
    ultimately show ?thesis
      using enter_follows [OF ent] trans followsD [OF finish_follows] by blast
  qed
qed

lemma calls_follow:
  assumes "\<And>code body pc. follows R (go code body pc)" and "natives_follow R ev"
  shows "follows R (exec_op go ev code pc opc)"
proof -
  have "follows R (invoke_flow go ev m)" for m
    using invoke_follows [OF assms(1)] by (auto simp: invoke_flow_def intro!: step_intros)
  moreover have "follows R (receiver_class ev n)" "follows R (virtual_target ev index)" for n index
    by (auto simp: virtual_target_def receiver_class_def intro!: step_intros)
  ultimately show ?thesis
    using exec_native_follows [OF assms(2)]
    by (auto simp: exec_op_def exec_invoke_virtual_def exec_invoke_static_def exec_invoke_interface_def Let_def
        intro!: step_intros split: option.splits result.splits class_ref.splits)
qed

lemma conversion_follows [step_intros]:
  "follows R (vm_transaction_exception ev reason)" "follows R (exhausted ev)" "follows R (convert_error ev opc e)"
proof -
  show tx: "follows R (vm_transaction_exception ev reason)" for reason
  proof (rule followsI)
    fix s :: "'h vm" and r t
    assume run: "vm_transaction_exception ev reason s = (r, t)"
    obtain r1 h j where tr: "transaction_exception (ev_packages ev) (ev_context ev) reason (vm_heap s, vm_jcre s) = (r1, h, j)"
      by (metis prod_cases3)
    then obtain ops where "h = fold (\<lambda>op h. snd (hop_step op h)) ops (vm_heap s)"
      using transaction_exception_ops by blast
    then have "R s (s\<lparr>vm_heap := h\<rparr>)"
      using heap_run by simp
    then show "R s t"
      using run tr transaction_exception_command [OF tr]
        trans [OF _ command [of "s\<lparr>vm_heap := h\<rparr>" "jc_transaction_exception j"]] by (simp add: vm_transaction_exception_def)
  qed
  show ex: "follows R (exhausted ev)"
    by (auto simp: exhausted_def intro!: step_intros op_intros)
  show "follows R (convert_error ev opc e)"
    using tx ex by (auto simp: convert_error_def intro!: step_intros split: option.splits)
qed

lemma guarded_follows:
  assumes "\<And>code body pc. follows R (go code body pc)" and "natives_follow R ev"
  shows "follows R (guarded_op go ev code pc opc)"
proof (rule followsI)
  fix s r t
  assume run: "guarded_op go ev code pc opc s = (r, t)"
  obtain r1 u where u: "exec_op go ev code pc opc s = (r1, u)" by fastforce
  then have first: "R s u"
    using followsD [OF calls_follow [of go ev, OF assms]] by blast
  show "R s t"
  proof (cases "\<exists>e. r1 = Err (Fault e)")
    case True
    then obtain e where "lifted (convert_error ev opc e) u = (r, t)"
      using run u by (auto simp: guarded_op_def)
    then have "R u t"
      using followsD [OF lifted_follows [OF conversion_follows(3)]] by blast
    then show ?thesis
      using first trans by blast
  next
    case False
    then have "t = u"
      using run u by (cases r1) (auto simp: guarded_op_def split: stop.splits)
    then show ?thesis
      using first by simp
  qed
qed

lemma catch_follows [step_intros]: "follows R (catch_thrown ev body n pc fl)"
  by (auto simp: catch_thrown_def enter_handler_def intro!: step_intros op_intros split: flow.splits outcome.splits option.splits)

lemma fetch_follows [step_intros]: "follows R (fetch ev code pc)"
proof -
  have "follows R (poll_cancel ev)" "follows R charge"
    using polled spent refl by (auto simp: follows_def poll_cancel_def charge_def split: option.splits)
  then show ?thesis
    by (auto simp: fetch_def intro!: step_intros)
qed

theorem run_body_follows:
  assumes "natives_follow R ev"
  shows "follows R (run_body fuel ev code body pc)"
proof (induction fuel arbitrary: code body pc)
  case 0
  then show ?case
    by (simp add: follows_def refl)
next
  case (Suc fuel)
  have "follows R (turn (run_body fuel ev) ev code body pc)"
    unfolding turn_def by (intro bound lifted_follows fetch_follows) (auto intro!: step_intros guarded_follows Suc.IH assms)
  then show ?case
    by (auto intro!: step_intros Suc.IH split: sum.splits)
qed

lemma run_with_follows:
  assumes "natives_follow R ev"
  shows "follows R (run_with fuel ev code)"
proof (rule followsI)
  fix s r t
  assume run: "run_with fuel ev code s = (r, t)"
  obtain r1 u where u: "run_body fuel ev code 0 0 s = (r1, u)" by fastforce
  then have first: "R s u"
    using followsD [OF run_body_follows [OF assms]] by blast
  have "follows R (sbind (lifted (release_at_top ev)) (\<lambda>_. slift r1))"
    by (intro step_intros)
  then have "R u v" if "sbind (lifted (release_at_top ev)) (\<lambda>_. slift r1) u = (r2, v)" for r2 v
    using that by (rule followsD)
  moreover have "t = u \<or> sbind (lifted (release_at_top ev)) (\<lambda>_. slift r1) u = (r, t)"
    using run u by (cases r1; cases "the_Err r1") (auto simp: run_with_def)
  ultimately show "R s t"
    using first trans by blast
qed

end

end
