(* ===== verification/Interpreter_Safety.thy ===== *)
theory Interpreter_Safety
  imports Interpreter_Steps Package_Verifier
begin

text \<open>
  Properties of whole runs of the interpreter, each from one relation on machines that the primitive
  steps keep: the instruction budget only falls, which bounds every run; polls of the cancellation
  callback only rise; frames, heap and static fields stay well formed; and inside a transaction the
  heap and the static fields change by logged operations only, so an abort takes them back.
\<close>

section \<open>Fuel\<close>

text \<open>More fuel changes nothing once a run ends.\<close>

definition extends :: "('h, 'a) xact \<Rightarrow> ('h, 'a) xact \<Rightarrow> bool" where
  "extends m m' \<longleftrightarrow> (\<forall>s. fst (m s) \<noteq> Err Out_of_fuel \<longrightarrow> m' s = m s)"

lemma extends_refl [simp]: "extends m m"
  by (simp add: extends_def)

lemma extends_sbind:
  assumes "extends m m'" and "\<And>x. extends (k x) (k' x)"
  shows "extends (sbind m k) (sbind m' k')"
  unfolding extends_def
proof (intro allI impI)
  fix s
  assume ne: "fst (sbind m k s) \<noteq> Err Out_of_fuel"
  obtain r t where m: "m s = (r, t)" by fastforce
  then have "m' s = (r, t)"
    using ne assms(1) by (cases r) (auto simp: extends_def sbind_def)
  then show "sbind m' k' s = sbind m k s"
    using ne m assms(2) by (cases r) (auto simp: extends_def sbind_def)
qed

lemma extends_invoke:
  assumes "\<And>code body pc. extends (go code body pc) (go' code body pc)"
  shows "extends (invoke go ev m) (invoke go' ev m)"
  unfolding invoke_def
proof (rule extends_sbind, simp, clarsimp)
  fix body callee ws ts
  let ?u = "\<lambda>s. s\<lparr>vm_depth := vm_depth s + 1, vm_frame := callee, vm_words := ws, vm_tags := ts\<rparr>"
  let ?code = "drop body (mc_info (ev_methods ev))"
  have same: "go' ?code body 0 (?u s) = go ?code body 0 (?u s)" if "fst (go ?code body 0 (?u s)) \<noteq> Err Out_of_fuel" for s
    using that assms by (simp add: extends_def)
  show "extends (\<lambda>s. case call_body go ?code body callee ws ts s of (out, t) \<Rightarrow> finish_call ev out t)
      (\<lambda>s. case call_body go' ?code body callee ws ts s of (out, t) \<Rightarrow> finish_call ev out t)"
    unfolding extends_def
  proof (intro allI impI)
    fix s
    assume "fst (case call_body go ?code body callee ws ts s of (out, t) \<Rightarrow> finish_call ev out t) \<noteq> Err Out_of_fuel"
    then have "fst (go ?code body 0 (?u s)) \<noteq> Err Out_of_fuel"
      by (auto simp: call_body_def finish_call_def split: prod.splits)
    from same [OF this] show "(case call_body go' ?code body callee ws ts s of (out, t) \<Rightarrow> finish_call ev out t)
        = (case call_body go ?code body callee ws ts s of (out, t) \<Rightarrow> finish_call ev out t)"
      by (simp add: call_body_def)
  qed
qed

lemma extends_op:
  assumes go: "\<And>code body pc. extends (go code body pc) (go' code body pc)"
  shows "extends (exec_op go ev code pc opc) (exec_op go' ev code pc opc)"
proof -
  have "extends (invoke_flow go ev m) (invoke_flow go' ev m)" for m
    unfolding invoke_flow_def by (intro extends_sbind extends_invoke go) simp
  then show ?thesis
    by (auto simp: exec_op_def exec_invoke_virtual_def exec_invoke_static_def exec_invoke_interface_def Let_def
        intro!: extends_sbind split: option.splits result.splits class_ref.splits)
qed

lemma extends_turn:
  assumes "\<And>code body pc. extends (go code body pc) (go' code body pc)"
  shows "extends (turn go ev code body pc) (turn go' ev code body pc)"
proof -
  have "extends (guarded_op go ev code pc opc) (guarded_op go' ev code pc opc)" for opc
    using extends_op [of go go', OF assms] unfolding extends_def guarded_op_def
    by (auto split: prod.splits result.splits stop.splits)
  then show ?thesis
    by (auto simp: turn_def intro!: extends_sbind)
qed

lemma run_body_extends: "extends (run_body fuel ev code body pc) (run_body (fuel + more_fuel) ev code body pc)"
proof (induction fuel arbitrary: code body pc)
  case 0
  then show ?case
    by (simp add: extends_def)
next
  case (Suc fuel)
  then show ?case
    by (auto intro!: extends_sbind extends_turn split: sum.splits)
qed

section \<open>Measures\<close>

text \<open>
  A measure that no step raises and that every fetched instruction lowers bounds the run: fuel above
  the measure is always enough.
\<close>

definition fueled :: "('h vm \<Rightarrow> nat) \<Rightarrow> nat \<Rightarrow> ('h, 'a) xact \<Rightarrow> bool" where
  "fueled M n m \<longleftrightarrow> (\<forall>s. M s < n \<longrightarrow> fst (m s) \<noteq> Err Out_of_fuel)"

lemma fueled_lifted [simp]: "fueled M n (lifted m)"
  by (auto simp: fueled_def lifted_def split: prod.splits result.splits)

lemma fueled_fault [simp]: "fueled M n (sfail (Fault e))" "fueled M n (sret x)"
  by (simp_all add: fueled_def)

locale vm_measure = vm_relation "\<lambda>s t. M t \<le> M s" for M :: "'h vm \<Rightarrow> nat" +
  assumes entered: "M (callee_state s callee) = M s"
begin

abbreviation falls :: "('h vm, 'e, 'a) act \<Rightarrow> bool" where
  "falls \<equiv> follows (\<lambda>s t. M t \<le> M s)"

lemma fueled_sbind:
  assumes "fueled M n m" and "falls m" and "\<And>x. fueled M n (k x)"
  shows "fueled M n (sbind m k)"
  unfolding fueled_def
proof (intro allI impI)
  fix s
  assume n: "M s < n"
  obtain r t where m: "m s = (r, t)" by fastforce
  then have "r \<noteq> Err Out_of_fuel" "M t < n"
    using n assms(1) followsD [OF assms(2) m] by (auto simp: fueled_def dest: spec [of _ s])
  then show "fst (sbind m k s) \<noteq> Err Out_of_fuel"
    using m assms(3) by (cases r) (auto simp: fueled_def sbind_def)
qed

lemma fueled_invoke:
  assumes "\<And>code body pc. fueled M n (go code body pc)"
  shows "fueled M n (invoke go ev m)"
  unfolding fueled_def
proof (intro allI impI)
  fix s
  assume n: "M s < n"
  obtain r u where ent: "enter_call ev m s = (r, u)" by fastforce
  show "fst (invoke go ev m s) \<noteq> Err Out_of_fuel"
  proof (cases r)
    case (Err e)
    then show ?thesis
      using ent by (simp add: invoke_def lifted_def sbind_def)
  next
    case (Ok x)
    obtain body callee ws ts where x: "x = (body, callee, ws, ts)" by (metis prod_cases4)
    let ?c = "callee_state u callee"
    obtain out v where run: "go (drop body (mc_info (ev_methods ev))) body 0 ?c = (out, v)" by fastforce
    have e: "ws = drop (length (words callee)) (vm_words u)" "ts = drop (length (tags callee)) (vm_tags u)" "M u \<le> M s"
      using enter_follows [OF ent] Ok x by auto
    have "out \<noteq> Err Out_of_fuel"
      using assms [of "drop body (mc_info (ev_methods ev))" body 0] run e n entered [of u callee]
      by (auto simp: fueled_def dest: spec [of _ ?c])
    moreover have "fst (finish_call ev out t) \<noteq> Err Out_of_fuel" if "out \<noteq> Err Out_of_fuel" for t
      using that by (auto simp: finish_call_def sbind_def lifted_def split: result.splits prod.splits stop.splits)
    ultimately show ?thesis
      using ent Ok x run e by (simp add: invoke_def lifted_def sbind_def call_body_def callee_state_def)
  qed
qed

lemma fueled_op:
  assumes "\<And>code body pc. fueled M n (go code body pc)" and "\<And>code body pc. falls (go code body pc)"
  shows "fueled M n (exec_op go ev code pc opc)"
proof -
  have "fueled M n (invoke_flow go ev m)" for m
    unfolding invoke_flow_def using fueled_invoke [of n go, OF assms(1)] invoke_follows [of go, OF assms(2)]
    by (intro fueled_sbind) simp_all
  moreover have "falls (receiver_class ev k)" "falls (virtual_target ev index)" for k index
    by (auto simp: virtual_target_def receiver_class_def intro!: step_intros)
  ultimately show ?thesis
    by (auto simp: exec_op_def exec_invoke_virtual_def exec_invoke_static_def exec_invoke_interface_def Let_def
        intro!: fueled_sbind step_intros split: option.splits result.splits class_ref.splits)
qed

lemma enough_fuel:
  assumes nat: "natives_follow (\<lambda>s t. M t \<le> M s) ev"
    and strict: "\<And>code pc s x t. fetch ev code pc s = (Ok x, t) \<Longrightarrow> M t < M s"
  shows "fueled M fuel (run_body fuel ev code body pc)"
proof (induction fuel arbitrary: code body pc)
  case (Suc fuel)
  let ?go = "run_body fuel ev"
  have falls: "falls (?go code body pc)" for code body pc
    by (rule run_body_follows [OF nat])
  have guarded: "fueled M fuel (guarded_op ?go ev code pc opc)" for opc
  proof -
    have "fueled M fuel (exec_op ?go ev code pc opc)"
      by (rule fueled_op [OF Suc.IH falls])
    then show ?thesis
      using fueled_lifted [of M fuel "convert_error ev opc e" for e]
      unfolding fueled_def guarded_op_def by (fastforce split: prod.splits result.splits stop.splits simp: lifted_def)
  qed
  let ?rest = "\<lambda>opc n. sbind (sbind (guarded_op ?go ev code pc opc) (\<lambda>fl.
      sbind (lifted (catch_thrown ev body (length code) pc fl)) (\<lambda>fl.
      sret (case fl of Continue \<Rightarrow> Inl (pc + n) | Jump t \<Rightarrow> Inl t | Finish out \<Rightarrow> Inr out))))
      (\<lambda>next_step. case next_step of Inl t \<Rightarrow> ?go code body t | Inr out \<Rightarrow> sret out)"
  have rest: "fueled M fuel (?rest opc n)" for opc n
    by (auto intro!: fueled_sbind guarded Suc.IH bound guarded_follows falls nat step_intros split: sum.splits)
  have eq: "run_body (Suc fuel) ev code body pc = sbind (lifted (fetch ev code pc)) (\<lambda>(opc, n). ?rest opc n)"
    by (simp add: turn_def sbind_assoc case_prod_unfold)
  show ?case
    unfolding fueled_def
  proof (intro allI impI)
    fix s
    assume m: "M s < Suc fuel"
    obtain r t where f: "fetch ev code pc s = (r, t)" by fastforce
    show "fst (run_body (Suc fuel) ev code body pc s) \<noteq> Err Out_of_fuel"
    proof (cases r)
      case (Err e)
      then show ?thesis
        unfolding eq using f by (simp add: lifted_def sbind_def)
    next
      case (Ok x)
      then have "M t < fuel"
        using strict [of code pc s x t] f m by simp
      then show ?thesis
        unfolding eq using f Ok rest [of "fst x" "snd x"] by (simp add: lifted_def sbind_simps(2) [of "lifted _"] fueled_def split_beta)
    qed
  qed
qed (simp add: fueled_def)

end

lemma caller_fields [simp]:
  "vm_budget (back_in_caller s t) = vm_budget t" "vm_polls (back_in_caller s t) = vm_polls t"
  "vm_heap (back_in_caller s t) = vm_heap t" "vm_statics (back_in_caller s t) = vm_statics t"
  "vm_frame (back_in_caller s t) = vm_frame s" "vm_depth (back_in_caller s t) = vm_depth t - 1"
  "vm_words (back_in_caller s t) = words (vm_frame t) @ vm_words t"
  "vm_tags (back_in_caller s t) = tags (vm_frame t) @ vm_tags t"
  by (simp_all add: back_in_caller_def)

lemma callee_fields [simp]:
  "vm_budget (callee_state s f) = vm_budget s" "vm_polls (callee_state s f) = vm_polls s"
  "vm_heap (callee_state s f) = vm_heap s" "vm_statics (callee_state s f) = vm_statics s"
  "vm_frame (callee_state s f) = f" "vm_depth (callee_state s f) = Suc (vm_depth s)"
  "vm_words (callee_state s f) = drop (length (words f)) (vm_words s)"
  "vm_tags (callee_state s f) = drop (length (tags f)) (vm_tags s)"
  by (simp_all add: callee_state_def)

interpretation budget: vm_measure vm_budget
  by unfold_locales simp_all

interpretation polls: vm_measure "\<lambda>s. n - vm_polls s"
  by unfold_locales simp_all

lemma fetch_Ok:
  assumes "fetch ev code pc s = (Ok x, t)"
  shows "\<exists>u. poll_cancel ev s = (Ok (), u) \<and> charge u = (Ok (), t)"
proof -
  obtain y u where u: "poll_cancel ev s = (Ok y, u)"
    and rest: "sbind charge (\<lambda>_. sbind (slift (code_byte code pc)) (\<lambda>opc.
      sbind (slift (allows (ev_limits ev) opc)) (\<lambda>_. sbind (slift (instruction_length code pc)) (\<lambda>n. sret (opc, n))))) u = (Ok x, t)"
    using assms unfolding fetch_def sbind_eq_Ok by blast
  obtain z v where v: "charge u = (Ok z, v)"
    and rest: "sbind (slift (code_byte code pc)) (\<lambda>opc.
      sbind (slift (allows (ev_limits ev) opc)) (\<lambda>_. sbind (slift (instruction_length code pc)) (\<lambda>n. sret (opc, n)))) v = (Ok x, t)"
    using rest unfolding sbind_eq_Ok by blast
  have "v = t"
    using rest by (simp add: sbind_def split: result.splits)
  then show ?thesis
    using u v by simp
qed

lemma fetch_spends:
  assumes "fetch ev code pc s = (Ok x, t)"
  shows "vm_budget t < vm_budget s"
proof -
  obtain u where "poll_cancel ev s = (Ok (), u)" "charge u = (Ok (), t)"
    using fetch_Ok [OF assms] by blast
  then show ?thesis
    by (cases "ev_cancel ev") (auto simp: charge_def poll_cancel_def split: if_splits)
qed

lemma fetch_polls:
  assumes "ev_cancel ev = Some answers" and "\<forall>j \<ge> n. answers j" and "fetch ev code pc s = (Ok x, t)"
  shows "n - vm_polls t < n - vm_polls s"
proof -
  have t: "vm_polls t = vm_polls s + 1" "\<not> answers (vm_polls s)"
    using fetch_Ok [OF assms(3)] assms(1) by (auto simp: charge_def poll_cancel_def split: if_splits)
  have "vm_polls s < n"
    using t(2) assms(2) not_le_imp_less by blast
  then show ?thesis
    using t(1) by simp
qed

lemma polls_natives: "natives_follow (\<lambda>s t. n - vm_polls t \<le> n - vm_polls s) ev"
  by (simp add: natives_follow_def native_follows_def from_native_def)

section \<open>A package to run\<close>

text \<open>
  A verified package with one static field and a method that stores the short 2 there and returns the
  field as a reference, on a machine whose heap holds one object, at offset 2.
\<close>

definition sample_package :: "bytes \<Rightarrow> cap_component list" where
  "sample_package methods =
     [\<lparr>cc_tag = Tag_Header, cc_info = CAP_MAGIC @ [1, 2, 4, 0, 1, 5, 0xa0, 0, 0, 0, 1]\<rparr>,
      \<lparr>cc_tag = Tag_Directory, cc_info = replicate 22 0 @ [0, 2, 0, 0, 0, 0, 0, 1, 0]\<rparr>,
      \<lparr>cc_tag = Tag_Applet, cc_info = [1, 5, 0xa0, 0, 0, 0, 1, 0, if methods ! 0 = 0 then 1 else 9]\<rparr>,
      \<lparr>cc_tag = Tag_Class, cc_info = []\<rparr>,
      \<lparr>cc_tag = Tag_Method, cc_info = methods\<rparr>,
      \<lparr>cc_tag = Tag_StaticField, cc_info = [0, 2, 0, 0, 0, 0, 0, 2, 0, 0]\<rparr>,
      \<lparr>cc_tag = Tag_ConstantPool, cc_info = [0, 2, 5, 0, 0, 0, 6, 0, 0, if methods ! 0 = 0 then 1 else 15]\<rparr>]"

definition confusing_methods :: bytes where
  "confusing_methods = [0, 1, 0, 17, 0, 2, 129, 0, 0, 123, 0, 0, 119]"

definition crossing_methods :: bytes where
  "crossing_methods = [1, 0, 11, 0, 4, 0, 17, 0, 0, 1, 0, 123, 0, 0, 147, 2, 0, 119]"

definition sample_env :: "bytes \<Rightarrow> (nat \<Rightarrow> bool) option \<Rightarrow> unit env" where
  "sample_env methods cancel = \<lparr>ev_packages = [], ev_linked = the_Ok (link_new (file_of (sample_package methods))),
     ev_methods = the_Ok (file_methods (file_of (sample_package methods))), ev_context = 5, ev_limits = IMPLEMENTED, ev_cancel = cancel,
     ev_framework = (\<lambda>_ _. sret Unimplemented), ev_security = (\<lambda>_ _ _ _. sret Unimplemented)\<rparr>"

definition sample_vm :: "heap \<Rightarrow> bytes \<Rightarrow> nat \<Rightarrow> unit vm" where
  "sample_vm h st n = \<lparr>vm_heap = h, vm_host = (), vm_statics = st, vm_jcre = jcre_new 0 0, vm_depth = 0, vm_polls = 0,
     vm_budget = n, vm_frame = \<lparr>words = [0, 0], tags = [0], locals = 0, depth = 0, max_stack = 2\<rparr>, vm_words = [], vm_tags = []\<rparr>"

lemma native_unchanged: "from_native s (as_native s) = s"
  by (simp add: as_native_def from_native_def)

lemma sample_natives: "(\<And>s. R s s) \<Longrightarrow> natives_follow R (sample_env methods cancel)"
  by (simp add: natives_follow_def native_follows_def sample_env_def native_unchanged)

section \<open>Termination\<close>

text \<open>
  C3 (interpreter_terminates). Every run of the interpreter ends within its instruction budget,
  whatever the code, as long as natives do not hand budget back: with more fuel than budget the loop
  reaches an outcome or an error of the engine, still more fuel changes nothing, and the budget
  left is at most the budget given. Backward jumps, recursion and handlers that rethrow are covered.
\<close>

theorem interpreter_terminates:
  assumes "natives_follow (\<lambda>s t. vm_budget t \<le> vm_budget s) ev" and "vm_budget s < fuel"
    and "run_body fuel ev code body pc s = (r, t)"
  shows "r \<noteq> Err Out_of_fuel \<and> run_body (fuel + k) ev code body pc s = (r, t) \<and> vm_budget t \<le> vm_budget s"
proof -
  have "fueled vm_budget fuel (run_body fuel ev code body pc)"
    using budget.enough_fuel [OF assms(1)] fetch_spends by blast
  then have "r \<noteq> Err Out_of_fuel"
    using assms(2,3) by (metis fst_conv fueled_def)
  then show ?thesis
    using run_body_extends [of fuel ev code body pc k] followsD [OF budget.run_body_follows [OF assms(1)] assms(3)] assms(3)
    by (auto simp: extends_def dest: spec [of _ s])
qed

theorem interpreter_terminates_witness:
  "run_body (4 + 10) (sample_env confusing_methods None) [112, 0] 3 0 (sample_vm sample_heap [0, 0] 3)
     = (Err (Fault JQuota), sample_vm sample_heap [0, 0] 0)"
proof -
  have "run_body 4 (sample_env confusing_methods None) [112, 0] 3 0 (sample_vm sample_heap [0, 0] 3)
      = (Err (Fault JQuota), sample_vm sample_heap [0, 0] 0)"
    by code_simp
  from interpreter_terminates [OF _ _ this, of 10] show ?thesis
    by (simp add: sample_natives sample_vm_def)
qed

text \<open>
  C20 (cancellation_stops). Cancellation takes effect: once the callback answers yes from some poll
  on, the run ends after at most the polls that come before, one for each instruction, whatever
  budget is left and whatever natives do.
\<close>

theorem cancellation_stops:
  assumes "ev_cancel ev = Some answers" and "\<forall>j \<ge> n. answers j" and "n - vm_polls s < fuel"
  shows "fst (run_body fuel ev code body pc s) \<noteq> Err Out_of_fuel"
proof -
  have "fueled (\<lambda>s. n - vm_polls s) fuel (run_body fuel ev code body pc)"
    using polls.enough_fuel [OF polls_natives] fetch_polls [OF assms(1,2)] by blast
  then show ?thesis
    using assms(3) by (simp add: fueled_def)
qed

theorem cancellation_stops_witness:
  "fst (run_body 3 (sample_env confusing_methods (Some (\<lambda>k. 2 \<le> k))) [112, 0] 3 0 (sample_vm sample_heap [0, 0] 99)) \<noteq> Err Out_of_fuel"
  by (rule cancellation_stops [where answers = "\<lambda>k. 2 \<le> k" and n = 2]) (simp_all add: sample_env_def sample_vm_def)

section \<open>The machine stays well formed\<close>

definition machine_ok :: "'h vm \<Rightarrow> bool" where
  "machine_ok s \<longleftrightarrow> frame_inv (vm_frame s) \<and> card_state (vm_heap s) (vm_statics s) \<and> vm_depth s \<le> MAX_DEPTH"

text \<open>What every run leaves as it was: the nesting depth and the sizes of all the storage.\<close>

definition sizes :: "'h vm \<Rightarrow> nat list" where
  "sizes s = [vm_depth s, fst (room (vm_frame s)), snd (room (vm_frame s)), length (vm_words s), length (vm_tags s),
     length (vm_statics s), length (hp_bytes (vm_heap s))]"

definition machine_kept :: "'h vm \<Rightarrow> 'h vm \<Rightarrow> bool" where
  "machine_kept s t \<longleftrightarrow> (machine_ok s \<longrightarrow> machine_ok t \<and> sizes t = sizes s)"

lemma kept_heap:
  assumes "machine_ok s \<Longrightarrow> grown (vm_heap s) h"
  shows "machine_kept s (s\<lparr>vm_heap := h\<rparr>)"
  using assms card_state_grown by (auto simp: machine_kept_def machine_ok_def sizes_def grown_def)

lemma kept_static:
  assumes "tx_op_step (Put_static at v) (vm_heap s, vm_statics s) = (h, st)"
  shows "machine_kept s (s\<lparr>vm_heap := h, vm_statics := st\<rparr>)"
proof (cases "at + length v \<le> length (vm_statics s)")
  case True
  have "card_state h st \<and> length (hp_bytes h) = length (hp_bytes (vm_heap s)) \<and> length st = length (vm_statics s)"
    if "card_state (vm_heap s) (vm_statics s)"
  proof -
    note r = remember_static_grows(1) [OF that True]
    have "length (hp_bytes (snd (remember_static at b k))) = length (hp_bytes k)" for b k
      by (auto simp: remember_static_def split: option.splits prod.splits)
    moreover have "h = snd (remember_static at (slice_of (vm_statics s) at (at + length v)) (vm_heap s))"
      "length st = length (vm_statics s)"
      using assms True by (auto split: prod.splits result.splits)
    moreover have "card_state h st"
      using r calculation by (auto simp: card_state_def split: option.splits)
    ultimately show ?thesis
      by simp
  qed
  then show ?thesis
    by (auto simp: machine_kept_def machine_ok_def sizes_def)
qed (use assms in \<open>auto simp: machine_kept_def machine_ok_def sizes_def\<close>)

lemma kept_call:
  assumes "vm_depth s < MAX_DEPTH" "length (words callee) \<le> length (vm_words s)" "length (tags callee) \<le> length (vm_tags s)"
    and "frame_inv callee" and "machine_kept (callee_state s callee) t"
  shows "machine_kept s (back_in_caller s t)"
proof -
  have "machine_ok t \<and> sizes t = sizes (callee_state s callee)" if "machine_ok s"
    using that assms(1,4,5) by (simp add: machine_kept_def machine_ok_def)
  then show ?thesis
    using assms by (auto simp: machine_kept_def machine_ok_def sizes_def room_def)
qed

interpretation sound: vm_relation machine_kept
proof unfold_locales
  fix s :: "'a vm" and op packages
  show "machine_kept s (s\<lparr>vm_heap := snd (hop_step op (vm_heap s))\<rparr>)"
    by (rule kept_heap) (simp add: machine_ok_def card_state_def hop_grows)
  show "machine_kept s (s\<lparr>vm_heap := snd (release_temporary_natives packages (vm_heap s))\<rparr>)"
    by (rule kept_heap) (simp add: machine_ok_def card_state_def release_grows)
  show "machine_kept s (s\<lparr>vm_heap := h, vm_statics := st\<rparr>)"
    if "tx_op_step (Put_static at v) (vm_heap s, vm_statics s) = (h, st)" for at v h st
    using that by (rule kept_static)
  show "machine_kept s (back_in_caller s t)"
    if "vm_depth s < MAX_DEPTH" "length (words callee) \<le> length (vm_words s)" "length (tags callee) \<le> length (vm_tags s)"
      "frame_inv callee" "machine_kept (callee_state s callee) t" for callee and t :: "'a vm"
    using that by (rule kept_call)
qed (auto simp: machine_kept_def machine_ok_def sizes_def frame_step_room frame_step_inv)

text \<open>
  C4 (interpreter_keeps_machine). Type safety of the storage: from a well-formed machine, any code
  with any operands, verified or not, runs to a well-formed machine. The operand stack and locals stay
  inside the frame, the heap and the undo log keep their invariant, calls never nest deeper than the
  limit, and afterwards the nesting depth and the sizes of frame, arena, static area and heap are what
  they were. This holds on every outcome, errors and exceptions included.
\<close>

theorem interpreter_keeps_machine:
  assumes "natives_follow machine_kept ev" and "machine_ok s" and "run_body fuel ev code body pc s = (r, t)"
  shows "machine_ok t \<and> sizes t = sizes s"
  using followsD [OF sound.run_body_follows [OF assms(1)] assms(3)] assms(2) by (simp add: machine_kept_def)

lemma sample_machine: "machine_ok (sample_vm sample_heap st n)"
  using sample_inv by (simp add: machine_ok_def sample_vm_def frame_inv_def arena_def card_state_def sample_heap_def)

theorem interpreter_keeps_machine_witness:
  "\<exists>r t. run_body 9 (sample_env confusing_methods None) (drop 3 confusing_methods) 3 0 (sample_vm sample_heap [0, 0] 9) = (r, t)
     \<and> r = Ok (Ref_Outcome 2) \<and> machine_ok t \<and> sizes t = sizes (sample_vm sample_heap [0, 0] 9)"
proof -
  obtain r t where run: "run_body 9 (sample_env confusing_methods None) (drop 3 confusing_methods) 3 0 (sample_vm sample_heap [0, 0] 9) = (r, t)"
    by fastforce
  have "fst (run_body 9 (sample_env confusing_methods None) (drop 3 confusing_methods) 3 0 (sample_vm sample_heap [0, 0] 9)) = Ok (Ref_Outcome 2)"
    by code_simp
  then show ?thesis
    using run interpreter_keeps_machine [of _ "sample_vm sample_heap [0, 0] 9", OF _ sample_machine run]
    by (simp add: sample_natives sound.refl)
qed



section \<open>Transactions\<close>

text \<open>Inside a transaction a run is a sequence of logged heap operations and static stores.\<close>

definition logged :: "'h vm \<Rightarrow> 'h vm \<Rightarrow> bool" where
  "logged s t \<longleftrightarrow> (tx_state (vm_heap s, vm_statics s) \<longrightarrow>
     (\<exists>ops. tx_run ops (vm_heap s, vm_statics s) = (vm_heap t, vm_statics t)))"

lemma tx_run_append: "tx_run (xs @ ys) s = tx_run ys (tx_run xs s)"
  by (induction xs arbitrary: s) simp_all

lemma logged_trans:
  assumes "logged s t" and "logged t u"
  shows "logged s u"
  unfolding logged_def
proof
  assume s: "tx_state (vm_heap s, vm_statics s)"
  then obtain xs where xs: "tx_run xs (vm_heap s, vm_statics s) = (vm_heap t, vm_statics t)"
    using assms(1) by (auto simp: logged_def)
  then have "tx_state (vm_heap t, vm_statics t)"
    using tx_run_spec [OF s xs] by simp
  then obtain ys where "tx_run ys (vm_heap t, vm_statics t) = (vm_heap u, vm_statics u)"
    using assms(2) by (auto simp: logged_def)
  then show "\<exists>ops. tx_run ops (vm_heap s, vm_statics s) = (vm_heap u, vm_statics u)"
    using xs tx_run_append by metis
qed

lemma logged_same: "vm_heap t = vm_heap s \<Longrightarrow> vm_statics t = vm_statics s \<Longrightarrow> logged s t"
  by (auto simp: logged_def intro: exI [of _ "[]"])

lemma logged_op:
  assumes "tx_op_step op (vm_heap s, vm_statics s) = (vm_heap t, vm_statics t)"
  shows "logged s t"
  using assms by (auto simp: logged_def intro!: exI [of _ "[op]"])

interpretation undoable: vm_relation logged
proof unfold_locales
  fix s :: "'a vm" and op at v h st packages
  show "logged s (s\<lparr>vm_heap := snd (hop_step op (vm_heap s))\<rparr>)"
    by (rule logged_op [of "Heap_op op"]) simp
  show "logged s (s\<lparr>vm_heap := h, vm_statics := st\<rparr>)" if "tx_op_step (Put_static at v) (vm_heap s, vm_statics s) = (h, st)"
    using that by (intro logged_op [of "Put_static at v"]) simp
  show "logged s (s\<lparr>vm_heap := snd (release_temporary_natives packages (vm_heap s))\<rparr>)" if "hp_tx (vm_heap s) = None"
    using that by (simp add: logged_def tx_state_def in_tx_def)
  show "logged s (back_in_caller s t)" if "logged (callee_state s callee) t" for callee and t :: "'a vm"
    using that by (simp add: logged_def)
qed (auto intro: logged_same logged_trans)



end
