(* ===== verification/Framework_Safety.thy ===== *)
theory Framework_Safety
  imports Framework_Natives Interpreter_Safety
begin

text \<open>
  The framework natives meet what the interpreter asks of natives. A native call is followed point by
  point, as a step from one native context to another: array and command methods are operations on
  the frame, the heap and the state of the command and only spend budget, so every relation of the
  interpreter holds for them; the transaction methods add steps of their own, which the second locale
  states. The properties of whole runs then hold with the framework natives in place, with the
  security natives as the one remaining parameter.
\<close>

section \<open>Steps of a native call\<close>

definition native_step :: "('h vm \<Rightarrow> 'h vm \<Rightarrow> bool) \<Rightarrow> 'h native_context \<Rightarrow> 'h native_context \<Rightarrow> bool" where
  "native_step R n n' \<longleftrightarrow> (\<forall>s. as_native s = n \<longrightarrow> R s (from_native s n'))"

lemma native_follows_steps: "native_follows R m \<longleftrightarrow> (\<forall>n. native_step R n (snd (m n)))"
  by (auto simp: native_follows_def native_step_def)

lemma native_stepD: "native_follows R m \<Longrightarrow> native_step R n (snd (m n))"
  by (simp add: native_follows_steps)

lemma heap_actions_more [op_intros]:
  "heap_action (write_slice r k v)" "heap_action (copy_bytes a i b j n)" "heap_action (copy_bytes_unconditional a i b j n)"
  "heap_action (fill_bytes_unconditional r k n x)" "heap_action (new_transient_array kind len ctx ev)"
  by (rule by_ops_one [where op = "Write_slice r k v"] by_ops_one [where op = "Copy_bytes a i b j n"]
      by_ops_one [where op = "Copy_bytes_unconditional a i b j n"] by_ops_one [where op = "Fill_bytes_unconditional r k n x"]
      by_ops_one [where op = "New_transient_array kind len ctx ev"], simp; fail)+

lemma byte_slice_length: "byte_slice ref offset len h = Ok bs \<Longrightarrow> length bs = len"
  using byte_array_bounds [of ref offset len h "unat ref + HEADER + offset"] heap_info_bounds(2) [of h ref]
  by (fastforce simp: byte_slice_eq_Ok byte_array_range_eq_Ok bytes_at_def)

lemma admit_output_cases:
  "admit_output packages ctx combined d source offset len n =
     (case check_access source ctx (nc_heap n) of Err e \<Rightarrow> (Err e, n)
      | Ok i \<Rightarrow> (case byte_slice source offset len (nc_heap n) of
          Ok bs \<Rightarrow> returning (nc_command (publish_output combined d bs)) n
        | Err e \<Rightarrow> if e = JBounds then apdu_exception packages 2 ctx n else (Err e, n)))"
  by (simp add: admit_output_def nc_of_heap_def nc_on_heap_def sbind_def split: result.splits)

named_theorems native_intros \<open>steps of native calls\<close>

context vm_relation
begin

lemma native_refl [simp, native_intros]: "native_step R n n"
  by (auto simp: native_step_def from_native_def as_native_def refl)

lemma native_trans:
  assumes "native_step R a b" and "native_step R b c"
  shows "native_step R a c"
  unfolding native_step_def
proof (intro allI impI)
  fix s
  assume "as_native s = a"
  then have "R s (from_native s b)"
    using assms(1) by (simp add: native_step_def)
  moreover have "R (from_native s b) (from_native (from_native s b) c)"
    using assms(2) unfolding native_step_def
    by (rule allE [of _ "from_native s b"]) (simp add: as_native_def from_native_def)
  ultimately show "R s (from_native s c)"
    using trans by (auto simp: from_native_def)
qed

lemma native_step_basic [native_intros]:
  "native_step R n (snd (sret x n))" "native_step R n (snd (sfail e n))" "native_step R n (snd (slift r n))"
  "native_step R n (snd (sget g n))" "native_step R n (snd (Err e, n))"
  by (simp_all add: native_refl)

lemma native_step_bind [native_intros]:
  assumes "native_step R n (snd (m n))" and "\<And>x n'. native_step R n' (snd (k x n'))"
  shows "native_step R n (snd (sbind m k n))"
  using assms native_trans by (cases "m n"; cases "fst (m n)") (force simp: sbind_def)+

lemma native_step_parts [native_intros]:
  "frame_action m \<Longrightarrow> native_step R n (snd (nc_on_frame m n))" "heap_action k \<Longrightarrow> native_step R n (snd (nc_on_heap k n))"
  using native_frame native_heap native_stepD by blast+

lemma native_step_read [native_intros]: "native_step R n (snd (nc_of_heap g n))"
  by (simp add: nc_of_heap_def native_intros op_intros)

lemma native_step_jcre:
  assumes "\<And>s. as_native s = n \<Longrightarrow> R s (s\<lparr>vm_jcre := f (vm_jcre s)\<rparr>)"
  shows "native_step R n (snd (nc_command f n))"
  using assms by (auto simp: native_step_def nc_command_def smodify_def from_native_def as_native_def)

lemma native_step_exception [native_intros]:
  "native_step R n (snd (nc_command (\<lambda>j. j\<lparr>jc_transaction_exception := x\<rparr>) n))"
  using command by (rule native_step_jcre)

lemma spent_many: "R s (s\<lparr>vm_budget := vm_budget s - k\<rparr>)"
proof (induction k)
  case (Suc k)
  then show ?case
    using trans [OF Suc spent] by simp
qed (simp add: refl)

lemma native_step_charge [native_intros]: "native_step R n (snd (nc_charge k n))"
  using spent_many refl by (auto simp: native_step_def nc_charge_def from_native_def as_native_def)

lemma native_step_if: "native_step R n (snd (m n)) \<Longrightarrow> native_step R n (snd (k n)) \<Longrightarrow> native_step R n (snd ((if b then m else k) n))"
  by simp

lemma native_step_throw [native_intros]:
  "native_step R n (snd (nc_throw packages name ctx n))" "native_step R n (snd (throw_reason packages name reason ctx n))"
  "native_step R n (snd (apdu_exception packages reason ctx n))" "native_step R n (snd (nc_index v n))"
  by (auto simp: nc_throw_def throw_reason_def apdu_exception_def nc_index_def intro!: native_intros op_intros)

lemma native_step_returning [native_intros]: "native_step R n (snd (m n)) \<Longrightarrow> native_step R n (snd (returning m n))"
  by (simp add: returning_def native_intros)

lemma util_steps [native_intros]: "native_step R n (snd (util_call m ctx n))"
  by (auto simp: util_call_def util_makeShort_def util_getShort_def util_setShort_def util_arrayCopy_def util_arrayFill_def
      util_arrayCompare_def intro!: native_intros op_intros)

lemma util_caught_steps [native_intros]: "native_step R n (snd (util_caught packages m ctx n))"
proof -
  obtain r n' where u: "util_call m ctx n = (r, n')" by fastforce
  have "native_step R n n'"
    using util_steps [of n m ctx] u by simp
  moreover have "native_step R n' (snd (nc_throw packages name ctx n'))" for name
    by (rule native_intros)
  ultimately show ?thesis
    using u native_trans by (cases r) (auto simp: util_caught_def)
qed

lemma transient_steps [native_intros]: "native_step R n (snd (jcsystem_makeTransient packages kind ctx n))"
proof -
  have "native_step R n (snd (case nc_on_heap (new_transient_array kind len ctx ev) n of
      (Ok array, s) \<Rightarrow> returning (nc_on_frame (push_reference array)) s
    | (Err e, s) \<Rightarrow> if e = JQuota then throw_reason packages SystemException 2 ctx s else (Err e, s)))" for len ev and n :: "'h native_context"
  proof -
    obtain r n' where u: "nc_on_heap (new_transient_array kind len ctx ev) n = (r, n')" by fastforce
    then have "native_step R n n'"
      using native_step_parts(2) [OF heap_actions_more(5), of n kind len ctx ev] by simp
    moreover have "native_step R n' (snd (returning (nc_on_frame (push_reference array)) n'))"
      "native_step R n' (snd (throw_reason packages SystemException 2 ctx n'))" for array
      by (intro native_intros op_intros)+
    ultimately show ?thesis
      using u native_trans by (cases r) auto
  qed
  then show ?thesis
    by (auto simp: jcsystem_makeTransient_def intro!: native_intros op_intros)
qed

lemma memory_steps [native_intros]: "native_step R n (snd (jcsystem_getAvailableMemory packages token ctx n))"
  by (auto simp: jcsystem_getAvailableMemory_def intro!: native_intros op_intros)

lemma transaction_exception_steps [native_intros]: "native_step R n (snd (nc_transaction_exception packages reason ctx n))"
proof -
  obtain r h j where t: "transaction_exception packages ctx reason (nc_heap n, nc_jcre n) = (r, h, j)"
    by (metis prod_cases3)
  obtain ops where ops: "h = fold (\<lambda>op h. snd (hop_step op h)) ops (nc_heap n)"
    using transaction_exception_ops [OF t] by blast
  have "R s (s\<lparr>vm_heap := h, vm_jcre := j\<rparr>)" if "as_native s = n" for s
    using that ops transaction_exception_command [OF t] trans [OF heap_run [of s ops] command [of _ "jc_transaction_exception j"]]
    by (auto simp: as_native_def)
  then show ?thesis
    using t by (auto simp: nc_transaction_exception_def native_step_def from_native_def as_native_def)
qed

end


section \<open>Steps of the command\<close>

text \<open>What the APDU and applet methods do to the state of the command, under the checks they make first.\<close>

locale command_relation = vm_relation R for R :: "'h vm \<Rightarrow> 'h vm \<Rightarrow> bool" +
  assumes received: "R s (s\<lparr>vm_jcre := (vm_jcre s)\<lparr>jc_incoming_started := True\<rparr>\<rparr>)"
    and opened: "\<not> jc_outgoing_started (vm_jcre s) \<Longrightarrow> R s (s\<lparr>vm_jcre := (vm_jcre s)\<lparr>jc_outgoing_started := True\<rparr>\<rparr>)"
    and declared: "jc_outgoing_started (vm_jcre s) \<Longrightarrow> jc_outgoing_length (vm_jcre s) = None
      \<Longrightarrow> unat len \<le> length (jc_response (vm_jcre s)) \<Longrightarrow> R s (s\<lparr>vm_jcre := (vm_jcre s)\<lparr>jc_outgoing_length := Some len\<rparr>\<rparr>)"
    and published: "send_declared combined len (vm_jcre s) = Ok d \<Longrightarrow> length bs = unat len
      \<Longrightarrow> unat (jc_outgoing (vm_jcre s)) + length bs \<le> unat d \<Longrightarrow> check_access source ctx (vm_heap s) = Ok i
      \<Longrightarrow> byte_slice source offset (length bs) (vm_heap s) = Ok bs
      \<Longrightarrow> R s (s\<lparr>vm_jcre := publish_output combined d bs (vm_jcre s)\<rparr>)"
    and named: "R s (s\<lparr>vm_jcre := (vm_jcre s)\<lparr>jc_aid := aid, jc_aid_length := k\<rparr>\<rparr>)"
    and registered: "R s (s\<lparr>vm_jcre := (vm_jcre s)\<lparr>jc_instance := Some object\<rparr>\<rparr>)"
begin

lemma command_steps [native_intros]:
  "native_step R n (snd (nc_command (\<lambda>j. j\<lparr>jc_incoming_started := True\<rparr>) n))"
  "\<not> jc_outgoing_started (nc_jcre n) \<Longrightarrow> native_step R n (snd (nc_command (\<lambda>j. j\<lparr>jc_outgoing_started := True\<rparr>) n))"
  "native_step R n (snd (nc_command (\<lambda>j. j\<lparr>jc_aid := overwrite (jc_aid j) 0 bs, jc_aid_length := k\<rparr>) n))"
  "native_step R n (snd (nc_command (\<lambda>j. j\<lparr>jc_instance := Some object\<rparr>) n))"
  by (rule native_step_jcre, auto simp: as_native_def received opened named registered)+

lemma declare_step [native_intros]:
  assumes "jc_outgoing_started (nc_jcre n)" "jc_outgoing_length (nc_jcre n) = None" "unat len \<le> length (jc_response (nc_jcre n))"
  shows "native_step R n (snd (nc_command (\<lambda>j. j\<lparr>jc_outgoing_length := Some len\<rparr>) n))"
  using assms by (intro native_step_jcre) (auto simp: as_native_def declared)

lemma apdu_receive_steps [native_intros]:
  "native_step R n (snd (apdu_incoming answer packages ctx n))" "native_step R n (snd (apdu_setIncomingAndReceive packages ctx n))"
  "native_step R n (snd (apdu_receiveBytes packages ctx n))" "native_step R n (snd (apdu_setOutgoing packages ctx n))"
  "native_step R n (snd (apdu_setOutgoingLength packages ctx n))" "native_step R n (snd (apdu_cla chaining n))"
  by (auto simp: apdu_incoming_def apdu_setIncomingAndReceive_def apdu_receiveBytes_def apdu_setOutgoing_def
      apdu_setOutgoingLength_def apdu_cla_def Let_def intro!: native_intros op_intros)

lemma published_step:
  assumes "send_declared combined len (nc_jcre n) = Ok d" "unat (jc_outgoing (nc_jcre n)) + unat len \<le> unat d"
    and "check_access source ctx (nc_heap n) = Ok i" "byte_slice source offset (unat len) (nc_heap n) = Ok bs"
  shows "native_step R n (snd (nc_command (publish_output combined d bs) n))"
proof (rule native_step_jcre)
  fix s
  assume "as_native s = n"
  then show "R s (s\<lparr>vm_jcre := publish_output combined d bs (vm_jcre s)\<rparr>)"
    using assms byte_slice_length [OF assms(4)] by (intro published) (auto simp: as_native_def)
qed

lemma admit_output_steps:
  assumes "send_declared combined len (nc_jcre n) = Ok d" "unat (jc_outgoing (nc_jcre n)) + unat len \<le> unat d"
  shows "native_step R n (snd (admit_output packages ctx combined d source offset (unat len) n))"
  using published_step [OF assms]
  by (auto simp: admit_output_cases intro!: native_intros split: result.splits)

lemma apdu_send_steps [native_intros]: "native_step R n (snd (apdu_send combined from_array packages ctx n))"
  by (auto simp: apdu_send_def intro!: native_intros op_intros admit_output_steps split: result.splits)

lemma apdu_steps [native_intros]: "native_step R n (snd (apdu_call packages m ctx n))"
  by (auto simp: apdu_call_def intro!: native_intros op_intros)

lemma applet_steps [native_intros]: "native_step R n (snd (applet_call m signature ctx n))"
proof -
  have aid: "native_step R n (snd (take_aid ctx n))" for n :: "'h native_context"
    by (auto simp: take_aid_def intro!: native_intros op_intros)
  have "native_step R n (snd (applet_register signature ctx n))"
    by (auto simp: applet_register_def intro!: native_intros op_intros aid)
  then show ?thesis
    by (auto simp: applet_call_def intro!: native_intros op_intros)
qed

end

section \<open>Transactions of natives\<close>

text \<open>The steps that only the transaction methods, the deletion request and the checkpoint take.\<close>

locale card_relation = command_relation R for R :: "'h vm \<Rightarrow> 'h vm \<Rightarrow> bool" +
  assumes hosted: "R s (s\<lparr>vm_host := x\<rparr>)"
    and begins: "R s (s\<lparr>vm_heap := snd (begin_transaction alloc capacity (vm_heap s))\<rparr>)"
    and commits: "R s (s\<lparr>vm_heap := snd (commit_transaction (vm_heap s))\<rparr>)"
    and checkpointed: "R s (s\<lparr>vm_heap := mark_checkpointed (vm_heap s)\<rparr>)"
    and aborts: "abort_transaction (vm_statics s) (vm_heap s) = (r, h, st) \<Longrightarrow> R s (s\<lparr>vm_heap := h, vm_statics := st\<rparr>)"
    and deletes: "R s (s\<lparr>vm_heap := snd (request_object_deletion (vm_heap s))\<rparr>)"
begin

lemma native_heap_step:
  assumes "\<And>s. R s (s\<lparr>vm_heap := snd (m (vm_heap s))\<rparr>)"
  shows "native_step R n (snd (nc_on_heap m n))"
  unfolding native_step_def
proof (intro allI impI)
  fix s
  assume "as_native s = n"
  then have "from_native s (snd (nc_on_heap m n)) = s\<lparr>vm_heap := snd (m (vm_heap s))\<rparr>"
    by (auto simp: nc_on_heap_def from_native_def as_native_def split: prod.splits)
  then show "R s (from_native s (snd (nc_on_heap m n)))"
    using assms by simp
qed

lemma control_steps [native_intros]:
  "native_step R n (snd (nc_on_heap (begin_transaction alloc capacity) n))"
  "native_step R n (snd (nc_on_heap commit_transaction n))"
  "native_step R n (snd (nc_on_heap (smodify mark_checkpointed) n))"
  "native_step R n (snd (nc_on_heap request_object_deletion n))"
  by (rule native_heap_step, simp add: begins commits checkpointed deletes smodify_def)+

lemma checkpoint_steps [native_intros]: "native_step R n (snd (nc_checkpoint sv n))"
  using hosted refl by (auto simp: native_step_def nc_checkpoint_def from_native_def as_native_def split: option.splits prod.splits)

lemma begin_steps [native_intros]: "native_step R n (snd (jcsystem_begin sv ctx n))"
  by (auto simp: jcsystem_begin_def intro!: native_intros op_intros)

lemma finish_steps [native_intros]: "native_step R n (snd (jcsystem_finish sv commit ctx n))"
proof -
  have "native_step R n (snd (jcsystem_commit sv n))"
    by (auto simp: jcsystem_commit_def Let_def intro!: native_intros op_intros)
  moreover have "native_step R n (snd (jcsystem_abort n))"
    using aborts by (auto simp: native_step_def jcsystem_abort_def from_native_def as_native_def split: prod.splits)
  ultimately show ?thesis
    by (auto simp: jcsystem_finish_def intro!: native_intros)
qed

lemma jcsystem_steps [native_intros]: "native_step R n (snd (jcsystem_call sv m token ctx n))"
  by (auto simp: jcsystem_call_def intro!: native_intros op_intros)

text \<open>With the framework natives in place, only the security natives remain to be asked for.\<close>

lemma framework_natives:
  assumes "ev_framework ev = framework_call sv" and "ev_security ev = sv_security sv"
    and "\<And>c m signature. native_follows R (sv_security sv c m signature (ev_context ev))"
  shows "natives_follow R ev"
proof -
  have "native_follows R (framework_call sv target (ev_context ev))" for target
    using assms(3) by (auto simp: framework_call_def native_follows_steps Let_def intro!: native_intros)
  then show ?thesis
    using assms by (simp add: natives_follow_def)
qed

end

interpretation spending: card_relation "\<lambda>s t. vm_budget t \<le> vm_budget s"
  by unfold_locales simp_all

section \<open>Transactions keep the machine\<close>

lemma pending_kept:
  "pending_inv p \<Longrightarrow> pending_inv (require_snapshot p)"
  by (auto simp: pending_inv_def default_pending_def require_snapshot_def active_def separated_def)

lemma card_state_pending: "card_state h st \<Longrightarrow> pending_inv p \<Longrightarrow> card_state (h\<lparr>hp_pending := p\<rparr>) st"
  by (auto simp: card_state_def heap_inv_def split: option.splits)

lemma card_state_closed: "card_state h st \<Longrightarrow> pending_inv p \<Longrightarrow> card_state (h\<lparr>hp_tx := None, hp_pending := p\<rparr>) st"
  by (auto simp: card_state_def heap_inv_def split: option.splits)

lemma control_kept:
  assumes "card_state h st"
  shows "card_state (snd (begin_transaction alloc capacity h)) st \<and> length (hp_bytes (snd (begin_transaction alloc capacity h))) = length (hp_bytes h)"
    and "card_state (snd (commit_transaction h)) st \<and> length (hp_bytes (snd (commit_transaction h))) = length (hp_bytes h)"
    and "card_state (mark_checkpointed h) st \<and> length (hp_bytes (mark_checkpointed h)) = length (hp_bytes h)"
    and "card_state (snd (request_object_deletion h)) st \<and> length (hp_bytes (snd (request_object_deletion h))) = length (hp_bytes h)"
proof -
  have inv: "heap_inv h"
    using assms by (simp add: card_state_def)
  show "card_state (snd (begin_transaction alloc capacity h)) st \<and> length (hp_bytes (snd (begin_transaction alloc capacity h))) = length (hp_bytes h)"
  proof (cases "fst (begin_transaction alloc capacity h)")
    case (Ok u)
    then obtain h1 where "begin_transaction alloc capacity h = (Ok (), h1)"
      by (metis old.unit.exhaust prod.collapse)
    then show ?thesis
      using begin_state(1) [OF inv, of alloc capacity h1 st]
      by (auto simp: card_state_tx begin_transaction_def split: if_splits result.splits)
  qed (use assms in \<open>auto simp: begin_transaction_def split: result.splits\<close>)
  show "card_state (snd (commit_transaction h)) st \<and> length (hp_bytes (snd (commit_transaction h))) = length (hp_bytes h)"
    using assms inv card_state_closed pending_kept by (auto simp: commit_transaction_def heap_inv_def split: option.splits)
  show "card_state (mark_checkpointed h) st \<and> length (hp_bytes (mark_checkpointed h)) = length (hp_bytes h)"
    using assms card_state_pending default_pending_inv(1) by (simp add: mark_checkpointed_def)
  show "card_state (snd (request_object_deletion h)) st \<and> length (hp_bytes (snd (request_object_deletion h))) = length (hp_bytes h)"
  proof (cases "lifecycle h")
    case (Ok x)
    let ?g = "h\<lparr>hp_bytes := (hp_bytes h)[0 := hp_bytes h ! 0 OR DELETION_REQUESTED]\<rparr>"
    have g: "card_state ?g st"
      using assms by (auto simp: card_state_def heap_inv_def split: option.splits)
    have "heap_inv (note_pending 0 1 ?g)"
      using g heap_invD(1,3) [of ?g] by (intro heap_inv_pending) (auto simp: card_state_def)
    then have "card_state (note_pending 0 1 ?g) st"
      using g by (simp add: card_state_def note_pending_def)
    then show ?thesis
      using assms Ok by (simp add: request_object_deletion_def sbind_def note_pending_def)
  qed (use assms in \<open>simp add: request_object_deletion_def sbind_def\<close>)
qed

lemma abort_kept:
  assumes "card_state h st" and "abort_transaction st h = (r, h', st')"
  shows "card_state h' st' \<and> length (hp_bytes h') = length (hp_bytes h) \<and> length st' = length st"
proof (cases "hp_tx h")
  case None
  then show ?thesis
    using assms by (simp add: abort_transaction_def)
next
  case (Some tx)
  obtain start u where tx: "hp_tx h = Some (start, u)"
    using Some by (cases tx) simp
  obtain bs st1 where rs: "restore u (hp_bytes h) st = (bs, st1)" by fastforce
  have inv: "heap_inv h" and u: "undo_wf u" "list_all (heap_fit (hp_next h)) (images u)"
    and st: "list_all (\<lambda>e. fst e - 65536 + length (snd e) \<le> length st) (static_images u)"
    using assms(1) tx by (auto simp: card_state_def heap_inv_def)
  have "list_all (fits (length (hp_bytes h)) (length st)) (images u)"
    using u(2) st heap_invD(2) [OF inv] by (auto simp: list_all_iff heap_fit_def fits_def static_images_def)
  then have len: "length bs = length (hp_bytes h)" "length st1 = length st"
    using restore_view(1,2) [OF u(1) _ rs] by auto
  let ?g = "h\<lparr>hp_tx := None, hp_bytes := bs\<rparr>"
  have g: "heap_inv ?g" and start: "2 \<le> start" "even start" "start \<le> hp_next h"
    using inv tx len by (auto simp: heap_inv_def)
  show ?thesis
  proof (cases "hp_next h = start")
    case True
    then show ?thesis
      using assms(2) tx rs g len by (auto simp: abort_transaction_def Let_def card_state_def)
  next
    case False
    let ?visit = "\<lambda>_ i payload. (Ok (), if inf_kind i = KIND_REFERENCE \<and> inf_clear i \<noteq> 0 then drop_new_references start payload else payload)"
    obtain r1 h1 where v: "visit_objects ?visit ?g = (r1, h1)" by fastforce
    have grown: "grown ?g h1"
      using visit_objects_grows [OF g, of ?visit] v by (simp add: drop_new_references(1))
    then have h1: "heap_inv h1" "hp_tx h1 = None" "hp_next h \<le> hp_next h1" "length (hp_bytes h1) = length (hp_bytes h)"
      using len by (auto simp: grown_def)
    show ?thesis
    proof (cases r1)
      case (Err e)
      then show ?thesis
        using assms(2) tx rs v False h1 len by (auto simp: abort_transaction_def Let_def card_state_def)
    next
      case (Ok x)
      let ?z = "(heap_poke start (replicate (hp_next h1 - start) 0) h1)\<lparr>hp_next := start, hp_aborted := True\<rparr>"
      have "heap_inv ?z" "length (hp_bytes ?z) = length (hp_bytes h)"
        using h1 start heap_invD [OF h1(1)] by (auto simp: heap_inv_def heap_poke_def)
      then show ?thesis
        using assms(2) tx rs v False Ok h1 len by (auto simp: abort_transaction_def Let_def card_state_def)
    qed
  qed
qed

interpretation guarded: card_relation machine_kept
proof unfold_locales
  fix s :: "'a vm" and h st r alloc capacity
  have heap: "machine_kept s (s\<lparr>vm_heap := h\<rparr>)"
    if "card_state (vm_heap s) (vm_statics s) \<Longrightarrow> card_state h (vm_statics s) \<and> length (hp_bytes h) = length (hp_bytes (vm_heap s))" for h
    using that by (auto simp: machine_kept_def machine_ok_def sizes_def)
  show "machine_kept s (s\<lparr>vm_heap := snd (begin_transaction alloc capacity (vm_heap s))\<rparr>)"
    "machine_kept s (s\<lparr>vm_heap := snd (commit_transaction (vm_heap s))\<rparr>)"
    "machine_kept s (s\<lparr>vm_heap := mark_checkpointed (vm_heap s)\<rparr>)"
    "machine_kept s (s\<lparr>vm_heap := snd (request_object_deletion (vm_heap s))\<rparr>)"
    by (rule heap, erule control_kept)+
  show "machine_kept s (s\<lparr>vm_heap := h, vm_statics := st\<rparr>)" if "abort_transaction (vm_statics s) (vm_heap s) = (r, h, st)"
    using abort_kept [OF _ that] by (auto simp: machine_kept_def machine_ok_def sizes_def)
qed (simp_all add: machine_kept_def machine_ok_def sizes_def)

section \<open>The response of a command\<close>

text \<open>The bytes sent so far, and what keeps them inside the declared length and the response buffer.\<close>

definition sent :: "jcre \<Rightarrow> bytes" where
  "sent j = take (unat (jc_outgoing j)) (jc_response j)"

definition reply_ok :: "jcre \<Rightarrow> bool" where
  "reply_ok j \<longleftrightarrow> length (jc_response j) = 256
     \<and> (case jc_outgoing_length j of None \<Rightarrow> jc_outgoing j = 0 \<and> \<not> jc_outgoing_combined j
        | Some d \<Rightarrow> jc_outgoing_started j \<and> unat (jc_outgoing j) \<le> unat d \<and> unat d \<le> 256)"

definition reply_kept :: "'h vm \<Rightarrow> 'h vm \<Rightarrow> bool" where
  "reply_kept s t \<longleftrightarrow> (reply_ok (vm_jcre s) \<longrightarrow> reply_ok (vm_jcre t)
     \<and> (\<exists>bs. sent (vm_jcre t) = sent (vm_jcre s) @ bs \<and> (jc_outgoing_combined (vm_jcre s) \<longrightarrow> bs = []))
     \<and> (jc_outgoing_started (vm_jcre s) \<longrightarrow> jc_outgoing_started (vm_jcre t))
     \<and> (jc_outgoing_combined (vm_jcre s) \<longrightarrow> jc_outgoing_combined (vm_jcre t))
     \<and> (jc_outgoing_length (vm_jcre s) \<noteq> None \<longrightarrow> jc_outgoing_length (vm_jcre t) = jc_outgoing_length (vm_jcre s)))"

lemma reply_kept_trans: "reply_kept s t \<Longrightarrow> reply_kept t u \<Longrightarrow> reply_kept s u"
  unfolding reply_kept_def by fastforce

text \<open>What counts of the state of the command.\<close>

definition reply_part :: "jcre \<Rightarrow> bytes \<times> u16 \<times> u16 option \<times> bool \<times> bool" where
  "reply_part j = (jc_response j, jc_outgoing j, jc_outgoing_length j, jc_outgoing_started j, jc_outgoing_combined j)"

lemma reply_same: "reply_part (vm_jcre t) = reply_part (vm_jcre s) \<Longrightarrow> reply_kept s t"
  by (auto simp: reply_kept_def reply_ok_def sent_def reply_part_def split: option.splits)

lemma sent_length: "reply_ok j \<Longrightarrow> length (sent j) = unat (jc_outgoing j)"
  by (auto simp: sent_def reply_ok_def split: option.splits)

lemma publish_output_sent:
  assumes "reply_ok j" and "send_declared combined len j = Ok d" and "length bs = unat len"
    and "unat (jc_outgoing j) + length bs \<le> unat d"
  shows "reply_ok (publish_output combined d bs j) \<and> sent (publish_output combined d bs j) = sent j @ bs
    \<and> \<not> jc_outgoing_combined j \<and> (jc_outgoing_length j \<noteq> None \<longrightarrow> jc_outgoing_length j = Some d \<and> \<not> combined)"
proof -
  let ?k = "unat (jc_outgoing j)"
  have j: "length (jc_response j) = 256" "?k \<le> 256"
    using assms(1) by (auto simp: reply_ok_def split: option.splits)
  have d: "unat d \<le> 256" "\<not> jc_outgoing_combined j" "combined \<Longrightarrow> \<not> jc_outgoing_started j" "\<not> combined \<Longrightarrow> jc_outgoing_length j = Some d"
    using assms(1,2) j by (auto simp: send_declared_def reply_ok_def split: if_splits option.splits)
  have none: "combined \<Longrightarrow> jc_outgoing_length j = None"
    using assms(1) d(3) by (auto simp: reply_ok_def split: option.splits)
  have "unat (word_of_nat (?k + length bs) :: u16) = ?k + length bs"
    using assms(4) d(1) by (simp only: unat_word_of_nat_u16) simp
  then have k: "unat (jc_outgoing j + word_of_nat (length bs)) = ?k + length bs"
    by simp
  have "take (?k + length bs) (overwrite (jc_response j) ?k bs) = take ?k (jc_response j) @ bs"
    using j by (simp add: overwrite_def)
  moreover have "length (overwrite (jc_response j) ?k bs) = 256"
    using j assms(4) d(1) by simp
  ultimately show ?thesis
    using assms k d none j by (auto simp: publish_output_def sent_def reply_ok_def Let_def split: option.splits)
qed

interpretation replying: command_relation reply_kept
proof unfold_locales
  fix s :: "'a vm" and combined len d bs
  show "reply_kept s (s\<lparr>vm_jcre := publish_output combined d bs (vm_jcre s)\<rparr>)"
    if "send_declared combined len (vm_jcre s) = Ok d" "length bs = unat len" "unat (jc_outgoing (vm_jcre s)) + length bs \<le> unat d"
  proof -
    have "jc_outgoing_started (vm_jcre s) \<longrightarrow> jc_outgoing_started (publish_output combined d bs (vm_jcre s))"
      "\<not> combined \<longrightarrow> jc_outgoing_length (publish_output combined d bs (vm_jcre s)) = jc_outgoing_length (vm_jcre s)"
      by (simp_all add: publish_output_def Let_def)
    then show ?thesis
      using publish_output_sent [OF _ that] by (auto simp: reply_kept_def)
  qed
  show "reply_kept s (s\<lparr>vm_jcre := (vm_jcre s)\<lparr>jc_outgoing_length := Some len\<rparr>\<rparr>)"
    if "jc_outgoing_started (vm_jcre s)" "jc_outgoing_length (vm_jcre s) = None" "unat len \<le> length (jc_response (vm_jcre s))" for len
    using that by (auto simp: reply_kept_def reply_ok_def sent_def)
  show "reply_kept s (s\<lparr>vm_jcre := (vm_jcre s)\<lparr>jc_outgoing_started := True\<rparr>\<rparr>)"
    by (auto simp: reply_kept_def reply_ok_def sent_def split: option.splits)
  show "reply_kept s (back_in_caller s t)" if "reply_kept (callee_state s callee) t" for callee and t :: "'a vm"
    using that by (simp add: reply_kept_def callee_state_def back_in_caller_def)
qed (auto intro: reply_same reply_kept_trans simp: reply_part_def)

interpretation answering: card_relation reply_kept
  by unfold_locales (simp_all add: reply_same)

lemma response_data_sent:
  assumes "reply_ok j"
  shows "response_data j = (case jc_outgoing_length j of None \<Rightarrow> Ok []
    | Some d \<Rightarrow> if unat d = length (sent j) then Ok (sent j) else Err JBounds)"
  using assms sent_length [OF assms]
  by (auto simp: response_data_def reply_ok_def sent_def get_range_def slice_of_def word_unat_eq_iff split: option.splits)

section \<open>Runs with the framework natives\<close>

text \<open>
  A package that imports the framework and whose one instruction calls \<open>setOutgoingAndSend\<close>, on a
  machine whose heap holds the command buffer, a byte array at offset 2, with the arguments on the
  stack.
\<close>

definition sample_services :: "unit services" where
  "sample_services = \<lparr>sv_packages = [\<lparr>ap_aid = [0xa0, 0, 0, 0, 2], ap_id = javacard_framework, ap_major = 1, ap_minor = 0,
       ap_classes = [\<lparr>ac_token = 10, ac_id = APDU_Id, ac_interface = False, ac_supers = [],
         ac_methods = [\<lparr>am_token = 8, am_id = setOutgoingAndSend, am_signature = 0, am_static = False, am_static_token = False\<rparr>]\<rparr>]\<rparr>],
     sv_alloc = (\<lambda>_. True), sv_checkpoint = (\<lambda>_ _ h. (Ok (), h)), sv_security = (\<lambda>_ _ _ _. sret Unimplemented)\<rparr>"

definition calling_package :: "cap_component list" where
  "calling_package =
     [\<lparr>cc_tag = Tag_Header, cc_info = CAP_MAGIC @ [1, 2, 4, 0, 1, 5, 0xa0, 0, 0, 0, 1]\<rparr>,
      \<lparr>cc_tag = Tag_Import, cc_info = [1, 0, 1, 5, 0xa0, 0, 0, 0, 2]\<rparr>,
      \<lparr>cc_tag = Tag_Class, cc_info = []\<rparr>,
      \<lparr>cc_tag = Tag_Method, cc_info = [0, 3, 0, 139, 0, 0, 122]\<rparr>,
      \<lparr>cc_tag = Tag_ConstantPool, cc_info = [0, 1, 3, 128, 10, 8]\<rparr>]"

definition calling_env :: "unit env" where
  "calling_env = \<lparr>ev_packages = sv_packages sample_services, ev_linked = the_Ok (link_new (file_of calling_package)),
     ev_methods = the_Ok (file_methods (file_of calling_package)), ev_context = 5, ev_limits = IMPLEMENTED, ev_cancel = None,
     ev_framework = framework_call sample_services, ev_security = sv_security sample_services\<rparr>"

definition buffer_heap :: heap where
  "buffer_heap = \<lparr>hp_bytes = [3, 7, 0, 0, 0, 2, 3, 5, 0x61, 0x62, 0, 0], hp_next = 10, hp_tx = None,
     hp_aborted = False, hp_pending = default_pending\<rparr>"

definition sample_frame :: "nat \<Rightarrow> frame" where
  "sample_frame d = \<lparr>words = [2, 0, 2], tags = [1], locals = 0, depth = d, max_stack = 3\<rparr>"

definition calling_vm :: "unit vm" where
  "calling_vm = \<lparr>vm_heap = buffer_heap, vm_host = (), vm_statics = [], vm_jcre = jcre_new 0 2, vm_depth = 0, vm_polls = 0,
     vm_budget = 5, vm_frame = sample_frame 3, vm_words = [], vm_tags = []\<rparr>"

lemma run_body_step:
  assumes "fetch ev code pc s = (Ok (opc, n), t)" and "exec_op (run_body fuel ev) ev code pc opc t = (Ok fl, u)"
    and "\<forall>ex. fl \<noteq> Finish (Thrown ex)"
  shows "run_body (Suc fuel) ev code body pc s = (case fl of Continue \<Rightarrow> run_body fuel ev code body (pc + n) u
    | Jump k \<Rightarrow> run_body fuel ev code body k u | Finish out \<Rightarrow> (Ok out, u))"
  using assms
  by (auto simp: run_body_code turn_def sbind_def lifted_def guarded_op_def catch_thrown_def split: flow.splits outcome.splits)

definition replied_vm :: "unit vm" where
  "replied_vm = calling_vm\<lparr>vm_budget := 4, vm_jcre := publish_output True 2 [0x61, 0x62] (jcre_new 0 2),
     vm_frame := sample_frame 0\<rparr>"

lemma sample_send:
  assumes "nc_heap n = buffer_heap" and "nc_frame n = sample_frame 3" and "nc_jcre n = jcre_new 0 2"
  shows "apdu_send True False packages 5 n
    = (Ok Returned, n\<lparr>nc_frame := sample_frame 0, nc_jcre := publish_output True 2 [0x61, 0x62] (jcre_new 0 2)\<rparr>)"
proof -
  have pops: "pop_short (sample_frame 3) = (Ok 2, sample_frame 2)" "pop_short (sample_frame 2) = (Ok 0, sample_frame 1)"
    "pop_reference (sample_frame 1) = (Ok 2, sample_frame 0)"
    by code_simp+
  have reads: "is_Ok (check_access 2 5 buffer_heap)" "byte_slice 2 0 2 buffer_heap = Ok [0x61, 0x62]"
    by code_simp+
  have j: "jc_buffer (jcre_new 0 2) = 2" "jc_outgoing (jcre_new 0 2) = 0" "send_declared True 2 (jcre_new 0 2) = Ok 2"
    by (simp_all add: jcre_new_def send_declared_def)
  obtain i where i: "check_access 2 5 buffer_heap = Ok i"
    using reads(1) by (auto simp: is_Ok_def)
  show ?thesis
    using assms pops reads(2) i j
    by (simp add: apdu_send_def sbind_def nc_on_frame_def admit_output_cases returning_def nc_command_def smodify_def)
qed

lemma calling_native: "exec_native calling_env 0 10 8 False (calling_vm\<lparr>vm_budget := 4\<rparr>) = (Ok Continue, replied_vm)"
proof -
  let ?p = "hd (sv_packages sample_services)"
  let ?target = "\<lparr>at_package = ?p, at_class = hd (ap_classes ?p), at_method = hd (ac_methods (hd (ap_classes ?p)))\<rparr>"
  have l: "link_api_method (ev_packages calling_env) (ev_linked calling_env) 0 10 8 False = Ok ?target"
    by code_simp
  have "call_with_budget calling_env ?target = apdu_send True False (sv_packages sample_services) 5"
    by (simp add: call_with_budget_def calling_env_def sample_services_def card_exception_def framework_call_def apdu_call_def)
  then show ?thesis
    by (simp add: exec_native_def l sbind_def call_native_def sample_send calling_vm_def replied_vm_def native_flow_def)
qed

lemma calling_run: "run_body 9 calling_env [139, 0, 0, 122] 3 0 calling_vm = (Ok Void, replied_vm\<lparr>vm_budget := 3\<rparr>)"
proof -
  have f: "fetch calling_env [139, 0, 0, 122] 0 calling_vm = (Ok (139, 3), calling_vm\<lparr>vm_budget := 4\<rparr>)"
    "fetch calling_env [139, 0, 0, 122] 3 replied_vm = (Ok (122, 1), replied_vm\<lparr>vm_budget := 3\<rparr>)"
    by code_simp+
  have p: "pool_index [139, 0, 0, 122] 0 = Ok 0" "external_class_method (ev_linked calling_env) 0 = Ok (Some (0, 10, 8))"
    by code_simp+
  have "exec_op (run_body 8 calling_env) calling_env [139, 0, 0, 122] 0 139 (calling_vm\<lparr>vm_budget := 4\<rparr>) = (Ok Continue, replied_vm)"
    by (simp add: exec_op_def exec_invoke_virtual_def p sbind_def lifted_def calling_native)
  from run_body_step [OF f(1) this, of 3] have "run_body 9 calling_env [139, 0, 0, 122] 3 0 calling_vm
      = run_body 8 calling_env [139, 0, 0, 122] 3 3 replied_vm"
    by simp
  also have "\<dots> = (Ok Void, replied_vm\<lparr>vm_budget := 3\<rparr>)"
    using run_body_step [OF f(2), of 7 "Finish Void" "replied_vm\<lparr>vm_budget := 3\<rparr>" 3]
    by (simp add: exec_op_def exec_plain_def exec_return_def lifted_def)
  finally show ?thesis .
qed

lemma calling_setup:
  "ev_framework calling_env = framework_call sample_services" "ev_security calling_env = sv_security sample_services"
  "(\<And>s. R s s) \<Longrightarrow> native_follows R (sv_security sample_services c m signature ctx)"
  by (simp_all add: calling_env_def sample_services_def native_follows_def native_unchanged)

lemma calling_machine: "machine_ok calling_vm" "reply_ok (vm_jcre calling_vm)" "vm_budget calling_vm = 5"
  by (simp_all add: machine_ok_def calling_vm_def sample_frame_def frame_inv_def arena_def card_state_def buffer_heap_def heap_inv_def
      u16_max_def default_pending_inv(1) reply_ok_def jcre_new_def)

text \<open>
  C5 (framework_runs_safely). Whole runs with the framework natives in place: array operations, the APDU
  methods, transient arrays, memory queries, transactions with their checkpoints and registration may
  be called in any order by any code. As long as the security natives keep the machine and hand no
  budget back, every run ends within its budget and leaves frame, heap, undo log and static area well
  formed and of the size they had, whatever the host answers at checkpoints.
\<close>

theorem framework_runs_safely:
  assumes "ev_framework ev = framework_call sv" and "ev_security ev = sv_security sv"
    and "\<And>c m signature. native_follows machine_kept (sv_security sv c m signature (ev_context ev))"
    and "\<And>c m signature. native_follows (\<lambda>s t. vm_budget t \<le> vm_budget s) (sv_security sv c m signature (ev_context ev))"
    and "machine_ok s" and "vm_budget s < fuel" and "run_body fuel ev code body pc s = (r, t)"
  shows "r \<noteq> Err Out_of_fuel \<and> vm_budget t \<le> vm_budget s \<and> machine_ok t \<and> sizes t = sizes s"
proof -
  note kept = guarded.framework_natives [OF assms(1,2,3)] and spent = spending.framework_natives [OF assms(1,2,4)]
  have "fueled vm_budget fuel (run_body fuel ev code body pc)"
    using budget.enough_fuel [OF spent] fetch_spends by blast
  then have "r \<noteq> Err Out_of_fuel"
    using assms(6,7) by (metis fst_conv fueled_def)
  then show ?thesis
    using followsD [OF sound.run_body_follows [OF kept] assms(7)] followsD [OF budget.run_body_follows [OF spent] assms(7)] assms(5)
    by (simp add: machine_kept_def)
qed

theorem framework_runs_safely_witness:
  "machine_ok (replied_vm\<lparr>vm_budget := 3\<rparr>) \<and> sizes (replied_vm\<lparr>vm_budget := 3\<rparr>) = sizes calling_vm"
  using framework_runs_safely [OF calling_setup(1,2) _ _ calling_machine(1) _ calling_run]
  by (simp add: calling_setup(3) calling_machine(3) sound.refl)

text \<open>
  C6 (response_grows). The response of a command is written once and in order: whatever methods an
  applet calls, in whatever order, the bytes already sent stay as they are and later ones follow them,
  a declared length is never changed and never exceeded, nothing follows a combined send, and no more
  than the 256 bytes of the buffer are ever written. The runtime hands out exactly the bytes sent, and
  only if they are as many as were declared.
\<close>

theorem response_grows:
  assumes "ev_framework ev = framework_call sv" and "ev_security ev = sv_security sv"
    and "\<And>c m signature. native_follows reply_kept (sv_security sv c m signature (ev_context ev))"
    and "reply_ok (vm_jcre s)" and "run_body fuel ev code body pc s = (r, t)"
  shows "\<exists>bs. sent (vm_jcre t) = sent (vm_jcre s) @ bs \<and> length (sent (vm_jcre t)) \<le> 256
    \<and> (jc_outgoing_combined (vm_jcre s) \<longrightarrow> bs = [])
    \<and> (case jc_outgoing_length (vm_jcre s) of None \<Rightarrow> sent (vm_jcre s) = []
       | Some d \<Rightarrow> jc_outgoing_length (vm_jcre t) = Some d \<and> length (sent (vm_jcre t)) \<le> unat d)
    \<and> response_data (vm_jcre t) = (case jc_outgoing_length (vm_jcre t) of None \<Rightarrow> Ok []
       | Some d \<Rightarrow> if unat d = length (sent (vm_jcre t)) then Ok (sent (vm_jcre t)) else Err JBounds)"
proof -
  have kept: "reply_kept s t"
    using followsD [OF replying.run_body_follows [OF answering.framework_natives [OF assms(1,2,3)]] assms(5)] .
  then have t: "reply_ok (vm_jcre t)"
    using assms(4) by (simp add: reply_kept_def)
  obtain bs where bs: "sent (vm_jcre t) = sent (vm_jcre s) @ bs" "jc_outgoing_combined (vm_jcre s) \<longrightarrow> bs = []"
    using kept assms(4) by (auto simp: reply_kept_def)
  have "length (sent (vm_jcre t)) \<le> 256" "sent (vm_jcre s) = []" if "jc_outgoing_length (vm_jcre s) = None"
    using that assms(4) t by (auto simp: reply_ok_def sent_def)
  moreover have "jc_outgoing_length (vm_jcre t) = Some d \<and> length (sent (vm_jcre t)) \<le> unat d \<and> unat d \<le> 256"
    if "jc_outgoing_length (vm_jcre s) = Some d" for d
    using that kept assms(4) t sent_length [OF t] by (auto simp: reply_kept_def reply_ok_def)
  ultimately show ?thesis
    using bs response_data_sent [OF t] by (intro exI [of _ bs]) (auto split: option.splits)
qed

theorem response_grows_witness:
  "response_data (vm_jcre replied_vm) = Ok [0x61, 0x62] \<and> sent (vm_jcre calling_vm) = []"
proof -
  have t: "sent (vm_jcre replied_vm) = [0x61, 0x62]" "jc_outgoing_length (vm_jcre replied_vm) = Some 2" "sent (vm_jcre calling_vm) = []"
    by (simp_all add: replied_vm_def publish_output_def jcre_new_def sent_def Let_def calling_vm_def overwrite_def)
  show ?thesis
    using response_grows [OF calling_setup(1,2) _ calling_machine(2) calling_run] t
    by (simp add: calling_setup(3) replying.refl)
qed

end
