(* ===== verification/Collector.thy ===== *)
theory Collector
  imports Link
begin

text \<open>
  Object deletion of the Java Card engine
  (\<open>src/crates/microcard-engine-jcvm/src/applet/gc.rs\<close>, with \<open>visit_native_reference_offsets\<close> of
  \<open>natives/security.rs\<close> and the state of an applet from \<open>applet.rs\<close>). References are offsets into one
  slab: the collector marks what the roots reach, computes where each live object moves, rewrites every
  reference, and compacts the slab in place. The bitmaps, the worklist and the packed relocation index
  are as in the code; the success of an allocation (\<open>alloc\<close>) and the table of API classes
  (\<open>packages\<close>) are parameters.
\<close>

section \<open>State\<close>

record applet_sizes =
  as_heap_bytes :: nat
  as_frame_words :: nat
  as_buffer_bytes :: u16
  as_budget :: nat

record applet =
  ai_heap :: bytes
  ai_heap_used :: nat
  ai_runtime_bytes :: nat
  ai_statics :: bytes
  ai_words :: "u16 list"
  ai_tags :: bytes
  ai_apdu :: reference
  ai_buffer :: reference
  ai_instance :: "reference option"
  ai_selected :: bool
  ai_reselecting :: bool
  ai_transaction_aborted :: bool
  ai_pending_writes :: pending
  ai_last_auto_collection_used :: nat
  ai_context :: jcontext
  ai_sizes :: applet_sizes

section \<open>Bitmaps and bounds\<close>

definition bitmap :: "(nat \<Rightarrow> bool) \<Rightarrow> nat \<Rightarrow> bytes jres" where
  "bitmap alloc n = (let k = (n + 15) div 16 in if alloc k then Ok (replicate k 0) else Err JQuota)"

definition bit_is_set :: "bytes \<Rightarrow> reference \<Rightarrow> bool" where
  "bit_is_set bits ref = (case get_at bits (unat ref div 16) of None \<Rightarrow> False
     | Some b \<Rightarrow> b AND push_bit (unat ref div 2 mod 8) 1 \<noteq> 0)"

definition set_bit :: "reference \<Rightarrow> bytes \<Rightarrow> bytes" where
  "set_bit ref bits = (let k = unat ref div 16 in bits[k := bits ! k OR push_bit (unat ref div 2 mod 8) 1])"

definition object_end :: "nat \<Rightarrow> info \<Rightarrow> nat jres" where
  "object_end at i =
     rbind (ok_or (checked_add at HEADER) JBounds) (\<lambda>a.
     rbind (ok_or (checked_add a (unat (inf_length i) * element_size i)) JBounds) (\<lambda>e. Ok (next_even e)))"

section \<open>Reference slots\<close>

abbreviation (input) OwnerPINxWithPredecrement :: class_id where "OwnerPINxWithPredecrement \<equiv> 26"
abbreviation (input) KeyPair :: class_id where "KeyPair \<equiv> 54"
abbreviation (input) MessageDigest :: class_id where "MessageDigest \<equiv> 56"
abbreviation (input) RSAPublicKey :: class_id where "RSAPublicKey \<equiv> 62"
abbreviation (input) Signature :: class_id where "Signature \<equiv> 66"
abbreviation (input) Cipher :: class_id where "Cipher \<equiv> 71"

abbreviation (input) MATERIAL :: nat where "MATERIAL \<equiv> 2"
abbreviation (input) PENDING :: nat where "PENDING \<equiv> 5"

definition visit_native_reference_offsets :: "api_package list \<Rightarrow> info \<Rightarrow> nat \<Rightarrow> (nat \<Rightarrow> ('s, unit) jact) \<Rightarrow> ('s, unit) jact" where
  "visit_native_reference_offsets packages i payload_len visit =
     (if inf_kind i \<noteq> KIND_OBJECT \<or> inf_length i \<noteq> STATE_WORDS then sret ()
      else case api_class_of packages (inf_class i) of None \<Rightarrow> sret ()
      | Some c \<Rightarrow>
          if payload_len \<noteq> unat STATE_WORDS * 2 then sfail JFormat
          else sbind (visit (MATERIAL * 2)) (\<lambda>_.
            if List.member [Cipher, MessageDigest, Signature, KeyPair, RSAPublicKey, OwnerPINxWithPredecrement] (ac_id c)
            then visit (PENDING * 2) else sret ()))"

text \<open>A visitor called on each element of a list.\<close>

fun visit_list :: "(nat \<Rightarrow> ('s, unit) jact) \<Rightarrow> nat list \<Rightarrow> ('s, unit) jact" where
  "visit_list visit [] = sret ()"
| "visit_list visit (x # xs) = sbind (visit x) (\<lambda>_. visit_list visit xs)"

definition visit_reference_slots ::
  "api_package list \<Rightarrow> linked \<Rightarrow> info \<Rightarrow> nat \<Rightarrow> (nat \<Rightarrow> ('s, unit) jact) \<Rightarrow> ('s, unit) jact" where
  "visit_reference_slots packages l i payload_at visit =
     (let n = unat (inf_length i) * element_size i; visit = (\<lambda>at. visit (payload_at + at)) in
      if inf_kind i = KIND_REFERENCE then visit_list visit (map (\<lambda>k. k * 2) [0..<(n + 1) div 2])
      else if inf_kind i = KIND_OBJECT then
        if is_native_class (inf_class i) then visit_native_reference_offsets packages i n visit
        else visit_instance_reference_offsets l (inf_class i) n visit
      else sret ())"

section \<open>Marking\<close>

type_synonym marks = "bytes \<times> reference list"

text \<open>
  Both bitmaps cover the same references, so the index of \<open>set_bit\<close> is in range; an index out of range
  would be a panic, and the model leaves the marks as they are there.
\<close>

definition mark :: "bytes \<Rightarrow> reference \<Rightarrow> (marks, unit) jact" where
  "mark starts ref = (\<lambda>(marked, queue).
     if ref = 0 then (Ok (), marked, queue)
     else if odd (unat ref) \<or> \<not> bit_is_set starts ref then (Err JBounds, marked, queue)
     else if \<not> bit_is_set marked ref \<and> unat ref div 16 < length marked then (Ok (), set_bit ref marked, ref # queue)
     else (Ok (), marked, queue))"

definition slot_word :: "bytes \<Rightarrow> nat \<Rightarrow> u16 jres" where
  "slot_word bs slot = rbind (ok_or (get_range bs slot (slot + 2)) JBounds) (\<lambda>w. Ok (be16 (w ! 0) (w ! 1)))"

definition mark_slot :: "bytes \<Rightarrow> bytes \<Rightarrow> nat \<Rightarrow> (marks, unit) jact" where
  "mark_slot bs starts slot = sbind (slift (slot_word bs slot)) (\<lambda>w. mark starts w)"

function scan_objects :: "bytes \<Rightarrow> nat \<Rightarrow> nat \<Rightarrow> bytes \<Rightarrow> nat \<Rightarrow> (bytes \<times> nat) jres" where
  "scan_objects bs used at starts objects =
     (if at < used then
        rbind (info_read bs used (word_of_nat at)) (\<lambda>i.
        rbind (object_end at i) (\<lambda>fin.
        scan_objects bs used fin (set_bit (word_of_nat at) starts) (objects + 1)))
      else if at \<noteq> used then Err JFormat else Ok (starts, objects))"
  by pat_completeness auto

lemma object_end_eq_Ok: "object_end at i = Ok fin \<longleftrightarrow> fin = next_even (at + HEADER + payload_size i) \<and> at + HEADER + payload_size i \<le> usize_max"
  by (auto simp: object_end_def rbind_eq_Ok payload_size_def)

lemma object_end_after: "object_end at i = Ok fin \<Longrightarrow> at < fin"
  by (auto simp: object_end_eq_Ok next_even_def)

termination scan_objects
  by (relation "measure (\<lambda>(_, used, at, _, _). used - at)") (auto dest: object_end_after)

declare scan_objects.simps [simp del]

function mark_runtime :: "bytes \<Rightarrow> nat \<Rightarrow> bytes \<Rightarrow> nat \<Rightarrow> nat \<Rightarrow> marks \<Rightarrow> marks jres" where
  "mark_runtime bs used starts bound at m =
     (if at < bound then
        case mark starts (word_of_nat at) m of (Err e, _) \<Rightarrow> Err e
        | (Ok _, m) \<Rightarrow>
            rbind (info_read bs used (word_of_nat at)) (\<lambda>i.
            rbind (object_end at i) (\<lambda>fin. mark_runtime bs used starts bound fin m))
      else if at \<noteq> bound then Err JFormat else Ok m)"
  by pat_completeness auto
termination mark_runtime
  by (relation "measure (\<lambda>(_, _, _, bound, at, _). bound - at)") (auto dest: object_end_after)

declare mark_runtime.simps [simp del]

text \<open>The words of \<open>chunks_exact(2)\<close> over the reference part of the static area.\<close>

definition static_words :: "nat \<Rightarrow> bytes \<Rightarrow> u16 list" where
  "static_words n st = map (\<lambda>k. be16 (st ! (2 * k)) (st ! (2 * k + 1))) [0..<n]"

fun mark_all :: "bytes \<Rightarrow> u16 list \<Rightarrow> (marks, unit) jact" where
  "mark_all starts [] = sret ()"
| "mark_all starts (w # ws) = sbind (mark starts w) (\<lambda>_. mark_all starts ws)"

section \<open>The slots of an object\<close>

text \<open>Every visitor sees the same slots in the same order, until it fails.\<close>

definition note_slot :: "nat \<Rightarrow> (nat list, unit) jact" where
  "note_slot slot xs = (Ok (), xs @ [slot])"

definition object_slots :: "api_package list \<Rightarrow> linked \<Rightarrow> info \<Rightarrow> nat \<Rightarrow> unit jres \<times> nat list" where
  "object_slots packages l i payload_at = visit_reference_slots packages l i payload_at note_slot []"

definition visits :: "(nat \<Rightarrow> bool) \<Rightarrow> ('s, unit) jact \<Rightarrow> (nat list, unit) jact \<Rightarrow> (nat \<Rightarrow> ('s, unit) jact) \<Rightarrow> bool" where
  "visits P m n visit \<longleftrightarrow> (\<exists>ys r. list_all P ys \<and> (\<forall>xs. n xs = (r, xs @ ys)) \<and> m = sbind (visit_list visit ys) (\<lambda>_. slift r))"

lemma visitsI:
  "list_all P ys \<Longrightarrow> (\<And>xs. n xs = (r, xs @ ys)) \<Longrightarrow> (\<And>s. m s = sbind (visit_list visit ys) (\<lambda>_. slift r) s) \<Longrightarrow> visits P m n visit"
  unfolding visits_def by blast

lemma visits_basic: "visits P (sret ()) (sret ()) visit" "visits P (sfail e) (sfail e) visit"
proof -
  show "visits P (sret ()) (sret ()) visit"
    by (rule visitsI [where r = "Ok ()" and ys = "[]"]) (simp_all add: sbind_def)
  show "visits P (sfail e) (sfail e) visit"
    by (rule visitsI [where r = "Err e" and ys = "[]"]) (simp_all add: sbind_def)
qed

lemma visits_slift:
  assumes "\<And>x. visits P (f x) (g x) visit"
  shows "visits P (sbind (slift r) f) (sbind (slift r) g) visit"
proof (cases r)
  case (Err e)
  then have "sbind (slift r) f = sfail e" "sbind (slift r) g = sfail e"
    by (auto simp: sbind_def fun_eq_iff)
  then show ?thesis
    using visits_basic(2) by simp
next
  case (Ok x)
  then have "sbind (slift r) f = f x" "sbind (slift r) g = g x"
    by (auto simp: sbind_def fun_eq_iff)
  then show ?thesis
    using assms by simp
qed

lemma visit_list_append: "visit_list visit (xs @ ys) = sbind (visit_list visit xs) (\<lambda>_. visit_list visit ys)"
  by (induction xs) (auto simp: sbind_def fun_eq_iff split: prod.splits result.splits)

lemma visits_seq:
  assumes "visits P m n visit" and "visits P m' n' visit"
  shows "visits P (sbind m (\<lambda>_. m')) (sbind n (\<lambda>_. n')) visit"
proof -
  obtain ys r where m: "list_all P ys" "\<And>xs. n xs = (r, xs @ ys)" "m = sbind (visit_list visit ys) (\<lambda>_. slift r)"
    using assms(1) unfolding visits_def by blast
  obtain ys' r' where m': "list_all P ys'" "\<And>xs. n' xs = (r', xs @ ys')" "m' = sbind (visit_list visit ys') (\<lambda>_. slift r')"
    using assms(2) unfolding visits_def by blast
  show ?thesis
  proof (cases r)
    case (Err e)
    show ?thesis
      by (rule visitsI [where r = "Err e" and ys = ys]) (use Err m in \<open>auto simp: sbind_def split: prod.splits result.splits\<close>)
  next
    case (Ok u)
    show ?thesis
      by (rule visitsI [where r = r' and ys = "ys @ ys'"])
        (use Ok m m' in \<open>auto simp: sbind_def visit_list_append split: prod.splits result.splits\<close>)
  qed
qed

lemma visits_one: "P at \<Longrightarrow> visits P (visit at) (note_slot at) visit"
  by (rule visitsI [where r = "Ok ()" and ys = "[at]"]) (auto simp: note_slot_def sbind_def split: prod.splits result.splits)

lemma visits_list:
  "(\<And>x. x \<in> set xs \<Longrightarrow> P (p + x)) \<Longrightarrow> visits P (visit_list (\<lambda>at. visit (p + at)) xs) (visit_list (\<lambda>at. note_slot (p + at)) xs) visit"
  by (induction xs) (simp_all add: visits_basic visits_seq visits_one)

text \<open>The slots of an object lie in its payload, at even distances.\<close>

definition in_payload :: "nat \<Rightarrow> nat \<Rightarrow> nat \<Rightarrow> bool" where
  "in_payload p n slot \<longleftrightarrow> (\<exists>k. slot = p + 2 * k \<and> 2 * k + 2 \<le> n)"

lemma visits_tokens:
  "visits (in_payload p n) (visit_tokens (\<lambda>at. visit (p + at)) n base from k) (visit_tokens (\<lambda>at. note_slot (p + at)) n base from k) visit"
proof (induction k arbitrary: "from")
  case (Suc k)
  have "in_payload p n (p + (base + from) * 2)" if "(base + from) * 2 + 2 \<le> n"
    using that by (auto simp: in_payload_def intro!: exI [of _ "base + from"])
  then show ?case
    using Suc unfolding visit_tokens.simps Let_def
    by (auto simp only: not_less intro!: visits_basic visits_seq visits_one split: if_splits)
qed (simp only: visit_tokens.simps visits_basic)

lemma visits_references:
  "visits (in_payload p n) (visit_references k (\<lambda>at. visit (p + at)) n fuel c w) (visit_references k (\<lambda>at. note_slot (p + at)) n fuel c w) visit"
proof (induction fuel arbitrary: c w)
  case (Suc fuel)
  show ?case
    unfolding visit_references.simps
    by (cases c) (auto simp only: class_ref.case intro!: Suc visits_basic visits_slift visits_seq visits_tokens split: if_splits)
qed (simp only: visit_references.simps visits_basic)

lemma visits_native:
  assumes "n = payload_size i"
  shows "visits (in_payload p n) (visit_native_reference_offsets packages i n (\<lambda>at. visit (p + at)))
    (visit_native_reference_offsets packages i n (\<lambda>at. note_slot (p + at))) visit"
proof -
  have "in_payload p (unat STATE_WORDS * 2) (p + MATERIAL * 2)" "in_payload p (unat STATE_WORDS * 2) (p + PENDING * 2)"
    by (auto simp: in_payload_def intro: exI [of _ 2] exI [of _ 5])
  then show ?thesis
    unfolding visit_native_reference_offsets_def
    by (cases "api_class_of packages (inf_class i)") (auto simp only: option.case intro!: visits_basic visits_seq visits_one split: if_splits)
qed

lemma visits_slots:
  "visits (in_payload p (payload_size i)) (visit_reference_slots packages l i p visit) (visit_reference_slots packages l i p note_slot) visit"
proof -
  have "in_payload p (payload_size i) (p + k * 2)" if "k < (payload_size i + 1) div 2" "inf_kind i = KIND_REFERENCE" for k
    using that by (auto simp: in_payload_def payload_size_def element_size_def intro!: exI [of _ k])
  then show ?thesis
    unfolding visit_reference_slots_def Let_def payload_size_def [symmetric]
    by (auto simp: visits_basic visit_instance_reference_offsets_def intro!: visits_list visits_native visits_slift visits_references)
qed

lemma object_slots_visit:
  "visit_reference_slots packages l i p visit = sbind (visit_list visit (snd (object_slots packages l i p))) (\<lambda>_. slift (fst (object_slots packages l i p)))"
  and object_slots_inside: "slot \<in> set (snd (object_slots packages l i p)) \<Longrightarrow> in_payload p (payload_size i) slot"
proof -
  have "visits (in_payload p (payload_size i)) (visit_reference_slots packages l i p visit) (visit_reference_slots packages l i p note_slot) visit"
    by (rule visits_slots)
  then obtain ys r where y: "list_all (in_payload p (payload_size i)) ys" "visit_reference_slots packages l i p note_slot [] = (r, [] @ ys)"
    "visit_reference_slots packages l i p visit = sbind (visit_list visit ys) (\<lambda>_. slift r)"
    unfolding visits_def by metis
  then show "visit_reference_slots packages l i p visit = sbind (visit_list visit (snd (object_slots packages l i p))) (\<lambda>_. slift (fst (object_slots packages l i p)))"
    "slot \<in> set (snd (object_slots packages l i p)) \<Longrightarrow> in_payload p (payload_size i) slot"
    by (simp_all add: object_slots_def list_all_iff)
qed

section \<open>Marks\<close>

lemma bit_is_set_iff: "bit_is_set bits r \<longleftrightarrow> unat r div 16 < length bits \<and> bit (bits ! (unat r div 16)) (unat r div 2 mod 8)"
proof -
  have "b AND push_bit k 1 \<noteq> 0 \<longleftrightarrow> bit b k" for b :: byte and k
    by (simp add: and_exp_eq_0_iff_not_bit push_bit_eq_mult)
  then show ?thesis
    by (auto simp: bit_is_set_def get_at_def)
qed

lemma set_bit_bits:
  assumes "unat r div 16 < length bits"
  shows "bit_is_set (set_bit r bits) r' \<longleftrightarrow> bit_is_set bits r' \<or> unat r' div 2 = unat r div 2"
proof -
  have split: "unat r div 16 = unat r div 2 div 8" for r :: u16
    by (simp add: div_mult2_eq)
  have "bit (push_bit k (1 :: byte)) j \<longleftrightarrow> j = k" if "k < 8" "j < 8" for j k
    using that by (auto simp: push_bit_eq_mult bit_exp_iff)
  moreover have "unat r' div 2 = unat r div 2 \<longleftrightarrow> unat r' div 2 div 8 = unat r div 2 div 8 \<and> unat r' div 2 mod 8 = unat r div 2 mod 8"
    by (metis div_mult_mod_eq)
  ultimately show ?thesis
    using assms by (auto simp: bit_is_set_iff set_bit_def Let_def split nth_list_update bit_or_iff)
qed

lemma length_set_bit [simp]: "length (set_bit r bits) = length bits"
  by (simp add: set_bit_def Let_def)

definition unmarked :: "bytes \<Rightarrow> nat" where
  "unmarked bits = card {r :: reference. \<not> bit_is_set bits r}"

lemma unmarked_falls:
  assumes "unat r div 16 < length bits" and "\<not> bit_is_set bits r"
  shows "unmarked (set_bit r bits) < unmarked bits"
  unfolding unmarked_def
  by (rule psubset_card_mono) (use assms set_bit_bits [OF assms(1)] in auto)

definition work :: "marks \<Rightarrow> nat" where
  "work m = unmarked (fst m) + length (snd m)"

lemma keeps_visit_list: "(\<And>x. keeps P (visit x)) \<Longrightarrow> keeps P (visit_list visit xs)"
  by (induction xs) auto

lemma mark_work: "keeps (\<lambda>m. work m \<le> n) (mark starts r)"
proof (rule keepsI)
  fix m
  assume n: "work m \<le> n"
  obtain marked queue where m: "m = (marked, queue)" by fastforce
  show "work (snd (mark starts r m)) \<le> n"
  proof (cases "\<not> bit_is_set marked r \<and> unat r div 16 < length marked")
    case True
    then show ?thesis
      using n m unmarked_falls [of r marked] by (auto simp: mark_def work_def)
  qed (use n m in \<open>auto simp: mark_def\<close>)
qed

lemma mark_slot_work: "keeps (\<lambda>m. work m \<le> n) (mark_slot bs starts slot)"
  unfolding mark_slot_def using mark_work by blast

lemma slots_work: "keeps (\<lambda>m. work m \<le> n) (visit_reference_slots packages l i p (mark_slot bs starts))"
  unfolding object_slots_visit by (intro keeps_sbind keeps_visit_list mark_slot_work keeps_basic)

lemma slots_less:
  assumes "visit_reference_slots packages l i p (mark_slot bs starts) (marked, queue) = (r, m)"
  shows "work m < work (marked, ref # queue)"
  using keepsD [OF slots_work _ assms, of "work (marked, queue)"] by (simp add: work_def)

function trace :: "api_package list \<Rightarrow> linked \<Rightarrow> bytes \<Rightarrow> nat \<Rightarrow> bytes \<Rightarrow> marks \<Rightarrow> bytes jres" where
  "trace packages l bs used starts (marked, []) = Ok marked"
| "trace packages l bs used starts (marked, ref # queue) =
     rbind (info_read bs used ref) (\<lambda>i.
     case visit_reference_slots packages l i (unat ref + HEADER) (mark_slot bs starts) (marked, queue) of
       (Err e, _) \<Rightarrow> Err e
     | (Ok _, m) \<Rightarrow> trace packages l bs used starts m)"
  by pat_completeness auto
termination trace
  by (relation "measure (\<lambda>(_, _, _, _, _, m). work m)") (auto dest!: slots_less [OF sym])

section \<open>The relocation index\<close>

text \<open>An entry packs the old offset in the high half and the new one in the low half of a \<open>u32\<close>.\<close>

type_synonym entry = "32 word"

definition pack :: "nat \<Rightarrow> nat \<Rightarrow> entry" where
  "pack old new = push_bit 16 (word_of_nat old) OR word_of_nat new"

definition entry_old :: "entry \<Rightarrow> reference" where
  "entry_old e = ucast (drop_bit 16 e)"

definition entry_new :: "entry \<Rightarrow> reference" where
  "entry_new e = ucast e"

function build_index :: "bytes \<Rightarrow> nat \<Rightarrow> bytes \<Rightarrow> nat \<Rightarrow> nat \<Rightarrow> entry list \<Rightarrow> (entry list \<times> nat) jres" where
  "build_index bs used marked at new index =
     (if at < used then
        rbind (info_read bs used (word_of_nat at)) (\<lambda>i.
        rbind (object_end at i) (\<lambda>fin.
        if bit_is_set marked (word_of_nat at) then build_index bs used marked fin (new + (fin - at)) (index @ [pack at new])
        else build_index bs used marked fin new index))
      else Ok (index, new))"
  by pat_completeness auto
termination build_index
  by (relation "measure (\<lambda>(_, used, _, at, _, _). used - at)") (auto dest: object_end_after)

declare build_index.simps [simp del]

text \<open>\<open>binary_search_by_key\<close> on a sorted slice: halve the range until the key is found or the range is empty.\<close>

function search_index :: "entry list \<Rightarrow> reference \<Rightarrow> nat \<Rightarrow> nat \<Rightarrow> nat option" where
  "search_index index ref lo hi =
     (if lo < hi then
        let mid = (lo + hi) div 2; old = entry_old (index ! mid) in
        if old = ref then Some mid else if old < ref then search_index index ref (mid + 1) hi
        else search_index index ref lo mid
      else None)"
  by pat_completeness auto
termination search_index
  by (relation "measure (\<lambda>(_, _, lo, hi). hi - lo)") auto

declare search_index.simps [simp del]

definition relocated :: "reference \<Rightarrow> entry list \<Rightarrow> reference jres" where
  "relocated ref index =
     (if ref = 0 then Ok 0
      else rbind (ok_or (search_index index ref 0 (length index)) JBounds) (\<lambda>position.
        Ok (entry_new (index ! position))))"

definition rewrite_slot :: "nat \<Rightarrow> entry list \<Rightarrow> bytes \<Rightarrow> bool jres \<times> bytes" where
  "rewrite_slot at index bs =
     (case rbind (slot_word bs at) (\<lambda>old. rbind (relocated old index) (\<lambda>new. Ok (old, new))) of
        Err e \<Rightarrow> (Err e, bs)
      | Ok (old, new) \<Rightarrow> (Ok (new \<noteq> old), if new \<noteq> old then overwrite bs at (be16_bytes new) else bs))"

section \<open>Checking, rewriting and moving\<close>

definition check_slot :: "bytes \<Rightarrow> entry list \<Rightarrow> nat \<Rightarrow> (unit, unit) jact" where
  "check_slot bs index slot = slift (rbind (slot_word bs slot) (\<lambda>w. rbind (relocated w index) (\<lambda>_. Ok ())))"

function check_live :: "api_package list \<Rightarrow> linked \<Rightarrow> bytes \<Rightarrow> nat \<Rightarrow> bytes \<Rightarrow> entry list \<Rightarrow> nat \<Rightarrow> unit jres" where
  "check_live packages l bs used marked index at =
     (if at < used then
        rbind (info_read bs used (word_of_nat at)) (\<lambda>i.
        rbind (object_end at i) (\<lambda>fin.
        rbind (if bit_is_set marked (word_of_nat at)
               then fst (visit_reference_slots packages l i (at + HEADER) (check_slot bs index) ()) else Ok ()) (\<lambda>_.
        check_live packages l bs used marked index fin)))
      else Ok ())"
  by pat_completeness auto
termination check_live
  by (relation "measure (\<lambda>(_, _, _, used, _, _, at). used - at)") (auto dest: object_end_after)

declare check_live.simps [simp del]

definition rewrite_live_slot :: "entry list \<Rightarrow> bool \<Rightarrow> nat \<Rightarrow> (bytes \<times> pending, unit) jact" where
  "rewrite_live_slot index stays slot = (\<lambda>(bs, writes).
     case rewrite_slot slot index bs of
       (Err e, bs) \<Rightarrow> (Err e, bs, writes)
     | (Ok changed, bs) \<Rightarrow> (Ok (), bs, if changed \<and> stays then pending_heap slot 2 writes else writes))"

function rewrite_live :: "api_package list \<Rightarrow> linked \<Rightarrow> nat \<Rightarrow> bytes \<Rightarrow> entry list \<Rightarrow> nat \<Rightarrow> (bytes \<times> pending, unit) jact" where
  "rewrite_live packages l used marked index at m =
     (if at < used then
        case rbind (info_read (fst m) used (word_of_nat at)) (\<lambda>i. rbind (object_end at i) (\<lambda>fin. Ok (i, fin))) of
          Err e \<Rightarrow> (Err e, m)
        | Ok (i, fin) \<Rightarrow>
            if bit_is_set marked (word_of_nat at) then
              case relocated (word_of_nat at) index of Err e \<Rightarrow> (Err e, m)
              | Ok destination \<Rightarrow>
                  (case visit_reference_slots packages l i (at + HEADER) (rewrite_live_slot index (unat destination = at)) m of
                     (Err e, m) \<Rightarrow> (Err e, m)
                   | (Ok _, m) \<Rightarrow> rewrite_live packages l used marked index fin m)
            else rewrite_live packages l used marked index fin m
      else (Ok (), m))"
  by pat_completeness auto
termination rewrite_live
  by (relation "measure (\<lambda>(_, _, used, _, _, at, _). used - at)") (auto simp: rbind_eq_Ok dest: object_end_after)

declare rewrite_live.simps [simp del]

fun rewrite_statics :: "entry list \<Rightarrow> nat list \<Rightarrow> (bytes \<times> pending, unit) jact" where
  "rewrite_statics index [] m = (Ok (), m)"
| "rewrite_statics index (at # ats) (st, writes) =
     (case rewrite_slot at index st of
        (Err e, st) \<Rightarrow> (Err e, st, writes)
      | (Ok changed, st) \<Rightarrow> rewrite_statics index ats (st, if changed then pending_statics at 2 writes else writes))"

fun move_objects :: "nat \<Rightarrow> entry list \<Rightarrow> (bytes \<times> pending, unit) jact" where
  "move_objects used [] m = (Ok (), m)"
| "move_objects used (e # index) (bs, writes) =
     (let old = unat (entry_old e); new = unat (entry_new e) in
      case rbind (info_read bs used (entry_old e)) (object_end old) of
        Err e \<Rightarrow> (Err e, bs, writes)
      | Ok fin \<Rightarrow>
          move_objects used index
            (if old \<noteq> new then (overwrite bs new (slice_of bs old fin), pending_heap new (fin - old) writes) else (bs, writes)))"

section \<open>Collecting\<close>

text \<open>The marks after tracing from every root: the runtime's objects, the applet and its static fields.\<close>

definition mark_live :: "(nat \<Rightarrow> bool) \<Rightarrow> api_package list \<Rightarrow> linked \<Rightarrow> load_file \<Rightarrow> applet \<Rightarrow> (nat \<times> bytes) jres" where
  "mark_live alloc packages l f s =
     (let used = ai_heap_used s; bs = take used (ai_heap s) in
      rbind (bitmap alloc used) (\<lambda>starts.
      rbind (bitmap alloc used) (\<lambda>marked.
      rbind (scan_objects bs used 2 starts 0) (\<lambda>(starts, objects).
      if \<not> alloc objects then Err JQuota
      else rbind (mark_runtime bs used starts (ai_runtime_bytes s) 2 (marked, [])) (\<lambda>m.
        rbind (ok_or (ai_instance s) JMissing) (\<lambda>object.
        case mark starts object m of (Err e, _) \<Rightarrow> Err e
        | (Ok _, m) \<Rightarrow>
            rbind (file_static_fields f) (\<lambda>fields.
            let count = unat (sf_reference_count fields) in
            if 2 * count > length (ai_statics s) then Err JBounds
            else case mark_all starts (static_words count (ai_statics s)) m of (Err e, _) \<Rightarrow> Err e
            | (Ok _, m) \<Rightarrow> rbind (trace packages l bs used starts m) (\<lambda>marked. Ok (count, marked)))))))))"

text \<open>The checks of every reference that will be rewritten, and where the roots move.\<close>

fun check_words :: "entry list \<Rightarrow> u16 list \<Rightarrow> unit jres" where
  "check_words index [] = Ok ()"
| "check_words index (w # ws) = rbind (relocated w index) (\<lambda>_. check_words index ws)"

definition plan_roots :: "entry list \<Rightarrow> applet \<Rightarrow> (reference \<times> reference \<times> reference \<times> reference) jres" where
  "plan_roots index s =
     rbind (ok_or (ai_instance s) JMissing) (\<lambda>old_instance.
     rbind (relocated old_instance index) (\<lambda>object.
     rbind (relocated (ai_apdu s) index) (\<lambda>apdu.
     rbind (relocated (ai_buffer s) index) (\<lambda>buffer. Ok (old_instance, object, apdu, buffer)))))"

definition clear_frames :: "applet \<Rightarrow> applet" where
  "clear_frames s = s\<lparr>ai_words := replicate (length (ai_words s)) 0, ai_tags := replicate (length (ai_tags s)) 0\<rparr>"

definition with_slab :: "bytes \<Rightarrow> applet \<Rightarrow> applet" where
  "with_slab bs s = s\<lparr>ai_heap := bs @ drop (ai_heap_used s) (ai_heap s)\<rparr>"

definition compact ::
  "api_package list \<Rightarrow> linked \<Rightarrow> nat \<Rightarrow> bytes \<Rightarrow> entry list \<Rightarrow> nat \<Rightarrow> reference \<times> reference \<times> reference \<times> reference \<Rightarrow> (applet, bool) jact" where
  "compact packages l count marked index new = (\<lambda>(old_instance, object, apdu, buffer) s.
     let used = ai_heap_used s in
     case rewrite_live packages l used marked index 2 (take used (ai_heap s), ai_pending_writes s) of
       (Err e, bs, _) \<Rightarrow> (Err e, with_slab bs s)
     | (Ok _, bs, writes) \<Rightarrow>
         (case rewrite_statics index (map (\<lambda>k. 2 * k) [0..<count]) (ai_statics s, writes) of
            (Err e, st, _) \<Rightarrow> (Err e, (with_slab bs s)\<lparr>ai_statics := st\<rparr>)
          | (Ok _, st, writes) \<Rightarrow>
              (case move_objects used index (bs, writes) of
                 (Err e, bs, _) \<Rightarrow> (Err e, (with_slab bs s)\<lparr>ai_statics := st\<rparr>)
               | (Ok _, bs, writes) \<Rightarrow>
                   (Ok True, clear_frames ((with_slab (take new bs @ replicate (used - new) 0) s)
                     \<lparr>ai_statics := st, ai_heap_used := new, ai_instance := Some object, ai_apdu := apdu, ai_buffer := buffer,
                      ai_pending_writes := if object \<noteq> old_instance then require_snapshot writes else writes\<rparr>)))))"

definition collect_unreachable :: "(nat \<Rightarrow> bool) \<Rightarrow> api_package list \<Rightarrow> load_file \<Rightarrow> (applet, bool) jact" where
  "collect_unreachable alloc packages f s =
     (let used = ai_heap_used s; bs = take used (ai_heap s) in
      case rbind (link_new f) (\<lambda>l.
           rbind (mark_live alloc packages l f s) (\<lambda>(count, marked).
           rbind (build_index bs used marked 2 2 []) (\<lambda>(index, new).
           Ok (l, count, marked, index, new)))) of
        Err e \<Rightarrow> (Err e, s)
      | Ok (l, count, marked, index, new) \<Rightarrow>
          if new = used then (Ok False, s)
          else if list_all (\<lambda>e. entry_old e = entry_new e) index
          then (Ok True, clear_frames ((with_slab (take new bs @ replicate (used - new) 0) s)\<lparr>ai_heap_used := new\<rparr>))
          else case rbind (check_live packages l bs used marked index 2) (\<lambda>_.
                    rbind (check_words index (static_words count (ai_statics s))) (\<lambda>_. plan_roots index s)) of
                 Err e \<Rightarrow> (Err e, s)
               | Ok roots \<Rightarrow> compact packages l count marked index new roots s)"

definition collect_when_low :: "(nat \<Rightarrow> bool) \<Rightarrow> api_package list \<Rightarrow> load_file \<Rightarrow> (applet, unit) jact" where
  "collect_when_low alloc packages f s =
     (let reserve = min (length (ai_heap s) div 8) (8 * 1024) in
      case heap_resume (ai_heap s) (ai_heap_used s) of Err e \<Rightarrow> (Err e, s)
      | Ok h \<Rightarrow>
          if \<not> length (hp_bytes h) - hp_next h < reserve \<or> transaction_remaining h \<noteq> None
             \<or> ai_heap_used s - ai_last_auto_collection_used s < reserve div 8 then (Ok (), s)
          else case collect_unreachable alloc packages f s of
                 (Err e, s) \<Rightarrow> (Err e, s)
               | (Ok _, s) \<Rightarrow> (Ok (), s\<lparr>ai_last_auto_collection_used := ai_heap_used s\<rparr>))"

end
