(* ===== verification/Collector_Correct.thy ===== *)
theory Collector_Correct
  imports Collector Heap_Transactions
begin

text \<open>
  What the collector does to the object graph. The slab is a row of objects; tracing marks exactly
  the objects that the roots reach, the relocation index sends each of them to the end of those before
  it, rewriting redirects every reference and moving keeps every byte, so the reachable graph after a
  collection is the one from before, at its new place.
\<close>

section \<open>The row of objects\<close>

definition object_info :: "bytes \<Rightarrow> nat \<Rightarrow> nat \<Rightarrow> info jres" where
  "object_info bs used at = info_read bs used (word_of_nat at)"

definition extent :: "bytes \<Rightarrow> nat \<Rightarrow> nat" where
  "extent bs at = next_even (HEADER + payload_size (info_header bs at))"

fun laid_out :: "bytes \<Rightarrow> nat \<Rightarrow> nat \<Rightarrow> nat list \<Rightarrow> bool" where
  "laid_out bs used at [] \<longleftrightarrow> at = used"
| "laid_out bs used at (x # xs) \<longleftrightarrow> x = at \<and> at < used \<and> is_Ok (info_read bs used (word_of_nat at))
     \<and> laid_out bs used (at + extent bs at) xs"

text \<open>A slab the engine allocates in: small enough for references, and even.\<close>

definition slab_ok :: "bytes \<Rightarrow> nat \<Rightarrow> bool" where
  "slab_ok bs used \<longleftrightarrow> length bs = used \<and> used \<le> u16_max \<and> even used"

lemma info_read_Ok:
  assumes "info_read bs used ref = Ok i"
  shows "i = info_header bs (unat ref)" "even (unat ref)" "ref \<noteq> 0" "unat ref + HEADER + payload_size i \<le> used" "used \<le> length bs"
  using assms by (auto simp: info_read_def Let_def payload_size_def split: if_splits)

lemma info_read_again:
  assumes "info_read bs used ref = Ok i" and "info_header bs' (unat ref') = info_header bs (unat ref)" and "even (unat ref')" "ref' \<noteq> 0"
    and "unat ref' + HEADER + payload_size i \<le> used'" "used' \<le> length bs'"
  shows "info_read bs' used' ref' = Ok i"
  using assms by (auto simp: info_read_def Let_def payload_size_def split: if_splits)

lemma extent_bounds: "HEADER + payload_size (info_header bs at) \<le> extent bs at" "even (extent bs at)" "HEADER \<le> extent bs at"
  by (auto simp: extent_def next_even_def)

lemma object_end_extent:
  assumes "slab_ok bs used" "at < used" "even at" "info_read bs used (word_of_nat at) = Ok i"
  shows "object_end at i = Ok (at + extent bs at)" "at + extent bs at \<le> used"
proof -
  have at: "unat (word_of_nat at :: u16) = at"
    using assms(1,2) by (simp add: slab_ok_def u16_max_def unat_word_of_nat_u16)
  note r = info_read_Ok [OF assms(4), unfolded at]
  have "next_even (at + HEADER + payload_size i) = at + extent bs at"
    using assms(3) r(1) by (simp add: extent_def next_even_def) presburger
  moreover have "at + HEADER + payload_size i \<le> usize_max"
    using r(4) assms(1) by (simp add: slab_ok_def u16_max_def usize_max_def)
  ultimately show "object_end at i = Ok (at + extent bs at)"
    by (simp add: object_end_eq_Ok)
  show "at + extent bs at \<le> used"
    using r(1,4) assms(1,3) by (simp add: extent_def next_even_def slab_ok_def) presburger
qed

lemma laid_out_bounds:
  assumes "laid_out bs used at xs" "x \<in> set xs"
  shows "at \<le> x \<and> x + extent bs x \<le> used \<and> (even at \<longrightarrow> even x) \<and> is_Ok (info_read bs used (word_of_nat x)) \<and> x < used"
  using assms
proof (induction xs arbitrary: at)
  case (Cons y ys)
  have tail: "at + extent bs at \<le> used"
    using Cons.prems(1) by (induction ys arbitrary: at) auto
  show ?case
    using Cons tail extent_bounds(2) by (cases "x = y") fastforce+
qed simp

lemma laid_out_sorted: "laid_out bs used at xs \<Longrightarrow> sorted_wrt (\<lambda>x y. x + extent bs x \<le> y) xs"
proof (induction xs arbitrary: at)
  case (Cons x xs)
  then show ?case
    using laid_out_bounds [of bs used "at + extent bs at" xs] by auto
qed simp

lemma word_of_nat_small: "slab_ok bs used \<Longrightarrow> at < used \<Longrightarrow> unat (word_of_nat at :: u16) = at"
  by (simp add: slab_ok_def u16_max_def unat_word_of_nat_u16)

text \<open>The loops over the slab follow the row.\<close>

lemma scan_objects_row:
  assumes "scan_objects bs used at starts n = Ok (starts', n')" and "slab_ok bs used" "even at"
  shows "\<exists>xs. laid_out bs used at xs \<and> n' = n + length xs \<and> starts' = fold (\<lambda>x. set_bit (word_of_nat x)) xs starts"
  using assms
proof (induction bs used at starts n rule: scan_objects.induct)
  case (1 bs used at starts n)
  show ?case
  proof (cases "at < used")
    case False
    then show ?thesis
      using "1.prems"(1) by (auto simp: scan_objects.simps [of bs used at] split: if_splits intro!: exI [of _ "[]"])
  next
    case True
    obtain i fin where i: "info_read bs used (word_of_nat at) = Ok i" and fin: "object_end at i = Ok fin"
      and rest: "scan_objects bs used fin (set_bit (word_of_nat at) starts) (n + 1) = Ok (starts', n')"
      using "1.prems"(1) True by (auto simp: scan_objects.simps [of bs used at] rbind_eq_Ok)
    have f: "fin = at + extent bs at"
      using object_end_extent(1) [OF "1.prems"(2) True "1.prems"(3) i] fin by simp
    obtain xs where "laid_out bs used fin xs" "n' = n + 1 + length xs" "starts' = fold (\<lambda>x. set_bit (word_of_nat x)) xs (set_bit (word_of_nat at) starts)"
      using "1.IH" [OF True i fin rest "1.prems"(2)] f extent_bounds(2) [of bs at] "1.prems"(3) by auto
    then show ?thesis
      using True i f by (intro exI [of _ "at # xs"]) simp
  qed
qed

section \<open>Marks as sets\<close>

definition marked_set :: "bytes \<Rightarrow> reference set" where
  "marked_set bits = {r. even (unat r) \<and> bit_is_set bits r}"

lemma marked_set_bit:
  assumes "unat r div 16 < length bits" "even (unat r)"
  shows "marked_set (set_bit r bits) = insert r (marked_set bits)"
proof -
  have "unat r' = unat r" if "even (unat r')" "unat r' div 2 = unat r div 2" for r' :: u16
    using that assms(2) by presburger
  then show ?thesis
    using assms by (auto simp: marked_set_def set_bit_bits [OF assms(1)] word_unat_eq_iff)
qed

lemma marked_length: "r \<in> marked_set bits \<Longrightarrow> unat r div 16 < length bits"
  by (simp add: marked_set_def bit_is_set_iff)

lemma marked_empty: "marked_set (replicate n 0) = {}"
  by (auto simp: marked_set_def bit_is_set_iff)

lemma marked_row:
  assumes "\<forall>x \<in> set xs. x < used \<and> even x" "slab_ok bs used" "length bits = (used + 15) div 16"
  shows "marked_set (fold (\<lambda>x. set_bit (word_of_nat x)) xs bits) = marked_set bits \<union> word_of_nat ` set xs"
  using assms
proof (induction xs arbitrary: bits)
  case (Cons x xs)
  have "unat (word_of_nat x :: u16) = x"
    using Cons.prems word_of_nat_small by simp
  then show ?case
    using Cons marked_set_bit [of "word_of_nat x" bits] by auto
qed simp

lemma mark_Ok:
  assumes "mark starts w m = (Ok u, m')" and "length (fst m) = length starts"
  shows "length (fst m') = length starts" "w \<noteq> 0 \<Longrightarrow> w \<in> marked_set starts" "marked_set (fst m') = marked_set (fst m) \<union> ({w} - {0})"
    "set (snd m') \<subseteq> set (snd m) \<union> ({w} - {0})" "marked_set (fst m') - marked_set (fst m) \<subseteq> set (snd m')" "set (snd m) \<subseteq> set (snd m')"
proof -
  obtain bits queue where m: "m = (bits, queue)" by fastforce
  consider "w = 0" "m' = m" | "w \<noteq> 0" "w \<in> marked_set starts" "w \<in> marked_set bits" "m' = m"
    | "w \<noteq> 0" "w \<in> marked_set starts" "w \<notin> marked_set bits" "m' = (set_bit w bits, w # queue)"
    using assms m marked_length [of w starts] by (auto simp: mark_def marked_set_def split: if_splits)
  then show "length (fst m') = length starts" "w \<noteq> 0 \<Longrightarrow> w \<in> marked_set starts" "marked_set (fst m') = marked_set (fst m) \<union> ({w} - {0})"
    "set (snd m') \<subseteq> set (snd m) \<union> ({w} - {0})" "marked_set (fst m') - marked_set (fst m) \<subseteq> set (snd m')" "set (snd m) \<subseteq> set (snd m')"
    using m assms(2) marked_set_bit [of w bits] marked_length [of w starts] by (cases; auto simp: marked_set_def)+
qed

text \<open>What marking some words does: the nonzero ones must be objects; new ones are marked and queued.\<close>

definition marks_words :: "bytes \<Rightarrow> u16 set \<Rightarrow> marks \<Rightarrow> marks \<Rightarrow> bool" where
  "marks_words starts W m m' \<longleftrightarrow> length (fst m') = length starts \<and> W - {0} \<subseteq> marked_set starts
     \<and> marked_set (fst m') = marked_set (fst m) \<union> (W - {0}) \<and> set (snd m) \<subseteq> set (snd m')
     \<and> set (snd m') \<subseteq> set (snd m) \<union> (W - {0}) \<and> marked_set (fst m') - marked_set (fst m) \<subseteq> set (snd m')"

lemma mark_words: "mark starts w m = (Ok u, m') \<Longrightarrow> length (fst m) = length starts \<Longrightarrow> marks_words starts {w} m m'"
  unfolding marks_words_def using mark_Ok [of starts w m u m'] by (intro conjI) auto

lemma marks_words_none: "length (fst m) = length starts \<Longrightarrow> marks_words starts {} m m"
  by (simp add: marks_words_def)

lemma marks_wordsD:
  assumes "marks_words starts W m m'"
  shows "length (fst m') = length starts" "W - {0} \<subseteq> marked_set starts" "marked_set (fst m') = marked_set (fst m) \<union> (W - {0})"
    "set (snd m) \<subseteq> set (snd m')" "set (snd m') \<subseteq> set (snd m) \<union> (W - {0})" "marked_set (fst m') - marked_set (fst m) \<subseteq> set (snd m')"
  using assms unfolding marks_words_def by blast+

lemma marks_words_trans:
  assumes "marks_words starts W m m1" and "marks_words starts W' m1 m2"
  shows "marks_words starts (W \<union> W') m m2"
proof -
  note a = marks_wordsD [OF assms(1)] and b = marks_wordsD [OF assms(2)]
  have "marked_set (fst m2) - marked_set (fst m) \<subseteq> set (snd m2)"
    using a(4,6) b(4,6) by blast
  moreover have "set (snd m2) \<subseteq> set (snd m) \<union> (W \<union> W' - {0})"
    using a(5) b(5) by blast
  ultimately show ?thesis
    unfolding marks_words_def using a b by auto
qed

lemma mark_all_words:
  "mark_all starts ws m = (Ok u, m') \<Longrightarrow> length (fst m) = length starts \<Longrightarrow> marks_words starts (set ws) m m'"
proof (induction ws arbitrary: m)
  case (Cons w ws)
  obtain v m1 where m1: "mark starts w m = (Ok v, m1)" "mark_all starts ws m1 = (Ok u, m')"
    using Cons.prems(1) by (auto simp: sbind_eq_Ok)
  have "marks_words starts {w} m m1"
    using mark_words [OF m1(1) Cons.prems(2)] .
  moreover have "marks_words starts (set ws) m1 m'"
    by (rule Cons.IH [OF m1(2) marks_wordsD(1) [OF calculation]])
  ultimately show ?case
    using marks_words_trans by fastforce
qed (simp add: marks_words_none)

definition slot_words :: "bytes \<Rightarrow> nat list \<Rightarrow> u16 set" where
  "slot_words bs ys = {w. \<exists>slot \<in> set ys. slot_word bs slot = Ok w}"

lemma mark_slots_words:
  assumes "visit_list (mark_slot bs starts) ys m = (Ok u, m')" and "length (fst m) = length starts"
  shows "marks_words starts (slot_words bs ys) m m' \<and> (\<forall>slot \<in> set ys. is_Ok (slot_word bs slot))"
  using assms
proof (induction ys arbitrary: m)
  case (Cons y ys)
  obtain v m1 where m1: "mark_slot bs starts y m = (Ok v, m1)" "visit_list (mark_slot bs starts) ys m1 = (Ok u, m')"
    using Cons.prems(1) by (auto simp: sbind_eq_Ok)
  obtain w where w: "slot_word bs y = Ok w" "mark starts w m = (Ok v, m1)"
    using m1(1) by (cases "slot_word bs y") (auto simp: mark_slot_def sbind_def)
  have a: "marks_words starts {w} m m1"
    using mark_words [OF w(2) Cons.prems(2)] .
  have b: "marks_words starts (slot_words bs ys) m1 m' \<and> (\<forall>slot \<in> set ys. is_Ok (slot_word bs slot))"
    by (rule Cons.IH [OF m1(2) marks_wordsD(1) [OF a]])
  have "slot_words bs (y # ys) = {w} \<union> slot_words bs ys"
    using w(1) by (auto simp: slot_words_def)
  then show ?case
    using marks_words_trans [OF a, of "slot_words bs ys" m'] b w(1) by (auto simp: is_Ok_def)
qed (simp add: marks_words_none slot_words_def)

section \<open>Tracing\<close>

definition slots_at :: "api_package list \<Rightarrow> linked \<Rightarrow> bytes \<Rightarrow> reference \<Rightarrow> nat list" where
  "slots_at packages l bs ref = snd (object_slots packages l (info_header bs (unat ref)) (unat ref + HEADER))"

inductive_set live :: "api_package list \<Rightarrow> linked \<Rightarrow> bytes \<Rightarrow> reference set \<Rightarrow> reference set"
  for packages l bs roots where
  root: "ref \<in> roots \<Longrightarrow> ref \<noteq> 0 \<Longrightarrow> ref \<in> live packages l bs roots"
| step: "ref \<in> live packages l bs roots \<Longrightarrow> w \<in> slot_words bs (slots_at packages l bs ref) \<Longrightarrow> w \<noteq> 0 \<Longrightarrow> w \<in> live packages l bs roots"

text \<open>An object whose header and slots can be read, with every reference marked.\<close>

definition scanned :: "api_package list \<Rightarrow> linked \<Rightarrow> bytes \<Rightarrow> nat \<Rightarrow> reference set \<Rightarrow> reference \<Rightarrow> bool" where
  "scanned packages l bs used M ref \<longleftrightarrow> is_Ok (info_read bs used ref)
     \<and> fst (object_slots packages l (info_header bs (unat ref)) (unat ref + HEADER)) = Ok ()
     \<and> (\<forall>slot \<in> set (slots_at packages l bs ref). is_Ok (slot_word bs slot))
     \<and> slot_words bs (slots_at packages l bs ref) - {0} \<subseteq> M"

lemma scanned_mono: "scanned packages l bs used M ref \<Longrightarrow> M \<subseteq> M' \<Longrightarrow> scanned packages l bs used M' ref"
  unfolding scanned_def by blast

definition tracing :: "api_package list \<Rightarrow> linked \<Rightarrow> bytes \<Rightarrow> nat \<Rightarrow> bytes \<Rightarrow> reference set \<Rightarrow> marks \<Rightarrow> bool" where
  "tracing packages l bs used starts L m \<longleftrightarrow> length (fst m) = length starts \<and> marked_set (fst m) \<subseteq> L \<inter> marked_set starts
     \<and> set (snd m) \<subseteq> marked_set (fst m)
     \<and> (\<forall>ref \<in> marked_set (fst m) - set (snd m). scanned packages l bs used (marked_set (fst m)) ref)"

lemma trace_exact:
  assumes "trace packages l bs used starts m = Ok marked" and "tracing packages l bs used starts L m"
    and "\<And>ref w. ref \<in> L \<Longrightarrow> w \<in> slot_words bs (slots_at packages l bs ref) \<Longrightarrow> w \<noteq> 0 \<Longrightarrow> w \<in> L"
  shows "marked_set (fst m) \<subseteq> marked_set marked \<and> tracing packages l bs used starts L (marked, [])"
  using assms
proof (induction packages l bs used starts m rule: trace.induct)
  case (2 packages l bs used starts bits ref queue)
  note tr = "2.prems"(2) and closed = "2.prems"(3)
  obtain i where i: "info_read bs used ref = Ok i"
    using "2.prems"(1) by (auto simp: rbind_eq_Ok)
  have hd: "i = info_header bs (unat ref)"
    using info_read_Ok(1) [OF i] .
  let ?sl = "object_slots packages l i (unat ref + HEADER)"
  obtain u m1 where v: "visit_reference_slots packages l i (unat ref + HEADER) (mark_slot bs starts) (bits, queue) = (Ok u, m1)"
    and rest: "trace packages l bs used starts m1 = Ok marked"
    using "2.prems"(1) i by (auto split: prod.splits result.splits)
  have slots: "slots_at packages l bs ref = snd ?sl"
    using hd by (simp add: slots_at_def)
  obtain u1 where run: "visit_list (mark_slot bs starts) (snd ?sl) (bits, queue) = (Ok u1, m1)" and ok: "fst ?sl = Ok ()"
    using v unfolding object_slots_visit sbind_eq_Ok by (auto simp: old.unit.exhaust)
  have m1: "marks_words starts (slot_words bs (snd ?sl)) (bits, queue) m1" and words: "\<forall>slot \<in> set (snd ?sl). is_Ok (slot_word bs slot)"
    using mark_slots_words [OF run] tr by (auto simp: tracing_def)
  have ref: "ref \<in> marked_set bits" "ref \<in> L"
    using tr by (auto simp: tracing_def)
  have "tracing packages l bs used starts L m1"
    unfolding tracing_def
  proof (intro conjI ballI)
    show "length (fst m1) = length starts"
      using m1 by (simp add: marks_words_def)
    show "marked_set (fst m1) \<subseteq> L \<inter> marked_set starts"
      using m1 tr closed [OF ref(2)] slots by (auto simp: marks_words_def tracing_def)
    show "set (snd m1) \<subseteq> marked_set (fst m1)"
      using m1 tr by (auto simp: marks_words_def tracing_def)
    fix r
    assume r: "r \<in> marked_set (fst m1) - set (snd m1)"
    have grow: "marked_set bits \<subseteq> marked_set (fst m1)"
      using m1 by (auto simp: marks_words_def)
    show "scanned packages l bs used (marked_set (fst m1)) r"
    proof (cases "r = ref")
      case True
      then show ?thesis
        using i ok words m1 slots hd by (auto simp: scanned_def is_Ok_def marks_words_def)
    next
      case False
      then have "r \<in> marked_set bits - set (ref # queue)"
        using r m1 by (auto simp: marks_words_def)
      then show ?thesis
        using tr scanned_mono [OF _ grow] by (simp add: tracing_def)
    qed
  qed
  then show ?case
    using "2.IH" [OF i v [symmetric] refl rest _ closed] marks_wordsD(3) [OF m1] by auto
qed simp

text \<open>The roots of an applet: the runtime's own objects, the applet and the reference part of its static area.\<close>

definition runtime_objects :: "nat \<Rightarrow> nat list \<Rightarrow> nat list" where
  "runtime_objects bound xs = takeWhile (\<lambda>x. x < bound) xs"

definition roots :: "applet \<Rightarrow> nat list \<Rightarrow> nat \<Rightarrow> reference set" where
  "roots s xs count = word_of_nat ` set (runtime_objects (ai_runtime_bytes s) xs) \<union> set_option (ai_instance s)
     \<union> set (static_words count (ai_statics s))"

lemma mark_runtime_words:
  assumes "mark_runtime bs used starts bound at m = Ok m'" and "length (fst m) = length starts"
    and "laid_out bs used at xs" "slab_ok bs used" "even at"
  shows "marks_words starts (word_of_nat ` set (runtime_objects bound xs)) m m'"
  using assms
proof (induction bs used starts bound at m arbitrary: xs rule: mark_runtime.induct)
  case (1 bs used starts bound at m)
  show ?case
  proof (cases "at < bound")
    case False
    then have "m' = m" "runtime_objects bound xs = []"
      using "1.prems"(1,3) by (cases xs; auto simp: mark_runtime.simps [of bs used starts bound at] runtime_objects_def split: if_splits)+
    then show ?thesis
      using "1.prems"(2) by (simp add: marks_words_none)
  next
    case True
    obtain u m1 i fin where m1: "mark starts (word_of_nat at) m = (Ok u, m1)" and i: "info_read bs used (word_of_nat at) = Ok i"
      and fin: "object_end at i = Ok fin" and rest: "mark_runtime bs used starts bound fin m1 = Ok m'"
      using "1.prems"(1) True by (auto simp: mark_runtime.simps [of bs used starts bound at] rbind_eq_Ok split: prod.splits result.splits)
    show ?thesis
    proof (cases xs)
      case Nil
      then have "at = used"
        using "1.prems"(3) by simp
      then have "\<not> is_Ok (info_read bs used (word_of_nat at))"
        using info_read_Ok(4) [OF i] "1.prems"(4) by (auto simp: slab_ok_def u16_max_def unat_word_of_nat_u16)
      then show ?thesis
        using i by (simp add: is_Ok_def)
    next
      case (Cons x ys)
      then have at: "x = at" "at < used" "laid_out bs used (at + extent bs at) ys"
        using "1.prems"(3) by auto
      have f: "fin = at + extent bs at"
        using object_end_extent(1) [OF "1.prems"(4) at(2) "1.prems"(5) i] fin by simp
      have a: "marks_words starts {word_of_nat at} m m1"
        using mark_words [OF m1 "1.prems"(2)] .
      have "marks_words starts (word_of_nat ` set (runtime_objects bound ys)) m1 m'"
        using "1.IH" [OF True m1 [symmetric] refl i fin rest marks_wordsD(1) [OF a], of ys] at(3) f "1.prems"(4,5) extent_bounds(2) by simp
      then show ?thesis
        using marks_words_trans [OF a] Cons at(1) True by (fastforce simp: runtime_objects_def)
    qed
  qed
qed

lemma act_case_Ok:
  "(case m of (Err e, t) \<Rightarrow> Err e | (Ok x, t) \<Rightarrow> g x t) = Ok y \<longleftrightarrow> (\<exists>x t. m = (Ok x, t) \<and> g x t = Ok y)"
  by (cases m; cases "fst m") auto

text \<open>The marks are exactly the objects the roots reach, and all of them can be scanned.\<close>

lemma mark_live_exact:
  assumes "mark_live alloc packages l f s = Ok (count, marked)" and "slab_ok bs used"
    and "bs = take (ai_heap_used s) (ai_heap s)" "used = ai_heap_used s"
  shows "\<exists>xs. laid_out bs used 2 xs \<and> (\<forall>x \<in> set xs. even x)
    \<and> marked_set marked = live packages l bs (roots s xs count) \<and> marked_set marked \<subseteq> word_of_nat ` set xs
    \<and> (\<forall>ref \<in> marked_set marked. scanned packages l bs used (marked_set marked) ref)
    \<and> 2 * count \<le> length (ai_statics s) \<and> (\<exists>fields. file_static_fields f = Ok fields \<and> count = unat (sf_reference_count fields))"
proof -
  let ?zero = "replicate ((used + 15) div 16) 0 :: bytes"
  obtain starts n m1 obj u m2 fields v m3 where run: "scan_objects bs used 2 ?zero 0 = Ok (starts, n)"
    "mark_runtime bs used starts (ai_runtime_bytes s) 2 (?zero, []) = Ok m1" "ai_instance s = Some obj" "mark starts obj m1 = (Ok u, m2)"
    "file_static_fields f = Ok fields" "count = unat (sf_reference_count fields)" "2 * count \<le> length (ai_statics s)"
    "mark_all starts (static_words count (ai_statics s)) m2 = (Ok v, m3)" "trace packages l bs used starts m3 = Ok marked"
    using assms(1) unfolding mark_live_def Let_def unfolding assms(3) [symmetric] unfolding assms(4) [symmetric]
    by (auto simp: rbind_eq_Ok act_case_Ok bitmap_def Let_def split: if_splits)
  obtain xs where xs: "laid_out bs used 2 xs" "starts = fold (\<lambda>x. set_bit (word_of_nat x)) xs ?zero"
    using scan_objects_row [OF run(1) assms(2)] by auto
  have even: "\<forall>x \<in> set xs. x < used \<and> even x"
    using laid_out_bounds [OF xs(1)] by auto
  have len: "length starts = (used + 15) div 16"
    unfolding xs(2) by (rule fold_invariant [where P = "\<lambda>b. length b = (used + 15) div 16" and Q = "\<lambda>_. True"]) simp_all
  have starts: "marked_set starts = word_of_nat ` set xs"
    using marked_row [OF even assms(2), of ?zero] xs(2) marked_empty by simp
  have a: "marks_words starts (word_of_nat ` set (runtime_objects (ai_runtime_bytes s) xs)) (?zero, []) m1"
    using mark_runtime_words [OF run(2) _ xs(1) assms(2)] len by simp
  have b: "marks_words starts {obj} m1 m2"
    using mark_words [OF run(4) marks_wordsD(1) [OF a]] .
  have c: "marks_words starts (set (static_words count (ai_statics s))) m2 m3"
    using mark_all_words [OF run(8) marks_wordsD(1) [OF b]] .
  have m3: "marks_words starts (roots s xs count) (?zero, []) m3"
    using marks_words_trans [OF marks_words_trans [OF a b] c] run(3) by (simp add: roots_def)
  let ?L = "live packages l bs (roots s xs count)"
  have start: "tracing packages l bs used starts ?L m3"
    using marks_wordsD [OF m3] marked_empty by (auto simp: tracing_def intro: live.root)
  have t: "marked_set (fst m3) \<subseteq> marked_set marked" "tracing packages l bs used starts ?L (marked, [])"
    using trace_exact [OF run(9) start] live.step by blast+
  have scanned: "\<forall>ref \<in> marked_set marked. scanned packages l bs used (marked_set marked) ref"
    using t(2) by (simp add: tracing_def)
  have "?L \<subseteq> marked_set marked"
  proof
    fix ref
    assume "ref \<in> ?L"
    then show "ref \<in> marked_set marked"
    proof induction
      case (root ref)
      then show ?case
        using t(1) marks_wordsD(3) [OF m3] by auto
    next
      case (step ref w)
      then show ?case
        using scanned by (auto simp: scanned_def)
    qed
  qed
  then show ?thesis
    using xs(1) even t(2) scanned run(5,6,7) starts by (intro exI [of _ xs]) (auto simp: tracing_def)
qed

section \<open>The relocation index\<close>

fun placed :: "(nat \<Rightarrow> nat) \<Rightarrow> (nat \<Rightarrow> bool) \<Rightarrow> nat \<Rightarrow> nat list \<Rightarrow> (nat \<times> nat) list" where
  "placed sz lv new [] = []"
| "placed sz lv new (x # xs) = (if lv x then (x, new) # placed sz lv (new + sz x) xs else placed sz lv new xs)"

definition kept_size :: "(nat \<Rightarrow> nat) \<Rightarrow> (nat \<Rightarrow> bool) \<Rightarrow> nat list \<Rightarrow> nat" where
  "kept_size sz lv xs = sum_list (map sz (filter lv xs))"

lemma kept_size_simps [simp]:
  "kept_size sz lv [] = 0" "kept_size sz lv (x # xs) = (if lv x then sz x else 0) + kept_size sz lv xs"
  by (simp_all add: kept_size_def)

lemma build_index_placed:
  assumes "laid_out bs used at xs" "slab_ok bs used" "even at"
  shows "build_index bs used marked at new index
    = Ok (index @ map (case_prod pack) (placed (extent bs) (\<lambda>x. bit_is_set marked (word_of_nat x)) new xs),
          new + kept_size (extent bs) (\<lambda>x. bit_is_set marked (word_of_nat x)) xs)"
  using assms
proof (induction xs arbitrary: at new index)
  case (Cons x xs)
  obtain i where i: "info_read bs used (word_of_nat at) = Ok i"
    using Cons.prems(1) by (auto simp: is_Ok_def)
  have e: "object_end at i = Ok (at + extent bs at)"
    using object_end_extent(1) [OF Cons.prems(2) _ Cons.prems(3) i] Cons.prems(1) by simp
  show ?case
    using Cons.prems Cons.IH [of "at + extent bs at"] i e extent_bounds(2) [of bs at]
    by (simp add: build_index.simps [of bs used marked at])
qed (simp add: build_index.simps)

lemma placed_fst: "map fst (placed sz lv new xs) = filter lv xs"
  by (induction sz lv new xs rule: placed.induct) simp_all

lemma placed_bounds:
  assumes "sorted_wrt (\<lambda>x y. x + sz x \<le> y) xs" "\<forall>x \<in> set xs. new \<le> x" "(old, n) \<in> set (placed sz lv new xs)"
  shows "new \<le> n \<and> n \<le> old \<and> old \<in> set xs \<and> lv old \<and> n + sz old \<le> new + kept_size sz lv xs"
  using assms
proof (induction sz lv new xs rule: placed.induct)
  case (2 sz lv new x xs)
  show ?case
  proof (cases "lv x \<and> (old, n) = (x, new)")
    case False
    let ?new = "if lv x then new + sz x else new"
    have "\<forall>y \<in> set xs. ?new \<le> y"
      using "2.prems"(1,2) by fastforce
    moreover have "(old, n) \<in> set (placed sz lv ?new xs)"
      using "2.prems"(3) False by (auto split: if_splits)
    ultimately show ?thesis
      using "2.IH" "2.prems"(1) by (cases "lv x") fastforce+
  qed (use 2 in auto)
qed simp

lemma placed_even:
  "\<forall>x. even (sz x) \<Longrightarrow> even new \<Longrightarrow> (old, n) \<in> set (placed sz lv new xs) \<Longrightarrow> even n"
  by (induction sz lv new xs rule: placed.induct) (auto split: if_splits)

lemma pack_entry:
  assumes "old \<le> u16_max" "n \<le> u16_max"
  shows "entry_old (pack old n) = word_of_nat old" "entry_new (pack old n) = word_of_nat n"
proof -
  have n: "(word_of_nat n :: 32 word) = ucast (word_of_nat n :: u16)" "(word_of_nat old :: 32 word) = ucast (word_of_nat old :: u16)"
    using assms by (simp_all add: u16_max_def unsigned_of_nat take_bit_eq_mod)
  show "entry_old (pack old n) = word_of_nat old" "entry_new (pack old n) = word_of_nat n"
    unfolding entry_old_def entry_new_def pack_def n
    by (rule bit_word_eqI, auto simp: bit_simps)+
qed

lemma search_index_sound:
  "search_index index r lo hi = Some p \<Longrightarrow> lo \<le> p \<and> p < hi \<and> entry_old (index ! p) = r"
proof (induction index r lo hi rule: search_index.induct)
  case (1 index r lo hi)
  let ?mid = "(lo + hi) div 2"
  have mid: "lo < hi" "lo \<le> ?mid" "?mid < hi"
    using "1.prems" by (auto simp: search_index.simps [of index r lo hi] split: if_splits)
  show ?case
  proof (cases "entry_old (index ! ?mid) = r")
    case True
    then show ?thesis
      using "1.prems" mid by (simp add: search_index.simps [of index r lo hi] Let_def)
  next
    case False
    then show ?thesis
      using "1.IH" [OF mid(1) refl refl] "1.prems" mid
      by (cases "entry_old (index ! ?mid) < r") (fastforce simp: search_index.simps [of index r lo hi] Let_def)+
  qed
qed

lemma search_index_complete:
  assumes "sorted_wrt (\<lambda>a b. entry_old a < entry_old b) index" "lo \<le> p" "p < hi" "hi \<le> length index" "entry_old (index ! p) = r"
  shows "search_index index r lo hi \<noteq> None"
  using assms
proof (induction index r lo hi rule: search_index.induct)
  case (1 index r lo hi)
  let ?mid = "(lo + hi) div 2"
  have mid: "lo \<le> ?mid" "?mid < hi"
    using "1.prems"(2,3) by linarith+
  have lt: "entry_old (index ! a) < entry_old (index ! b)" if "a < b" "b < length index" for a b
    using "1.prems"(1) that by (simp add: sorted_wrt_iff_nth_less)
  consider "entry_old (index ! ?mid) = r" | "entry_old (index ! ?mid) < r" "?mid < p" | "entry_old (index ! ?mid) > r" "p < ?mid"
    using lt [of p ?mid] lt [of ?mid p] "1.prems" mid by (metis linorder_neqE_nat order.strict_trans2 order.asym le_less_trans less_le_trans)
  then show ?case
  proof cases
    case 2
    then have "search_index index r (?mid + 1) hi \<noteq> None"
      using "1.IH"(1) [OF _ refl refl] "1.prems" mid by auto
    then show ?thesis
      using 2 mid by (simp add: search_index.simps [of index r lo hi] Let_def)
  next
    case 3
    then have "search_index index r lo ?mid \<noteq> None"
      using "1.IH"(2) [OF _ refl refl] "1.prems" mid by auto
    then show ?thesis
      using 3 mid order.asym [OF 3(1)] by (auto simp: search_index.simps [of index r lo hi] Let_def)
  qed (use mid in \<open>simp add: search_index.simps [of index r lo hi] Let_def\<close>)
qed

definition moved_to :: "(nat \<times> nat) list \<Rightarrow> reference \<Rightarrow> reference" where
  "moved_to ps r = (case map_of ps (unat r) of None \<Rightarrow> 0 | Some n \<Rightarrow> word_of_nat n)"

lemma relocated_placed:
  assumes "sorted_wrt (<) (map fst ps)" "\<forall>(old, n) \<in> set ps. old \<le> u16_max \<and> n \<le> u16_max"
  shows "relocated r (map (case_prod pack) ps)
    = (if r = 0 then Ok 0 else if unat r \<in> fst ` set ps then Ok (moved_to ps r) else Err JBounds)"
proof -
  let ?index = "map (case_prod pack) ps"
  have entry: "entry_old (?index ! k) = word_of_nat (fst (ps ! k))" "entry_new (?index ! k) = word_of_nat (snd (ps ! k))"
    "fst (ps ! k) \<le> u16_max" if "k < length ps" for k
    using that assms(2) nth_mem [OF that] pack_entry by (cases "ps ! k"; fastforce)+
  have old: "unat (entry_old (?index ! k)) = fst (ps ! k)" if "k < length ps" for k
    using entry [OF that] by (simp add: unat_word_of_nat_u16 u16_max_def)
  have sorted: "sorted_wrt (\<lambda>a b. entry_old a < entry_old b) ?index"
    using assms(1) old by (simp add: sorted_wrt_iff_nth_less word_less_nat_alt)
  have keys: "distinct (map fst ps)"
    using assms(1) strict_sorted_iff by blast
  show ?thesis
  proof (cases "search_index ?index r 0 (length ?index)")
    case None
    then have "unat r \<notin> fst ` set ps"
      using search_index_complete [OF sorted, of 0 _ "length ?index" r] old by (auto simp: in_set_conv_nth word_unat_eq_iff) (metis fst_conv)
    then show ?thesis
      using None by (simp add: relocated_def)
  next
    case (Some p)
    then have p: "p < length ps" "entry_old (?index ! p) = r"
      using search_index_sound by fastforce+
    then have "ps ! p = (unat r, snd (ps ! p))" "ps ! p \<in> set ps"
      using old [OF p(1)] by (auto intro: prod_eqI)
    then have "map_of ps (unat r) = Some (snd (ps ! p))" "unat r \<in> fst ` set ps"
      using keys by (metis map_of_is_SomeI, metis fst_conv image_eqI)
    then show ?thesis
      using Some p entry(2) [OF p(1)] by (simp add: relocated_def moved_to_def)
  qed
qed

section \<open>Rewriting\<close>

lemma slot_word_eq_Ok: "slot_word bs slot = Ok w \<longleftrightarrow> slot + 2 \<le> length bs \<and> w = be16 (bs ! slot) (bs ! (slot + 1))"
  by (auto simp: slot_word_def rbind_eq_Ok slice_of_def)

lemma be16_split: "be16_bytes w = [hi, lo] \<Longrightarrow> be16 hi lo = w"
  using be_value_be_bytes [of "unat w" 2] unat_u16_less [of w] by (simp add: be16_def be16_bytes_def)

lemma be16_bytes_cases: "\<exists>hi lo. be16_bytes w = [hi, lo]"
  by (simp add: be16_bytes_def be_bytes_small)

lemma rewrite_slot_word:
  assumes "slot_word bs slot = Ok w" "relocated w index = Ok v"
  shows "\<exists>bs'. rewrite_slot slot index bs = (Ok (v \<noteq> w), bs') \<and> length bs' = length bs \<and> slot_word bs' slot = Ok v
    \<and> (\<forall>k. k \<noteq> slot \<and> k \<noteq> slot + 1 \<longrightarrow> bs' ! k = bs ! k)"
proof -
  obtain hi lo where b: "be16_bytes v = [hi, lo]"
    using be16_bytes_cases by blast
  have room: "slot + 2 \<le> length bs"
    using assms(1) by (simp add: slot_word_eq_Ok)
  let ?bs = "overwrite bs slot [hi, lo]"
  have o: "length ?bs = length bs" "?bs ! slot = hi" "?bs ! (slot + 1) = lo"
    using room by (auto simp: overwrite_def nth_append nth_Cons' min_def)
  have out: "?bs ! k = bs ! k" if "k \<noteq> slot \<and> k \<noteq> slot + 1" for k
  proof (cases "k < slot")
    case False
    then have "Suc (Suc (k - 2)) = k"
      using that by linarith
    then show ?thesis
      using that False room by (simp add: overwrite_def nth_append nth_Cons' min_def)
  qed (use room in \<open>simp add: overwrite_def nth_append\<close>)
  have "slot_word ?bs slot = Ok v"
    using o room be16_split [OF b] by (simp add: slot_word_eq_Ok)
  then show ?thesis
    using assms b o out by (cases "v = w") (auto simp: rewrite_slot_def)
qed

definition apart :: "nat list \<Rightarrow> bool" where
  "apart ys \<longleftrightarrow> distinct ys \<and> (\<forall>y \<in> set ys. \<forall>z \<in> set ys. y \<noteq> z \<longrightarrow> y + 2 \<le> z \<or> z + 2 \<le> y)"

text \<open>Bytes with the words at some slots replaced by their images.\<close>

definition redirected :: "(u16 \<Rightarrow> u16) \<Rightarrow> nat set \<Rightarrow> bytes \<Rightarrow> bytes \<Rightarrow> bool" where
  "redirected g S bs bs' \<longleftrightarrow> length bs' = length bs
     \<and> (\<forall>k. (\<forall>slot \<in> S. k \<noteq> slot \<and> k \<noteq> slot + 1) \<longrightarrow> bs' ! k = bs ! k)
     \<and> (\<forall>slot \<in> S. \<exists>w. slot_word bs slot = Ok w \<and> slot_word bs' slot = Ok (g w))"

definition clear_of :: "nat set \<Rightarrow> nat set \<Rightarrow> bool" where
  "clear_of S T \<longleftrightarrow> (\<forall>s \<in> S. \<forall>t \<in> T. s + 2 \<le> t \<or> t + 2 \<le> s)"

lemma slot_word_cong:
  "length bs' = length bs \<Longrightarrow> bs' ! slot = bs ! slot \<Longrightarrow> bs' ! (slot + 1) = bs ! (slot + 1) \<Longrightarrow> slot_word bs' slot = slot_word bs slot"
  by (cases "slot_word bs slot"; cases "slot_word bs' slot")
    (auto simp: slot_word_eq_Ok, auto simp: slot_word_def get_range_def split: if_splits)

lemma redirected_same:
  assumes "redirected g S a b" "clear_of S {slot}"
  shows "slot_word b slot = slot_word a slot"
proof (rule slot_word_cong)
  have out: "\<forall>s \<in> S. slot \<noteq> s \<and> slot \<noteq> s + 1" "\<forall>s \<in> S. slot + 1 \<noteq> s \<and> slot + 1 \<noteq> s + 1"
    using assms(2) by (fastforce simp: clear_of_def)+
  show "length b = length a" "b ! slot = a ! slot" "b ! (slot + 1) = a ! (slot + 1)"
    using assms(1) out unfolding redirected_def by blast+
qed

lemma redirected_trans:
  assumes "redirected g S a b" "redirected g T b c" "clear_of S T"
  shows "redirected g (S \<union> T) a c"
proof -
  have words: "\<forall>s \<in> S. \<exists>w. slot_word a s = Ok w \<and> slot_word b s = Ok (g w)" "\<forall>t \<in> T. \<exists>w. slot_word b t = Ok w \<and> slot_word c t = Ok (g w)"
    using assms(1,2) by (simp_all add: redirected_def)
  have "clear_of S {t}" if "t \<in> T" for t
    using assms(3) that by (simp add: clear_of_def)
  then have T: "\<exists>w. slot_word a t = Ok w \<and> slot_word c t = Ok (g w)" if "t \<in> T" for t
    using that bspec [OF words(2) that] redirected_same [OF assms(1), of t] by simp
  have "clear_of T {s}" if "s \<in> S" for s
    using assms(3) that by (fastforce simp: clear_of_def)
  then have S: "\<exists>w. slot_word a s = Ok w \<and> slot_word c s = Ok (g w)" if "s \<in> S" for s
    using that bspec [OF words(1) that] redirected_same [OF assms(2), of s] by simp
  show ?thesis
    using assms(1,2) S T unfolding redirected_def by auto
qed

lemma rewrite_slots_redirect:
  assumes "apart ys" "\<forall>y \<in> set ys. \<exists>w. slot_word bs y = Ok w \<and> relocated w index = Ok (g w)"
  shows "\<exists>bs' writes'. visit_list (rewrite_live_slot index stays) ys (bs, writes) = (Ok (), bs', writes')
    \<and> redirected g (set ys) bs bs'"
  using assms
proof (induction ys arbitrary: bs writes)
  case (Cons y ys)
  obtain w where w: "slot_word bs y = Ok w" "relocated w index = Ok (g w)"
    using Cons.prems(2) by auto
  obtain b1 where b1: "rewrite_slot y index bs = (Ok (g w \<noteq> w), b1)" "redirected g {y} bs b1"
    using rewrite_slot_word [OF w] w(1) by (auto simp: redirected_def)
  have far: "clear_of {y} (set ys)"
    using Cons.prems(1) by (auto simp: apart_def clear_of_def)
  then have "slot_word b1 z = slot_word bs z" if "z \<in> set ys" for z
    using redirected_same [OF b1(2), of z] that by (simp add: clear_of_def)
  then have "apart ys" "\<forall>z \<in> set ys. \<exists>w. slot_word b1 z = Ok w \<and> relocated w index = Ok (g w)"
    using Cons.prems by (auto simp: apart_def)
  from Cons.IH [OF this] obtain b2 w2 where
    b2: "visit_list (rewrite_live_slot index stays) ys (b1, if g w \<noteq> w \<and> stays then pending_heap y 2 writes else writes) = (Ok (), b2, w2)"
    "redirected g (set ys) b1 b2"
    by blast
  have "visit_list (rewrite_live_slot index stays) (y # ys) (bs, writes) = (Ok (), b2, w2)"
    using b1(1) b2(1) by (simp add: sbind_def rewrite_live_slot_def)
  moreover have "redirected g (set (y # ys)) bs b2"
    using redirected_trans [OF b1(2) b2(2) far] by simp
  ultimately show ?case
    by blast
qed (simp add: redirected_def)

text \<open>The objects the rewriting loop handles: their slots are read, mapped and never visited twice.\<close>

definition rewritable :: "api_package list \<Rightarrow> linked \<Rightarrow> bytes \<Rightarrow> entry list \<Rightarrow> (u16 \<Rightarrow> u16) \<Rightarrow> nat \<Rightarrow> bool" where
  "rewritable packages l bs index g x \<longleftrightarrow>
     fst (object_slots packages l (info_header bs x) (x + HEADER)) = Ok ()
     \<and> distinct (snd (object_slots packages l (info_header bs x) (x + HEADER)))
     \<and> (\<forall>slot \<in> set (snd (object_slots packages l (info_header bs x) (x + HEADER))).
          \<exists>w. slot_word bs slot = Ok w \<and> relocated w index = Ok (g w))
     \<and> is_Ok (relocated (word_of_nat x) index)"

lemma slots_apart: "distinct (snd (object_slots packages l i p)) \<Longrightarrow> apart (snd (object_slots packages l i p))"
  by (fastforce simp: apart_def in_payload_def dest!: object_slots_inside)

lemma slots_extent:
  assumes "slot \<in> set (snd (object_slots packages l (info_header bs x) (x + HEADER)))"
  shows "x + HEADER \<le> slot" "slot + 2 \<le> x + extent bs x"
  using object_slots_inside [OF assms] extent_bounds(1) [of bs x] by (auto simp: in_payload_def)

lemma info_header_cong: "(\<And>k. at \<le> k \<Longrightarrow> k < at + 6 \<Longrightarrow> bs' ! k = bs ! k) \<Longrightarrow> info_header bs' at = info_header bs at"
  by (simp add: info_header_def)

definition live_slots :: "api_package list \<Rightarrow> linked \<Rightarrow> bytes \<Rightarrow> (nat \<Rightarrow> bool) \<Rightarrow> nat list \<Rightarrow> nat set" where
  "live_slots packages l bs lv xs = (\<Union>x \<in> {x \<in> set xs. lv x}. set (snd (object_slots packages l (info_header bs x) (x + HEADER))))"

lemma live_slots_simps:
  "live_slots packages l bs lv [] = {}"
  "live_slots packages l bs lv (x # xs) = (if lv x then set (snd (object_slots packages l (info_header bs x) (x + HEADER))) else {}) \<union> live_slots packages l bs lv xs"
  by (auto simp: live_slots_def)

lemma live_slots_bounds:
  assumes "laid_out bs used at xs" "slot \<in> live_slots packages l bs lv xs"
  shows "at + HEADER \<le> slot" "slot + 2 \<le> used"
proof -
  obtain x where x: "x \<in> set xs" "slot \<in> set (snd (object_slots packages l (info_header bs x) (x + HEADER)))"
    using assms(2) by (auto simp: live_slots_def)
  then show "at + HEADER \<le> slot" "slot + 2 \<le> used"
    using slots_extent [OF x(2)] laid_out_bounds [OF assms(1) x(1)] by linarith+
qed

lemma rewrite_live_redirect:
  assumes "laid_out bs used at xs" "slab_ok bs used" "even at" "length cb = used" "\<forall>k. at \<le> k \<and> k < used \<longrightarrow> cb ! k = bs ! k"
    and "\<forall>x \<in> set xs. bit_is_set marked (word_of_nat x) \<longrightarrow> rewritable packages l bs index g x"
  shows "\<exists>cb' writes'. rewrite_live packages l used marked index at (cb, writes) = (Ok (), cb', writes')
    \<and> redirected g (live_slots packages l bs (\<lambda>x. bit_is_set marked (word_of_nat x)) xs) cb cb'"
  using assms
proof (induction xs arbitrary: at cb writes)
  case Nil
  then show ?case
    by (simp add: rewrite_live.simps redirected_def live_slots_simps)
next
  case (Cons x xs)
  note slab = Cons.prems(2) and agree = Cons.prems(5)
  let ?lv = "\<lambda>x. bit_is_set marked (word_of_nat x)"
  let ?fin = "at + extent bs at"
  have x: "x = at" "at < used" "laid_out bs used ?fin xs"
    using Cons.prems(1) by auto
  obtain i where i: "info_read bs used (word_of_nat at) = Ok i"
    using Cons.prems(1) by (auto simp: is_Ok_def)
  have at: "unat (word_of_nat at :: u16) = at"
    using word_of_nat_small [OF slab x(2)] .
  note r = info_read_Ok [OF i, unfolded at]
  have "info_header cb at = info_header bs at"
    using agree r(4) by (intro info_header_cong) auto
  then have ci: "info_read cb used (word_of_nat at) = Ok i"
    using info_read_again [OF i, of cb "word_of_nat at" used] r at Cons.prems(4) by simp
  have fin: "object_end at i = Ok ?fin" "?fin \<le> used" "even ?fin"
    using object_end_extent [OF slab x(2) Cons.prems(3) i] Cons.prems(3) extent_bounds(2) by auto
  have rest: "\<exists>cb' writes'. rewrite_live packages l used marked index ?fin (c1, w1) = (Ok (), cb', writes')
      \<and> redirected g (live_slots packages l bs ?lv xs) c1 cb'"
    if "length c1 = used" "\<forall>k. ?fin \<le> k \<and> k < used \<longrightarrow> c1 ! k = bs ! k" for c1 w1
    using Cons.IH [OF x(3) slab fin(3) that] Cons.prems(6) by auto
  show ?case
  proof (cases "?lv at")
    case False
    then show ?thesis
      using rest [of cb writes] Cons.prems(4) agree ci fin(1) x extent_bounds(3) [of bs at]
      by (auto simp: rewrite_live.simps [of packages l used marked index at] live_slots_simps)
  next
    case True
    let ?ys = "snd (object_slots packages l i (at + HEADER))"
    have good: "rewritable packages l bs index g at"
      using Cons.prems(6) True x(1) by simp
    have inside: "at + HEADER \<le> y \<and> y + 2 \<le> ?fin" if "y \<in> set ?ys" for y
      using slots_extent [of y packages l bs at] that r(1) by simp
    have words: "slot_word cb y = slot_word bs y" if "y \<in> set ?ys" for y
      using inside [OF that] agree fin(2) Cons.prems(4) slab by (intro slot_word_cong) (auto simp: slab_ok_def)
    have "\<forall>y \<in> set ?ys. \<exists>w. slot_word cb y = Ok w \<and> relocated w index = Ok (g w)"
      using good words r(1) by (auto simp: rewritable_def)
    moreover have "apart ?ys" "fst (object_slots packages l i (at + HEADER)) = Ok ()"
      using good r(1) slots_apart by (auto simp: rewritable_def)
    moreover obtain dest where dest: "relocated (word_of_nat at) index = Ok dest"
      using good by (auto simp: rewritable_def is_Ok_def)
    ultimately obtain c1 w1 where c1: "visit_reference_slots packages l i (at + HEADER) (rewrite_live_slot index (unat dest = at)) (cb, writes) = (Ok (), c1, w1)"
      "redirected g (set ?ys) cb c1"
      using rewrite_slots_redirect [of ?ys cb index g "unat dest = at" writes] by (auto simp: object_slots_visit sbind_def)
    have "c1 ! k = cb ! k" if "?fin \<le> k" for k
    proof -
      have "\<forall>y \<in> set ?ys. k \<noteq> y \<and> k \<noteq> y + 1"
        using inside that by fastforce
      then show ?thesis
        using c1(2) unfolding redirected_def by blast
    qed
    then have "\<forall>k. ?fin \<le> k \<and> k < used \<longrightarrow> c1 ! k = bs ! k" "length c1 = used"
      using agree c1(2) Cons.prems(4) extent_bounds(3) [of bs at] by (auto simp: redirected_def)
    then obtain c2 w2 where c2: "rewrite_live packages l used marked index ?fin (c1, w1) = (Ok (), c2, w2)"
      "redirected g (live_slots packages l bs ?lv xs) c1 c2"
      using rest [of c1 w1] by blast
    have "clear_of (set ?ys) (live_slots packages l bs ?lv xs)"
      unfolding clear_of_def using inside live_slots_bounds(1) [OF x(3)] by fastforce
    then have "redirected g (live_slots packages l bs ?lv (x # xs)) cb c2"
      using redirected_trans [OF c1(2) c2(2)] True x(1) r(1) by (simp add: live_slots_simps)
    moreover have "rewrite_live packages l used marked index at (cb, writes) = (Ok (), c2, w2)"
      using True x(2) ci fin(1) dest c1(1) c2(1) by (simp add: rewrite_live.simps [of packages l used marked index at])
    ultimately show ?thesis
      by blast
  qed
qed

lemma rewrite_statics_redirect:
  assumes "apart ats" "\<forall>at \<in> set ats. \<exists>w. slot_word st at = Ok w \<and> relocated w index = Ok (g w)"
  shows "\<exists>st' writes'. rewrite_statics index ats (st, writes) = (Ok (), st', writes') \<and> redirected g (set ats) st st'"
  using assms
proof (induction ats arbitrary: st writes)
  case (Cons at ats)
  obtain w where w: "slot_word st at = Ok w" "relocated w index = Ok (g w)"
    using Cons.prems(2) by auto
  obtain st1 where st1: "rewrite_slot at index st = (Ok (g w \<noteq> w), st1)" "redirected g {at} st st1"
    using rewrite_slot_word [OF w] w(1) by (auto simp: redirected_def)
  have far: "clear_of {at} (set ats)"
    using Cons.prems(1) by (auto simp: apart_def clear_of_def)
  then have "slot_word st1 z = slot_word st z" if "z \<in> set ats" for z
    using redirected_same [OF st1(2), of z] that by (simp add: clear_of_def)
  then have "apart ats" "\<forall>z \<in> set ats. \<exists>w. slot_word st1 z = Ok w \<and> relocated w index = Ok (g w)"
    using Cons.prems by (auto simp: apart_def)
  from Cons.IH [OF this] obtain st2 w2 where
    "rewrite_statics index ats (st1, if g w \<noteq> w then pending_statics at 2 writes else writes) = (Ok (), st2, w2)"
    "redirected g (set ats) st1 st2"
    by blast
  then show ?case
    using st1(1) redirected_trans [OF st1(2) _ far, of st2] by auto
qed (simp add: redirected_def)

section \<open>Moving\<close>

text \<open>Objects in ascending order, each going to the end of the one before it and never upwards.\<close>

fun movable :: "bytes \<Rightarrow> nat \<Rightarrow> nat \<Rightarrow> (nat \<times> nat) list \<Rightarrow> bool" where
  "movable d used new [] \<longleftrightarrow> True"
| "movable d used new ((old, n) # ps) \<longleftrightarrow> n = new \<and> n \<le> old \<and> even old \<and> old + extent d old \<le> used
     \<and> is_Ok (info_read d used (word_of_nat old)) \<and> (\<forall>(o', _) \<in> set ps. old + extent d old \<le> o') \<and> movable d used (new + extent d old) ps"

lemma movable_first: "movable d used new ps \<Longrightarrow> (old, n) \<in> set ps \<Longrightarrow> new \<le> n"
  by (induction d used new ps rule: movable.induct) fastforce+

lemma move_objects_copy:
  assumes "movable d used new ps" "slab_ok d used" "length c = used"
    and "\<forall>(old, _) \<in> set ps. \<forall>k < extent d old. c ! (old + k) = d ! (old + k)"
  shows "\<exists>c' writes'. move_objects used (map (case_prod pack) ps) (c, writes) = (Ok (), c', writes') \<and> length c' = used
    \<and> (\<forall>k < new. c' ! k = c ! k) \<and> (\<forall>(old, n) \<in> set ps. \<forall>k < extent d old. c' ! (n + k) = d ! (old + k))"
  using assms
proof (induction d used new ps arbitrary: c writes rule: movable.induct)
  case (2 d used new old n ps)
  let ?e = "extent d old"
  have m: "n = new" "n \<le> old" "even old" "old + ?e \<le> used" "\<forall>(o', _) \<in> set ps. old + ?e \<le> o'" "movable d used (new + ?e) ps"
    using "2.prems"(1) by auto
  obtain i where i: "info_read d used (word_of_nat old) = Ok i"
    using "2.prems"(1) by (auto simp: is_Ok_def)
  have lt: "old < used"
    using m(4) extent_bounds(3) [of d old] by linarith
  have at: "unat (word_of_nat old :: u16) = old"
    using word_of_nat_small [OF "2.prems"(2) lt] .
  have entry: "entry_old (pack old n) = word_of_nat old" "entry_new (pack old n) = word_of_nat n"
    using pack_entry [of old n] lt m(2) "2.prems"(2) by (simp_all add: slab_ok_def)
  have n: "unat (word_of_nat n :: u16) = n"
    using word_of_nat_small [OF "2.prems"(2), of n] lt m(2) by simp
  have here: "c ! (old + k) = d ! (old + k)" if "k < ?e" for k
    using "2.prems"(4) that by auto
  have "info_header c old = info_header d old"
  proof (rule info_header_cong)
    fix k
    assume "old \<le> k" "k < old + 6"
    then show "c ! k = d ! k"
      using here [of "k - old"] extent_bounds(3) [of d old] by simp
  qed
  then have "info_read c used (word_of_nat old) = Ok i"
    using info_read_again [OF i, of c "word_of_nat old" used] info_read_Ok [OF i] at "2.prems"(3) by simp
  moreover have "object_end old i = Ok (old + ?e)"
    using object_end_extent(1) [OF "2.prems"(2) lt m(3) i] .
  ultimately have step: "move_objects used (map (case_prod pack) ((old, n) # ps)) (c, writes) = move_objects used (map (case_prod pack) ps)
      (if old \<noteq> n then (overwrite c n (slice_of c old (old + ?e)), pending_heap n ?e writes) else (c, writes))"
    using entry at n by simp
  define c1 where "c1 = (if old \<noteq> n then overwrite c n (slice_of c old (old + ?e)) else c)"
  define w1 where "w1 = (if old \<noteq> n then pending_heap n ?e writes else writes)"
  have len: "length (slice_of c old (old + ?e)) = ?e"
    using m(4) "2.prems"(3) by simp
  have c1: "length c1 = used" "\<And>k. k < used \<Longrightarrow> c1 ! k = (if n \<le> k \<and> k < n + ?e then c ! (old + (k - n)) else c ! k)"
    using m(2,4) "2.prems"(3) len by (auto simp: c1_def nth_overwrite nth_slice_of)
  have later: "c1 ! (o' + k) = d ! (o' + k)" if "(o', n') \<in> set ps" "k < extent d o'" for o' n' k
  proof (cases "o' + k < used")
    case True
    have "old + ?e \<le> o'"
      using m(5) that(1) by auto
    then have "c1 ! (o' + k) = c ! (o' + k)"
      using c1(2) [OF True] m(2) by auto
    then show ?thesis
      using "2.prems"(4) that by fastforce
  next
    case False
    then show ?thesis
      using "2.prems"(4) that m(2,4) "2.prems"(3) len unfolding c1_def
      by (fastforce simp: overwrite_def nth_append)
  qed
  have "\<forall>(o', _) \<in> set ps. \<forall>k < extent d o'. c1 ! (o' + k) = d ! (o' + k)"
    using later by blast
  from "2.IH" [OF m(6) "2.prems"(2) c1(1) this, of w1] obtain c2 w2 where
    c2: "move_objects used (map (case_prod pack) ps) (c1, w1) = (Ok (), c2, w2)" "length c2 = used" "\<forall>k < new + ?e. c2 ! k = c1 ! k"
    "\<forall>(o', n') \<in> set ps. \<forall>k < extent d o'. c2 ! (n' + k) = d ! (o' + k)"
    by blast
  have "c2 ! (n + k) = d ! (old + k)" if "k < ?e" for k
    using c2(3) c1(2) [of "n + k"] that m(1,2,4) here [OF that] by simp
  moreover have "c2 ! k = c ! k" if "k < new" for k
    using c2(3) c1(2) [of k] that m(1,2) lt by simp
  moreover have "move_objects used (map (case_prod pack) ((old, n) # ps)) (c, writes) = (Ok (), c2, w2)"
    unfolding step using c2(1) by (cases "old = n") (simp_all add: c1_def w1_def)
  ultimately show ?case
    using c2(2,4) by auto
qed simp

end
