(* ===== verification/Collection.thy ===== *)
theory Collection
  imports Collector_Correct
begin

text \<open>
  Object deletion as a whole (\<open>applet/gc.rs\<close>): the slab that compaction leaves holds the reachable
  objects of the old one, renamed and nothing else, whichever of the two paths of
  \<open>collect_unreachable\<close> runs, and a run that fails leaves the applet alone as long as no class layout
  overlaps another. The sample at the end shows that this last condition is needed.
\<close>

section \<open>The slab after a collection\<close>

text \<open>The starts of the objects from an offset on.\<close>

function heap_row :: "bytes \<Rightarrow> nat \<Rightarrow> nat \<Rightarrow> nat list" where
  "heap_row bs used at = (if at < used then at # heap_row bs used (at + extent bs at) else [])"
  by pat_completeness auto
termination heap_row
  by (relation "measure (\<lambda>(_, used, at). used - at)") (auto simp: extent_def next_even_def)

declare heap_row.simps [simp del]

lemma laid_out_heap_row: "laid_out bs used at xs \<Longrightarrow> heap_row bs used at = xs"
  by (induction xs arbitrary: at) (simp_all add: heap_row.simps)

text \<open>An object of one slab found again in another, with its references mapped.\<close>

definition moved_object :: "api_package list \<Rightarrow> linked \<Rightarrow> (reference \<Rightarrow> reference) \<Rightarrow> bytes \<Rightarrow> bytes \<Rightarrow> reference \<Rightarrow> bool" where
  "moved_object packages l g bs bs' r \<longleftrightarrow>
     info_header bs' (unat (g r)) = info_header bs (unat r)
     \<and> (\<forall>k < payload_size (info_header bs (unat r)).
          (\<forall>slot \<in> set (slots_at packages l bs r). unat r + HEADER + k \<noteq> slot \<and> unat r + HEADER + k \<noteq> slot + 1) \<longrightarrow>
          bs' ! (unat (g r) + HEADER + k) = bs ! (unat r + HEADER + k))
     \<and> (\<forall>slot \<in> set (slots_at packages l bs r). \<exists>w. slot_word bs slot = Ok w
          \<and> slot_word bs' (unat (g r) + (slot - unat r)) = Ok (g w))"

lemma laid_out_apart:
  assumes "laid_out bs used at xs" "x \<in> set xs" "y \<in> set xs" "x < y"
  shows "x + extent bs x \<le> y"
  using assms
proof (induction xs arbitrary: at)
  case (Cons z zs)
  have "x \<noteq> z \<Longrightarrow> at + extent bs at \<le> x"
    using laid_out_bounds [of bs used "at + extent bs at" zs x] Cons.prems by auto
  then have "y \<in> set zs"
    using Cons.prems by auto
  then show ?case
    using Cons laid_out_bounds [of bs used "at + extent bs at" zs y] by auto
qed simp

lemma redirected_elsewhere:
  assumes "redirected g (live_slots packages l bs lv xs) bs d" "laid_out bs used at xs" "x \<in> set xs" "x \<le> k" "k < x + extent bs x"
    and "lv x \<Longrightarrow> \<forall>slot \<in> set (snd (object_slots packages l (info_header bs x) (x + HEADER))). k \<noteq> slot \<and> k \<noteq> slot + 1"
  shows "d ! k = bs ! k"
proof -
  have "k \<noteq> slot \<and> k \<noteq> slot + 1" if slot: "slot \<in> live_slots packages l bs lv xs" for slot
  proof -
    obtain y where y: "y \<in> set xs" "lv y" "slot \<in> set (snd (object_slots packages l (info_header bs y) (y + HEADER)))"
      using slot by (auto simp: live_slots_def)
    note s = slots_extent [OF y(3)]
    show ?thesis
    proof (cases x y rule: linorder_cases)
      case less
      then show ?thesis
        using laid_out_apart [OF assms(2,3) y(1)] s assms(5) by auto
    next
      case equal
      then show ?thesis
        using y assms(6) by simp
    next
      case greater
      then show ?thesis
        using laid_out_apart [OF assms(2) y(1) assms(3)] s assms(4) by auto
    qed
  qed
  then show ?thesis
    using assms(1) by (simp add: redirected_def)
qed

lemma redirected_header:
  assumes "redirected g (live_slots packages l bs lv xs) bs d" "laid_out bs used at xs" "x \<in> set xs"
  shows "info_header d x = info_header bs x" "extent d x = extent bs x"
proof -
  show "info_header d x = info_header bs x"
  proof (rule info_header_cong)
    fix k
    assume k: "x \<le> k" "k < x + 6"
    have "k \<noteq> slot \<and> k \<noteq> slot + 1" if "slot \<in> set (snd (object_slots packages l (info_header bs x) (x + HEADER)))" for slot
      using slots_extent(1) [OF that] k by auto
    then show "d ! k = bs ! k"
      using redirected_elsewhere [OF assms k(1)] k(2) extent_bounds(3) [of bs x] by simp
  qed
  then show "extent d x = extent bs x"
    by (simp add: extent_def)
qed

lemma row_of_placed:
  assumes "\<forall>(old, n) \<in> set (placed sz lv at xs). extent b n = sz old \<and> 0 < sz old"
  shows "heap_row b (at + kept_size sz lv xs) at = map snd (placed sz lv at xs)"
  using assms
proof (induction sz lv at xs rule: placed.induct)
  case (2 sz lv new x xs)
  show ?case
  proof (cases "lv x")
    case True
    then show ?thesis
      using 2 by (auto simp: heap_row.simps [of b "new + (sz x + kept_size sz lv xs)" new] add.assoc)
  next
    case False
    then show ?thesis
      using 2 by simp
  qed
qed (simp add: heap_row.simps)

lemma movable_placed:
  assumes "laid_out bs used at xs" "slab_ok bs used" "even at" "new \<le> at"
    and "\<forall>x \<in> set xs. extent d x = extent bs x \<and> is_Ok (info_read d used (word_of_nat x))"
  shows "movable d used new (placed (extent bs) lv new xs)"
  using assms
proof (induction xs arbitrary: at new)
  case (Cons x xs)
  have x: "x = at" "laid_out bs used (at + extent bs at) xs" "even (at + extent bs at)"
    using Cons.prems(1,3) extent_bounds(2) by auto
  have fin: "x + extent bs x \<le> used"
    using laid_out_bounds [OF Cons.prems(1), of x] by simp
  have later: "\<forall>(o', n') \<in> set (placed (extent bs) lv k xs). at + extent bs at \<le> o'" for k
  proof -
    have "fst ` set (placed (extent bs) lv k xs) \<subseteq> set xs"
      using placed_fst [of "extent bs" lv k xs] by (metis filter_is_subset set_map)
    then show ?thesis
      using laid_out_bounds [OF x(2)] by fastforce
  qed
  show ?case
    using Cons.IH [OF x(2) Cons.prems(2) x(3), of new] Cons.IH [OF x(2) Cons.prems(2) x(3), of "new + extent bs at"]
      Cons.prems(3,4,5) x fin later by auto
qed simp

text \<open>The placed copies of the redirected objects form the slab after the collection.\<close>

lemma moved_object_copy:
  assumes "redirected g (live_slots packages l bs lv xs) bs d" "laid_out bs used at xs" "slab_ok bs used" "x \<in> set xs" "lv x"
    and "\<forall>k < extent bs x. c ! (n + k) = d ! (x + k)" "n + extent bs x \<le> length c" "g (word_of_nat x) = word_of_nat n" "n \<le> x"
  shows "moved_object packages l g bs c (word_of_nat x)"
proof -
  have at: "unat (word_of_nat x :: u16) = x" "unat (word_of_nat n :: u16) = n"
    using laid_out_bounds [OF assms(2,4)] word_of_nat_small [OF assms(3)] assms(9) by auto
  let ?ys = "snd (object_slots packages l (info_header bs x) (x + HEADER))"
  have copy: "c ! (n + k) = d ! (x + k)" if "k < extent bs x" for k
    using assms(6) that by simp
  have "info_header c n = info_header d x"
    using copy [of 0] copy [of 1] copy [of 2] copy [of 3] copy [of 4] copy [of 5] extent_bounds(3) [of bs x] by (simp add: info_header_def)
  then have header: "info_header c n = info_header bs x"
    using redirected_header(1) [OF assms(1,2,4)] by simp
  have payload: "c ! (n + HEADER + k) = bs ! (x + HEADER + k)"
    if "k < payload_size (info_header bs x)" "\<forall>slot \<in> set ?ys. x + HEADER + k \<noteq> slot \<and> x + HEADER + k \<noteq> slot + 1" for k
    using copy [of "HEADER + k"] redirected_elsewhere [OF assms(1,2,4), of "x + HEADER + k"] that extent_bounds(1) [of bs x]
    by (simp add: add.assoc)
  have slots: "\<exists>w. slot_word bs slot = Ok w \<and> slot_word c (n + (slot - x)) = Ok (g w)" if "slot \<in> set ?ys" for slot
  proof -
    have in_slab: "slot \<in> live_slots packages l bs lv xs"
      using assms(4,5) that by (auto simp: live_slots_def)
    then obtain w where w: "slot_word bs slot = Ok w" "slot_word d slot = Ok (g w)"
      using assms(1) by (auto simp: redirected_def)
    note s = slots_extent [OF that]
    have "c ! (n + (slot - x)) = d ! slot" "c ! (n + (slot - x) + 1) = d ! (slot + 1)"
      using copy [of "slot - x"] copy [of "slot - x + 1"] s by (auto simp: algebra_simps)
    then have "slot_word c (n + (slot - x)) = Ok (g w)"
      using w(2) s assms(7) by (simp add: slot_word_eq_Ok)
    then show ?thesis
      using w(1) by blast
  qed
  show ?thesis
    unfolding moved_object_def slots_at_def at assms(8) using header payload slots by blast
qed

lemma graph_moved:
  fixes lv :: "nat \<Rightarrow> bool"
  assumes "redirected g (live_slots packages l bs lv xs) bs d" "laid_out bs used 2 xs" "slab_ok bs used" "length c = used"
    and "\<forall>(old, n) \<in> set (placed (extent bs) lv 2 xs). (\<forall>k < extent bs old. c ! (n + k) = d ! (old + k)) \<and> g (word_of_nat old) = word_of_nat n"
    and "new = 2 + kept_size (extent bs) lv xs"
  shows "\<forall>x \<in> set xs. lv x \<longrightarrow> moved_object packages l g bs (take new c) (word_of_nat x)"
    and "heap_row (take new c) new 2 = map (\<lambda>x. unat (g (word_of_nat x))) (filter lv xs)"
proof -
  have order: "sorted_wrt (\<lambda>x y. x + extent bs x \<le> y) xs" "\<forall>x \<in> set xs. 2 \<le> x"
    using laid_out_sorted [OF assms(2)] laid_out_bounds [OF assms(2)] by auto
  note place = placed_bounds [OF order, of _ _ lv, folded assms(6)]
  have moved: "moved_object packages l g bs (take new c) (word_of_nat old) \<and> extent (take new c) n = extent bs old \<and> unat (g (word_of_nat old)) = n"
    if p: "(old, n) \<in> set (placed (extent bs) lv 2 xs)" for old n
  proof -
    have b: "n \<le> old" "old \<in> set xs" "lv old" "n + extent bs old \<le> new"
      using place [OF p] by auto
    have used: "old + extent bs old \<le> used" "old < used"
      using laid_out_bounds [OF assms(2) b(2)] by auto
    have copies: "\<forall>k < extent bs old. c ! (n + k) = d ! (old + k)" "g (word_of_nat old) = word_of_nat n"
      using assms(5) p by auto
    have m: "moved_object packages l g bs (take new c) (word_of_nat old)"
      by (rule moved_object_copy [where n = n, OF assms(1,2,3) b(2,3)]) (use copies b used assms(4) in auto)
    have "unat (word_of_nat n :: u16) = n" "unat (word_of_nat old :: u16) = old"
      using word_of_nat_small [OF assms(3)] used b(1) by auto
    then show ?thesis
      using m copies(2) by (simp add: moved_object_def extent_def)
  qed
  show "\<forall>x \<in> set xs. lv x \<longrightarrow> moved_object packages l g bs (take new c) (word_of_nat x)"
  proof (intro ballI impI)
    fix x
    assume "x \<in> set xs" "lv x"
    then have "x \<in> set (map fst (placed (extent bs) lv 2 xs))"
      by (simp add: placed_fst)
    then show "moved_object packages l g bs (take new c) (word_of_nat x)"
      using moved by fastforce
  qed
  have "heap_row (take new c) new 2 = map snd (placed (extent bs) lv 2 xs)"
    unfolding assms(6) by (rule row_of_placed) (use moved extent_bounds(3) [of bs] assms(6) in \<open>fastforce simp: extent_def next_even_def\<close>)
  also have "\<dots> = map (\<lambda>x. unat (g (word_of_nat x))) (map fst (placed (extent bs) lv 2 xs))"
    using moved by (force intro: map_cong)
  finally show "heap_row (take new c) new 2 = map (\<lambda>x. unat (g (word_of_nat x))) (filter lv xs)"
    by (simp only: placed_fst)
qed

text \<open>The slab in use, the offsets of the references of the static area, and the objects an applet reaches.\<close>

definition used_slab :: "applet \<Rightarrow> bytes" where
  "used_slab s = take (ai_heap_used s) (ai_heap s)"

definition used_row :: "applet \<Rightarrow> nat list" where
  "used_row s = heap_row (used_slab s) (ai_heap_used s) 2"

definition static_count :: "load_file \<Rightarrow> nat" where
  "static_count f = (case file_static_fields f of Ok sf \<Rightarrow> unat (sf_reference_count sf) | Err _ \<Rightarrow> 0)"

definition static_slots :: "load_file \<Rightarrow> nat list" where
  "static_slots f = map (\<lambda>k. 2 * k) [0..<static_count f]"

definition live_objects :: "api_package list \<Rightarrow> linked \<Rightarrow> load_file \<Rightarrow> applet \<Rightarrow> reference set" where
  "live_objects packages l f s = live packages l (used_slab s) (roots s (used_row s) (static_count f))"

text \<open>
  The state after a collection under a renaming of references: every reachable object is there under its
  new name with its header, its data and its renamed references, the slab holds nothing else, the roots
  are renamed, the freed bytes are zero, and only the fields listed change.
\<close>

definition collected :: "api_package list \<Rightarrow> linked \<Rightarrow> load_file \<Rightarrow> (reference \<Rightarrow> reference) \<Rightarrow> applet \<Rightarrow> applet \<Rightarrow> bool" where
  "collected packages l f g s s' \<longleftrightarrow> g 0 = 0
     \<and> (\<forall>r \<in> live_objects packages l f s. moved_object packages l g (used_slab s) (used_slab s') r)
     \<and> used_row s' = map (\<lambda>x. unat (g (word_of_nat x))) (filter (\<lambda>x. word_of_nat x \<in> live_objects packages l f s) (used_row s))
     \<and> redirected g (set (static_slots f)) (ai_statics s) (ai_statics s')
     \<and> ai_instance s' = map_option g (ai_instance s) \<and> ai_apdu s' = g (ai_apdu s) \<and> ai_buffer s' = g (ai_buffer s)
     \<and> ai_heap_used s' < ai_heap_used s
     \<and> ai_heap s' = used_slab s' @ replicate (ai_heap_used s - ai_heap_used s') 0 @ drop (ai_heap_used s) (ai_heap s)
     \<and> s' = s\<lparr>ai_heap := ai_heap s', ai_heap_used := ai_heap_used s', ai_statics := ai_statics s',
         ai_words := replicate (length (ai_words s)) 0, ai_tags := replicate (length (ai_tags s)) 0, ai_apdu := ai_apdu s',
         ai_buffer := ai_buffer s', ai_instance := ai_instance s', ai_pending_writes := ai_pending_writes s'\<rparr>"

lemma laid_out_kept: "laid_out bs used at xs \<Longrightarrow> at + kept_size (extent bs) lv xs \<le> used"
proof (induction xs arbitrary: at)
  case (Cons x xs)
  then have "at + extent bs at + kept_size (extent bs) lv xs \<le> used"
    by simp
  then show ?case
    using Cons.prems by simp
qed simp

lemma collectedI:
  assumes "redirected g (live_slots packages l (used_slab s) lv xs) (used_slab s) d" "laid_out (used_slab s) (ai_heap_used s) 2 xs"
    "slab_ok (used_slab s) (ai_heap_used s)" "length c = ai_heap_used s"
    and "\<forall>(old, n) \<in> set (placed (extent (used_slab s)) lv 2 xs).
      (\<forall>k < extent (used_slab s) old. c ! (n + k) = d ! (old + k)) \<and> g (word_of_nat old) = word_of_nat n"
    and "new = 2 + kept_size (extent (used_slab s)) lv xs" "new \<noteq> ai_heap_used s" "g 0 = 0"
    and "\<forall>x \<in> set xs. lv x \<longleftrightarrow> word_of_nat x \<in> live_objects packages l f s" "live_objects packages l f s \<subseteq> word_of_nat ` set xs"
    and "redirected g (set (static_slots f)) (ai_statics s) st" "object = map_option g (ai_instance s)" "apdu = g (ai_apdu s)" "buffer = g (ai_buffer s)"
    and s': "s' = clear_frames ((with_slab (take new c @ replicate (ai_heap_used s - new) 0) s)
      \<lparr>ai_statics := st, ai_heap_used := new, ai_instance := object, ai_apdu := apdu, ai_buffer := buffer, ai_pending_writes := writes\<rparr>)"
  shows "collected packages l f g s s'"
proof -
  note graph = graph_moved [OF assms(1-6)]
  have new: "new < ai_heap_used s"
    using laid_out_kept [OF assms(2), of lv] assms(6,7) by simp
  have slab: "used_slab s' = take new c"
    using new assms(4) by (simp add: s' used_slab_def clear_frames_def with_slab_def)
  have rows: "used_row s = xs" "used_row s' = heap_row (take new c) new 2"
    using laid_out_heap_row [OF assms(2)] slab by (simp_all add: used_row_def s' clear_frames_def)
  have "filter lv xs = filter (\<lambda>x. word_of_nat x \<in> live_objects packages l f s) xs"
    using assms(9) by (intro filter_cong) auto
  then have row: "used_row s' = map (\<lambda>x. unat (g (word_of_nat x))) (filter (\<lambda>x. word_of_nat x \<in> live_objects packages l f s) (used_row s))"
    using graph(2) rows by simp
  have "\<forall>r \<in> live_objects packages l f s. moved_object packages l g (used_slab s) (used_slab s') r"
    using graph(1) assms(9,10) slab by fastforce
  then show ?thesis
    unfolding collected_def
    using assms(8,11,12,13,14) new row slab by (simp add: s' clear_frames_def with_slab_def)
qed

section \<open>Compacting\<close>

text \<open>The renaming that an index describes.\<close>

definition renamed :: "(nat \<times> nat) list \<Rightarrow> reference \<Rightarrow> reference" where
  "renamed ps r = (if r = 0 then 0 else moved_to ps r)"

text \<open>What the marking phase leaves: the row, the marks of the reachable objects, and scannable objects.\<close>

definition marked_exactly :: "api_package list \<Rightarrow> linked \<Rightarrow> load_file \<Rightarrow> applet \<Rightarrow> bytes \<Rightarrow> nat list \<Rightarrow> bool" where
  "marked_exactly packages l f s marked xs \<longleftrightarrow> laid_out (used_slab s) (ai_heap_used s) 2 xs \<and> slab_ok (used_slab s) (ai_heap_used s)
     \<and> marked_set marked = live_objects packages l f s \<and> live_objects packages l f s \<subseteq> word_of_nat ` set xs
     \<and> (\<forall>r \<in> live_objects packages l f s. scanned packages l (used_slab s) (ai_heap_used s) (live_objects packages l f s) r)
     \<and> 2 * static_count f \<le> length (ai_statics s)"

lemma marked_exactlyI:
  assumes "mark_live alloc packages l f s = Ok (count, marked)" "slab_ok (used_slab s) (ai_heap_used s)"
  shows "marked_exactly packages l f s marked (used_row s)" "count = static_count f"
proof -
  obtain xs sf where m: "laid_out (used_slab s) (ai_heap_used s) 2 xs" "marked_set marked = live packages l (used_slab s) (roots s xs count)"
    "marked_set marked \<subseteq> word_of_nat ` set xs" "\<forall>r \<in> marked_set marked. scanned packages l (used_slab s) (ai_heap_used s) (marked_set marked) r"
    "2 * count \<le> length (ai_statics s)" "file_static_fields f = Ok sf" "count = unat (sf_reference_count sf)"
    using mark_live_exact [OF assms(1,2)] unfolding used_slab_def by blast
  show c: "count = static_count f"
    using m(6,7) by (simp add: static_count_def)
  have row: "used_row s = xs"
    using laid_out_heap_row [OF m(1)] by (simp add: used_row_def)
  have "live_objects packages l f s = marked_set marked"
    unfolding live_objects_def row using m(2) c by simp
  then show "marked_exactly packages l f s marked (used_row s)"
    unfolding marked_exactly_def row using m assms(2) c by simp
qed

lemma marked_bit:
  assumes "marked_exactly packages l f s marked xs" "x \<in> set xs"
  shows "bit_is_set marked (word_of_nat x) \<longleftrightarrow> word_of_nat x \<in> live_objects packages l f s"
    and "unat (word_of_nat x :: u16) = x" "2 \<le> x" "even x"
proof -
  have x: "2 \<le> x" "even x" "x < ai_heap_used s"
    using laid_out_bounds [OF _ assms(2)] assms(1) by (auto simp: marked_exactly_def)
  then show at: "unat (word_of_nat x :: u16) = x" "2 \<le> x" "even x"
    using word_of_nat_small assms(1) by (auto simp: marked_exactly_def)
  show "bit_is_set marked (word_of_nat x) \<longleftrightarrow> word_of_nat x \<in> live_objects packages l f s"
    using assms(1) at by (auto simp: marked_exactly_def marked_set_def)
qed

abbreviation kept_pairs :: "bytes \<Rightarrow> bytes \<Rightarrow> nat list \<Rightarrow> (nat \<times> nat) list" where
  "kept_pairs bs marked xs \<equiv> placed (extent bs) (\<lambda>x. bit_is_set marked (word_of_nat x)) 2 xs"

lemma kept_pairs_facts:
  assumes m: "marked_exactly packages l f s marked xs" and ps: "ps = kept_pairs (used_slab s) marked xs"
  shows "map fst ps = filter (\<lambda>x. bit_is_set marked (word_of_nat x)) xs" "sorted_wrt (<) (map fst ps)"
    and "\<forall>(old, n) \<in> set ps. old \<in> set xs \<and> bit_is_set marked (word_of_nat old) \<and> n \<le> old \<and> 2 \<le> old \<and> old \<le> u16_max \<and> n \<le> u16_max"
proof -
  let ?bs = "used_slab s" and ?lv = "\<lambda>x. bit_is_set marked (word_of_nat x)"
  have row: "laid_out ?bs (ai_heap_used s) 2 xs" "slab_ok ?bs (ai_heap_used s)"
    using m by (auto simp: marked_exactly_def)
  have order: "sorted_wrt (\<lambda>x y. x + extent ?bs x \<le> y) xs" "\<forall>x \<in> set xs. 2 \<le> x"
    using laid_out_sorted [OF row(1)] laid_out_bounds [OF row(1)] by auto
  show fst: "map fst ps = filter ?lv xs"
    unfolding ps by (rule placed_fst)
  have "x < y" if "x + extent ?bs x \<le> y" for x y
    using that extent_bounds(3) [of ?bs x] by linarith
  then have "sorted_wrt (<) xs"
    using sorted_wrt_mono_rel [OF _ order(1)] by blast
  then show "sorted_wrt (<) (map fst ps)"
    unfolding fst by (rule sorted_wrt_filter)
  show "\<forall>(old, n) \<in> set ps. old \<in> set xs \<and> ?lv old \<and> n \<le> old \<and> 2 \<le> old \<and> old \<le> u16_max \<and> n \<le> u16_max"
  proof (intro ballI, clarify)
    fix old n
    assume "(old, n) \<in> set ps"
    note b = placed_bounds [OF order this [unfolded ps]]
    then have "old < ai_heap_used s" "ai_heap_used s \<le> u16_max"
      using laid_out_bounds [OF row(1), of old] row(2) by (auto simp: slab_ok_def)
    then show "old \<in> set xs \<and> ?lv old \<and> n \<le> old \<and> 2 \<le> old \<and> old \<le> u16_max \<and> n \<le> u16_max"
      using b by simp
  qed
qed

lemma relocated_live:
  assumes m: "marked_exactly packages l f s marked xs" and ps: "ps = kept_pairs (used_slab s) marked xs"
  shows "w \<in> insert 0 (live_objects packages l f s) \<Longrightarrow> relocated w (map (case_prod pack) ps) = Ok (renamed ps w)"
    and "relocated w (map (case_prod pack) ps) = Ok v \<Longrightarrow> v = renamed ps w"
    and "(old, n) \<in> set ps \<Longrightarrow> renamed ps (word_of_nat old) = word_of_nat n"
proof -
  note k = kept_pairs_facts [OF m ps]
  have r: "relocated w (map (case_prod pack) ps) = (if w = 0 then Ok 0 else if unat w \<in> fst ` set ps then Ok (moved_to ps w) else Err JBounds)" for w
    by (rule relocated_placed [OF k(2)]) (use k(3) in auto)
  have "unat w \<in> fst ` set ps" if w: "w \<in> live_objects packages l f s"
  proof -
    obtain x where x: "x \<in> set xs" "w = word_of_nat x"
      using w m by (auto simp: marked_exactly_def)
    then have "x \<in> set (map fst ps)"
      using marked_bit [OF m x(1)] w k(1) by simp
    then show ?thesis
      using marked_bit(2) [OF m x(1)] x(2) by simp
  qed
  then show "w \<in> insert 0 (live_objects packages l f s) \<Longrightarrow> relocated w (map (case_prod pack) ps) = Ok (renamed ps w)"
    using r by (auto simp: renamed_def)
  show "relocated w (map (case_prod pack) ps) = Ok v \<Longrightarrow> v = renamed ps w"
    using r by (auto simp: renamed_def split: if_splits)
  show "renamed ps (word_of_nat old) = word_of_nat n" if p: "(old, n) \<in> set ps"
  proof -
    have old: "old \<in> set xs" "2 \<le> old"
      using k(3) p by auto
    note at = marked_bit(2) [OF m old(1)]
    have "distinct (map fst ps)"
      using k(2) strict_sorted_iff by blast
    then have "map_of ps old = Some n"
      using p by simp
    then show ?thesis
      using at old(2) by (auto simp: renamed_def moved_to_def dest: arg_cong [where f = unat])
  qed
qed

lemma scanned_rewritable:
  assumes m: "marked_exactly packages l f s marked xs" and ps: "ps = kept_pairs (used_slab s) marked xs"
    and "\<forall>r \<in> live_objects packages l f s. distinct (slots_at packages l (used_slab s) r)" "x \<in> set xs" "bit_is_set marked (word_of_nat x)"
  shows "rewritable packages l (used_slab s) (map (case_prod pack) ps) (renamed ps) x"
proof -
  note at = marked_bit(2) [OF m assms(4)]
  have live: "word_of_nat x \<in> live_objects packages l f s"
    using marked_bit(1) [OF m assms(4)] assms(5) by simp
  have slots: "slots_at packages l (used_slab s) (word_of_nat x) = snd (object_slots packages l (info_header (used_slab s) x) (x + HEADER))"
    by (simp add: slots_at_def at)
  have sc: "scanned packages l (used_slab s) (ai_heap_used s) (live_objects packages l f s) (word_of_nat x)"
    using m live by (simp add: marked_exactly_def)
  have "\<exists>w. slot_word (used_slab s) slot = Ok w \<and> relocated w (map (case_prod pack) ps) = Ok (renamed ps w)"
    if slot: "slot \<in> set (slots_at packages l (used_slab s) (word_of_nat x))" for slot
  proof -
    obtain w where w: "slot_word (used_slab s) slot = Ok w"
      using sc slot by (auto simp: scanned_def is_Ok_def)
    then have "w \<in> insert 0 (live_objects packages l f s)"
      using sc slot by (auto simp: scanned_def slot_words_def)
    then show ?thesis
      using w relocated_live(1) [OF m ps] by blast
  qed
  moreover have "is_Ok (relocated (word_of_nat x) (map (case_prod pack) ps))"
    using relocated_live(1) [OF m ps, of "word_of_nat x"] live by (simp add: is_Ok_def)
  ultimately show ?thesis
    using sc assms(3) live unfolding rewritable_def slots [symmetric] by (auto simp: scanned_def at)
qed

lemma redirected_movable:
  assumes m: "marked_exactly packages l f s marked xs"
    and "redirected g (live_slots packages l (used_slab s) lv xs) (used_slab s) d"
  shows "movable d (ai_heap_used s) 2 (kept_pairs (used_slab s) marked xs)" "\<forall>x \<in> set xs. extent d x = extent (used_slab s) x"
proof -
  let ?bs = "used_slab s" and ?used = "ai_heap_used s"
  have row: "laid_out ?bs ?used 2 xs" "slab_ok ?bs ?used"
    using m by (auto simp: marked_exactly_def)
  note header = redirected_header [OF assms(2) row(1)]
  then show ext: "\<forall>x \<in> set xs. extent d x = extent ?bs x"
    by blast
  have "is_Ok (info_read d ?used (word_of_nat x))" if x: "x \<in> set xs" for x
  proof -
    obtain i where i: "info_read ?bs ?used (word_of_nat x) = Ok i"
      using laid_out_bounds [OF row(1) x] by (auto simp: is_Ok_def)
    have "length d = ?used"
      using assms(2) row(2) by (simp add: redirected_def slab_ok_def)
    then show ?thesis
      using info_read_again [OF i, of d "word_of_nat x" ?used] info_read_Ok [OF i] header(1) [OF x] marked_bit(2) [OF m x] by (simp add: is_Ok_def)
  qed
  then show "movable d ?used 2 (kept_pairs ?bs marked xs)"
    using movable_placed [OF row] ext by simp
qed

lemma static_slots_redirect:
  assumes m: "marked_exactly packages l f s marked xs" and ps: "ps = kept_pairs (used_slab s) marked xs"
  shows "apart (static_slots f)"
    and "\<forall>at \<in> set (static_slots f). \<exists>w. slot_word (ai_statics s) at = Ok w \<and> w \<in> insert 0 (live_objects packages l f s)
      \<and> relocated w (map (case_prod pack) ps) = Ok (renamed ps w)"
proof -
  show "apart (static_slots f)"
    by (auto simp: apart_def static_slots_def distinct_map inj_on_def)
  show "\<forall>at \<in> set (static_slots f). \<exists>w. slot_word (ai_statics s) at = Ok w \<and> w \<in> insert 0 (live_objects packages l f s)
      \<and> relocated w (map (case_prod pack) ps) = Ok (renamed ps w)"
  proof
    fix at
    assume "at \<in> set (static_slots f)"
    then obtain k where k: "at = 2 * k" "k < static_count f"
      by (auto simp: static_slots_def)
    let ?w = "be16 (ai_statics s ! (2 * k)) (ai_statics s ! (2 * k + 1))"
    have w: "slot_word (ai_statics s) at = Ok ?w"
      using m k by (auto simp: slot_word_eq_Ok marked_exactly_def)
    have "?w \<in> set (static_words (static_count f) (ai_statics s))"
      using k(2) by (auto simp: static_words_def)
    then have "?w \<in> insert 0 (live_objects packages l f s)"
      by (auto simp: live_objects_def roots_def intro: live.root)
    then show "\<exists>w. slot_word (ai_statics s) at = Ok w \<and> w \<in> insert 0 (live_objects packages l f s)
        \<and> relocated w (map (case_prod pack) ps) = Ok (renamed ps w)"
      using w relocated_live(1) [OF m ps] by blast
  qed
qed

lemma compact_collects:
  assumes m: "marked_exactly packages l f s marked xs" and ps: "ps = kept_pairs (used_slab s) marked xs"
    and distinct: "\<forall>r \<in> live_objects packages l f s. distinct (slots_at packages l (used_slab s) r)"
    and new: "new = 2 + kept_size (extent (used_slab s)) (\<lambda>x. bit_is_set marked (word_of_nat x)) xs" "new \<noteq> ai_heap_used s"
    and plan: "plan_roots (map (case_prod pack) ps) s = Ok plan"
  shows "\<exists>s'. compact packages l (static_count f) marked (map (case_prod pack) ps) new plan s = (Ok True, s')
    \<and> collected packages l f (renamed ps) s s'"
proof -
  let ?bs = "used_slab s" and ?used = "ai_heap_used s" and ?index = "map (case_prod pack) ps" and ?lv = "\<lambda>x. bit_is_set marked (word_of_nat x)"
  have row: "laid_out ?bs ?used 2 xs" "slab_ok ?bs ?used" "length ?bs = ?used"
    using m by (auto simp: marked_exactly_def slab_ok_def)
  have "\<forall>x \<in> set xs. ?lv x \<longrightarrow> rewritable packages l ?bs ?index (renamed ps) x"
    using scanned_rewritable [OF m ps distinct] by simp
  then obtain d w1 where d: "rewrite_live packages l ?used marked ?index 2 (?bs, ai_pending_writes s) = (Ok (), d, w1)"
    "redirected (renamed ps) (live_slots packages l ?bs ?lv xs) ?bs d"
    using rewrite_live_redirect [OF row(1,2) _ row(3), of marked packages l ?index "renamed ps" "ai_pending_writes s"] by auto
  note st = static_slots_redirect [OF m ps]
  have "\<forall>at \<in> set (static_slots f). \<exists>w. slot_word (ai_statics s) at = Ok w \<and> relocated w ?index = Ok (renamed ps w)"
    using st(2) by fast
  then obtain st' w2 where st': "rewrite_statics ?index (static_slots f) (ai_statics s, w1) = (Ok (), st', w2)"
    "redirected (renamed ps) (set (static_slots f)) (ai_statics s) st'"
    using rewrite_statics_redirect [OF st(1)] by blast
  note mv = redirected_movable [OF m d(2)]
  have len: "length d = ?used" "slab_ok d ?used"
    using d(2) row by (auto simp: redirected_def slab_ok_def)
  obtain c w3 where c: "move_objects ?used ?index (d, w2) = (Ok (), c, w3)" "length c = ?used"
    "\<forall>(old, n) \<in> set ps. \<forall>k < extent d old. c ! (n + k) = d ! (old + k)"
    using move_objects_copy [OF mv(1) len(2,1), of w2] ps by auto
  obtain object apdu buffer old where plan': "plan = (old, object, apdu, buffer)" "ai_instance s = Some old"
    "object = renamed ps old" "apdu = renamed ps (ai_apdu s)" "buffer = renamed ps (ai_buffer s)"
    using plan relocated_live(2) [OF m ps] by (auto simp: plan_roots_def rbind_eq_Ok)
  have copies: "\<forall>(o', n) \<in> set (kept_pairs ?bs marked xs). (\<forall>k < extent ?bs o'. c ! (n + k) = d ! (o' + k)) \<and> renamed ps (word_of_nat o') = word_of_nat n"
  proof (intro ballI, clarify)
    fix o' n
    assume p: "(o', n) \<in> set (kept_pairs ?bs marked xs)"
    then have "o' \<in> set xs"
      using kept_pairs_facts(3) [OF m ps] ps by auto
    then show "(\<forall>k < extent ?bs o'. c ! (n + k) = d ! (o' + k)) \<and> renamed ps (word_of_nat o') = word_of_nat n"
      using c(3) p ps mv(2) relocated_live(3) [OF m ps, of o' n] by auto
  qed
  have live: "\<forall>x \<in> set xs. ?lv x \<longleftrightarrow> word_of_nat x \<in> live_objects packages l f s" "live_objects packages l f s \<subseteq> word_of_nat ` set xs"
    using marked_bit(1) [OF m] m by (auto simp: marked_exactly_def)
  let ?s' = "clear_frames ((with_slab (take new c @ replicate (?used - new) 0) s)\<lparr>ai_statics := st', ai_heap_used := new,
    ai_instance := Some object, ai_apdu := apdu, ai_buffer := buffer, ai_pending_writes := if object \<noteq> old then require_snapshot w3 else w3\<rparr>)"
  have "compact packages l (static_count f) marked ?index new plan s = (Ok True, ?s')"
    using d(1) st'(1) c(1) plan'(1) by (simp add: compact_def used_slab_def static_slots_def Let_def)
  moreover have "collected packages l f (renamed ps) s ?s'"
    by (rule collectedI [where lv = ?lv and c = c and d = d and xs = xs and s = s, OF d(2) row(1,2) c(2) copies new _ live st'(2) _ _ _ refl])
      (use plan' in \<open>simp_all add: renamed_def\<close>)
  ultimately show ?thesis
    by blast
qed

lemma all_kept:
  assumes "laid_out bs used at xs" "at + kept_size (extent bs) lv xs = used"
  shows "\<forall>x \<in> set xs. lv x"
  using assms
proof (induction xs arbitrary: at)
  case (Cons x xs)
  have "at + extent bs at + kept_size (extent bs) lv xs \<le> used"
    using laid_out_kept [of bs used "at + extent bs at" xs lv] Cons.prems(1) by simp
  then have "lv x"
    using Cons.prems extent_bounds(3) [of bs at] by (cases "lv x") auto
  then show ?case
    using Cons.IH [of "at + extent bs at"] Cons.prems by (simp add: add.assoc)
qed simp

text \<open>When no reachable object is to move, the slab is only cut off.\<close>

lemma truncation_collects:
  assumes m: "marked_exactly packages l f s marked xs" and ps: "ps = kept_pairs (used_slab s) marked xs"
    and stay: "\<forall>(old, n) \<in> set ps. old = n"
    and new: "new = 2 + kept_size (extent (used_slab s)) (\<lambda>x. bit_is_set marked (word_of_nat x)) xs" "new \<noteq> ai_heap_used s"
  shows "collected packages l f id s (clear_frames ((with_slab (take new (used_slab s) @ replicate (ai_heap_used s - new) 0) s)\<lparr>ai_heap_used := new\<rparr>))"
proof -
  let ?bs = "used_slab s" and ?used = "ai_heap_used s" and ?lv = "\<lambda>x. bit_is_set marked (word_of_nat x)"
  have row: "laid_out ?bs ?used 2 xs" "slab_ok ?bs ?used" "length ?bs = ?used"
    using m by (auto simp: marked_exactly_def slab_ok_def)
  have live: "\<forall>x \<in> set xs. ?lv x \<longleftrightarrow> word_of_nat x \<in> live_objects packages l f s" "live_objects packages l f s \<subseteq> word_of_nat ` set xs"
    using marked_bit(1) [OF m] m by (auto simp: marked_exactly_def)
  have "is_Ok (slot_word ?bs slot)" if slot: "slot \<in> live_slots packages l ?bs ?lv xs" for slot
  proof -
    obtain x where x: "x \<in> set xs" "?lv x" "slot \<in> set (snd (object_slots packages l (info_header ?bs x) (x + HEADER)))"
      using slot unfolding live_slots_def by blast
    have "scanned packages l ?bs ?used (live_objects packages l f s) (word_of_nat x)"
      using m live(1) x(1,2) by (simp add: marked_exactly_def)
    then show ?thesis
      using x(3) marked_bit(2) [OF m x(1)] by (simp add: scanned_def slots_at_def)
  qed
  then have same: "redirected id (live_slots packages l ?bs ?lv xs) ?bs ?bs"
    by (auto simp: redirected_def is_Ok_def)
  have statics: "redirected id (set (static_slots f)) (ai_statics s) (ai_statics s)"
    using static_slots_redirect(2) [OF m ps] by (auto simp: redirected_def)
  show ?thesis
    by (rule collectedI [where lv = ?lv and c = ?bs and d = ?bs and xs = xs and s = s and writes = "ai_pending_writes s"
        and object = "ai_instance s" and apdu = "ai_apdu s" and buffer = "ai_buffer s", OF same row(1,2,3) _ new _ live statics])
      (use stay ps in \<open>auto simp: option.map_id with_slab_def clear_frames_def intro!: applet.equality\<close>)
qed

lemma nothing_moves:
  assumes "marked_exactly packages l f s marked xs" "ps = kept_pairs (used_slab s) marked xs"
  shows "list_all (\<lambda>e. entry_old e = entry_new e) (map (case_prod pack) ps) \<longleftrightarrow> (\<forall>(old, n) \<in> set ps. old = n)"
proof -
  have "entry_old (pack old n) = entry_new (pack old n) \<longleftrightarrow> old = n" if "(old, n) \<in> set ps" for old n
  proof -
    have "old \<le> u16_max" "n \<le> u16_max"
      using kept_pairs_facts(3) [OF assms] that by auto
    then show ?thesis
      using pack_entry [of old n] by (auto simp: u16_max_def unat_word_of_nat_u16 dest: arg_cong [where f = unat])
  qed
  then show ?thesis
    by (auto simp: list_all_iff)
qed

text \<open>
  C0 (collection_exact). Object deletion of an applet whose slab is well formed and whose class layouts do
  not overlap: when it reports that it freed space, the reachable object graph is there unchanged up to one
  renaming of references, in the old order and with nothing else in the slab; when it reports that there is
  nothing to free, every object is reachable; and otherwise, errors included, the state is unchanged.
\<close>

theorem collection_exact:
  assumes "collect_unreachable alloc packages f s = (res, s')" "link_new f = Ok l" "slab_ok (used_slab s) (ai_heap_used s)"
    and "\<forall>x \<in> set (used_row s). distinct (slots_at packages l (used_slab s) (word_of_nat x))"
  shows "if res = Ok True then \<exists>g. collected packages l f g s s'
    else s' = s \<and> (res = Ok False \<longrightarrow> word_of_nat ` set (used_row s) = live_objects packages l f s)"
proof (cases "mark_live alloc packages l f s")
  case (Err e)
  then show ?thesis
    using assms(1,2) by (auto simp: collect_unreachable_def Let_def)
next
  case (Ok cm)
  obtain marked where mk: "mark_live alloc packages l f s = Ok (static_count f, marked)" and m: "marked_exactly packages l f s marked (used_row s)"
    using Ok marked_exactlyI [OF _ assms(3), of alloc packages l f "fst cm" "snd cm"] by (cases cm) simp
  let ?ps = "kept_pairs (used_slab s) marked (used_row s)"
  define new where "new = 2 + kept_size (extent (used_slab s)) (\<lambda>x. bit_is_set marked (word_of_nat x)) (used_row s)"
  have row: "laid_out (used_slab s) (ai_heap_used s) 2 (used_row s)"
    using m by (simp add: marked_exactly_def)
  have index: "build_index (used_slab s) (ai_heap_used s) marked 2 2 [] = Ok (map (case_prod pack) ?ps, new)"
    using build_index_placed [OF row assms(3), of marked 2 "[]"] by (simp add: new_def)
  have live: "bit_is_set marked (word_of_nat x) \<longleftrightarrow> word_of_nat x \<in> live_objects packages l f s" if "x \<in> set (used_row s)" for x
    using marked_bit(1) [OF m that] .
  note run = assms(1) [unfolded collect_unreachable_def Let_def used_slab_def [symmetric]]
  let ?stay = "list_all (\<lambda>e. entry_old e = entry_new e) (map (case_prod pack) ?ps)"
  have stay: "?stay \<longleftrightarrow> (\<forall>(old, n) \<in> set ?ps. old = n)"
    using nothing_moves [OF m refl] .
  consider "new = ai_heap_used s" | "new \<noteq> ai_heap_used s" ?stay | "new \<noteq> ai_heap_used s" "\<not> ?stay"
    by argo
  then show ?thesis
  proof cases
    case 1
    then have "res = Ok False" "s' = s"
      using run assms(2) mk index by auto
    moreover have "word_of_nat ` set (used_row s) = live_objects packages l f s"
      using all_kept [OF row] 1 new_def live m by (auto simp: marked_exactly_def)
    ultimately show ?thesis
      by simp
  next
    case 2
    have "collected packages l f id s (clear_frames ((with_slab (take new (used_slab s) @ replicate (ai_heap_used s - new) 0) s)\<lparr>ai_heap_used := new\<rparr>))"
      by (rule truncation_collects [OF m refl _ new_def 2(1)]) (use 2(2) stay in simp)
    moreover have "res = Ok True"
      "s' = clear_frames ((with_slab (take new (used_slab s) @ replicate (ai_heap_used s - new) 0) s)\<lparr>ai_heap_used := new\<rparr>)"
      using run assms(2) mk index 2 by auto
    ultimately show ?thesis
      by auto
  next
    case 3
    show ?thesis
    proof (cases "rbind (check_live packages l (used_slab s) (ai_heap_used s) marked (map (case_prod pack) ?ps) 2) (\<lambda>_.
        rbind (check_words (map (case_prod pack) ?ps) (static_words (static_count f) (ai_statics s))) (\<lambda>_. plan_roots (map (case_prod pack) ?ps) s))")
      case (Err e)
      then show ?thesis
        using run assms(2) mk index 3 by auto
    next
      case (Ok plan)
      then have plan: "plan_roots (map (case_prod pack) ?ps) s = Ok plan"
        by (auto simp: rbind_eq_Ok)
      have "\<forall>r \<in> live_objects packages l f s. distinct (slots_at packages l (used_slab s) r)"
        using assms(4) m by (auto simp: marked_exactly_def)
      from compact_collects [OF m refl this new_def 3(1) plan] obtain s2 where
        "compact packages l (static_count f) marked (map (case_prod pack) ?ps) new plan s = (Ok True, s2)"
        "collected packages l f (renamed ?ps) s s2"
        by blast
      then show ?thesis
        using run assms(2) mk index 3 Ok by auto
    qed
  qed
qed

text \<open>
  A package of two classes with one field each, whose superclass announces \<open>n\<close> reference fields, and an
  applet whose heap holds the command buffer, an object nobody refers to, and an instance of the
  subclass that refers to itself.
\<close>

definition two_classes :: "byte \<Rightarrow> cap_component list" where
  "two_classes n =
     [\<lparr>cc_tag = Tag_Header, cc_info = CAP_MAGIC @ [1, 2, 4, 0, 1, 5, 0xa0, 0, 0, 0, 1]\<rparr>,
      \<lparr>cc_tag = Tag_Directory, cc_info = [0, 15, 0, 31, 0, 0, 0, 0, 0, 0, 0, 20, 0, 1, 0, 10, 0, 0, 0, 0, 0, 0, 0, 2, 0, 0, 0, 0, 0, 0, 0]\<rparr>,
      \<lparr>cc_tag = Tag_Class, cc_info = [0, 0xff, 0xff, 1, 0, n, 0, 0, 0, 0, 0, 0, 0, 1, 0, 1, 0, 0, 0, 0]\<rparr>,
      \<lparr>cc_tag = Tag_Method, cc_info = [0]\<rparr>,
      \<lparr>cc_tag = Tag_StaticField, cc_info = [0, 2, 0, 1, 0, 0, 0, 0, 0, 0]\<rparr>]"

definition sample_applet :: applet where
  "sample_applet = \<lparr>ai_heap = [3, 7, 0, 0, 0, 2, 3, 5, 0x61, 0x62, 0, 0, 0, 2, 3, 5, 1, 2, 0, 10, 0, 2, 0, 5, 0, 0, 0, 18, 0, 0],
     ai_heap_used = 28, ai_runtime_bytes = 10, ai_statics = [0, 18], ai_words = [], ai_tags = [], ai_apdu = 0, ai_buffer = 2,
     ai_instance = Some 18, ai_selected = False, ai_reselecting = False, ai_transaction_aborted = False,
     ai_pending_writes = default_pending, ai_last_auto_collection_used = 0, ai_context = 5,
     ai_sizes = \<lparr>as_heap_bytes = 30, as_frame_words = 0, as_buffer_bytes = 2, as_budget = 0\<rparr>\<rparr>"

definition two_linked :: "byte \<Rightarrow> linked" where
  "two_linked n = \<lparr>lk_file = file_of (two_classes n),
     lk_classes = \<lparr>kc_info = [0, 0xff, 0xff, 1, 0, n, 0, 0, 0, 0, 0, 0, 0, 1, 0, 1, 0, 0, 0, 0], kc_entries = 0\<rparr>\<rparr>"

definition sample_class :: "u16 \<Rightarrow> class_ref \<Rightarrow> byte \<Rightarrow> class_info" where
  "sample_class at super n = \<lparr>ci_offset = at, ci_flags = 0, ci_super = super, ci_declared = 1,
     ci_first_reference = 0, ci_reference_count = n, ci_public_base = 0, ci_package_base = 0, ci_public = [], ci_package = [],
     ci_interfaces = [], ci_interface_count = 0, ci_length = 10\<rparr>"

lemma two_link: "link_new (file_of (two_classes 1)) = Ok (two_linked 1)" "link_new (file_of (two_classes 2)) = Ok (two_linked 2)"
  by code_simp+

lemma two_class_at:
  assumes "n = 1 \<or> n = 2"
  shows "class_at (lk_classes (two_linked n)) 0 = Ok (sample_class 0 (class_ref_decode 0xffff) n)"
    "class_at (lk_classes (two_linked n)) 10 = Ok (sample_class 10 (Internal 0) 1)"
  using assms by (elim disjE; hypsubst; code_simp)+

lemma two_decode: "\<forall>offset. class_ref_decode 0xffff \<noteq> Internal offset"
  by (simp add: class_ref_decode_def)

lemma chain_steps: obtains m where "CHAIN = Suc (Suc (Suc m))"
  using that [of 253] by simp

lemma two_slots:
  assumes "n = 1 \<or> n = 2" "inf_kind i = KIND_OBJECT" "inf_class i = 10" "inf_length i = 2"
  shows "visit_reference_slots [] (two_linked n) i p visit
    = sbind (visit (p + 2)) (\<lambda>_. sbind (visit p) (\<lambda>_. if n = 1 then sret () else sbind (visit (p + 2)) sret))"
proof -
  obtain m where m: "CHAIN = Suc (Suc (Suc m))"
    by (rule chain_steps)
  have w: "instance_words (two_linked n) 10 = Ok 2"
    using assms(1) two_decode unfolding instance_words_def m
    by (simp add: two_class_at sample_class_def checked_add_u16_def split: class_ref.splits)
  have "visit_references (lk_classes (two_linked n)) visit' 4 (Suc (Suc (Suc m))) (Internal 10) 2
      = sbind (visit' 2) (\<lambda>_. visit_tokens visit' 4 0 0 (unat n))" for visit' :: "nat \<Rightarrow> ('a, unit) jact"
    using assms(1) two_decode
    by (simp add: two_class_at is_interface_def sample_class_def checked_sub_u16_def sbind_def fun_eq_iff
        split: class_ref.splits result.splits prod.splits)
  then have "visit_instance_reference_offsets (two_linked n) 10 4 visit' = sbind (visit' 2) (\<lambda>_. visit_tokens visit' 4 0 0 (unat n))"
    for visit' :: "nat \<Rightarrow> ('a, unit) jact"
    unfolding visit_instance_reference_offsets_def m by (simp add: w sbind_def)
  moreover have "visit_tokens visit' 4 0 0 (unat n) = sbind (visit' 0) (\<lambda>_. if n = 1 then sret () else sbind (visit' 2) sret)"
    for visit' :: "nat \<Rightarrow> ('a, unit) jact"
  proof -
    have "unat n = (if n = 1 then Suc 0 else Suc (Suc 0))"
      using assms(1) by auto
    then show ?thesis
      by (simp add: sbind_def fun_eq_iff split: result.splits prod.splits)
  qed
  moreover have "\<not> is_native_class 10"
    by code_simp
  ultimately show ?thesis
    using assms by (simp add: visit_reference_slots_def element_size_def Let_def)
qed

lemma no_slots: "inf_kind i = KIND_BYTE \<Longrightarrow> visit_reference_slots packages l i p visit = sret ()"
  by (simp add: visit_reference_slots_def Let_def)

lemma sample_row: "used_row sample_applet = [2, 10, 18]"
  by code_simp

definition buffer_info :: info where "buffer_info = info_header (ai_heap sample_applet) 2"
definition dead_info :: info where "dead_info = info_header (ai_heap sample_applet) 10"
definition root_info :: info where "root_info = info_header (ai_heap sample_applet) 18"

lemma infos: "inf_kind buffer_info = KIND_BYTE" "inf_kind dead_info = KIND_BYTE" "inf_kind root_info = KIND_OBJECT" "inf_class root_info = 10" "inf_length root_info = 2"
  by code_simp+

lemma sample_distinct: "\<forall>x \<in> set (used_row sample_applet). distinct (slots_at [] (two_linked 1) (used_slab sample_applet) (word_of_nat x))"
proof -
  have "info_header (used_slab sample_applet) 2 = buffer_info" "info_header (used_slab sample_applet) 10 = dead_info"
     "info_header (used_slab sample_applet) 18 = root_info"
    by code_simp+
  then show ?thesis
    by (simp add: sample_row slots_at_def object_slots_def no_slots infos two_slots sbind_def note_slot_def)
qed


lemma sample_objects:
  "info_read (used_slab sample_applet) 28 2 = Ok buffer_info" "object_end 2 buffer_info = Ok 10"
  "info_read (used_slab sample_applet) 28 10 = Ok dead_info" "object_end 10 dead_info = Ok 18"
  "info_read (used_slab sample_applet) 28 18 = Ok root_info" "object_end 18 root_info = Ok 28"
proof -
  have "payload_size buffer_info = 2" "payload_size dead_info = 2" "payload_size root_info = 4"
    by code_simp+
  then show "object_end 2 buffer_info = Ok 10" "object_end 10 dead_info = Ok 18" "object_end 18 root_info = Ok 28"
    by (simp_all add: object_end_eq_Ok next_even_def usize_max_def)
qed code_simp+

definition sample_starts :: bytes where
  "sample_starts = set_bit 18 (set_bit 10 (set_bit 2 [0, 0]))"

lemma sample_scan: "scan_objects (used_slab sample_applet) 28 2 [0, 0] 0 = Ok (sample_starts, 3)"
  by (simp add: scan_objects.simps sample_objects sample_starts_def)

lemma sample_marks:
  "mark sample_starts 2 ([0, 0], []) = (Ok (), ([2, 0], [2]))"
  "mark sample_starts 18 ([2, 0], [2]) = (Ok (), ([2, 2], [18, 2]))"
  "mark sample_starts 18 ([2, 2], [18, 2]) = (Ok (), ([2, 2], [18, 2]))"
  "mark_slot (used_slab sample_applet) sample_starts 26 ([2, 2], [2]) = (Ok (), ([2, 2], [2]))"
  "mark_slot (used_slab sample_applet) sample_starts 24 ([2, 2], [2]) = (Ok (), ([2, 2], [2]))"
  by code_simp+

lemma sample_runtime: "mark_runtime (used_slab sample_applet) 28 sample_starts 10 2 ([0, 0], []) = Ok ([2, 0], [2])"
  by (simp add: mark_runtime.simps sample_objects sample_marks)

lemma sample_trace: "n = 1 \<or> n = 2 \<Longrightarrow> trace [] (two_linked n) (used_slab sample_applet) 28 sample_starts ([2, 2], [18, 2]) = Ok [2, 2]"
  by (auto simp: sample_objects two_slots no_slots infos sbind_def sample_marks)


lemma sample_statics:
  assumes "n = 1 \<or> n = 2"
  obtains sf where "file_static_fields (file_of (two_classes n)) = Ok sf" "sf_reference_count sf = 1"
proof -
  have "rbind (file_static_fields (file_of (two_classes n))) (\<lambda>sf. Ok (sf_reference_count sf)) = Ok 1"
    using assms by (elim disjE; hypsubst; code_simp)
  then show thesis
    using that by (auto simp: rbind_eq_Ok)
qed

lemma sample_fields: "ai_heap_used sample_applet = 28" "ai_runtime_bytes sample_applet = 10" "ai_statics sample_applet = [0, 18]"
  "ai_instance sample_applet = Some 18" "ai_apdu sample_applet = 0" "ai_buffer sample_applet = 2"
  by (simp_all add: sample_applet_def)

lemma sample_words: "static_words (Suc 0) [0, 18] = [18]"
  by code_simp

lemma sample_mark_live:
  assumes "n = 1 \<or> n = 2"
  shows "mark_live (\<lambda>_. True) [] (two_linked n) (file_of (two_classes n)) sample_applet = Ok (1, [2, 2])"
proof -
  obtain sf where "file_static_fields (file_of (two_classes n)) = Ok sf" "sf_reference_count sf = 1"
    using sample_statics [OF assms] .
  moreover have "bitmap (\<lambda>_. True) 28 = Ok [0, 0]"
    by code_simp
  ultimately show ?thesis
    unfolding mark_live_def Let_def used_slab_def [symmetric]
    using sample_trace [OF assms] by (simp add: sample_fields sample_scan sample_runtime sample_marks sample_words sbind_def del: trace.simps)
qed

definition sample_index :: "entry list" where
  "sample_index = [pack 2 2, pack 18 10]"

lemma sample_build: "build_index (used_slab sample_applet) 28 [2, 2] 2 2 [] = Ok (sample_index, 20)"
proof -
  have "bit_is_set [2, 2] 2" "\<not> bit_is_set [2, 2] 10" "bit_is_set [2, 2] 18"
    by code_simp+
  then show ?thesis
    by (simp add: build_index.simps sample_objects sample_index_def)
qed

lemma sample_moves: "relocated 0 sample_index = Ok 0" "relocated 2 sample_index = Ok 2" "relocated 18 sample_index = Ok 10" "relocated 10 sample_index = Err JBounds"
  by code_simp+

lemma sample_slots: "slot_word (used_slab sample_applet) 24 = Ok 0" "slot_word (used_slab sample_applet) 26 = Ok 18"
  by code_simp+

lemma sample_check:
  assumes "n = 1 \<or> n = 2"
  shows "check_live [] (two_linked n) (used_slab sample_applet) 28 [2, 2] sample_index 2 = Ok ()"
proof -
  have "bit_is_set [2, 2] 2" "\<not> bit_is_set [2, 2] 10" "bit_is_set [2, 2] 18"
    by code_simp+
  then show ?thesis
    using assms by (auto simp: check_live.simps sample_objects no_slots infos two_slots sbind_def check_slot_def sample_slots sample_moves)
qed

lemma sample_plan: "plan_roots sample_index sample_applet = Ok (18, 10, 0, 2)"
  by (simp add: plan_roots_def sample_fields sample_moves)

lemma sample_collect:
  assumes "n = 1 \<or> n = 2"
  shows "collect_unreachable (\<lambda>_. True) [] (file_of (two_classes n)) sample_applet
    = compact [] (two_linked n) 1 [2, 2] sample_index 20 (18, 10, 0, 2) sample_applet"
proof -
  have "link_new (file_of (two_classes n)) = Ok (two_linked n)"
    using assms two_link by auto
  moreover have "\<not> list_all (\<lambda>e. entry_old e = entry_new e) sample_index"
    by code_simp
  ultimately show ?thesis
    unfolding collect_unreachable_def Let_def used_slab_def [symmetric]
    by (simp add: sample_fields sample_mark_live [OF assms] sample_build sample_check [OF assms] sample_words sample_moves sample_plan)
qed

lemma sample_rewrite:
  "rewrite_slot 26 sample_index (used_slab sample_applet) = (Ok True, (used_slab sample_applet)[27 := 10])"
  "rewrite_slot 24 sample_index ((used_slab sample_applet)[27 := 10]) = (Ok False, (used_slab sample_applet)[27 := 10])"
  "rewrite_slot 26 sample_index ((used_slab sample_applet)[27 := 10]) = (Err JBounds, (used_slab sample_applet)[27 := 10])"
  by code_simp+

theorem collection_exact_witness:
  "\<exists>g s'. collect_unreachable (\<lambda>_. True) [] (file_of (two_classes 1)) sample_applet = (Ok True, s')
    \<and> collected [] (two_linked 1) (file_of (two_classes 1)) g sample_applet s'"
proof -
  have slab: "slab_ok (used_slab sample_applet) (ai_heap_used sample_applet)"
    by (simp add: slab_ok_def used_slab_def sample_applet_def u16_max_def)
  have m: "marked_exactly [] (two_linked 1) (file_of (two_classes 1)) sample_applet [2, 2] (used_row sample_applet)"
    and count: "static_count (file_of (two_classes 1)) = 1"
    using marked_exactlyI [OF sample_mark_live [of 1] slab] by auto
  have pairs: "kept_pairs (used_slab sample_applet) [2, 2] (used_row sample_applet) = [(2, 2), (18, 10)]"
    "kept_size (extent (used_slab sample_applet)) (\<lambda>x. bit_is_set [2, 2] (word_of_nat x)) (used_row sample_applet) = 18"
    unfolding sample_row by code_simp+
  have "\<forall>r \<in> live_objects [] (two_linked 1) (file_of (two_classes 1)) sample_applet. distinct (slots_at [] (two_linked 1) (used_slab sample_applet) r)"
    using sample_distinct m by (auto simp: marked_exactly_def)
  from compact_collects [OF m refl this refl] obtain s' where
    "collect_unreachable (\<lambda>_. True) [] (file_of (two_classes 1)) sample_applet = (Ok True, s')"
    using sample_collect [of 1] sample_plan count by (auto simp: pairs sample_index_def sample_fields)
  moreover from this have "\<exists>g. collected [] (two_linked 1) (file_of (two_classes 1)) g sample_applet s'"
    using collection_exact [OF _ two_link(1) slab sample_distinct] by fastforce
  ultimately show ?thesis
    by blast
qed

lemma two_classes_parse: "load_file_parse (concat (map component_wire (two_classes 2))) = Ok (file_of (two_classes 2))"
proof -
  let ?cs = "two_classes 2"
  let ?d = "the (part ?cs Tag_Directory)"
  have dir: "directory_parse (cc_info ?d) = Ok (the_Ok (directory_parse (cc_info ?d)))"
    by (simp add: two_classes_def part_def directory_parse_def Let_def eval_nat_numeral be16_def be_value_def)
  have "\<forall>t. in_load_file t \<longrightarrow> directory_size (the_Ok (directory_parse (cc_info ?d))) t = part_size ?cs t"
  proof
    fix t show "in_load_file t \<longrightarrow> directory_size (the_Ok (directory_parse (cc_info ?d))) t = part_size ?cs t"
      by (cases t) (simp_all add: two_classes_def part_def part_size_def directory_parse_def directory_size_def CAP_MAGIC_def
          in_load_file_def Let_def nth_append be16_def be_value_def)
  qed
  moreover have "ascending 0 ?cs" "part ?cs Tag_Header \<noteq> None" "part ?cs Tag_Method \<noteq> None"
      "part ?cs Tag_Directory = Some ?d" "references_ok ?cs"
    by (simp_all add: two_classes_def part_def in_load_file_def references_ok_def CAP_MAGIC_def)
  ultimately show ?thesis
    using dir load_file_parse_of [of ?cs] by blast
qed

text \<open>
  C0 (collection_not_atomic). A Load File Data Block whose superclass announces one reference field more
  than it has is accepted, and object deletion on an instance of its subclass then fails after it has
  redirected a field in the heap: the slot that both classes describe is redirected twice, so the first
  pass over the references does not foresee the failure.
\<close>

theorem collection_not_atomic:
  "load_file_parse (concat (map component_wire (two_classes 2))) = Ok (file_of (two_classes 2))
   \<and> collect_unreachable (\<lambda>_. True) [] (file_of (two_classes 2)) sample_applet
     = (Err JBounds, sample_applet\<lparr>ai_heap := (ai_heap sample_applet)[27 := 10]\<rparr>)"
proof -
  have "bit_is_set [2, 2] 2" "\<not> bit_is_set [2, 2] 10" "bit_is_set [2, 2] 18"
    by code_simp+
  then have "rewrite_live [] (two_linked 2) 28 [2, 2] sample_index 2 (used_slab sample_applet, ai_pending_writes sample_applet)
      = (Err JBounds, (used_slab sample_applet)[27 := 10], ai_pending_writes sample_applet)"
    by (simp add: rewrite_live.simps sample_objects no_slots infos two_slots sbind_def sample_moves rewrite_live_slot_def sample_rewrite)
  moreover have "(used_slab sample_applet)[27 := 10] @ drop 28 (ai_heap sample_applet) = (ai_heap sample_applet)[27 := 10]"
    by code_simp
  ultimately show ?thesis
    using sample_collect [of 2] two_classes_parse by (simp add: compact_def sample_fields used_slab_def with_slab_def)
qed

end
