(* ===== verification/Spec2Isabelle.thy ===== *)
theory Spec2Isabelle
  imports Apdu Tlv Cbor Framing Staging Frame Heap_Transactions Method_Verifier Credential_Store Journal_Seed Ccid Storage_Patch
    Cap_Format Package_Verifier Framework_Safety Collection
begin

text \<open>
  \<^bold>\<open>MicroCard.\<close> A verification library for the smart card firmware in \<open>src/crates\<close>: two bytecode
  engines over a common core of card services. The library models the parts whose correctness the
  card's promises rest on and that are written in the repository itself: what comes in over the
  wire, what may run, how it runs, and what survives a loss of power.

  \<^bold>\<open>Parts and theories.\<close> The order is the order of the imports; each theory holds the state, the
  operations and the lemmas of one part.

  \<^item> \<^bold>\<open>Shared vocabulary.\<close> \<open>Prelude\<close> (results, fallible actions on a mutable receiver, checked
    \<open>usize\<close> arithmetic, slices, byte codecs, an array of cells as a locale), \<open>Core_Error\<close>
    (\<open>microcard-core/src/lib.rs\<close>), \<open>Engine_Error\<close> (\<open>microcard-engine-jcvm/src/lib.rs\<close>), \<open>Memory\<close>
    (\<open>microcard-memory\<close>).
  \<^item> \<^bold>\<open>The wire.\<close> \<open>Apdu\<close>, \<open>Tlv\<close>, \<open>Cbor\<close>, \<open>Framing\<close> and \<open>Ccid\<close> model \<open>apdu.rs\<close>, \<open>tlv.rs\<close>,
    \<open>cbor.rs\<close>, \<open>framing.rs\<close> and \<open>ccid.rs\<close> of \<open>microcard-core\<close>: parsers against printers, one encoding
    for one value, bounds, and the state machine of the reader slot with its two-part abort.
  \<^item> \<^bold>\<open>Packages coming in.\<close> \<open>Staging\<close> (\<open>staging.rs\<close>, with the simulated flash) collects a package;
    its flash trait is a locale that both implementations satisfy. \<open>Cap\<close> and \<open>Cap_Format\<close>
    (\<open>cap.rs\<close>, \<open>cap/\<close>) split it into components and read them; \<open>Opcode_Tables\<close>, \<open>Bytecode\<close>,
    \<open>Method_Verifier\<close> and \<open>Package_Verifier\<close> (\<open>jcvm_opcodes.rs\<close>, \<open>code.rs\<close>, \<open>verify.rs\<close>) decide what may run.
  \<^item> \<^bold>\<open>Running.\<close> \<open>Frame\<close> (\<open>vm/frame.rs\<close>) refines a tagged stack with locals. \<open>Pending_Writes\<close>,
    \<open>Undo\<close>, \<open>Object_Heap\<close> and \<open>Heap_Transactions\<close> (\<open>vm/heap.rs\<close>, \<open>vm/heap/\<close>) are the object heap
    with its transaction log; \<open>Heap_Safety\<close> has what every heap operation keeps. \<open>Runtime_Objects\<close>
    (\<open>natives.rs\<close>) and \<open>Link\<close> (\<open>link.rs\<close>) allocate runtime objects and resolve names.
    \<open>Interpreter\<close> (\<open>vm/exec.rs\<close>) is the dispatch loop with calls, natives and handlers;
    \<open>Interpreter_Steps\<close> reduces a run to primitive steps, as a locale over relations on machines, and
    \<open>Interpreter_Safety\<close> interprets it four times: budget, cancellation, well-formedness, transactions.
  \<^item> \<^bold>\<open>Surviving power loss.\<close> \<open>Journal_Record\<close>, \<open>Journal\<close>, \<open>Journal_Flash\<close>, \<open>Journal_Crash\<close>,
    \<open>Journal_Atomic\<close>, \<open>Journal_Seed\<close> (\<open>journal.rs\<close>, \<open>journal/\<close>) are the flash journal over a flash
    trait with power faults, as a locale that the in-memory flash satisfies; \<open>Storage_Patch\<close>
    (\<open>jcvm_storage/patch.rs\<close>) turns pending spans into records and replays them into a snapshot.
    \<open>Credential_Store\<close> (\<open>credential_store.rs\<close>) keeps PIN slots and their retry counters.

  \<^bold>\<open>Correspondence.\<close> A struct is a record, an enum a datatype, an integer a word of its width; sizes
  are natural numbers with \<open>usize\<close> limits of the 32-bit target written out where code checks or
  wraps. A method on a mutable receiver is an action: it returns its result and the state it leaves,
  also when it fails half way. Loops are structural recursion or functions with a measure; the one
  loop that bytecode controls, \<open>run_body\<close>, takes fuel, with running out of fuel a result of its own,
  and is shown never to run out when fuel exceeds the instruction budget (property
  \<open>interpreter_terminates\<close>) or the polls before a cancellation (\<open>cancellation_stops\<close>). The walks up a
  class chain stop after 256 classes because the source stops there.

  \<^bold>\<open>Parameters.\<close> Code outside the repository or behind a trait is an argument: the success of an
  allocation (\<open>alloc\<close>), the authenticated encryption of the journal, hash and entropy of credentials,
  the generated API table (\<open>packages\<close>), the framework and security natives and the cancellation
  callback of the interpreter. What a theorem needs of them is a named hypothesis (for natives,
  \<open>natives_follow\<close> with the relation the theorem is about), and a witness discharges it.

  \<^bold>\<open>What the properties show.\<close> Transactions: an abort restores the heap and the static fields exactly, for
  heap operations and for whole runs of applet code; the committed image is projected exactly while
  a transaction is open. Journal: a commit interrupted at any flash operation leaves the old or the
  new state, recovery finds the newest authentic record, a rollback below the monotonic counter is
  refused. Running: termination, cancellation, well-formed storage for arbitrary code; frames refine
  their specification; virtual dispatch picks the nearest class. Verification: what acceptance of a
  method and of a package implies. Wire formats: round trips and exact acceptance. Some properties state limits of
  the code that the source or its documents deny: an unconditional write of an unchanged value is lost
  on abort, overlapping instructions are accepted, the target check is vacuous, the length of a wide
  switch wraps, a number can be read back from a field as a reference, and a handler can enter another method.

  \<^bold>\<open>Not modelled.\<close> Host cryptography and its adapters (they call C and third-party code), the
  register-level board support, the simulator's command line and file flash (input and output), the generated API
  tables (data), and for want of completeness rather than of a model: the .NET engine with its
  domains and assemblies, secure channels and GlobalPlatform commands, the image and key stores, USB endpoint
  assembly, garbage collection, persistence and the lifecycle of applets, and the security natives.
\<close>

end
